(* ===== verification/Garnet_Prelude.thy ===== *)
theory Garnet_Prelude
  imports Main "HOL-Library.Word"
begin

text \<open>
  The prelude of the development: the machine integer types, the outcome of a Rust call
  (a value, an error value, a panic, or no return), the two small monads the components
  are written in, little-endian byte strings, and the lemmas on byte buffers that every
  component shares.
\<close>

unbundle bit_operations_syntax

named_theorems outcome_simps \<open>the evaluation rules of outcomes and programs\<close>
named_theorems buffer_simps \<open>reading and writing byte buffers\<close>

section \<open>Machine integers\<close>

type_synonym u8 = "8 word"
type_synonym u16 = "16 word"
type_synonym u32 = "32 word"
type_synonym u64 = "64 word"

abbreviation U16_MAX :: nat where "U16_MAX \<equiv> 65535"
abbreviation U32_LIMIT :: nat where "U32_LIMIT \<equiv> 4294967296"
abbreviation USIZE_LIMIT :: nat where "USIZE_LIMIT \<equiv> 18446744073709551616"

section \<open>Outcomes\<close>

text \<open>
  What a call of a Rust function does: it returns \<open>Ok\<close> or \<open>Err\<close> (for a function with a
  \<open>Result\<close>), it panics, or it never returns. Functions that cannot fail in the source
  still have an outcome here when a panic is possible. Arithmetic on unsigned values
  panics on overflow, as in a build with overflow checks.
\<close>

datatype ('e, 'a) outcome = Ok 'a | Err 'e | Panic | Diverge

fun bindO :: "('e, 'a) outcome \<Rightarrow> ('a \<Rightarrow> ('e, 'b) outcome) \<Rightarrow> ('e, 'b) outcome" where
  "bindO (Ok a) f = f a"
| "bindO (Err e) f = Err e"
| "bindO Panic f = Panic"
| "bindO Diverge f = Diverge"

text \<open>\<open>unwrap\<close> and \<open>expect\<close> turn an error value into a panic.\<close>

fun unwrapO :: "('e, 'a) outcome \<Rightarrow> ('f, 'a) outcome" where
  "unwrapO (Ok a) = Ok a"
| "unwrapO (Err e) = Panic"
| "unwrapO Panic = Panic"
| "unwrapO Diverge = Diverge"

definition checked_sub :: "nat \<Rightarrow> nat \<Rightarrow> ('e, nat) outcome" where
  "checked_sub a b = (if b \<le> a then Ok (a - b) else Panic)"

definition checked_add :: "nat \<Rightarrow> nat \<Rightarrow> nat \<Rightarrow> ('e, nat) outcome" where
  "checked_add lim a b = (if a + b < lim then Ok (a + b) else Panic)"

text \<open>A loop that did not return has the outcome \<^const>\<open>Diverge\<close>.\<close>

definition from_loop :: "('e, 'a) outcome option \<Rightarrow> ('e, 'a) outcome" where
  "from_loop r = (case r of None \<Rightarrow> Diverge | Some x \<Rightarrow> x)"

lemma bindO_Ok_right [simp]: "bindO m Ok = m"
  by (cases m) auto

lemma bindO_assoc [simp]: "bindO (bindO m f) g = bindO m (\<lambda>x. bindO (f x) g)"
  by (cases m) auto

lemma bindO_eq_Ok_iff: "bindO m f = Ok b \<longleftrightarrow> (\<exists>a. m = Ok a \<and> f a = Ok b)"
  by (cases m) auto

lemma checked_sub_Ok [simp]: "b \<le> a \<Longrightarrow> checked_sub a b = Ok (a - b)"
  by (simp add: checked_sub_def)

lemma checked_sub_Panic [simp]: "a < b \<Longrightarrow> checked_sub a b = Panic"
  by (simp add: checked_sub_def)

lemma checked_add_Ok [simp]: "a + b < lim \<Longrightarrow> checked_add lim a b = Ok (a + b)"
  by (simp add: checked_add_def)

lemma checked_add_Panic [simp]: "lim \<le> a + b \<Longrightarrow> checked_add lim a b = Panic"
  by (simp add: checked_add_def)

lemma from_loop_simps [simp]: "from_loop None = Diverge" "from_loop (Some x) = x"
  by (simp_all add: from_loop_def)

section \<open>Programs: state passing with outcomes\<close>

text \<open>
  A method that mutates its receiver maps a state to an outcome and the new state. The
  state survives an error, as the mutations a Rust method made before its early return do.
\<close>

type_synonym ('s, 'e, 'a) prog = "'s \<Rightarrow> ('e, 'a) outcome \<times> 's"

definition returnP :: "'a \<Rightarrow> ('s, 'e, 'a) prog" where
  "returnP a s = (Ok a, s)"

definition throwP :: "'e \<Rightarrow> ('s, 'e, 'a) prog" where
  "throwP e s = (Err e, s)"

definition bindP :: "('s, 'e, 'a) prog \<Rightarrow> ('a \<Rightarrow> ('s, 'e, 'b) prog) \<Rightarrow> ('s, 'e, 'b) prog" where
  "bindP m f s = (case m s of
      (Ok a, s') \<Rightarrow> f a s'
    | (Err e, s') \<Rightarrow> (Err e, s')
    | (Panic, s') \<Rightarrow> (Panic, s')
    | (Diverge, s') \<Rightarrow> (Diverge, s'))"

definition getP :: "('s \<Rightarrow> 'a) \<Rightarrow> ('s, 'e, 'a) prog" where
  "getP f s = (Ok (f s), s)"

definition modifyP :: "('s \<Rightarrow> 's) \<Rightarrow> ('s, 'e, unit) prog" where
  "modifyP f s = (Ok (), f s)"

text \<open>A read-only call, given as an outcome that depends on the state.\<close>

definition readP :: "('s \<Rightarrow> ('e, 'a) outcome) \<Rightarrow> ('s, 'e, 'a) prog" where
  "readP f s = (f s, s)"

text \<open>\<open>unwrap\<close> or \<open>expect\<close> of a call that mutates.\<close>

definition unwrapP :: "('s, 'e, 'a) prog \<Rightarrow> ('s, 'f, 'a) prog" where
  "unwrapP m s = (case m s of (r, s') \<Rightarrow> (unwrapO r, s'))"

text \<open>A call on a component of the state, read and written back by a lens.\<close>

definition zoomP :: "('t \<Rightarrow> 's) \<Rightarrow> ('s \<Rightarrow> 't \<Rightarrow> 't) \<Rightarrow> ('s, 'e, 'a) prog \<Rightarrow> ('t, 'e, 'a) prog" where
  "zoomP g p m t = (case m (g t) of (r, s') \<Rightarrow> (r, p s' t))"

text \<open>The error value of a call inspected by its caller (\<open>match\<close> on a \<open>Result\<close>).\<close>

definition catchP :: "('s, 'e, 'a) prog \<Rightarrow> ('e \<Rightarrow> ('s, 'f, 'a) prog) \<Rightarrow> ('s, 'f, 'a) prog" where
  "catchP m h s = (case m s of
      (Ok a, s') \<Rightarrow> (Ok a, s')
    | (Err e, s') \<Rightarrow> h e s'
    | (Panic, s') \<Rightarrow> (Panic, s')
    | (Diverge, s') \<Rightarrow> (Diverge, s'))"

text \<open>The \<open>Result\<close> of a call kept as a value.\<close>

definition attemptP :: "('s, 'e, 'a) prog \<Rightarrow> ('s, 'f, 'e + 'a) prog" where
  "attemptP m s = (case m s of
      (Ok a, s') \<Rightarrow> (Ok (Inr a), s')
    | (Err e, s') \<Rightarrow> (Ok (Inl e), s')
    | (Panic, s') \<Rightarrow> (Panic, s')
    | (Diverge, s') \<Rightarrow> (Diverge, s'))"

lemmas prog_defs = returnP_def throwP_def bindP_def getP_def modifyP_def readP_def
  unwrapP_def zoomP_def catchP_def attemptP_def

lemma bindP_step [outcome_simps]:
  "m s = (Ok a, s') \<Longrightarrow> bindP m f s = f a s'"
  "m s = (Err e, s') \<Longrightarrow> bindP m f s = (Err e, s')"
  "m s = (Panic, s') \<Longrightarrow> bindP m f s = (Panic, s')"
  "m s = (Diverge, s') \<Longrightarrow> bindP m f s = (Diverge, s')"
  by (simp_all add: bindP_def)

lemma bindP_eq_Ok:
  assumes "bindP m f s = (Ok b, s'')"
  obtains a s' where "m s = (Ok a, s')" and "f a s' = (Ok b, s'')"
  using assms by (auto simp: bindP_def split: prod.splits outcome.splits)

lemma attemptP_step [outcome_simps]:
  "m s = (Ok a, s') \<Longrightarrow> attemptP m s = (Ok (Inr a), s')"
  "m s = (Err e, s') \<Longrightarrow> attemptP m s = (Ok (Inl e), s')"
  by (simp_all add: attemptP_def)

lemma unwrapP_step [outcome_simps]:
  "m s = (Ok a, s') \<Longrightarrow> unwrapP m s = (Ok a, s')"
  by (simp add: unwrapP_def)

lemma simple_progs [simp]:
  "returnP a s = (Ok a, s)"
  "throwP e s = (Err e, s)"
  "getP g s = (Ok (g s), s)"
  "modifyP k s = (Ok (), k s)"
  "readP r s = (r s, s)"
  by (simp_all add: prog_defs)

lemma bindP_simple [simp]:
  "bindP (returnP a) f s = f a s"
  "bindP (throwP e) f s = (Err e, s)"
  "bindP (getP g) f s = f (g s) s"
  "bindP (modifyP k) f' s = f' () (k s)"
  by (simp_all add: bindP_def)

lemma bindP_readP:
  "bindP (readP r) f s = (case r s of Ok a \<Rightarrow> f a s | Err e \<Rightarrow> (Err e, s)
     | Panic \<Rightarrow> (Panic, s) | Diverge \<Rightarrow> (Diverge, s))"
  by (simp add: bindP_def split: outcome.splits)

lemma bindP_readP_Ok [simp]: "r s = Ok a \<Longrightarrow> bindP (readP r) f s = f a s"
  by (simp add: bindP_readP)

section \<open>Loops\<close>

text \<open>
  Every loop of the sources is an instance of one combinator. The body of the loop maps
  the loop variables to \<open>Inl\<close> of their next values (go on) or to \<open>Inr\<close> of a result
  (break); an early return with an error or a panic ends the loop too. A loop that never
  ends has no value, and \<open>loopP\<close> turns that into the outcome \<^const>\<open>Diverge\<close>.
\<close>

partial_function (option) iterateP ::
  "('x \<Rightarrow> ('s, 'e, 'x + 'a) prog) \<Rightarrow> 'x \<Rightarrow> 's \<Rightarrow> (('e, 'a) outcome \<times> 's) option" where
  "iterateP body x s = (case body x s of (r, s') \<Rightarrow>
     (case r of
        Ok y \<Rightarrow> (case y of Inl x' \<Rightarrow> iterateP body x' s' | Inr a \<Rightarrow> Some (Ok a, s'))
      | Err e \<Rightarrow> Some (Err e, s')
      | Panic \<Rightarrow> Some (Panic, s')
      | Diverge \<Rightarrow> Some (Diverge, s')))"

definition loopP :: "('x \<Rightarrow> ('s, 'e, 'x + 'a) prog) \<Rightarrow> 'x \<Rightarrow> ('s, 'e, 'a) prog" where
  "loopP body x s = (case iterateP body x s of None \<Rightarrow> (Diverge, s) | Some r \<Rightarrow> r)"

declare iterateP.simps [code]

lemma iterateP_continue: "body x s = (Ok (Inl x'), s') \<Longrightarrow> iterateP body x s = iterateP body x' s'"
  by (subst iterateP.simps) simp

lemma iterateP_break: "body x s = (Ok (Inr a), s') \<Longrightarrow> iterateP body x s = Some (Ok a, s')"
  by (subst iterateP.simps) simp

lemma iterateP_fail:
  "body x s = (Err e, s') \<Longrightarrow> iterateP body x s = Some (Err e, s')"
  "body x s = (Panic, s') \<Longrightarrow> iterateP body x s = Some (Panic, s')"
  "body x s = (Diverge, s') \<Longrightarrow> iterateP body x s = Some (Diverge, s')"
  by (subst iterateP.simps, simp)+

text \<open>
  Total correctness of a loop: an invariant, a measure that decreases while the loop goes
  on, and a postcondition of whatever ends it. The loop then returns.
\<close>

definition loop_ends :: "('e, 'x + 'a) outcome \<Rightarrow> ('e, 'a) outcome option" where
  "loop_ends r = (case r of Ok (Inl _) \<Rightarrow> None | Ok (Inr a) \<Rightarrow> Some (Ok a)
     | Err e \<Rightarrow> Some (Err e) | Panic \<Rightarrow> Some Panic | Diverge \<Rightarrow> Some Diverge)"

lemma iterateP_total:
  assumes "I x s"
    and step: "\<And>x s. I x s \<Longrightarrow>
      (\<exists>x' s'. body x s = (Ok (Inl x'), s') \<and> I x' s' \<and> (\<mu> x' s' :: nat) < \<mu> x s) \<or>
      (\<exists>r q s'. body x s = (r, s') \<and> loop_ends r = Some q \<and> Q q s')"
  shows "\<exists>q s'. iterateP body x s = Some (q, s') \<and> Q q s'"
  using assms(1)
proof (induction "\<mu> x s" arbitrary: x s rule: less_induct)
  case less
  from step [OF less.prems] show ?case
  proof (elim disjE exE conjE)
    fix x' s' assume "body x s = (Ok (Inl x'), s')" "I x' s'" "\<mu> x' s' < \<mu> x s"
    then show ?thesis using less.hyps by (simp add: iterateP_continue)
  next
    fix r q s' assume "body x s = (r, s')" "loop_ends r = Some q" "Q q s'"
    then show ?thesis
      by (subst iterateP.simps) (auto simp: loop_ends_def split: outcome.splits sum.splits)
  qed
qed

lemma loopP_total:
  assumes "I x s"
    and "\<And>x s. I x s \<Longrightarrow>
      (\<exists>x' s'. body x s = (Ok (Inl x'), s') \<and> I x' s' \<and> (\<mu> x' s' :: nat) < \<mu> x s) \<or>
      (\<exists>r q s'. body x s = (r, s') \<and> loop_ends r = Some q \<and> Q q s')"
  shows "\<exists>q s'. loopP body x s = (q, s') \<and> Q q s'"
  using iterateP_total [of I x s body \<mu> Q, OF assms] by (auto simp: loopP_def)

lemma loop_ends_simps [simp]:
  "loop_ends (Ok (Inl x)) = None" "loop_ends (Ok (Inr a)) = Some (Ok a)"
  "loop_ends (Err e) = Some (Err e)" "loop_ends Panic = Some Panic" "loop_ends Diverge = Some Diverge"
  by (simp_all add: loop_ends_def)

lemma loopP_continue: "body x s = (Ok (Inl x'), s') \<Longrightarrow> iterateP body x' s' \<noteq> None \<Longrightarrow>
    loopP body x s = loopP body x' s'"
  by (auto simp: loopP_def iterateP_continue)

lemma loopP_break: "body x s = (Ok (Inr a), s') \<Longrightarrow> loopP body x s = (Ok a, s')"
  by (simp add: loopP_def iterateP_break)

section \<open>Little-endian byte strings\<close>

text \<open>
  \<open>to_le_bytes\<close> and \<open>from_le_bytes\<close> of the integer types: the least significant byte first.
\<close>

fun to_le :: "nat \<Rightarrow> 'a::len word \<Rightarrow> u8 list" where
  "to_le 0 w = []"
| "to_le (Suc n) w = ucast w # to_le n (drop_bit 8 w)"

fun from_le :: "u8 list \<Rightarrow> 'a::len word" where
  "from_le [] = 0"
| "from_le (b # bs) = ucast b OR push_bit 8 (from_le bs)"

abbreviation u64_to_le_bytes :: "u64 \<Rightarrow> u8 list" where
  "u64_to_le_bytes \<equiv> to_le 8"

abbreviation u64_from_le_bytes :: "u8 list \<Rightarrow> u64" where
  "u64_from_le_bytes \<equiv> from_le"

lemma length_to_le [simp]: "length (to_le n w) = n"
  by (induction n arbitrary: w) auto

lemma from_le_to_le_take:
  fixes w :: "'a::len word"
  assumes "8 \<le> LENGTH('a)"
  shows "from_le (to_le n w) = take_bit (8 * n) w"
proof (induction n arbitrary: w)
  case 0
  then show ?case by simp
next
  case (Suc n)
  show ?case
  proof (rule bit_word_eqI)
    fix k assume "k < LENGTH('a)"
    then show "bit (from_le (to_le (Suc n) w) :: 'a word) k = bit (take_bit (8 * Suc n) w) k"
      using assms by (auto simp: Suc bit_simps bit_take_bit_iff bit_push_bit_iff bit_drop_bit_eq)
  qed
qed

lemma u64_from_le_to_le [simp]: "u64_from_le_bytes (u64_to_le_bytes w) = w"
  using from_le_to_le_take [of 8 w] by (simp add: take_bit_word_eq_self)

lemma to_le_from_le_take:
  assumes "8 * length bs \<le> LENGTH('a::len)"
  shows "to_le (length bs) (from_le bs :: 'a word) = bs"
  using assms
proof (induction bs)
  case Nil
  then show ?case by simp
next
  case (Cons b bs)
  have lo: "ucast (from_le (b # bs) :: 'a word) = b"
    using Cons.prems by (intro bit_word_eqI) (auto simp: bit_simps)
  have hi: "drop_bit 8 (from_le (b # bs) :: 'a word) = take_bit (LENGTH('a) - 8) (from_le bs)"
    by (rule bit_word_eqI) (auto simp: bit_simps dest: bit_imp_le_length)
  have bound: "bit (from_le bs :: 'a word) k \<Longrightarrow> k < 8 * length bs" for k
    by (induction bs arbitrary: k) (auto simp: bit_simps dest: bit_imp_le_length,
      metis add.commute add_less_cancel_right le_add_diff_inverse2)
  have "take_bit (LENGTH('a) - 8) (from_le bs) = (from_le bs :: 'a word)"
    using Cons.prems bound by (intro bit_word_eqI) (fastforce simp: bit_simps)
  then show ?case
    using Cons lo hi by simp
qed

lemma u64_to_le_from_le [simp]:
  "length bs = 8 \<Longrightarrow> u64_to_le_bytes (u64_from_le_bytes bs) = bs"
  using to_le_from_le_take [of bs, where ?'a = 64] by simp

section \<open>Byte buffers\<close>

text \<open>
  Overwriting part of a buffer, cut off at its end, and reading from it into a
  zero-initialised array of a given length, padded where the buffer ends.
\<close>

definition overwrite :: "'a list \<Rightarrow> nat \<Rightarrow> 'a list \<Rightarrow> 'a list" where
  "overwrite m off bs = take off m @ take (length m - off) bs @ drop (off + length bs) m"

definition window :: "'a list \<Rightarrow> nat \<Rightarrow> nat \<Rightarrow> 'a list" where
  "window m off n = take n (drop off m)"

lemma length_overwrite [simp]: "length (overwrite m off bs) = length m"
  by (auto simp: overwrite_def)

lemma length_window [simp]: "length (window m off n) = min (length m - off) n"
  by (simp add: window_def)

lemma nth_overwrite:
  "k < length m \<Longrightarrow>
    overwrite m off bs ! k = (if off \<le> k \<and> k < off + length bs then bs ! (k - off) else m ! k)"
  by (auto simp: overwrite_def nth_append min_def)

lemma nth_window [simp]: "k < n \<Longrightarrow> off + k < length m \<Longrightarrow> window m off n ! k = m ! (off + k)"
  by (simp add: window_def)

lemma window_overwrite_same [buffer_simps]:
  "off + length bs \<le> length m \<Longrightarrow> window (overwrite m off bs) off (length bs) = bs"
  by (rule nth_equalityI) (auto simp: nth_overwrite)

lemma window_overwrite_disjoint [buffer_simps]:
  assumes "off' + n \<le> off \<or> off + length bs \<le> off'"
  shows "window (overwrite m off bs) off' n = window m off' n"
  using assms by (intro nth_equalityI) (auto simp: nth_overwrite)

lemma overwrite_overwrite:
  "length bs = length cs \<Longrightarrow> overwrite (overwrite m off bs) off cs = overwrite m off cs"
  by (rule nth_equalityI) (auto simp: nth_overwrite)

lemma window_append_split: "window m off (a + b) = window m off a @ window m (off + a) b"
  by (simp add: window_def take_add add.commute)

section \<open>UTF-8\<close>

text \<open>
  A Rust \<open>str\<close> is a byte string that is well-formed UTF-8; this is the check of
  \<open>std::str::from_utf8\<close>: no overlong forms, no surrogates, nothing above U+10FFFF.
\<close>

definition utf8_cont :: "u8 \<Rightarrow> bool" where
  "utf8_cont b \<longleftrightarrow> 0x80 \<le> b \<and> b \<le> 0xBF"

definition utf8_lead3 :: "u8 \<Rightarrow> u8 \<Rightarrow> bool" where
  "utf8_lead3 a b \<longleftrightarrow> a = 0xE0 \<and> 0xA0 \<le> b \<and> b \<le> 0xBF
     \<or> 0xE1 \<le> a \<and> a \<le> 0xEC \<and> utf8_cont b
     \<or> a = 0xED \<and> 0x80 \<le> b \<and> b \<le> 0x9F
     \<or> 0xEE \<le> a \<and> a \<le> 0xEF \<and> utf8_cont b"

definition utf8_lead4 :: "u8 \<Rightarrow> u8 \<Rightarrow> bool" where
  "utf8_lead4 a b \<longleftrightarrow> a = 0xF0 \<and> 0x90 \<le> b \<and> b \<le> 0xBF
     \<or> 0xF1 \<le> a \<and> a \<le> 0xF3 \<and> utf8_cont b
     \<or> a = 0xF4 \<and> 0x80 \<le> b \<and> b \<le> 0x8F"

fun utf8_valid :: "u8 list \<Rightarrow> bool" where
  "utf8_valid [] = True"
| "utf8_valid (a # r) =
     (if a < 0x80 then utf8_valid r
      else case r of [] \<Rightarrow> False | b # r2 \<Rightarrow>
        if 0xC2 \<le> a \<and> a \<le> 0xDF then utf8_cont b \<and> utf8_valid r2
        else case r2 of [] \<Rightarrow> False | c # r3 \<Rightarrow>
          if utf8_lead3 a b then utf8_cont c \<and> utf8_valid r3
          else case r3 of [] \<Rightarrow> False | d # r4 \<Rightarrow>
            utf8_lead4 a b \<and> utf8_cont c \<and> utf8_cont d \<and> utf8_valid r4)"

lemma utf8_valid_ascii: "(\<forall>b \<in> set bs. b < 0x80) \<Longrightarrow> utf8_valid bs"
  by (induction bs) auto

text \<open>
  \<open>String::from_utf8_lossy\<close>: every maximal prefix of a character that is not continued is
  replaced by U+FFFD, whose bytes are \<open>EF BF BD\<close>.
\<close>

definition replacement_char :: "u8 list" where
  "replacement_char = [0xEF, 0xBF, 0xBD]"

fun utf8_lossy :: "u8 list \<Rightarrow> u8 list" where
  "utf8_lossy [] = []"
| "utf8_lossy (a # r) =
     (if a < 0x80 then a # utf8_lossy r
      else if 0xC2 \<le> a \<and> a \<le> 0xDF then
        (case r of
           [] \<Rightarrow> replacement_char
         | b # r2 \<Rightarrow> if utf8_cont b then a # b # utf8_lossy r2 else replacement_char @ utf8_lossy r)
      else if 0xE0 \<le> a \<and> a \<le> 0xEF then
        (case r of
           [] \<Rightarrow> replacement_char
         | b # r2 \<Rightarrow>
             if \<not> utf8_lead3 a b then replacement_char @ utf8_lossy r
             else (case r2 of
                [] \<Rightarrow> replacement_char
              | c # r3 \<Rightarrow> if utf8_cont c then a # b # c # utf8_lossy r3 else replacement_char @ utf8_lossy r2))
      else if 0xF0 \<le> a \<and> a \<le> 0xF4 then
        (case r of
           [] \<Rightarrow> replacement_char
         | b # r2 \<Rightarrow>
             if \<not> utf8_lead4 a b then replacement_char @ utf8_lossy r
             else (case r2 of
                [] \<Rightarrow> replacement_char
              | c # r3 \<Rightarrow>
                  if \<not> utf8_cont c then replacement_char @ utf8_lossy r2
                  else (case r3 of
                     [] \<Rightarrow> replacement_char
                   | d # r4 \<Rightarrow>
                       if utf8_cont d then a # b # c # d # utf8_lossy r4 else replacement_char @ utf8_lossy r3)))
      else replacement_char @ utf8_lossy r)"

lemma utf8_lead_ranges:
  "utf8_lead3 a b \<Longrightarrow> \<not> a \<le> 0xDF \<and> 0xE0 \<le> a \<and> a \<le> 0xEF" "utf8_lead4 a b \<Longrightarrow> 0xF0 \<le> a \<and> a \<le> 0xF4 \<and> \<not> a \<le> 0xEF \<and> \<not> a \<le> 0xDF"
  by (auto simp: utf8_lead3_def utf8_lead4_def word_le_nat_alt)

lemma utf8_lossy_valid: "utf8_valid bs \<Longrightarrow> utf8_lossy bs = bs"
proof (induction "length bs" arbitrary: bs rule: less_induct)
  case less
  show ?case
  proof (cases bs)
    case (Cons a r)
    note valid = less.prems [unfolded Cons utf8_valid.simps(2)]
    have IH: "utf8_lossy xs = xs" if "length xs \<le> length r" "utf8_valid xs" for xs
      using less.hyps that by (simp add: Cons)
    show ?thesis
    proof (cases "a < 0x80")
      case True
      then show ?thesis using valid IH [of r] unfolding Cons utf8_lossy.simps(2) by (simp del: utf8_lossy.simps utf8_valid.simps)
    next
      case False
      then obtain b r2 where r: "r = b # r2" using valid by (cases r) simp_all
      note valid2 = valid [unfolded r if_not_P [OF False] list.case]
      show ?thesis
      proof (cases "0xC2 \<le> a \<and> a \<le> 0xDF")
        case True
        then show ?thesis using valid2 False IH [of r2] unfolding Cons r utf8_lossy.simps(2) [of a] by (simp del: utf8_lossy.simps utf8_valid.simps)
      next
        case two: False
        then obtain c r3 where r2: "r2 = c # r3" using valid2 by (cases r2) (simp_all only: if_False list.case)
        note valid3 = valid2 [unfolded r2 if_not_P [OF two] list.case]
        show ?thesis
        proof (cases "utf8_lead3 a b")
          case True
          then show ?thesis
            using valid3 False two IH [of r3] utf8_lead_ranges(1) [OF True]
            unfolding Cons r r2 utf8_lossy.simps(2) [of a] list.case by (simp del: utf8_lossy.simps utf8_valid.simps)
        next
          case three: False
          then obtain d r4 where r3: "r3 = d # r4" using valid3 by (cases r3) (simp_all only: if_False list.case)
          note valid4 = valid3 [unfolded r3 if_not_P [OF three] list.case]
          show ?thesis
            using valid4 False two IH [of r4] utf8_lead_ranges(2) [of a b]
            unfolding Cons r r2 r3 utf8_lossy.simps(2) [of a] list.case by (simp del: utf8_lossy.simps utf8_valid.simps)
        qed
      qed
    qed
  qed simp
qed

end
