(* ===== verification/Shared_Buffer.thy ===== *)
theory Shared_Buffer
  imports Garnet_Prelude
begin

text \<open>
  The model of \<^verbatim>\<open>src/public/rust/shared-buffer/src/lib.rs\<close>: buffers of memory shared with
  another process. A buffer is a base address and a length over a store of bytes (a map
  from addresses to bytes), so that the aliasing of slices and of the two halves of a
  split is part of the model. The second half of the theory shows that, seen from one
  buffer, \<open>read_at\<close> and \<open>write_at\<close> are reading and overwriting the list of its bytes;
  the Inspect components use that view of a mapped VMO.
\<close>

section \<open>SharedBufferInner\<close>

type_synonym store = "nat \<Rightarrow> u8"

record shared_buffer_inner =
  sb_buf :: nat
  sb_len :: nat

definition overlap :: "nat \<Rightarrow> nat \<Rightarrow> nat \<Rightarrow> nat option" where
  "overlap offset copy_len range_len =
     (if offset > range_len then None
      else if (if offset + copy_len < USIZE_LIMIT then offset + copy_len \<le> range_len else False)
      then Some copy_len
      else Some (range_len - offset))"

definition offset_from :: "nat \<Rightarrow> nat \<Rightarrow> ('e, nat) outcome" where
  "offset_from ptr offset = checked_add USIZE_LIMIT ptr offset"

definition copy_out :: "store \<Rightarrow> nat \<Rightarrow> nat \<Rightarrow> u8 list" where
  "copy_out mem base n = map mem [base..<base + n]"

definition copy_in :: "store \<Rightarrow> nat \<Rightarrow> u8 list \<Rightarrow> store" where
  "copy_in mem base bs = (\<lambda>a. if base \<le> a \<and> a < base + length bs then bs ! (a - base) else mem a)"

text \<open>\<open>read_at\<close> fills the front of \<open>dst\<close> and returns how many bytes it wrote there.\<close>

definition sb_read_at :: "store \<Rightarrow> shared_buffer_inner \<Rightarrow> nat \<Rightarrow> u8 list \<Rightarrow> ('e, nat \<times> u8 list) outcome" where
  "sb_read_at mem self offset dst =
     (case overlap offset (length dst) (sb_len self) of
        Some to_copy \<Rightarrow> bindO (offset_from (sb_buf self) offset) (\<lambda>base.
          Ok (to_copy, copy_out mem base to_copy @ drop to_copy dst))
      | None \<Rightarrow> Panic)"

definition sb_write_at :: "shared_buffer_inner \<Rightarrow> nat \<Rightarrow> u8 list \<Rightarrow> (store, 'e, nat) prog" where
  "sb_write_at self offset src =
     (case overlap offset (length src) (sb_len self) of
        Some to_copy \<Rightarrow> bindP (readP (\<lambda>_. offset_from (sb_buf self) offset)) (\<lambda>base.
          bindP (modifyP (\<lambda>mem. copy_in mem base (take to_copy src))) (\<lambda>_.
          returnP to_copy))
      | None \<Rightarrow> readP (\<lambda>_. Panic))"

section \<open>Slicing\<close>

datatype bound = Included nat | Excluded nat | Unbounded

fun canonicalize_lower_bound :: "bound \<Rightarrow> ('e, nat) outcome" where
  "canonicalize_lower_bound (Included x) = Ok x"
| "canonicalize_lower_bound (Excluded x) = checked_add USIZE_LIMIT x 1"
| "canonicalize_lower_bound Unbounded = Ok 0"

definition canonicalize_upper_bound :: "nat \<Rightarrow> bound \<Rightarrow> ('e, nat option) outcome" where
  "canonicalize_upper_bound n b =
     bindO (case b of Included x \<Rightarrow> checked_add USIZE_LIMIT x 1 | Excluded x \<Rightarrow> Ok x | Unbounded \<Rightarrow> Ok n)
       (\<lambda>u. Ok (if u > n then None else Some u))"

definition canonicalize_range_infallible :: "nat \<Rightarrow> bound \<Rightarrow> bound \<Rightarrow> ('e, nat \<times> nat) outcome" where
  "canonicalize_range_infallible n lo hi =
     bindO (canonicalize_lower_bound lo) (\<lambda>lower.
     bindO (canonicalize_upper_bound n hi) (\<lambda>up.
       case up of None \<Rightarrow> Panic
       | Some upper \<Rightarrow> if lower \<le> upper then Ok (lower, upper) else Panic))"

definition sb_slice :: "shared_buffer_inner \<Rightarrow> bound \<Rightarrow> bound \<Rightarrow> ('e, shared_buffer_inner) outcome" where
  "sb_slice self lo hi =
     bindO (canonicalize_range_infallible (sb_len self) lo hi) (\<lambda>(start, end').
     bindO (offset_from (sb_buf self) start) (\<lambda>p.
       Ok \<lparr>sb_buf = p, sb_len = end' - start\<rparr>))"

definition sb_split_at :: "shared_buffer_inner \<Rightarrow> nat
    \<Rightarrow> ('e, shared_buffer_inner \<times> shared_buffer_inner) outcome" where
  "sb_split_at self idx =
     (if idx \<le> sb_len self then
        bindO (offset_from (sb_buf self) idx) (\<lambda>p.
          Ok (\<lparr>sb_buf = sb_buf self, sb_len = idx\<rparr>, \<lparr>sb_buf = p, sb_len = sb_len self - idx\<rparr>))
      else Panic)"

section \<open>The invariant of a buffer and its contents\<close>

text \<open>The invariant the source states: \<open>buf + len\<close> does not overflow \<open>usize\<close>.\<close>

definition sb_inv :: "shared_buffer_inner \<Rightarrow> bool" where
  "sb_inv sb \<longleftrightarrow> sb_buf sb + sb_len sb < USIZE_LIMIT"

definition contents :: "store \<Rightarrow> shared_buffer_inner \<Rightarrow> u8 list" where
  "contents mem sb = copy_out mem (sb_buf sb) (sb_len sb)"

lemma length_copy_out [simp]: "length (copy_out mem b n) = n"
  by (simp add: copy_out_def)

lemma nth_copy_out [simp]: "k < n \<Longrightarrow> copy_out mem b n ! k = mem (b + k)"
  by (simp add: copy_out_def)

lemma length_contents [simp]: "length (contents mem sb) = sb_len sb"
  by (simp add: contents_def)

lemma nth_contents [simp]: "k < sb_len sb \<Longrightarrow> contents mem sb ! k = mem (sb_buf sb + k)"
  by (simp add: contents_def)

lemma overlap_min:
  "range_len < USIZE_LIMIT \<Longrightarrow>
    overlap offset copy_len range_len =
      (if offset \<le> range_len then Some (min copy_len (range_len - offset)) else None)"
  by (auto simp: overlap_def min_def)

lemma sb_inv_len: "sb_inv sb \<Longrightarrow> sb_len sb < USIZE_LIMIT"
  by (simp add: sb_inv_def)

lemma offset_from_in_range: "sb_inv sb \<Longrightarrow> off \<le> sb_len sb \<Longrightarrow> offset_from (sb_buf sb) off = Ok (sb_buf sb + off)"
  by (simp add: sb_inv_def offset_from_def)

lemma copy_in_outside [simp]: "a < base \<or> base + length bs \<le> a \<Longrightarrow> copy_in mem base bs a = mem a"
  by (auto simp: copy_in_def)

section \<open>The view of a buffer as a list of bytes\<close>

text \<open>
  The operations of one buffer on its list of bytes: what a mapped VMO looks like to the
  code that owns the mapping (\<^verbatim>\<open>SharedBuffer::read_at\<close>, \<^verbatim>\<open>SharedBuffer::write_at\<close>).
\<close>

definition buffer_read_at :: "u8 list \<Rightarrow> nat \<Rightarrow> u8 list \<Rightarrow> ('e, nat \<times> u8 list) outcome" where
  "buffer_read_at m offset dst =
     (if offset > length m then Panic
      else let to_copy = min (length dst) (length m - offset) in
        Ok (to_copy, window m offset to_copy @ drop to_copy dst))"

definition buffer_write_at :: "nat \<Rightarrow> u8 list \<Rightarrow> (u8 list, 'e, nat) prog" where
  "buffer_write_at offset src m =
     (if offset > length m then (Panic, m)
      else (Ok (min (length src) (length m - offset)), overwrite m offset src))"

lemma window_contents:
  "off + n \<le> sb_len sb \<Longrightarrow> window (contents mem sb) off n = copy_out mem (sb_buf sb + off) n"
  by (rule nth_equalityI) (auto simp: add.assoc)

lemma contents_copy_in:
  assumes "off \<le> sb_len sb"
  shows "contents (copy_in mem (sb_buf sb + off) (take (min (length src) (sb_len sb - off)) src)) sb
    = overwrite (contents mem sb) off src"
  using assms by (intro nth_equalityI) (auto simp: nth_overwrite copy_in_def min_def split: if_splits)

lemma sb_write_at_eq:
  assumes "sb_inv sb"
  shows "sb_write_at sb off src mem =
    (if off \<le> sb_len sb
     then (Ok (min (length src) (sb_len sb - off)),
       copy_in mem (sb_buf sb + off) (take (min (length src) (sb_len sb - off)) src))
     else (Panic, mem))"
  by (auto simp: sb_write_at_def bindP_readP overlap_min [OF sb_inv_len [OF assms]]
      offset_from_in_range [OF assms])

lemma sb_write_at_frame:
  assumes "sb_inv sb" and "a < sb_buf sb \<or> sb_buf sb + sb_len sb \<le> a"
  shows "snd (sb_write_at sb off src mem) a = mem a"
  using assms by (auto simp: sb_write_at_eq)

lemma sb_slice_Ok:
  assumes "sb_inv sb" and "sb_slice sb lo hi = (Ok s :: ('e, _) outcome)"
  obtains start where "start + sb_len s \<le> sb_len sb" and "sb_buf s = sb_buf sb + start"
    and "canonicalize_range_infallible (sb_len sb) lo hi = (Ok (start, start + sb_len s) :: ('e, _) outcome)"
proof -
  from assms(2) obtain start e p where
    r: "canonicalize_range_infallible (sb_len sb) lo hi = (Ok (start, e) :: ('e, _) outcome)" and
    p: "offset_from (sb_buf sb) start = (Ok p :: ('e, _) outcome)" and
    s: "s = \<lparr>sb_buf = p, sb_len = e - start\<rparr>"
    by (auto simp: sb_slice_def bindO_eq_Ok_iff)
  from r have le: "start \<le> e" "e \<le> sb_len sb"
    by (auto simp: canonicalize_range_infallible_def canonicalize_upper_bound_def bindO_eq_Ok_iff
        split: if_splits option.splits)
  with assms(1) p have "p = sb_buf sb + start"
    by (simp add: offset_from_in_range)
  with s r le that show thesis by auto
qed

text \<open>
  C25. Seen from one buffer, \<open>read_at\<close> and \<open>write_at\<close> are exactly the list operations on
  its bytes, panics included, and a write changes no address outside the buffer.
\<close>

theorem sb_refines_buffer:
  fixes sb :: shared_buffer_inner and mem :: store
  assumes "sb_inv sb"
  shows "sb_read_at mem sb off dst = (buffer_read_at (contents mem sb) off dst :: ('e, nat \<times> u8 list) outcome)
    \<and> (case sb_write_at sb off src mem of (r, mem') \<Rightarrow> (r, contents mem' sb))
      = (buffer_write_at off src (contents mem sb) :: ('e, nat) outcome \<times> u8 list)
    \<and> (\<forall>a. a \<notin> {sb_buf sb..<sb_buf sb + sb_len sb} \<longrightarrow>
      snd (sb_write_at sb off src mem :: ('e, nat) outcome \<times> store) a = mem a)"
proof (intro conjI allI impI)
  show "sb_read_at mem sb off dst = (buffer_read_at (contents mem sb) off dst :: ('e, _) outcome)"
    by (auto simp: sb_read_at_def buffer_read_at_def window_contents Let_def
        overlap_min [OF sb_inv_len [OF assms]] offset_from_in_range [OF assms])
  show "(case sb_write_at sb off src mem of (r, mem') \<Rightarrow> (r, contents mem' sb))
      = (buffer_write_at off src (contents mem sb) :: ('e, _) outcome \<times> _)"
    using assms by (auto simp: sb_write_at_eq buffer_write_at_def contents_copy_in)
  show "snd (sb_write_at sb off src mem :: ('e, _) outcome \<times> _) a = mem a"
    if "a \<notin> {sb_buf sb..<sb_buf sb + sb_len sb}" for a
    using that by (intro sb_write_at_frame [OF assms]) auto
qed

theorem sb_refines_buffer_witness:
  "sb_inv \<lparr>sb_buf = 4096, sb_len = 4\<rparr> \<and>
   sb_read_at (\<lambda>a. of_nat a) \<lparr>sb_buf = 4096, sb_len = 4\<rparr> 1 [9, 9]
     = (buffer_read_at (contents (\<lambda>a. of_nat a) \<lparr>sb_buf = 4096, sb_len = 4\<rparr>) 1 [9, 9]
         :: (nat, nat \<times> u8 list) outcome)"
proof -
  have h: "sb_inv \<lparr>sb_buf = 4096, sb_len = 4\<rparr>" by (simp add: sb_inv_def)
  show ?thesis using h sb_refines_buffer [OF h] by blast
qed

text \<open>
  The two halves of a split are disjoint parts of the buffer: together they hold its
  bytes, and a write through the second half leaves the first as it was and changes the
  whole buffer at the shifted offset.
\<close>

theorem sb_split_at_halves:
  fixes sb a b :: shared_buffer_inner and mem :: store
  assumes "sb_inv sb" and "sb_split_at sb idx = (Ok (a, b) :: ('e, _) outcome)"
  shows "sb_inv a \<and> sb_inv b
    \<and> contents mem sb = contents mem a @ contents mem b
    \<and> contents (snd (sb_write_at b off src mem :: ('e, nat) outcome \<times> store)) a = contents mem a
    \<and> (off \<le> sb_len b \<longrightarrow>
      contents (snd (sb_write_at b off src mem :: ('e, nat) outcome \<times> store)) sb
        = overwrite (contents mem sb) (idx + off) src)"
proof -
  from assms have idx: "idx \<le> sb_len sb"
    and a: "a = \<lparr>sb_buf = sb_buf sb, sb_len = idx\<rparr>"
    and b: "b = \<lparr>sb_buf = sb_buf sb + idx, sb_len = sb_len sb - idx\<rparr>"
    by (auto simp: sb_split_at_def offset_from_in_range split: if_splits)
  have inv: "sb_inv a" "sb_inv b"
    using assms(1) idx by (auto simp: sb_inv_def a b)
  have "contents mem sb = contents mem a @ contents mem b"
    using idx by (intro nth_equalityI) (auto simp: nth_append a b)
  moreover have "contents (snd (sb_write_at b off src mem :: ('e, nat) outcome \<times> store)) a = contents mem a"
    by (rule nth_equalityI) (auto simp: a b intro!: sb_write_at_frame inv(2) [unfolded b])
  moreover have "contents (snd (sb_write_at b off src mem :: ('e, nat) outcome \<times> store)) sb
        = overwrite (contents mem sb) (idx + off) src" if "off \<le> sb_len b"
    using that idx contents_copy_in [of "idx + off" sb mem src]
    by (simp add: sb_write_at_eq [OF inv(2), unfolded b] b add.assoc)
  ultimately show ?thesis using inv by blast
qed

theorem sb_split_at_halves_witness:
  "sb_inv \<lparr>sb_buf = 4096, sb_len = 4\<rparr> \<and>
   sb_split_at \<lparr>sb_buf = 4096, sb_len = 4\<rparr> 1
     = (Ok (\<lparr>sb_buf = 4096, sb_len = 1\<rparr>, \<lparr>sb_buf = 4097, sb_len = 3\<rparr>) :: (nat, _) outcome) \<and>
   sb_inv \<lparr>sb_buf = 4096, sb_len = 1\<rparr> \<and> sb_inv \<lparr>sb_buf = 4097, sb_len = 3\<rparr>"
proof -
  have h: "sb_inv \<lparr>sb_buf = 4096, sb_len = 4\<rparr>" by (simp add: sb_inv_def)
  have e: "sb_split_at \<lparr>sb_buf = 4096, sb_len = 4\<rparr> 1
     = (Ok (\<lparr>sb_buf = 4096, sb_len = 1\<rparr>, \<lparr>sb_buf = 4097, sb_len = 3\<rparr>) :: (nat, _) outcome)"
    by (simp add: sb_split_at_def offset_from_def)
  show ?thesis using h e sb_split_at_halves [OF h e] by blast
qed

end
