(* ===== verification/Inspect_Format.thy ===== *)
theory Inspect_Format
  imports Garnet_Prelude
begin

text \<open>
  The vocabulary of the Inspect VMO format: \<^verbatim>\<open>constants.rs\<close>, \<^verbatim>\<open>utils.rs\<close>,
  \<^verbatim>\<open>block_type.rs\<close> and \<^verbatim>\<open>bitfields.rs\<close> of \<^verbatim>\<open>src/public/rust/fuchsia-inspect/src\<close>, and the
  two format enums of \<^verbatim>\<open>block.rs\<close>. The \<^verbatim>\<open>bitfield!\<close> macro and
  \<^verbatim>\<open>byteorder\<close> are third-party crates: the functions used of them are a parameter of the
  model, and the locale \<open>inspect_crates\<close> states what their documentation promises and what
  the blocks rely on.
\<close>

section \<open>Constants\<close>

definition PAGE_SIZE_BYTES :: nat where "PAGE_SIZE_BYTES = 4096"
definition HEADER_SIZE_BYTES :: nat where "HEADER_SIZE_BYTES = 8"
definition ROOT_PARENT_INDEX :: nat where "ROOT_PARENT_INDEX = 0"
definition HEADER_INDEX :: nat where "HEADER_INDEX = 0"
definition HEADER_MAGIC_NUMBER :: nat where "HEADER_MAGIC_NUMBER = 0x50534e49"
definition HEADER_VERSION_NUMBER :: nat where "HEADER_VERSION_NUMBER = 0"
definition NUM_ORDERS :: nat where "NUM_ORDERS = 8"
definition MIN_ORDER_SHIFT :: nat where "MIN_ORDER_SHIFT = 4"
definition MIN_ORDER_SIZE :: nat where "MIN_ORDER_SIZE = 16"
definition MAX_ORDER_SHIFT :: nat where "MAX_ORDER_SHIFT = MIN_ORDER_SHIFT + NUM_ORDERS - 1"
definition MAX_ORDER_SIZE :: nat where "MAX_ORDER_SIZE = 2 ^ MAX_ORDER_SHIFT"
definition ARRAY_PAYLOAD_METADATA_SIZE_BYTES :: nat where "ARRAY_PAYLOAD_METADATA_SIZE_BYTES = 8"
definition LINEAR_HISTOGRAM_EXTRA_SLOTS :: nat where "LINEAR_HISTOGRAM_EXTRA_SLOTS = 4"
definition EXPONENTIAL_HISTOGRAM_EXTRA_SLOTS :: nat where "EXPONENTIAL_HISTOGRAM_EXTRA_SLOTS = 5"

lemmas inspect_constants = PAGE_SIZE_BYTES_def HEADER_SIZE_BYTES_def ROOT_PARENT_INDEX_def
  HEADER_INDEX_def HEADER_MAGIC_NUMBER_def HEADER_VERSION_NUMBER_def NUM_ORDERS_def
  MIN_ORDER_SHIFT_def MIN_ORDER_SIZE_def MAX_ORDER_SHIFT_def MAX_ORDER_SIZE_def
  ARRAY_PAYLOAD_METADATA_SIZE_BYTES_def LINEAR_HISTOGRAM_EXTRA_SLOTS_def
  EXPONENTIAL_HISTOGRAM_EXTRA_SLOTS_def

lemma MAX_ORDER_SIZE_2048: "MAX_ORDER_SIZE = 2048"
  by (simp add: inspect_constants)

section \<open>Sizes, orders and offsets\<close>

fun bit_length :: "nat \<Rightarrow> nat" where
  "bit_length n = (if n = 0 then 0 else Suc (bit_length (n div 2)))"

declare bit_length.simps [simp del]

definition leading_zeros :: "nat \<Rightarrow> nat" where
  "leading_zeros n = 64 - bit_length n"

definition fit_order :: "nat \<Rightarrow> ('e, nat) outcome" where
  "fit_order size' =
     bindO (checked_sub size' 1) (\<lambda>s.
     bindO (checked_sub (8 * 8) (leading_zeros s)) (\<lambda>bits.
       checked_sub bits MIN_ORDER_SHIFT))"

definition index_for_offset :: "nat \<Rightarrow> ('e, nat) outcome" where
  "index_for_offset offset =
     (if offset div MIN_ORDER_SIZE < U32_LIMIT then Ok (offset div MIN_ORDER_SIZE) else Panic)"

definition offset_for_index :: "nat \<Rightarrow> nat" where
  "offset_for_index index = index * MIN_ORDER_SIZE"

text \<open>Orders come from a four-bit field, so the shift stays within \<open>usize\<close>.\<close>

definition order_to_size :: "nat \<Rightarrow> nat" where
  "order_to_size order' = push_bit order' MIN_ORDER_SIZE"

definition block_size_for_payload :: "nat \<Rightarrow> nat" where
  "block_size_for_payload payload_size =
     min MAX_ORDER_SIZE (max (payload_size + HEADER_SIZE_BYTES) MIN_ORDER_SIZE)"

definition payload_size_for_order :: "nat \<Rightarrow> nat" where
  "payload_size_for_order order' = order_to_size order' - HEADER_SIZE_BYTES"

definition array_capacity :: "nat \<Rightarrow> nat" where
  "array_capacity order' =
     (order_to_size order' - HEADER_SIZE_BYTES - ARRAY_PAYLOAD_METADATA_SIZE_BYTES) div 8"

lemma order_to_size_eq: "order_to_size k = 16 * 2 ^ k"
  by (simp add: order_to_size_def push_bit_eq_mult MIN_ORDER_SIZE_def)

lemma offset_for_index_eq: "offset_for_index i = 16 * i"
  by (simp add: offset_for_index_def MIN_ORDER_SIZE_def)

lemma payload_size_for_order_eq: "payload_size_for_order k = 16 * 2 ^ k - 8"
  by (simp add: payload_size_for_order_def order_to_size_eq HEADER_SIZE_BYTES_def)

lemma array_capacity_eq: "array_capacity k = 2 * 2 ^ k - 2"
  by (simp add: array_capacity_def order_to_size_eq inspect_constants)

lemma index_for_offset_order_size:
  "k < 32 \<Longrightarrow> index_for_offset (order_to_size k) = Ok (2 ^ k)"
proof -
  assume "k < 32"
  then have "(2::nat) ^ k < 2 ^ 32"
    by (intro power_strict_increasing) auto
  then show ?thesis
    by (simp add: index_for_offset_def order_to_size_eq MIN_ORDER_SIZE_def)
qed

lemma bit_length_le_iff: "bit_length n \<le> k \<longleftrightarrow> n < 2 ^ k"
proof (induction n arbitrary: k rule: bit_length.induct)
  case (1 n)
  show ?case
  proof (cases "n = 0")
    case True
    then show ?thesis by (subst bit_length.simps) simp
  next
    case False
    show ?thesis
    proof (cases k)
      case 0
      with False show ?thesis by (subst bit_length.simps) simp
    next
      case (Suc j)
      have "bit_length n \<le> k \<longleftrightarrow> bit_length (n div 2) \<le> j"
        using False Suc by (subst bit_length.simps) simp
      also have "\<dots> \<longleftrightarrow> n div 2 < 2 ^ j"
        using 1 False by simp
      also have "\<dots> \<longleftrightarrow> n < 2 ^ k"
        using Suc by auto
      finally show ?thesis .
    qed
  qed
qed

lemma fit_order_eq:
  assumes "8 < n" and "n \<le> 2 ^ 64"
  shows "fit_order n = Ok (bit_length (n - 1) - 4)"
proof -
  have "bit_length (n - 1) \<le> 64"
    using assms by (simp add: bit_length_le_iff)
  moreover have "4 \<le> bit_length (n - 1)"
  proof -
    have "\<not> bit_length (n - 1) \<le> 3"
      using assms by (simp add: bit_length_le_iff)
    then show ?thesis by linarith
  qed
  ultimately show ?thesis
    using assms(1) by (simp add: fit_order_def leading_zeros_def MIN_ORDER_SHIFT_def)
qed

lemma fit_order_le_iff:
  assumes "8 < n" and "n \<le> 2 ^ 64" and "fit_order n = Ok k"
  shows "k \<le> j \<longleftrightarrow> n \<le> order_to_size j"
proof -
  have "k \<le> j \<longleftrightarrow> bit_length (n - 1) \<le> j + 4"
    using assms(3) by (auto simp: fit_order_eq [OF assms(1,2)])
  also have "\<dots> \<longleftrightarrow> n - 1 < 16 * 2 ^ j"
    by (simp add: bit_length_le_iff power_add mult.commute)
  also have "\<dots> \<longleftrightarrow> n \<le> order_to_size j"
    using assms(1) by (auto simp: order_to_size_eq)
  finally show ?thesis .
qed

section \<open>Block types\<close>

datatype block_type =
    Free | Reserved | Header | NodeValue | IntValue | UintValue | DoubleValue
  | PropertyValue | Extent | Name | Tombstone | ArrayValue

fun block_type_to_u8 :: "block_type \<Rightarrow> nat" where
  "block_type_to_u8 Free = 0"
| "block_type_to_u8 Reserved = 1"
| "block_type_to_u8 Header = 2"
| "block_type_to_u8 NodeValue = 3"
| "block_type_to_u8 IntValue = 4"
| "block_type_to_u8 UintValue = 5"
| "block_type_to_u8 DoubleValue = 6"
| "block_type_to_u8 PropertyValue = 7"
| "block_type_to_u8 Extent = 8"
| "block_type_to_u8 Name = 9"
| "block_type_to_u8 Tombstone = 10"
| "block_type_to_u8 ArrayValue = 11"

definition block_types :: "block_type list" where
  "block_types = [Free, Reserved, Header, NodeValue, IntValue, UintValue, DoubleValue,
     PropertyValue, Extent, Name, Tombstone, ArrayValue]"

definition block_type_from_u8 :: "nat \<Rightarrow> block_type option" where
  "block_type_from_u8 n = (if n < length block_types then Some (block_types ! n) else None)"

fun is_any_value :: "block_type \<Rightarrow> bool" where
  "is_any_value NodeValue = True"
| "is_any_value IntValue = True"
| "is_any_value UintValue = True"
| "is_any_value DoubleValue = True"
| "is_any_value PropertyValue = True"
| "is_any_value ArrayValue = True"
| "is_any_value _ = False"

fun is_numeric_value :: "block_type \<Rightarrow> bool" where
  "is_numeric_value IntValue = True"
| "is_numeric_value UintValue = True"
| "is_numeric_value DoubleValue = True"
| "is_numeric_value _ = False"

fun is_node_or_tombstone :: "block_type \<Rightarrow> bool" where
  "is_node_or_tombstone NodeValue = True"
| "is_node_or_tombstone Tombstone = True"
| "is_node_or_tombstone _ = False"

fun block_type_display :: "block_type \<Rightarrow> string" where
  "block_type_display Free = ''FREE''"
| "block_type_display Reserved = ''RESERVED''"
| "block_type_display Header = ''HEADER''"
| "block_type_display NodeValue = ''NODE_VALUE''"
| "block_type_display IntValue = ''INT_VALUE''"
| "block_type_display UintValue = ''UINT_VALUE''"
| "block_type_display DoubleValue = ''DOUBLE_VALUE''"
| "block_type_display PropertyValue = ''PROPERTY_VALUE''"
| "block_type_display Extent = ''EXTENT''"
| "block_type_display Name = ''NAME''"
| "block_type_display Tombstone = ''TOMBSTONE''"
| "block_type_display ArrayValue = ''ARRAY_VALUE''"

lemma block_type_to_u8_less [simp]: "block_type_to_u8 t < 12"
  by (cases t) auto

lemma block_type_from_to_u8 [simp]: "block_type_from_u8 (block_type_to_u8 t) = Some t"
  by (cases t) (auto simp: block_type_from_u8_def block_types_def)

lemma block_type_from_u8_Some: "block_type_from_u8 n = Some t \<Longrightarrow> n = block_type_to_u8 t"
  by (auto simp: block_type_from_u8_def block_types_def less_Suc_eq numeral_eq_Suc split: if_splits)

datatype property_format = PfString | PfBytes

fun property_format_to_u8 :: "property_format \<Rightarrow> nat" where
  "property_format_to_u8 PfString = 0"
| "property_format_to_u8 PfBytes = 1"

definition property_format_from_u8 :: "nat \<Rightarrow> property_format option" where
  "property_format_from_u8 n = (if n = 0 then Some PfString else if n = 1 then Some PfBytes else None)"

datatype array_format = DefaultArray | LinearHistogram | ExponentialHistogram

fun array_format_to_u8 :: "array_format \<Rightarrow> nat" where
  "array_format_to_u8 DefaultArray = 0"
| "array_format_to_u8 LinearHistogram = 1"
| "array_format_to_u8 ExponentialHistogram = 2"

definition array_format_from_u8 :: "nat \<Rightarrow> array_format option" where
  "array_format_from_u8 n = (if n = 0 then Some DefaultArray else if n = 1 then Some LinearHistogram
     else if n = 2 then Some ExponentialHistogram else None)"

section \<open>Bit fields\<close>

text \<open>
  The macro turns \<open>field: msb, lsb\<close> into a getter \<open>bit_range(msb, lsb)\<close> and a setter
  \<open>set_bit_range(msb, lsb, v)\<close> of the underlying word. Both functions belong to the crate,
  as \<open>LittleEndian::read_u64\<close> belongs to \<^verbatim>\<open>byteorder\<close>.
\<close>

record crate_ops =
  bit_range :: "u64 \<Rightarrow> nat \<Rightarrow> nat \<Rightarrow> u64"
  set_bit_range :: "u64 \<Rightarrow> nat \<Rightarrow> nat \<Rightarrow> u64 \<Rightarrow> u64"
  read_u64 :: "u8 list \<Rightarrow> u64"

definition get_field :: "crate_ops \<Rightarrow> nat \<Rightarrow> nat \<Rightarrow> u64 \<Rightarrow> nat" where
  "get_field cr msb lsb w = unat (bit_range cr w msb lsb)"

definition set_field :: "crate_ops \<Rightarrow> nat \<Rightarrow> nat \<Rightarrow> nat \<Rightarrow> u64 \<Rightarrow> u64" where
  "set_field cr msb lsb v w = set_bit_range cr w msb lsb (of_nat v)"

text \<open>The header of a block.\<close>

definition hdr_order where "hdr_order cr = get_field cr 3 0"
definition hdr_set_order where "hdr_set_order cr = set_field cr 3 0"
definition hdr_block_type where "hdr_block_type cr = get_field cr 7 4"
definition hdr_set_block_type where "hdr_set_block_type cr = set_field cr 7 4"
definition hdr_header_version where "hdr_header_version cr = get_field cr 31 8"
definition hdr_set_header_version where "hdr_set_header_version cr = set_field cr 31 8"
definition hdr_header_magic where "hdr_header_magic cr = get_field cr 63 32"
definition hdr_set_header_magic where "hdr_set_header_magic cr = set_field cr 63 32"
definition hdr_value_name_index where "hdr_value_name_index cr = get_field cr 63 36"
definition hdr_set_value_name_index where "hdr_set_value_name_index cr = set_field cr 63 36"
definition hdr_value_parent_index where "hdr_value_parent_index cr = get_field cr 35 8"
definition hdr_set_value_parent_index where "hdr_set_value_parent_index cr = set_field cr 35 8"
definition hdr_free_next_index where "hdr_free_next_index cr = get_field cr 35 8"
definition hdr_set_free_next_index where "hdr_set_free_next_index cr = set_field cr 35 8"
definition hdr_name_length where "hdr_name_length cr = get_field cr 19 8"
definition hdr_set_name_length where "hdr_set_name_length cr = set_field cr 19 8"
definition hdr_extent_next_index where "hdr_extent_next_index cr = get_field cr 35 8"
definition hdr_set_extent_next_index where "hdr_set_extent_next_index cr = set_field cr 35 8"
definition hdr_value :: "crate_ops \<Rightarrow> u64 \<Rightarrow> u64" where "hdr_value cr w = bit_range cr w 63 0"

text \<open>The payload of a block.\<close>

definition pl_value :: "crate_ops \<Rightarrow> u64 \<Rightarrow> u64" where "pl_value cr w = bit_range cr w 63 0"
definition pl_property_total_length where "pl_property_total_length cr = get_field cr 31 0"
definition pl_set_property_total_length where "pl_set_property_total_length cr = set_field cr 31 0"
definition pl_property_extent_index where "pl_property_extent_index cr = get_field cr 59 32"
definition pl_set_property_extent_index where "pl_set_property_extent_index cr = set_field cr 59 32"
definition pl_property_flags where "pl_property_flags cr = get_field cr 63 60"
definition pl_set_property_flags where "pl_set_property_flags cr = set_field cr 63 60"
definition pl_numeric_value :: "crate_ops \<Rightarrow> u64 \<Rightarrow> u64" where
  "pl_numeric_value cr w = bit_range cr w 63 0"
definition pl_set_numeric_value :: "crate_ops \<Rightarrow> u64 \<Rightarrow> u64 \<Rightarrow> u64" where
  "pl_set_numeric_value cr v w = set_bit_range cr w 63 0 v"
definition pl_header_generation_count :: "crate_ops \<Rightarrow> u64 \<Rightarrow> u64" where
  "pl_header_generation_count cr w = bit_range cr w 63 0"
definition pl_set_header_generation_count :: "crate_ops \<Rightarrow> u64 \<Rightarrow> u64 \<Rightarrow> u64" where
  "pl_set_header_generation_count cr v w = set_bit_range cr w 63 0 v"
definition pl_array_entry_type where "pl_array_entry_type cr = get_field cr 3 0"
definition pl_set_array_entry_type where "pl_set_array_entry_type cr = set_field cr 3 0"
definition pl_array_flags where "pl_array_flags cr = get_field cr 7 4"
definition pl_set_array_flags where "pl_set_array_flags cr = set_field cr 7 4"
definition pl_array_slots_count where "pl_array_slots_count cr = get_field cr 15 8"
definition pl_set_array_slots_count where "pl_set_array_slots_count cr = set_field cr 15 8"

lemmas header_field_defs = hdr_order_def hdr_set_order_def hdr_block_type_def hdr_set_block_type_def
  hdr_header_version_def hdr_set_header_version_def hdr_header_magic_def hdr_set_header_magic_def
  hdr_value_name_index_def hdr_set_value_name_index_def hdr_value_parent_index_def
  hdr_set_value_parent_index_def hdr_free_next_index_def hdr_set_free_next_index_def
  hdr_name_length_def hdr_set_name_length_def hdr_extent_next_index_def
  hdr_set_extent_next_index_def hdr_value_def

lemmas payload_field_defs = pl_value_def pl_property_total_length_def pl_set_property_total_length_def
  pl_property_extent_index_def pl_set_property_extent_index_def pl_property_flags_def
  pl_set_property_flags_def pl_numeric_value_def pl_set_numeric_value_def
  pl_header_generation_count_def pl_set_header_generation_count_def pl_array_entry_type_def
  pl_set_array_entry_type_def pl_array_flags_def pl_set_array_flags_def
  pl_array_slots_count_def pl_set_array_slots_count_def

text \<open>
  What the crates document: a setter writes its bits (the value cut to the width) and no
  others, and \<open>read_u64\<close> reads eight bytes in little-endian order.
\<close>

locale inspect_crates =
  fixes cr :: crate_ops
  assumes get_set_same: "lsb \<le> msb \<Longrightarrow> msb < 64 \<Longrightarrow>
      bit_range cr (set_bit_range cr w msb lsb v) msb lsb = take_bit (Suc msb - lsb) v"
    and get_set_disjoint: "lsb \<le> msb \<Longrightarrow> msb < 64 \<Longrightarrow> lsb' \<le> msb' \<Longrightarrow> msb' < 64 \<Longrightarrow>
      msb < lsb' \<or> msb' < lsb \<Longrightarrow>
      bit_range cr (set_bit_range cr w msb lsb v) msb' lsb' = bit_range cr w msb' lsb'"
    and get_zero: "lsb \<le> msb \<Longrightarrow> msb < 64 \<Longrightarrow> bit_range cr 0 msb lsb = 0"
    and get_width: "lsb \<le> msb \<Longrightarrow> msb < 64 \<Longrightarrow>
      take_bit (Suc msb - lsb) (bit_range cr w msb lsb) = bit_range cr w msb lsb"
    and get_all: "bit_range cr w 63 0 = w"
    and read_u64_le: "length bs = 8 \<Longrightarrow> read_u64 cr bs = u64_from_le_bytes bs"
begin

lemma get_field_set_field_same:
  assumes "lsb \<le> msb" and "msb < 64"
  shows "get_field cr msb lsb (set_field cr msb lsb v w) = v mod 2 ^ (Suc msb - lsb)"
proof -
  have "unat (take_bit (Suc msb - lsb) (of_nat v :: u64)) = take_bit (Suc msb - lsb) v"
    using assms by (simp add: unsigned_take_bit_eq unsigned_of_nat min_absorb1)
  then show ?thesis
    using assms by (simp add: get_field_def set_field_def get_set_same take_bit_eq_mod)
qed

lemma get_field_set_field_disjoint:
  "lsb \<le> msb \<Longrightarrow> msb < 64 \<Longrightarrow> lsb' \<le> msb' \<Longrightarrow> msb' < 64 \<Longrightarrow> msb < lsb' \<or> msb' < lsb \<Longrightarrow>
    get_field cr msb' lsb' (set_field cr msb lsb v w) = get_field cr msb' lsb' w"
  by (simp add: get_field_def set_field_def get_set_disjoint)

lemma get_field_zero: "lsb \<le> msb \<Longrightarrow> msb < 64 \<Longrightarrow> get_field cr msb lsb 0 = 0"
  by (simp add: get_field_def get_zero)

lemma get_field_bound:
  assumes "lsb \<le> msb" and "msb < 64"
  shows "get_field cr msb lsb w < 2 ^ (Suc msb - lsb)"
proof -
  have "get_field cr msb lsb w = unat (take_bit (Suc msb - lsb) (bit_range cr w msb lsb))"
    using assms by (simp add: get_field_def get_width)
  then show ?thesis
    by (simp add: unsigned_take_bit_eq)
qed

lemmas field_laws = get_field_set_field_same get_field_set_field_disjoint get_field_zero
  get_set_same get_all

lemma hdr_order_fields [simp]:
  "hdr_order cr (hdr_set_order cr v w) = v mod 16"
  "hdr_order cr (hdr_set_block_type cr v w) = hdr_order cr w"
  "hdr_order cr (hdr_set_free_next_index cr v w) = hdr_order cr w"
  "hdr_order cr (hdr_set_extent_next_index cr v w) = hdr_order cr w"
  "hdr_order cr (hdr_set_value_name_index cr v w) = hdr_order cr w"
  "hdr_order cr (hdr_set_value_parent_index cr v w) = hdr_order cr w"
  "hdr_order cr (hdr_set_name_length cr v w) = hdr_order cr w"
  "hdr_order cr (hdr_set_header_magic cr v w) = hdr_order cr w"
  "hdr_order cr (hdr_set_header_version cr v w) = hdr_order cr w"
  "hdr_order cr 0 = 0"
  by (simp_all add: header_field_defs field_laws)

lemma hdr_block_type_fields [simp]:
  "hdr_block_type cr (hdr_set_order cr v w) = hdr_block_type cr w"
  "hdr_block_type cr (hdr_set_block_type cr v w) = v mod 16"
  "hdr_block_type cr (hdr_set_free_next_index cr v w) = hdr_block_type cr w"
  "hdr_block_type cr (hdr_set_extent_next_index cr v w) = hdr_block_type cr w"
  "hdr_block_type cr (hdr_set_value_name_index cr v w) = hdr_block_type cr w"
  "hdr_block_type cr (hdr_set_value_parent_index cr v w) = hdr_block_type cr w"
  "hdr_block_type cr (hdr_set_name_length cr v w) = hdr_block_type cr w"
  "hdr_block_type cr (hdr_set_header_magic cr v w) = hdr_block_type cr w"
  "hdr_block_type cr (hdr_set_header_version cr v w) = hdr_block_type cr w"
  "hdr_block_type cr 0 = 0"
  by (simp_all add: header_field_defs field_laws)

lemma hdr_index_fields [simp]:
  "hdr_free_next_index cr (hdr_set_free_next_index cr v w) = v mod 2 ^ 28"
  "hdr_free_next_index cr (hdr_set_order cr v w) = hdr_free_next_index cr w"
  "hdr_free_next_index cr (hdr_set_block_type cr v w) = hdr_free_next_index cr w"
  "hdr_extent_next_index cr (hdr_set_extent_next_index cr v w) = v mod 2 ^ 28"
  "hdr_extent_next_index cr (hdr_set_order cr v w) = hdr_extent_next_index cr w"
  "hdr_extent_next_index cr (hdr_set_block_type cr v w) = hdr_extent_next_index cr w"
  "hdr_value_name_index cr (hdr_set_value_name_index cr v w) = v mod 2 ^ 28"
  "hdr_value_name_index cr (hdr_set_value_parent_index cr v w) = hdr_value_name_index cr w"
  "hdr_value_parent_index cr (hdr_set_value_parent_index cr v w) = v mod 2 ^ 28"
  "hdr_value_parent_index cr (hdr_set_value_name_index cr v w) = hdr_value_parent_index cr w"
  "hdr_name_length cr (hdr_set_name_length cr v w) = v mod 2 ^ 12"
  "hdr_header_magic cr (hdr_set_header_magic cr v w) = v mod 2 ^ 32"
  "hdr_header_magic cr (hdr_set_header_version cr v w) = hdr_header_magic cr w"
  "hdr_header_version cr (hdr_set_header_version cr v w) = v mod 2 ^ 24"
  "hdr_header_version cr (hdr_set_header_magic cr v w) = hdr_header_version cr w"
  "hdr_value cr w = w"
  by (simp_all add: header_field_defs field_laws)

lemma pl_fields [simp]:
  "pl_value cr w = w"
  "pl_numeric_value cr w = w"
  "pl_set_numeric_value cr v w = v"
  "pl_header_generation_count cr w = w"
  "pl_set_header_generation_count cr v w = v"
  "pl_property_total_length cr (pl_set_property_total_length cr n w) = n mod 2 ^ 32"
  "pl_property_total_length cr (pl_set_property_extent_index cr n w) = pl_property_total_length cr w"
  "pl_property_total_length cr (pl_set_property_flags cr n w) = pl_property_total_length cr w"
  "pl_property_extent_index cr (pl_set_property_extent_index cr n w) = n mod 2 ^ 28"
  "pl_property_extent_index cr (pl_set_property_total_length cr n w) = pl_property_extent_index cr w"
  "pl_property_extent_index cr (pl_set_property_flags cr n w) = pl_property_extent_index cr w"
  "pl_property_extent_index cr 0 = 0"
  "pl_property_flags cr (pl_set_property_flags cr n w) = n mod 16"
  "pl_property_flags cr (pl_set_property_total_length cr n w) = pl_property_flags cr w"
  "pl_property_flags cr (pl_set_property_extent_index cr n w) = pl_property_flags cr w"
proof -
  have "set_bit_range cr w 63 0 v = v" for v w
    using get_set_same [of 0 63 w v] by (simp add: get_all take_bit_word_eq_self)
  then show "pl_set_numeric_value cr v w = v" "pl_set_header_generation_count cr v w = v"
    by (simp_all add: payload_field_defs)
qed (simp_all add: payload_field_defs field_laws)

lemma pl_array_fields [simp]:
  "pl_array_entry_type cr (pl_set_array_entry_type cr n w) = n mod 16"
  "pl_array_entry_type cr (pl_set_array_flags cr n w) = pl_array_entry_type cr w"
  "pl_array_entry_type cr (pl_set_array_slots_count cr n w) = pl_array_entry_type cr w"
  "pl_array_flags cr (pl_set_array_flags cr n w) = n mod 16"
  "pl_array_flags cr (pl_set_array_slots_count cr n w) = pl_array_flags cr w"
  "pl_array_slots_count cr (pl_set_array_slots_count cr n w) = n mod 256"
  by (simp_all add: payload_field_defs field_laws)

lemma hdr_order_less: "hdr_order cr w < 16"
  using get_field_bound [of 0 3 w] by (simp add: hdr_order_def)

end

text \<open>The shift-and-mask functions satisfy the laws.\<close>

definition shift_mask_ops :: crate_ops where
  "shift_mask_ops = \<lparr>
     bit_range = (\<lambda>w msb lsb. take_bit (Suc msb - lsb) (drop_bit lsb w)),
     set_bit_range = (\<lambda>w msb lsb v.
       (w AND NOT (push_bit lsb (mask (Suc msb - lsb)))) OR push_bit lsb (take_bit (Suc msb - lsb) v)),
     read_u64 = from_le\<rparr>"

interpretation shift_mask: inspect_crates shift_mask_ops
proof unfold_locales
  fix lsb msb :: nat and w v :: u64
  assume "lsb \<le> msb" and "msb < 64"
  then show "bit_range shift_mask_ops (set_bit_range shift_mask_ops w msb lsb v) msb lsb
      = take_bit (Suc msb - lsb) v"
    by (intro bit_word_eqI) (auto simp: shift_mask_ops_def bit_simps)
next
  fix lsb msb lsb' msb' :: nat and w v :: u64
  assume "lsb \<le> msb" "msb < 64" "lsb' \<le> msb'" "msb' < 64" "msb < lsb' \<or> msb' < lsb"
  then show "bit_range shift_mask_ops (set_bit_range shift_mask_ops w msb lsb v) msb' lsb'
      = bit_range shift_mask_ops w msb' lsb'"
    by (intro bit_word_eqI) (auto simp: shift_mask_ops_def bit_simps)
qed (auto simp: shift_mask_ops_def take_bit_word_eq_self)

section \<open>Properties\<close>

text \<open>
  \<open>fit_order\<close> returns the smallest order whose block size holds \<open>size\<close> bytes, for every
  size from 9 bytes to the whole address space (smaller sizes underflow and panic).
\<close>

theorem fit_order_smallest:
  assumes "8 < n" and "n \<le> 2 ^ 64"
  shows "\<exists>k. fit_order n = (Ok k :: ('e, nat) outcome) \<and> n \<le> order_to_size k
    \<and> (\<forall>j. n \<le> order_to_size j \<longrightarrow> k \<le> j)"
proof -
  obtain k where k: "fit_order n = (Ok k :: ('e, nat) outcome)"
    using fit_order_eq [OF assms] by blast
  then show ?thesis
    using fit_order_le_iff [OF assms k] by blast
qed

theorem fit_order_smallest_witness:
  "(8::nat) < 100 \<and> (\<exists>k. fit_order 100 = (Ok k :: (nat, nat) outcome) \<and> 100 \<le> order_to_size k
    \<and> (\<forall>j. 100 \<le> order_to_size j \<longrightarrow> k \<le> j))"
  using fit_order_smallest [of 100, where ?'e = nat] by simp

end
