(* ===== verification/Inspect_Block.thy ===== *)
theory Inspect_Block
  imports Inspect_Format Shared_Buffer
begin

text \<open>
  The model of \<^verbatim>\<open>src/public/rust/fuchsia-inspect/src/block.rs\<close>: reading and writing the blocks
  of an Inspect VMO. A block handle is its index; the container it reads is a mapped VMO
  or a byte slice, and the methods that write act on the bytes of the mapping. Doubles are
  their bit patterns and \<open>i64\<close> values their two's complement words, as the code converts
  them with \<open>to_bits\<close> and \<open>to_le_bytes\<close>.
\<close>

section \<open>Errors and containers\<close>

datatype inspect_error =
    OrderTooBig
  | CannotFreeType block_type
  | InvalidIndex
  | HeapAtMaximumSize
  | InvalidOrderInBlock nat nat
  | ExpectedType block_type block_type
  | IndexOutOfBounds nat
  | InvalidArrayEntryType block_type block_type
  | ExpectedLocked bool
  | ExpectedNodeOrTombstone block_type
  | NotAnyValue block_type
  | OrderMustBeLess nat
  | CannotSwap
  | InvalidEntryType
  | InvalidBlockType block_type
  | InvalidParentIndex nat inspect_error
  | CannotAllocateBlockOfSize nat
  | ExpectedHeaderAtZero
  | FailedToParseName
  | CannotFindIndex nat
  | MalformedTree
  | TooManySlots
  | UnexpectedArrayEntryType
  | FailedToGetExtent
  | FailedToReadSnapshot
  | ExpectedBlockWithHeader

datatype container = Mapping "u8 list" | Slice "u8 list"

fun read_bytes :: "container \<Rightarrow> nat \<Rightarrow> u8 list \<Rightarrow> ('e, nat \<times> u8 list) outcome" where
  "read_bytes (Mapping m) offset bytes = buffer_read_at m offset bytes"
| "read_bytes (Slice s) offset bytes =
     (if offset \<ge> length s then Ok (0, bytes)
      else let upper_bound = min (length s) (length bytes + offset);
               bytes_read = upper_bound - offset
           in Ok (bytes_read, window s offset bytes_read @ drop bytes_read bytes))"

section \<open>Reading a block\<close>

definition header_offset :: "nat \<Rightarrow> nat" where
  "header_offset i = offset_for_index i"

definition payload_offset :: "nat \<Rightarrow> nat" where
  "payload_offset i = offset_for_index i + HEADER_SIZE_BYTES"

definition read_header :: "container \<Rightarrow> nat \<Rightarrow> ('e, u64) outcome" where
  "read_header c i = bindO (read_bytes c (header_offset i) (replicate 8 0)) (\<lambda>(_, bytes).
     Ok (u64_from_le_bytes bytes))"

definition read_payload :: "container \<Rightarrow> nat \<Rightarrow> ('e, u64) outcome" where
  "read_payload c i = bindO (read_bytes c (payload_offset i) (replicate 8 0)) (\<lambda>(_, bytes).
     Ok (u64_from_le_bytes bytes))"

definition header_field :: "(crate_ops \<Rightarrow> u64 \<Rightarrow> 'a) \<Rightarrow> crate_ops \<Rightarrow> container \<Rightarrow> nat \<Rightarrow> ('e, 'a) outcome" where
  "header_field f cr c i = bindO (read_header c i) (\<lambda>h. Ok (f cr h))"

definition payload_field :: "(crate_ops \<Rightarrow> u64 \<Rightarrow> 'a) \<Rightarrow> crate_ops \<Rightarrow> container \<Rightarrow> nat \<Rightarrow> ('e, 'a) outcome" where
  "payload_field f cr c i = bindO (read_payload c i) (\<lambda>p. Ok (f cr p))"

definition block_order :: "crate_ops \<Rightarrow> container \<Rightarrow> nat \<Rightarrow> ('e, nat) outcome" where
  "block_order cr c i = header_field hdr_order cr c i"

definition get_block_type :: "crate_ops \<Rightarrow> container \<Rightarrow> nat \<Rightarrow> ('e, block_type) outcome" where
  "get_block_type cr c i = bindO (read_header c i) (\<lambda>h.
     case block_type_from_u8 (hdr_block_type cr h) of Some t \<Rightarrow> Ok t | None \<Rightarrow> Panic)"

definition check_type :: "crate_ops \<Rightarrow> container \<Rightarrow> nat \<Rightarrow> block_type \<Rightarrow> (inspect_error, unit) outcome" where
  "check_type cr c i t = bindO (get_block_type cr c i) (\<lambda>t'.
     if t' \<noteq> t then Err (ExpectedType t t') else Ok ())"

definition check_any_value :: "crate_ops \<Rightarrow> container \<Rightarrow> nat \<Rightarrow> (inspect_error, unit) outcome" where
  "check_any_value cr c i = bindO (get_block_type cr c i) (\<lambda>t.
     if is_any_value t then Ok () else Err (NotAnyValue t))"

definition check_node_or_tombstone :: "crate_ops \<Rightarrow> container \<Rightarrow> nat \<Rightarrow> (inspect_error, unit) outcome" where
  "check_node_or_tombstone cr c i = bindO (get_block_type cr c i) (\<lambda>t.
     if is_node_or_tombstone t then Ok () else Err (ExpectedNodeOrTombstone t))"

definition check_locked :: "crate_ops \<Rightarrow> container \<Rightarrow> nat \<Rightarrow> bool \<Rightarrow> (inspect_error, unit) outcome" where
  "check_locked cr c i value = bindO (read_payload c i) (\<lambda>p.
     if (pl_header_generation_count cr p AND 1 = 1) \<noteq> value then Err (ExpectedLocked value) else Ok ())"

definition header_magic where
  "header_magic cr c i = bindO (check_type cr c i Header) (\<lambda>_. header_field hdr_header_magic cr c i)"

definition header_version where
  "header_version cr c i = bindO (check_type cr c i Header) (\<lambda>_. header_field hdr_header_version cr c i)"

definition block_generation_count where
  "block_generation_count cr c i =
     bindO (check_type cr c i Header) (\<lambda>_. payload_field pl_header_generation_count cr c i)"

definition header_is_locked :: "crate_ops \<Rightarrow> container \<Rightarrow> nat \<Rightarrow> (inspect_error, bool) outcome" where
  "header_is_locked cr c i = bindO (check_type cr c i Header) (\<lambda>_.
     bindO (read_payload c i) (\<lambda>p. Ok (pl_header_generation_count cr p AND 1 = 1)))"

definition double_value where
  "double_value cr c i = bindO (check_type cr c i DoubleValue) (\<lambda>_. payload_field pl_numeric_value cr c i)"

definition int_value where
  "int_value cr c i = bindO (check_type cr c i IntValue) (\<lambda>_.
     bindO (read_payload c i) (\<lambda>p.
       Ok (u64_from_le_bytes (u64_to_le_bytes (pl_numeric_value cr p)))))"

definition uint_value where
  "uint_value cr c i = bindO (check_type cr c i UintValue) (\<lambda>_. payload_field pl_numeric_value cr c i)"

definition property_extent_index where
  "property_extent_index cr c i =
     bindO (check_type cr c i PropertyValue) (\<lambda>_. payload_field pl_property_extent_index cr c i)"

definition property_total_length where
  "property_total_length cr c i =
     bindO (check_type cr c i PropertyValue) (\<lambda>_. payload_field pl_property_total_length cr c i)"

definition get_property_format :: "crate_ops \<Rightarrow> container \<Rightarrow> nat \<Rightarrow> (inspect_error, property_format) outcome" where
  "get_property_format cr c i = bindO (check_type cr c i PropertyValue) (\<lambda>_.
     bindO (read_payload c i) (\<lambda>p.
       case property_format_from_u8 (pl_property_flags cr p) of Some f \<Rightarrow> Ok f | None \<Rightarrow> Panic))"

definition next_extent where
  "next_extent cr c i = bindO (check_type cr c i Extent) (\<lambda>_. header_field hdr_extent_next_index cr c i)"

definition extent_contents :: "crate_ops \<Rightarrow> container \<Rightarrow> nat \<Rightarrow> (inspect_error, u8 list) outcome" where
  "extent_contents cr c i = bindO (check_type cr c i Extent) (\<lambda>_.
     bindO (block_order cr c i) (\<lambda>order'.
     bindO (read_bytes c (payload_offset i) (replicate (payload_size_for_order order') 0)) (\<lambda>(_, bytes).
       Ok bytes)))"

definition name_index where
  "name_index cr c i = bindO (check_any_value cr c i) (\<lambda>_. header_field hdr_value_name_index cr c i)"

definition parent_index where
  "parent_index cr c i = bindO (check_any_value cr c i) (\<lambda>_. header_field hdr_value_parent_index cr c i)"

definition child_count where
  "child_count cr c i = bindO (check_node_or_tombstone cr c i) (\<lambda>_. payload_field pl_numeric_value cr c i)"

definition free_next_index where
  "free_next_index cr c i = bindO (check_type cr c i Free) (\<lambda>_. header_field hdr_free_next_index cr c i)"

definition name_length where
  "name_length cr c i = bindO (check_type cr c i Name) (\<lambda>_. header_field hdr_name_length cr c i)"

text \<open>A \<open>String\<close> is its UTF-8 bytes; \<open>from_utf8\<close> fails on bytes that are not UTF-8.\<close>

definition name_contents :: "crate_ops \<Rightarrow> container \<Rightarrow> nat \<Rightarrow> (inspect_error, u8 list) outcome" where
  "name_contents cr c i = bindO (check_type cr c i Name) (\<lambda>_.
     bindO (name_length cr c i) (\<lambda>n.
     bindO (read_bytes c (payload_offset i) (replicate n 0)) (\<lambda>(_, bytes).
       if utf8_valid bytes then Ok bytes else Panic)))"

definition get_array_format :: "crate_ops \<Rightarrow> container \<Rightarrow> nat \<Rightarrow> (inspect_error, array_format) outcome" where
  "get_array_format cr c i = bindO (check_type cr c i ArrayValue) (\<lambda>_.
     bindO (read_payload c i) (\<lambda>p.
       case array_format_from_u8 (pl_array_flags cr p) of Some f \<Rightarrow> Ok f | None \<Rightarrow> Panic))"

definition array_slots where
  "array_slots cr c i = bindO (check_type cr c i ArrayValue) (\<lambda>_. payload_field pl_array_slots_count cr c i)"

definition array_entry_type :: "crate_ops \<Rightarrow> container \<Rightarrow> nat \<Rightarrow> (inspect_error, block_type) outcome" where
  "array_entry_type cr c i = bindO (check_type cr c i ArrayValue) (\<lambda>_.
     bindO (read_payload c i) (\<lambda>p.
       case block_type_from_u8 (pl_array_entry_type cr p) of Some t \<Rightarrow> Ok t | None \<Rightarrow> Panic))"

definition check_array_entry_type :: "crate_ops \<Rightarrow> container \<Rightarrow> nat \<Rightarrow> block_type \<Rightarrow> (inspect_error, unit) outcome" where
  "check_array_entry_type cr c i expected = bindO (array_entry_type cr c i) (\<lambda>actual.
     if actual = expected then Ok () else Err (InvalidArrayEntryType expected actual))"

text \<open>The offset of a slot, after the bound check the slot accessors share.\<close>

definition array_slot_offset :: "crate_ops \<Rightarrow> block_type \<Rightarrow> container \<Rightarrow> nat \<Rightarrow> nat \<Rightarrow> (inspect_error, nat) outcome" where
  "array_slot_offset cr t c i slot_index = bindO (check_array_entry_type cr c i t) (\<lambda>_.
     bindO (block_order cr c i) (\<lambda>order'.
       if slot_index > array_capacity order' then Err (IndexOutOfBounds slot_index)
       else bindO (checked_add U32_LIMIT i 1) (\<lambda>i'. Ok (offset_for_index i' + slot_index * 8))))"

definition array_get_slot :: "crate_ops \<Rightarrow> block_type \<Rightarrow> container \<Rightarrow> nat \<Rightarrow> nat \<Rightarrow> (inspect_error, u64) outcome" where
  "array_get_slot cr t c i slot_index = bindO (array_slot_offset cr t c i slot_index) (\<lambda>off.
     bindO (read_bytes c off (replicate 8 0)) (\<lambda>(_, bytes). Ok (u64_from_le_bytes bytes)))"

definition array_get_int_slot where "array_get_int_slot cr = array_get_slot cr IntValue"
definition array_get_double_slot where "array_get_double_slot cr = array_get_slot cr DoubleValue"
definition array_get_uint_slot where "array_get_uint_slot cr = array_get_slot cr UintValue"

section \<open>Writing a block\<close>

text \<open>
  Methods that write act on the bytes of the mapping. Every one reads the block through
  the mapping it writes, so \<open>onM\<close> turns a read of the container into a step.
\<close>

type_synonym 'a mprog = "(u8 list, inspect_error, 'a) prog"

definition onM :: "(container \<Rightarrow> (inspect_error, 'a) outcome) \<Rightarrow> 'a mprog" where
  "onM f = readP (\<lambda>m. f (Mapping m))"

definition write_header :: "crate_ops \<Rightarrow> nat \<Rightarrow> u64 \<Rightarrow> unit mprog" where
  "write_header cr i h = bindP (buffer_write_at (header_offset i) (u64_to_le_bytes (hdr_value cr h)))
     (\<lambda>_. returnP ())"

definition write_payload_from_bytes :: "nat \<Rightarrow> u8 list \<Rightarrow> unit mprog" where
  "write_payload_from_bytes i bytes = bindP (buffer_write_at (payload_offset i) bytes) (\<lambda>_. returnP ())"

definition write_payload :: "crate_ops \<Rightarrow> nat \<Rightarrow> u64 \<Rightarrow> unit mprog" where
  "write_payload cr i p = write_payload_from_bytes i (u64_to_le_bytes (pl_value cr p))"

definition write_block :: "crate_ops \<Rightarrow> nat \<Rightarrow> u64 \<Rightarrow> u64 \<Rightarrow> unit mprog" where
  "write_block cr i h p = bindP (write_header cr i h) (\<lambda>_. write_payload cr i p)"

text \<open>Reading the header, changing it and writing it back, and the same for the payload.\<close>

definition update_header :: "crate_ops \<Rightarrow> nat \<Rightarrow> (u64 \<Rightarrow> u64) \<Rightarrow> unit mprog" where
  "update_header cr i f = bindP (onM (\<lambda>c. read_header c i)) (\<lambda>h. write_header cr i (f h))"

definition update_payload :: "crate_ops \<Rightarrow> nat \<Rightarrow> (u64 \<Rightarrow> u64) \<Rightarrow> unit mprog" where
  "update_payload cr i f = bindP (onM (\<lambda>c. read_payload c i)) (\<lambda>p. write_payload cr i (f p))"

definition new_free :: "crate_ops \<Rightarrow> nat \<Rightarrow> nat \<Rightarrow> nat \<Rightarrow> nat mprog" where
  "new_free cr i order' next_free =
     (if order' \<ge> NUM_ORDERS then throwP (OrderMustBeLess order')
      else bindP (write_header cr i
             (hdr_set_free_next_index cr next_free
             (hdr_set_block_type cr (block_type_to_u8 Free)
             (hdr_set_order cr order' 0)))) (\<lambda>_.
           returnP i))"

definition swap_blocks :: "crate_ops \<Rightarrow> container \<Rightarrow> nat \<Rightarrow> nat \<Rightarrow> (inspect_error, nat \<times> nat) outcome" where
  "swap_blocks cr c i j = bindO (block_order cr c i) (\<lambda>a. bindO (block_order cr c j) (\<lambda>b.
     if a \<noteq> b then Err CannotSwap else Ok (j, i)))"

definition set_order :: "crate_ops \<Rightarrow> nat \<Rightarrow> nat \<Rightarrow> unit mprog" where
  "set_order cr i order' =
     (if order' \<ge> NUM_ORDERS then throwP (OrderMustBeLess order')
      else update_header cr i (hdr_set_order cr order'))"

text \<open>\<open>become_header\<close> moves the block to index 0 and returns it.\<close>

definition become_header :: "crate_ops \<Rightarrow> nat \<Rightarrow> nat mprog" where
  "become_header cr i = bindP (onM (\<lambda>c. check_type cr c i Reserved)) (\<lambda>_.
     bindP (write_block cr 0
       (hdr_set_header_version cr HEADER_VERSION_NUMBER
       (hdr_set_header_magic cr HEADER_MAGIC_NUMBER
       (hdr_set_block_type cr (block_type_to_u8 Header)
       (hdr_set_order cr 0 0)))) 0) (\<lambda>_.
     returnP 0))"

definition increment_generation_count :: "crate_ops \<Rightarrow> nat \<Rightarrow> unit mprog" where
  "increment_generation_count cr i = update_payload cr i (\<lambda>p.
     let v = pl_header_generation_count cr p
     in pl_set_header_generation_count cr (if v = - 1 then 0 else v + 1) p)"

definition lock_header :: "crate_ops \<Rightarrow> nat \<Rightarrow> unit mprog" where
  "lock_header cr i = bindP (onM (\<lambda>c. check_type cr c i Header)) (\<lambda>_.
     bindP (onM (\<lambda>c. check_locked cr c i False)) (\<lambda>_.
       increment_generation_count cr i))"

definition unlock_header :: "crate_ops \<Rightarrow> nat \<Rightarrow> unit mprog" where
  "unlock_header cr i = bindP (onM (\<lambda>c. check_type cr c i Header)) (\<lambda>_.
     bindP (onM (\<lambda>c. check_locked cr c i True)) (\<lambda>_.
       increment_generation_count cr i))"

definition become_tombstone :: "crate_ops \<Rightarrow> nat \<Rightarrow> unit mprog" where
  "become_tombstone cr i = bindP (onM (\<lambda>c. check_type cr c i NodeValue)) (\<lambda>_.
     update_header cr i (hdr_set_block_type cr (block_type_to_u8 Tombstone)))"

definition become_reserved :: "crate_ops \<Rightarrow> nat \<Rightarrow> unit mprog" where
  "become_reserved cr i = bindP (onM (\<lambda>c. check_type cr c i Free)) (\<lambda>_.
     update_header cr i (hdr_set_block_type cr (block_type_to_u8 Reserved)))"

definition become_free :: "crate_ops \<Rightarrow> nat \<Rightarrow> nat \<Rightarrow> unit mprog" where
  "become_free cr i next' = update_header cr i (\<lambda>h.
     hdr_set_free_next_index cr next' (hdr_set_block_type cr (block_type_to_u8 Free) h))"

definition set_free_next_index :: "crate_ops \<Rightarrow> nat \<Rightarrow> nat \<Rightarrow> unit mprog" where
  "set_free_next_index cr i next_free = bindP (onM (\<lambda>c. check_type cr c i Free)) (\<lambda>_.
     update_header cr i (hdr_set_free_next_index cr next_free))"

definition write_value_header :: "crate_ops \<Rightarrow> nat \<Rightarrow> block_type \<Rightarrow> nat \<Rightarrow> nat \<Rightarrow> unit mprog" where
  "write_value_header cr i t name parent =
     (if \<not> is_any_value t then throwP (NotAnyValue t)
      else bindP (onM (\<lambda>c. check_type cr c i Reserved)) (\<lambda>_.
        update_header cr i (\<lambda>h.
          hdr_set_value_parent_index cr parent
          (hdr_set_value_name_index cr name
          (hdr_set_block_type cr (block_type_to_u8 t) h)))))"

definition become_array_value :: "crate_ops \<Rightarrow> nat \<Rightarrow> nat \<Rightarrow> array_format \<Rightarrow> block_type \<Rightarrow> nat \<Rightarrow> nat \<Rightarrow> unit mprog" where
  "become_array_value cr i slots format entry_type name parent =
     (if \<not> is_numeric_value entry_type then throwP InvalidEntryType
      else bindP (write_value_header cr i ArrayValue name parent) (\<lambda>_.
        write_payload cr i
          (pl_set_array_slots_count cr slots
          (pl_set_array_flags cr (array_format_to_u8 format)
          (pl_set_array_entry_type cr (block_type_to_u8 entry_type) 0)))))"

definition array_set_slot :: "crate_ops \<Rightarrow> block_type \<Rightarrow> nat \<Rightarrow> nat \<Rightarrow> u64 \<Rightarrow> unit mprog" where
  "array_set_slot cr t i slot_index v =
     bindP (onM (\<lambda>c. array_slot_offset cr t c i slot_index)) (\<lambda>off.
     bindP (buffer_write_at off (u64_to_le_bytes v)) (\<lambda>_. returnP ()))"

definition array_set_int_slot where "array_set_int_slot cr = array_set_slot cr IntValue"
definition array_set_double_slot where "array_set_double_slot cr = array_set_slot cr DoubleValue"
definition array_set_uint_slot where "array_set_uint_slot cr = array_set_slot cr UintValue"

definition become_extent :: "crate_ops \<Rightarrow> nat \<Rightarrow> nat \<Rightarrow> unit mprog" where
  "become_extent cr i next_extent_index = bindP (onM (\<lambda>c. check_type cr c i Reserved)) (\<lambda>_.
     update_header cr i (\<lambda>h. hdr_set_extent_next_index cr next_extent_index
       (hdr_set_block_type cr (block_type_to_u8 Extent) h)))"

definition set_extent_next_index :: "crate_ops \<Rightarrow> nat \<Rightarrow> nat \<Rightarrow> unit mprog" where
  "set_extent_next_index cr i next_extent_index = bindP (onM (\<lambda>c. check_type cr c i Extent)) (\<lambda>_.
     update_header cr i (hdr_set_extent_next_index cr next_extent_index))"

definition extent_set_contents :: "crate_ops \<Rightarrow> nat \<Rightarrow> u8 list \<Rightarrow> nat mprog" where
  "extent_set_contents cr i value = bindP (onM (\<lambda>c. check_type cr c i Extent)) (\<lambda>_.
     bindP (onM (\<lambda>c. block_order cr c i)) (\<lambda>order'.
       let max_bytes = payload_size_for_order order';
           bytes = (if length value > max_bytes then take (min (length value) max_bytes) value else value)
       in bindP (write_payload_from_bytes i bytes) (\<lambda>_. returnP (length bytes))))"

definition set_double_value :: "crate_ops \<Rightarrow> nat \<Rightarrow> u64 \<Rightarrow> unit mprog" where
  "set_double_value cr i v = bindP (onM (\<lambda>c. check_type cr c i DoubleValue)) (\<lambda>_.
     update_payload cr i (pl_set_numeric_value cr v))"

definition become_double_value :: "crate_ops \<Rightarrow> nat \<Rightarrow> u64 \<Rightarrow> nat \<Rightarrow> nat \<Rightarrow> unit mprog" where
  "become_double_value cr i v name parent =
     bindP (write_value_header cr i DoubleValue name parent) (\<lambda>_. set_double_value cr i v)"

definition set_int_value :: "crate_ops \<Rightarrow> nat \<Rightarrow> u64 \<Rightarrow> unit mprog" where
  "set_int_value cr i v = bindP (onM (\<lambda>c. check_type cr c i IntValue)) (\<lambda>_.
     update_payload cr i (pl_set_numeric_value cr (read_u64 cr (u64_to_le_bytes v))))"

definition become_int_value :: "crate_ops \<Rightarrow> nat \<Rightarrow> u64 \<Rightarrow> nat \<Rightarrow> nat \<Rightarrow> unit mprog" where
  "become_int_value cr i v name parent =
     bindP (write_value_header cr i IntValue name parent) (\<lambda>_. set_int_value cr i v)"

definition set_uint_value :: "crate_ops \<Rightarrow> nat \<Rightarrow> u64 \<Rightarrow> unit mprog" where
  "set_uint_value cr i v = bindP (onM (\<lambda>c. check_type cr c i UintValue)) (\<lambda>_.
     update_payload cr i (pl_set_numeric_value cr v))"

definition become_uint_value :: "crate_ops \<Rightarrow> nat \<Rightarrow> u64 \<Rightarrow> nat \<Rightarrow> nat \<Rightarrow> unit mprog" where
  "become_uint_value cr i v name parent =
     bindP (write_value_header cr i UintValue name parent) (\<lambda>_. set_uint_value cr i v)"

definition become_node :: "crate_ops \<Rightarrow> nat \<Rightarrow> nat \<Rightarrow> nat \<Rightarrow> unit mprog" where
  "become_node cr i name parent =
     bindP (write_value_header cr i NodeValue name parent) (\<lambda>_. write_payload cr i 0)"

definition become_property :: "crate_ops \<Rightarrow> nat \<Rightarrow> nat \<Rightarrow> nat \<Rightarrow> property_format \<Rightarrow> unit mprog" where
  "become_property cr i name parent format =
     bindP (write_value_header cr i PropertyValue name parent) (\<lambda>_.
       write_payload cr i (pl_set_property_flags cr (property_format_to_u8 format) 0))"

definition set_property_total_length :: "crate_ops \<Rightarrow> nat \<Rightarrow> nat \<Rightarrow> unit mprog" where
  "set_property_total_length cr i n = bindP (onM (\<lambda>c. check_type cr c i PropertyValue)) (\<lambda>_.
     update_payload cr i (pl_set_property_total_length cr n))"

definition set_property_extent_index :: "crate_ops \<Rightarrow> nat \<Rightarrow> nat \<Rightarrow> unit mprog" where
  "set_property_extent_index cr i n = bindP (onM (\<lambda>c. check_type cr c i PropertyValue)) (\<lambda>_.
     update_payload cr i (pl_set_property_extent_index cr n))"

definition set_child_count :: "crate_ops \<Rightarrow> nat \<Rightarrow> u64 \<Rightarrow> unit mprog" where
  "set_child_count cr i n = bindP (onM (\<lambda>c. check_node_or_tombstone cr c i)) (\<lambda>_.
     write_payload cr i n)"

definition become_name :: "crate_ops \<Rightarrow> nat \<Rightarrow> u8 list \<Rightarrow> unit mprog" where
  "become_name cr i name = bindP (onM (\<lambda>c. check_type cr c i Reserved)) (\<lambda>_.
     bindP (onM (\<lambda>c. block_order cr c i)) (\<lambda>order'.
       let max_len = payload_size_for_order order';
           bytes = (if length name > max_len then take (min (length name) max_len) name else name)
       in if length bytes > U16_MAX then readP (\<lambda>_. Panic)
          else bindP (update_header cr i (\<lambda>h. hdr_set_name_length cr (length bytes)
                 (hdr_set_block_type cr (block_type_to_u8 Name) h))) (\<lambda>_.
               write_payload_from_bytes i bytes)))"

section \<open>The words of a block\<close>

text \<open>
  The header and the payload word of the block at an index, and the mapping with one of
  them replaced. Inside the mapping every accessor is a function of these words; the
  lemmas below are the only place where byte offsets are reasoned about.
\<close>

definition block_in :: "u8 list \<Rightarrow> nat \<Rightarrow> bool" where
  "block_in m i \<longleftrightarrow> 16 * i + 16 \<le> length m"

definition hdr_at :: "u8 list \<Rightarrow> nat \<Rightarrow> u64" where
  "hdr_at m i = u64_from_le_bytes (window m (16 * i) 8)"

definition pl_at :: "u8 list \<Rightarrow> nat \<Rightarrow> u64" where
  "pl_at m i = u64_from_le_bytes (window m (16 * i + 8) 8)"

definition put_hdr :: "nat \<Rightarrow> u64 \<Rightarrow> u8 list \<Rightarrow> u8 list" where
  "put_hdr i w m = overwrite m (16 * i) (u64_to_le_bytes w)"

definition put_pl :: "nat \<Rightarrow> u64 \<Rightarrow> u8 list \<Rightarrow> u8 list" where
  "put_pl i w m = overwrite m (16 * i + 8) (u64_to_le_bytes w)"

lemma length_put [simp]: "length (put_hdr i w m) = length m" "length (put_pl i w m) = length m"
  by (simp_all add: put_hdr_def put_pl_def)

lemma block_in_put [simp]: "block_in (put_hdr i w m) j = block_in m j" "block_in (put_pl i w m) j = block_in m j"
  by (simp_all add: block_in_def)

lemma put_put [simp]:
  "put_hdr i w (put_hdr i v m) = put_hdr i w m" "put_pl i w (put_pl i v m) = put_pl i w m"
  by (simp_all add: put_hdr_def put_pl_def overwrite_overwrite)

lemma window_overwrite_8:
  assumes "off + 8 \<le> length m"
  shows "window (overwrite m off (u64_to_le_bytes w)) off 8 = u64_to_le_bytes w"
  using window_overwrite_same [of off "u64_to_le_bytes w" m] assms by simp

lemma hdr_at_put_hdr [simp]:
  assumes "block_in m i"
  shows "hdr_at (put_hdr i w m) j = (if i = j then w else hdr_at m j)"
proof (cases "i = j")
  case True
  with assms show ?thesis by (simp add: hdr_at_def put_hdr_def block_in_def window_overwrite_8)
next
  case False
  then have "16 * j + 8 \<le> 16 * i \<or> 16 * i + 8 \<le> 16 * j" by linarith
  with assms False show ?thesis
    by (simp add: hdr_at_def put_hdr_def block_in_def window_overwrite_disjoint)
qed

lemma pl_at_put_pl [simp]:
  assumes "block_in m i"
  shows "pl_at (put_pl i w m) j = (if i = j then w else pl_at m j)"
proof (cases "i = j")
  case True
  with assms show ?thesis by (simp add: pl_at_def put_pl_def block_in_def window_overwrite_8)
next
  case False
  then have "16 * j + 16 \<le> 16 * i + 8 \<or> 16 * i + 16 \<le> 16 * j + 8" by linarith
  with assms False show ?thesis
    by (simp add: pl_at_def put_pl_def block_in_def window_overwrite_disjoint)
qed

lemma hdr_at_put_pl [simp]:
  shows "hdr_at (put_pl i w m) j = hdr_at m j"
proof -
  have "window (overwrite m (16 * i + 8) (u64_to_le_bytes w)) (16 * j) 8 = window m (16 * j) 8"
    by (rule window_overwrite_disjoint) auto
  then show ?thesis
    by (simp add: hdr_at_def put_pl_def)
qed

lemma pl_at_put_hdr [simp]:
  shows "pl_at (put_hdr i w m) j = pl_at m j"
proof -
  have "window (overwrite m (16 * i) (u64_to_le_bytes w)) (16 * j + 8) 8 = window m (16 * j + 8) 8"
    by (rule window_overwrite_disjoint) auto
  then show ?thesis
    by (simp add: pl_at_def put_hdr_def)
qed

lemma buffer_read_at_in:
  "off + length dst \<le> length m \<Longrightarrow> buffer_read_at m off dst = Ok (length dst, window m off (length dst))"
  by (simp add: buffer_read_at_def Let_def min_absorb1)

lemma read_header_in [simp]: "block_in m i \<Longrightarrow> read_header (Mapping m) i = Ok (hdr_at m i)"
  by (simp add: read_header_def buffer_read_at_in header_offset_def offset_for_index_eq block_in_def
      hdr_at_def)

lemma read_payload_in [simp]: "block_in m i \<Longrightarrow> read_payload (Mapping m) i = Ok (pl_at m i)"
  by (simp add: read_payload_def buffer_read_at_in payload_offset_def offset_for_index_eq block_in_def
      pl_at_def HEADER_SIZE_BYTES_def)

lemma onM_apply [simp]: "onM f m = (f (Mapping m), m)"
  by (simp add: onM_def)

lemma bindP_onM_Ok [simp]: "f (Mapping m) = Ok a \<Longrightarrow> bindP (onM f) g m = g a m"
  by (simp add: onM_def)

lemma bindP_onM_Err [simp]: "f (Mapping m) = Err e \<Longrightarrow> bindP (onM f) g m = (Err e, m)"
  by (simp add: onM_def bindP_readP)

section \<open>Blocks inside the mapping\<close>

definition ord_at :: "crate_ops \<Rightarrow> u8 list \<Rightarrow> nat \<Rightarrow> nat" where
  "ord_at cr m i = hdr_order cr (hdr_at m i)"

definition type_at :: "crate_ops \<Rightarrow> u8 list \<Rightarrow> nat \<Rightarrow> block_type option" where
  "type_at cr m i = block_type_from_u8 (hdr_block_type cr (hdr_at m i))"

definition next_at :: "crate_ops \<Rightarrow> u8 list \<Rightarrow> nat \<Rightarrow> nat" where
  "next_at cr m i = hdr_free_next_index cr (hdr_at m i)"

context inspect_crates
begin

lemma block_order_in [simp]: "block_in m i \<Longrightarrow> block_order cr (Mapping m) i = Ok (ord_at cr m i)"
  by (simp add: block_order_def header_field_def ord_at_def)

lemma get_block_type_in [simp]:
  "block_in m i \<Longrightarrow> type_at cr m i = Some t \<Longrightarrow> get_block_type cr (Mapping m) i = Ok t"
  by (simp add: get_block_type_def type_at_def)

lemma get_block_type_Ok_iff:
  "block_in m i \<Longrightarrow> get_block_type cr (Mapping m) i = Ok t \<longleftrightarrow> type_at cr m i = Some t"
  by (simp add: get_block_type_def type_at_def split: option.splits)

lemma check_type_in [simp]:
  "block_in m i \<Longrightarrow> type_at cr m i = Some t' \<Longrightarrow>
    check_type cr (Mapping m) i t = (if t' = t then Ok () else Err (ExpectedType t t'))"
  by (simp add: check_type_def)

lemma check_type_Ok_iff:
  "block_in m i \<Longrightarrow> check_type cr (Mapping m) i t = Ok () \<longleftrightarrow> type_at cr m i = Some t"
  by (auto simp: check_type_def bindO_eq_Ok_iff get_block_type_Ok_iff split: if_splits)

lemma write_header_in [simp]: "block_in m i \<Longrightarrow> write_header cr i h m = (Ok (), put_hdr i h m)"
  by (simp add: write_header_def buffer_write_at_def bindP_def header_offset_def offset_for_index_eq
      block_in_def put_hdr_def)

lemma write_payload_in [simp]: "block_in m i \<Longrightarrow> write_payload cr i p m = (Ok (), put_pl i p m)"
  by (simp add: write_payload_def write_payload_from_bytes_def buffer_write_at_def bindP_def
      payload_offset_def offset_for_index_eq block_in_def put_pl_def HEADER_SIZE_BYTES_def)

lemma update_header_in [simp]:
  "block_in m i \<Longrightarrow> update_header cr i f m = (Ok (), put_hdr i (f (hdr_at m i)) m)"
  by (simp add: update_header_def)

lemma update_payload_in [simp]:
  "block_in m i \<Longrightarrow> update_payload cr i f m = (Ok (), put_pl i (f (pl_at m i)) m)"
  by (simp add: update_payload_def)

lemma free_next_index_in [simp]:
  "block_in m i \<Longrightarrow> type_at cr m i = Some Free \<Longrightarrow> free_next_index cr (Mapping m) i = Ok (next_at cr m i)"
  by (simp add: free_next_index_def header_field_def next_at_def)

lemma set_order_in:
  "block_in m i \<Longrightarrow> k < NUM_ORDERS \<Longrightarrow>
    set_order cr i k m = (Ok (), put_hdr i (hdr_set_order cr k (hdr_at m i)) m)"
  by (simp add: set_order_def)

lemma become_free_in:
  "block_in m i \<Longrightarrow> become_free cr i n m =
    (Ok (), put_hdr i (hdr_set_free_next_index cr n (hdr_set_block_type cr 0 (hdr_at m i))) m)"
  by (simp add: become_free_def)

lemma become_reserved_in:
  "block_in m i \<Longrightarrow> type_at cr m i = Some Free \<Longrightarrow>
    become_reserved cr i m = (Ok (), put_hdr i (hdr_set_block_type cr 1 (hdr_at m i)) m)"
  by (simp add: become_reserved_def)

lemma new_free_in:
  "block_in m i \<Longrightarrow> k < NUM_ORDERS \<Longrightarrow>
    new_free cr i k n m = (Ok i, put_hdr i
      (hdr_set_free_next_index cr n (hdr_set_block_type cr 0 (hdr_set_order cr k 0))) m)"
  by (simp add: new_free_def bindP_def)

lemma set_free_next_index_in:
  "block_in m i \<Longrightarrow> type_at cr m i = Some Free \<Longrightarrow>
    set_free_next_index cr i n m = (Ok (), put_hdr i (hdr_set_free_next_index cr n (hdr_at m i)) m)"
  by (simp add: set_free_next_index_def)

lemma ord_at_put [simp]:
  "block_in m i \<Longrightarrow> ord_at cr (put_hdr i w m) = (ord_at cr m)(i := hdr_order cr w)"
  "ord_at cr (put_pl i w m) = ord_at cr m"
  by (simp_all add: ord_at_def fun_eq_iff)

lemma type_at_put [simp]:
  "block_in m i \<Longrightarrow>
    type_at cr (put_hdr i w m) = (type_at cr m)(i := block_type_from_u8 (hdr_block_type cr w))"
  "type_at cr (put_pl i w m) = type_at cr m"
  by (simp_all add: type_at_def fun_eq_iff)

lemma next_at_put [simp]:
  "block_in m i \<Longrightarrow> next_at cr (put_hdr i w m) = (next_at cr m)(i := hdr_free_next_index cr w)"
  "next_at cr (put_pl i w m) = next_at cr m"
  by (simp_all add: next_at_def fun_eq_iff)

lemma block_type_to_u8_mod_16 [simp]: "block_type_to_u8 t mod 16 = block_type_to_u8 t"
  by (cases t) simp_all

lemma block_type_from_u8_0_1 [simp]:
  "block_type_from_u8 0 = Some Free" "block_type_from_u8 (Suc 0) = Some Reserved"
  by (simp_all add: block_type_from_u8_def block_types_def)

end

end
