(* ===== verification/Inspect_Heap.thy ===== *)
theory Inspect_Heap
  imports Inspect_Block
begin

text \<open>
  The model of \<^verbatim>\<open>src/public/rust/fuchsia-inspect/src/heap.rs\<close>: the buddy allocator that carves
  the blocks of an Inspect VMO out of the mapping. The free lists are threaded through the
  headers of the free blocks, with index 0 as the end marker.
\<close>

section \<open>The heap\<close>

record heap =
  mapping :: "u8 list"
  current_size_bytes :: nat
  free_head_per_order :: "nat list"

type_synonym 'a hprog = "(heap, inspect_error, 'a) prog"

text \<open>Block methods called on the mapping of the heap.\<close>

definition onB :: "'a mprog \<Rightarrow> 'a hprog" where
  "onB = zoomP mapping (\<lambda>m h. h\<lparr>mapping := m\<rparr>)"

definition readB :: "(container \<Rightarrow> (inspect_error, 'a) outcome) \<Rightarrow> 'a hprog" where
  "readB f = readP (\<lambda>h. f (Mapping (mapping h)))"

text \<open>Indexing the array of list heads panics out of range.\<close>

definition head_at :: "heap \<Rightarrow> nat \<Rightarrow> ('e, nat) outcome" where
  "head_at h k = (if k < length (free_head_per_order h) then Ok (free_head_per_order h ! k) else Panic)"

definition set_head :: "nat \<Rightarrow> nat \<Rightarrow> unit hprog" where
  "set_head k v h = (if k < length (free_head_per_order h)
     then (Ok (), h\<lparr>free_head_per_order := (free_head_per_order h)[k := v]\<rparr>) else (Panic, h))"

definition get_block :: "crate_ops \<Rightarrow> heap \<Rightarrow> nat \<Rightarrow> (inspect_error, nat) outcome" where
  "get_block cr h index =
     (let offset = offset_for_index index in
      if offset \<ge> current_size_bytes h then Err InvalidIndex
      else bindO (block_order cr (Mapping (mapping h)) index) (\<lambda>order'.
        if current_size_bytes h - offset < order_to_size order' then Err InvalidIndex else Ok index))"

definition is_free_block :: "crate_ops \<Rightarrow> heap \<Rightarrow> nat \<Rightarrow> nat \<Rightarrow> (inspect_error, bool) outcome" where
  "is_free_block cr h index expected_order =
     (if index \<ge> current_size_bytes h div MIN_ORDER_SIZE then Ok False
      else case get_block cr h index of
        Err _ \<Rightarrow> Ok False
      | Ok block \<Rightarrow> bindO (get_block_type cr (Mapping (mapping h)) block) (\<lambda>t.
          if t = Free then bindO (block_order cr (Mapping (mapping h)) block) (\<lambda>order'.
            Ok (order' = expected_order))
          else Ok False)
      | Panic \<Rightarrow> Panic
      | Diverge \<Rightarrow> Diverge)"

definition buddy :: "nat \<Rightarrow> nat \<Rightarrow> ('e, nat) outcome" where
  "buddy index order' = bindO (index_for_offset (order_to_size order')) (\<lambda>d. Ok (index XOR d))"

definition grow_step :: "crate_ops \<Rightarrow> nat \<Rightarrow> nat \<times> nat \<Rightarrow> (heap, inspect_error, (nat \<times> nat) + nat) prog" where
  "grow_step cr min_index = (\<lambda>(curr_index, last_index).
     bindP (readP (\<lambda>_. bindO (index_for_offset MAX_ORDER_SIZE) (checked_sub curr_index))) (\<lambda>curr.
     bindP (unwrapP (onB (new_free cr curr (NUM_ORDERS - 1) last_index))) (\<lambda>_.
       returnP (if curr \<le> min_index then Inr curr else Inl (curr, curr)))))"

definition grow_heap :: "crate_ops \<Rightarrow> nat \<Rightarrow> unit hprog" where
  "grow_heap cr requested_size =
     bindP (getP (\<lambda>h. length (mapping h))) (\<lambda>mapping_size.
     bindP (getP current_size_bytes) (\<lambda>current.
       if current = mapping_size \<and> requested_size > mapping_size then throwP HeapAtMaximumSize
       else let new_size = min mapping_size requested_size in
         bindP (readP (\<lambda>_. index_for_offset current)) (\<lambda>min_index.
         bindP (readP (\<lambda>h. head_at h (NUM_ORDERS - 1))) (\<lambda>last_index.
         bindP (readP (\<lambda>_. index_for_offset (new_size - new_size mod PAGE_SIZE_BYTES))) (\<lambda>curr_index.
         bindP (loopP (grow_step cr min_index) (curr_index, last_index)) (\<lambda>last.
         bindP (set_head (NUM_ORDERS - 1) last) (\<lambda>_.
           modifyP (\<lambda>h. h\<lparr>current_size_bytes := new_size\<rparr>))))))))"

definition remove_free_step :: "crate_ops \<Rightarrow> nat \<Rightarrow> nat \<Rightarrow> nat \<Rightarrow> (heap, inspect_error, nat + bool) prog" where
  "remove_free_step cr block order' next_index =
     bindP (readP (\<lambda>h. is_free_block cr h next_index order')) (\<lambda>free.
       if \<not> free then returnP (Inr False)
       else bindP (readP (\<lambda>h. unwrapO (get_block cr h next_index))) (\<lambda>curr_block.
            bindP (readB (\<lambda>c. free_next_index cr c curr_block)) (\<lambda>next'.
              if next' = block then
                bindP (readB (\<lambda>c. free_next_index cr c block)) (\<lambda>after.
                bindP (onB (set_free_next_index cr curr_block after)) (\<lambda>_.
                  returnP (Inr True)))
              else returnP (Inl next'))))"

definition remove_free :: "crate_ops \<Rightarrow> nat \<Rightarrow> bool hprog" where
  "remove_free cr block =
     bindP (readB (\<lambda>c. block_order cr c block)) (\<lambda>order'.
       if order' \<ge> NUM_ORDERS then returnP False
       else bindP (readP (\<lambda>h. head_at h order')) (\<lambda>next_index.
         if next_index = block then
           bindP (readB (\<lambda>c. free_next_index cr c block)) (\<lambda>after.
           bindP (set_head order' after) (\<lambda>_. returnP True))
         else loopP (remove_free_step cr block order') next_index))"

definition split_block :: "crate_ops \<Rightarrow> nat \<Rightarrow> unit hprog" where
  "split_block cr block =
     bindP (readB (\<lambda>c. block_order cr c block)) (\<lambda>o1.
       if o1 \<ge> NUM_ORDERS then throwP (InvalidOrderInBlock o1 block)
       else bindP (remove_free cr block) (\<lambda>_.
         bindP (readB (\<lambda>c. block_order cr c block)) (\<lambda>order'.
         bindP (readP (\<lambda>_. checked_sub order' 1)) (\<lambda>lower.
         bindP (readP (\<lambda>_. buddy block lower)) (\<lambda>buddy_index.
         bindP (onB (set_order cr block lower)) (\<lambda>_.
         bindP (onB (become_free cr block buddy_index)) (\<lambda>_.
         bindP (onB (set_order cr buddy_index lower)) (\<lambda>_.
         bindP (readP (\<lambda>h. head_at h lower)) (\<lambda>head.
         bindP (onB (become_free cr buddy_index head)) (\<lambda>_.
           set_head lower block))))))))))"

fun find_free_order :: "crate_ops \<Rightarrow> heap \<Rightarrow> nat list \<Rightarrow> (inspect_error, nat option) outcome" where
  "find_free_order cr h [] = Ok None"
| "find_free_order cr h (k # ks) = bindO (head_at h k) (\<lambda>head.
     bindO (is_free_block cr h head k) (\<lambda>free.
       if free then Ok (Some k) else find_free_order cr h ks))"

definition split_step :: "crate_ops \<Rightarrow> nat \<Rightarrow> nat \<Rightarrow> unit \<Rightarrow> (heap, inspect_error, unit + unit) prog" where
  "split_step cr block min_fit_order = (\<lambda>_.
     bindP (readB (\<lambda>c. block_order cr c block)) (\<lambda>order'.
       if order' > min_fit_order then bindP (split_block cr block) (\<lambda>_. returnP (Inl ()))
       else returnP (Inr ())))"

text \<open>The second half of \<open>allocate_block\<close>: the first block of the list found is cut to size and reserved.\<close>

definition carve_block :: "crate_ops \<Rightarrow> nat \<Rightarrow> nat \<Rightarrow> nat hprog" where
  "carve_block cr min_fit_order next_order =
     bindP (readP (\<lambda>h. head_at h next_order)) (\<lambda>next_block_index.
     bindP (readP (\<lambda>h. unwrapO (get_block cr h next_block_index))) (\<lambda>block.
     bindP (loopP (split_step cr block min_fit_order) ()) (\<lambda>_.
     bindP (remove_free cr block) (\<lambda>_.
     bindP (unwrapP (onB (become_reserved cr block))) (\<lambda>_.
       returnP block)))))"

definition allocate_block :: "crate_ops \<Rightarrow> nat \<Rightarrow> nat hprog" where
  "allocate_block cr min_size =
     bindP (readP (\<lambda>_. fit_order min_size)) (\<lambda>min_fit_order.
       if min_fit_order \<ge> NUM_ORDERS then throwP OrderTooBig
       else bindP (readP (\<lambda>h. find_free_order cr h [min_fit_order..<NUM_ORDERS])) (\<lambda>order_found.
         bindP (case order_found of
             Some order' \<Rightarrow> returnP order'
           | None \<Rightarrow> bindP (getP current_size_bytes) (\<lambda>current.
               bindP (grow_heap cr (current * 2)) (\<lambda>_. returnP (NUM_ORDERS - 1))))
           (carve_block cr min_fit_order)))"

definition free_guard :: "crate_ops \<Rightarrow> nat \<Rightarrow> nat \<Rightarrow> bool hprog" where
  "free_guard cr block_to_free buddy_block =
     bindP (readB (\<lambda>c. get_block_type cr c buddy_block)) (\<lambda>t.
       if t \<noteq> Free then returnP False
       else bindP (readB (\<lambda>c. block_order cr c block_to_free)) (\<lambda>o1.
         if \<not> o1 < NUM_ORDERS - 1 then returnP False
         else bindP (readB (\<lambda>c. block_order cr c buddy_block)) (\<lambda>o2. returnP (o1 = o2))))"

definition find_buddy :: "crate_ops \<Rightarrow> nat \<Rightarrow> nat hprog" where
  "find_buddy cr block =
     bindP (readB (\<lambda>c. block_order cr c block)) (\<lambda>order'.
     bindP (readP (\<lambda>_. buddy block order')) (\<lambda>buddy_index.
       readP (\<lambda>h. unwrapO (get_block cr h buddy_index))))"

definition free_step :: "crate_ops \<Rightarrow> nat \<times> nat \<Rightarrow> (heap, inspect_error, (nat \<times> nat) + nat) prog" where
  "free_step cr = (\<lambda>(block_to_free, buddy_block).
     bindP (free_guard cr block_to_free buddy_block) (\<lambda>go.
       if \<not> go then returnP (Inr block_to_free)
       else bindP (remove_free cr buddy_block) (\<lambda>_.
         bindP (if buddy_block < block_to_free
                then readB (\<lambda>c. swap_blocks cr c block_to_free buddy_block)
                else returnP (block_to_free, buddy_block)) (\<lambda>(to_free, _).
         bindP (readB (\<lambda>c. block_order cr c to_free)) (\<lambda>order'.
         bindP (onB (set_order cr to_free (order' + 1))) (\<lambda>_.
         bindP (find_buddy cr to_free) (\<lambda>buddy'.
           returnP (Inl (to_free, buddy')))))))))"

definition free_block :: "crate_ops \<Rightarrow> nat \<Rightarrow> unit hprog" where
  "free_block cr block =
     bindP (readB (\<lambda>c. get_block_type cr c block)) (\<lambda>t.
       if t = Free then throwP (CannotFreeType t)
       else bindP (find_buddy cr block) (\<lambda>buddy_block.
         bindP (loopP (free_step cr) (block, buddy_block)) (\<lambda>to_free.
         bindP (readB (\<lambda>c. block_order cr c to_free)) (\<lambda>order'.
         bindP (readP (\<lambda>h. head_at h order')) (\<lambda>head.
         bindP (onB (become_free cr to_free head)) (\<lambda>_.
           set_head order' to_free))))))"

definition heap_new :: "crate_ops \<Rightarrow> u8 list \<Rightarrow> (inspect_error, heap) outcome" where
  "heap_new cr m =
     (case grow_heap cr PAGE_SIZE_BYTES
        \<lparr>mapping = m, current_size_bytes = 0, free_head_per_order = replicate NUM_ORDERS 0\<rparr> of
        (Ok _, h) \<Rightarrow> Ok h | (Err e, _) \<Rightarrow> Err e | (Panic, _) \<Rightarrow> Panic | (Diverge, _) \<Rightarrow> Diverge)"

end
