(* ===== verification/Buddy_Tiling.thy ===== *)
theory Buddy_Tiling
  imports Garnet_Prelude
begin

text \<open>
  The arithmetic of buddy allocation, apart from memory: sets of aligned power-of-two
  blocks that tile an interval, splitting a block in two, merging two buddies, growing the
  interval, and linked lists threaded through a successor function with index 0 as the end
  marker. The correctness of the heap is proved over these notions.
\<close>

section \<open>Buddies\<close>

definition span :: "nat \<Rightarrow> nat \<Rightarrow> nat set" where
  "span i k = {i..<i + 2 ^ k}"

definition buddy_of :: "nat \<Rightarrow> nat \<Rightarrow> nat" where
  "buddy_of i k = i XOR 2 ^ k"

lemma xor_one_nat: "q XOR 1 = (if even q then q + 1 else q - 1)" for q :: nat
  by (simp add: xor_Suc_0_eq)

lemma buddy_of_eq:
  assumes "2 ^ k dvd i"
  shows "buddy_of i k = (if 2 ^ Suc k dvd i then i + 2 ^ k else i - 2 ^ k)"
proof -
  from assms obtain q where q: "i = q * 2 ^ k" by (metis dvd_def mult.commute)
  have "buddy_of i k = push_bit k q XOR push_bit k 1"
    by (simp add: buddy_of_def q push_bit_eq_mult)
  also have "\<dots> = push_bit k (q XOR 1)"
    by (simp only: push_bit_xor)
  also have "\<dots> = (if even q then i + 2 ^ k else i - 2 ^ k)"
    unfolding xor_one_nat by (simp add: push_bit_eq_mult q algebra_simps diff_mult_distrib)
  also have "even q \<longleftrightarrow> 2 ^ Suc k dvd i"
    by (simp add: q)
  finally show ?thesis .
qed

lemma buddy_of_cases:
  assumes "2 ^ k dvd i"
  obtains (lower) "2 ^ Suc k dvd i" "buddy_of i k = i + 2 ^ k"
  | (upper) j where "2 ^ Suc k dvd j" "i = j + 2 ^ k" "buddy_of i k = j"
proof (cases "2 ^ Suc k dvd i")
  case True
  with that(1) assms show thesis by (simp add: buddy_of_eq)
next
  case False
  obtain q where q: "i = q * 2 ^ k" using assms by (metis dvd_def mult.commute)
  with False have "odd q" by auto
  then obtain r where "q = 2 * r + 1" by (rule oddE)
  with q have i: "i = r * 2 ^ Suc k + 2 ^ k" by (simp add: algebra_simps)
  have "2 ^ Suc k dvd r * 2 ^ Suc k" by simp
  then show thesis using False assms i by (intro that(2)) (auto simp: buddy_of_eq)
qed

lemma exp_pos: "0 < (2::nat) ^ k"
  by simp

lemma dvd_lower: "2 ^ Suc k dvd i \<Longrightarrow> 2 ^ k dvd (i::nat)"
  by (meson dvd_trans le_imp_power_dvd le_SucI order_refl)

section \<open>Tilings\<close>

definition tiling :: "nat \<Rightarrow> (nat \<Rightarrow> nat) \<Rightarrow> nat set \<Rightarrow> bool" where
  "tiling n ord S \<longleftrightarrow>
     (\<forall>i\<in>S. ord i < 8 \<and> 2 ^ ord i dvd i) \<and>
     (\<Union>i\<in>S. span i (ord i)) = {..<n} \<and>
     (\<forall>i\<in>S. \<forall>j\<in>S. i \<noteq> j \<longrightarrow> span i (ord i) \<inter> span j (ord j) = {})"

lemma tilingD:
  assumes "tiling n ord S" and "i \<in> S"
  shows "ord i < 8" and "2 ^ ord i dvd i" and "span i (ord i) \<subseteq> {..<n}" and "i < n" and "i + 2 ^ ord i \<le> n"
proof -
  show "ord i < 8" "2 ^ ord i dvd i" using assms by (auto simp: tiling_def)
  show sub: "span i (ord i) \<subseteq> {..<n}" using assms by (auto simp: tiling_def)
  have "i \<in> span i (ord i)" "i + 2 ^ ord i - 1 \<in> span i (ord i)"
    using exp_pos [of "ord i"] unfolding span_def atLeastLessThan_iff by linarith+
  with sub have "i < n" "i + 2 ^ ord i - 1 < n" by blast+
  then show "i < n" "i + 2 ^ ord i \<le> n" by auto
qed

lemma tiling_disjoint:
  "tiling n ord S \<Longrightarrow> i \<in> S \<Longrightarrow> j \<in> S \<Longrightarrow> i \<noteq> j \<Longrightarrow> span i (ord i) \<inter> span j (ord j) = {}"
  by (auto simp: tiling_def)

lemma tiling_notin_span:
  "tiling n ord S \<Longrightarrow> i \<in> S \<Longrightarrow> j \<in> S \<Longrightarrow> i \<noteq> j \<Longrightarrow> i \<notin> span j (ord j)"
  using tiling_disjoint [of n ord S i j] by (auto simp: span_def)

lemma tiling_cover: "tiling n ord S \<Longrightarrow> x < n \<Longrightarrow> \<exists>b\<in>S. x \<in> span b (ord b)"
  by (auto simp: tiling_def)

lemma aligned_in_span:
  assumes "2 ^ k dvd b" and "2 ^ k dvd j" and "j \<in> span b k"
  shows "j = b"
proof -
  from assms obtain p q where "b = p * 2 ^ k" "j = q * 2 ^ k" by (metis dvd_def mult.commute)
  with assms(3) have "p * 2 ^ k \<le> q * 2 ^ k" "q * 2 ^ k < Suc p * 2 ^ k" by (auto simp: span_def)
  then have "p \<le> q" "q < Suc p" by (simp_all only: mult_le_cancel2 mult_less_cancel2 exp_pos)
  with \<open>b = p * 2 ^ k\<close> \<open>j = q * 2 ^ k\<close> show ?thesis by (simp add: le_less_Suc_eq)
qed

lemma tiling_zero: "tiling n ord S \<Longrightarrow> 0 < n \<Longrightarrow> 0 \<in> S"
  using tiling_cover [of n ord S 0] by (auto simp: span_def)

text \<open>The pair of buddies is the block one order up, so it lies inside any larger block that meets it.\<close>

lemma aligned_pair_in_span:
  assumes "2 ^ Suc k dvd p" and "2 ^ q dvd b" and "k < q" and "x \<in> span p (Suc k)" and "x \<in> span b q"
  shows "span p (Suc k) \<subseteq> span b q"
proof -
  have "2 ^ Suc k dvd (2::nat) ^ q" using assms(3) by (intro le_imp_power_dvd) auto
  then obtain c where c: "(2::nat) ^ q = c * 2 ^ Suc k" by (metis dvd_def mult.commute)
  with assms(2) obtain s where s: "b = s * 2 ^ Suc k" by (metis dvd_def mult.commute mult.left_commute)
  from assms(1) obtain r where r: "p = r * 2 ^ Suc k" by (metis dvd_def mult.commute)
  let ?d = "(2::nat) ^ Suc k"
  have x: "r * ?d \<le> x" "x < Suc r * ?d" "s * ?d \<le> x" "x < (s + c) * ?d"
    using assms(4,5) by (auto simp: span_def r s c algebra_simps)
  then have "s * ?d < Suc r * ?d" "r * ?d < (s + c) * ?d" by linarith+
  then have "s \<le> r" "Suc r \<le> s + c" by (simp_all only: mult_less_cancel2) auto
  then have "s * ?d \<le> r * ?d" "Suc r * ?d \<le> (s + c) * ?d" by (simp_all only: mult_le_mono1)
  then show ?thesis by (auto simp: span_def r s c algebra_simps)
qed

lemma tiling_buddy:
  assumes t: "tiling n ord S" and i: "i \<in> S" and n: "256 dvd n"
  shows "buddy_of i (ord i) \<in> S" and "ord (buddy_of i (ord i)) \<le> ord i"
proof -
  let ?k = "ord i" let ?j = "buddy_of i ?k"
  note iD = tilingD [OF t i]
  obtain p where p: "2 ^ Suc ?k dvd p" and ip: "i \<in> span p (Suc ?k)" and jp: "?j \<in> span p (Suc ?k)"
    and ja: "2 ^ ?k dvd ?j" and pn: "p \<le> i"
    using iD(2)
  proof (cases rule: buddy_of_cases)
    case lower
    with that [of i] dvd_lower [of ?k i] show ?thesis by (auto simp: span_def)
  next
    case (upper j)
    then have "i < j + 2 ^ Suc ?k" "j \<le> i" using exp_pos [of ?k] by (simp_all only: power_Suc)
    with upper that [of j] dvd_lower [of ?k j] show ?thesis by (simp add: span_def)
  qed
  have "2 ^ Suc ?k dvd (2::nat) ^ 8" using iD(1) by (intro le_imp_power_dvd) auto
  with n have "2 ^ Suc ?k dvd n" by (auto intro: dvd_trans)
  then obtain c where c: "n = c * 2 ^ Suc ?k" by (metis dvd_def mult.commute)
  from p obtain r where r: "p = r * 2 ^ Suc ?k" by (metis dvd_def mult.commute)
  from pn iD(4) have "r * 2 ^ Suc ?k < c * 2 ^ Suc ?k" unfolding r c by (rule le_less_trans)
  then have "Suc r \<le> c" by (simp only: mult_less_cancel2 Suc_le_eq)
  then have "Suc r * 2 ^ Suc ?k \<le> n" unfolding c by (rule mult_le_mono1)
  with jp have "?j < n" by (simp add: span_def r)
  then obtain b where b: "b \<in> S" and jb: "?j \<in> span b (ord b)" using tiling_cover [OF t] by blast
  have le: "ord b \<le> ?k"
  proof (rule ccontr)
    assume "\<not> ord b \<le> ?k"
    then have "span p (Suc ?k) \<subseteq> span b (ord b)"
      using aligned_pair_in_span [OF p tilingD(2) [OF t b] _ jp jb] by simp
    then have "i \<in> span b (ord b)" using ip by blast
    with tiling_notin_span [OF t i b] have "i = b" by blast
    with \<open>\<not> ord b \<le> ?k\<close> show False by simp
  qed
  have "2 ^ ord b dvd ?j" using ja le by (meson dvd_trans le_imp_power_dvd)
  with jb tilingD(2) [OF t b] have "?j = b" by (intro aligned_in_span)
  with b le show "?j \<in> S" "ord ?j \<le> ?k" by simp_all
qed

lemma span_Suc: "span i (Suc k) = span i k \<union> span (i + 2 ^ k) k"
  by (auto simp: span_def)

lemma span_halves_disjoint: "span i k \<inter> span (i + 2 ^ k) k = {}"
  by (auto simp: span_def)

lemma tiling_split:
  assumes t: "tiling n ord S" and i: "i \<in> S" and k: "ord i = Suc k"
  shows "tiling n (ord(i := k, i + 2 ^ k := k)) (insert (i + 2 ^ k) S)" and "i + 2 ^ k \<notin> S"
proof -
  let ?b = "i + 2 ^ k" let ?ord = "ord(i := k, ?b := k)"
  have bi: "?b \<in> span i (ord i)" using k by (simp add: span_def)
  show bS: "?b \<notin> S"
    using tiling_notin_span [OF t, of ?b i] i bi by auto
  have ne: "?b \<noteq> i" by simp
  have sub: "span i k \<subseteq> span i (ord i)" "span ?b k \<subseteq> span i (ord i)"
    using k by (auto simp: span_Suc)
  have old: "?ord j = ord j" if "j \<in> S" "j \<noteq> i" for j using that bS by auto
  have "k < 8" "2 ^ k dvd i" using tilingD(1,2) [OF t i] dvd_lower [of k i] k by simp_all
  then have al: "\<forall>j\<in>insert ?b S. ?ord j < 8 \<and> 2 ^ ?ord j dvd j"
    using tilingD(1,2) [OF t] bS by auto
  have "(\<Union>j\<in>insert ?b S. span j (?ord j)) = (\<Union>j\<in>S. span j (ord j))"
  proof -
    have "(\<Union>j\<in>insert ?b S. span j (?ord j)) = span ?b k \<union> span i k \<union> (\<Union>j\<in>S - {i}. span j (ord j))"
      using i ne bS by (auto simp: old split: if_splits)
    also have "\<dots> = span i (ord i) \<union> (\<Union>j\<in>S - {i}. span j (ord j))"
      using k by (auto simp: span_Suc)
    also have "\<dots> = (\<Union>j\<in>S. span j (ord j))" using i by blast
    finally show ?thesis .
  qed
  moreover have "span j (?ord j) \<inter> span l (?ord l) = {}"
    if "j \<in> insert ?b S" "l \<in> insert ?b S" "j \<noteq> l" for j l
  proof -
    have out: "span x k \<inter> span y (ord y) = {}" if "x \<in> {i, ?b}" "y \<in> S - {i}" for x y
      using that sub tiling_disjoint [OF t i, of y] by auto
    consider "j \<in> {i, ?b}" "l \<in> {i, ?b}" | "j \<in> {i, ?b}" "l \<in> S - {i}"
      | "j \<in> S - {i}" "l \<in> {i, ?b}" | "j \<in> S - {i}" "l \<in> S - {i}"
      using \<open>j \<in> insert ?b S\<close> \<open>l \<in> insert ?b S\<close> by blast
    then show ?thesis
    proof cases
      case 1
      then show ?thesis using \<open>j \<noteq> l\<close> span_halves_disjoint [of i k] by (auto simp: Int_commute)
    next
      case 2
      then show ?thesis using out [of j l] bS old [of l] by auto
    next
      case 3
      then show ?thesis using out [of l j] bS old [of j] by auto
    next
      case 4
      then show ?thesis using tiling_disjoint [OF t, of j l] \<open>j \<noteq> l\<close> old [of j] old [of l] by auto
    qed
  qed
  ultimately show "tiling n ?ord (insert ?b S)"
    using t al by (simp add: tiling_def)
qed

lemma tiling_merge:
  assumes t: "tiling n ord S" and i: "i \<in> S" and j: "i + 2 ^ k \<in> S"
    and ki: "ord i = k" and kj: "ord (i + 2 ^ k) = k" and al: "2 ^ Suc k dvd i" and k: "k < 7"
  shows "tiling n (ord(i := Suc k)) (S - {i + 2 ^ k})"
proof -
  let ?b = "i + 2 ^ k" let ?ord = "ord(i := Suc k)" let ?S = "S - {?b}"
  have ne: "?b \<noteq> i" by simp
  have "(\<Union>l\<in>?S. span l (?ord l)) = span i (Suc k) \<union> (\<Union>l\<in>?S - {i}. span l (ord l))"
    using i ne by (auto split: if_splits)
  also have "\<dots> = span i (ord i) \<union> span ?b (ord ?b) \<union> (\<Union>l\<in>?S - {i}. span l (ord l))"
    by (simp add: span_Suc ki kj)
  also have "\<dots> = (\<Union>l\<in>S. span l (ord l))" using i j by blast
  finally have un: "(\<Union>l\<in>?S. span l (?ord l)) = (\<Union>l\<in>S. span l (ord l))" .
  have out: "span i (Suc k) \<inter> span l (ord l) = {}" if "l \<in> ?S" "l \<noteq> i" for l
    using that tiling_disjoint [OF t i, of l] tiling_disjoint [OF t j, of l]
    by (auto simp: span_Suc ki kj)
  have "span l (?ord l) \<inter> span r (?ord r) = {}" if "l \<in> ?S" "r \<in> ?S" "l \<noteq> r" for l r
    using that out [of l] out [of r] tiling_disjoint [OF t, of l r] by auto
  with un t al k show ?thesis
    by (auto simp: tiling_def)
qed

lemma tiling_grow:
  assumes t: "tiling n ord S" and n: "128 dvd n" and m: "128 dvd m" and le: "n \<le> m"
    and new: "\<And>i. i \<in> {n..<m} \<Longrightarrow> 128 dvd i \<Longrightarrow> ord' i = 7" and old: "\<And>i. i < n \<Longrightarrow> ord' i = ord i"
  shows "tiling m ord' (S \<union> {i \<in> {n..<m}. 128 dvd i})"
proof -
  let ?N = "{i \<in> {n..<m}. 128 dvd i}"
  have oldS: "ord' i = ord i" if "i \<in> S" for i using that old tilingD(4) [OF t] by blast
  have newN: "ord' i = 7" if "i \<in> ?N" for i using that new by blast
  have span7: "x \<in> span i 7 \<longleftrightarrow> i \<le> x \<and> x < i + 128" for x i :: nat by (simp add: span_def)
  have "(\<Union>i\<in>?N. span i (ord' i)) = {n..<m}"
  proof (intro equalityI subsetI)
    fix x assume "x \<in> (\<Union>i\<in>?N. span i (ord' i))"
    then obtain i where i: "i \<in> ?N" "i \<le> x" "x < i + 128" by (auto simp: newN span7)
    then have "i + 128 \<le> m" using m by (auto elim!: dvdE)
    with i show "x \<in> {n..<m}" by auto
  next
    fix x assume x: "x \<in> {n..<m}"
    let ?i = "x div 128 * 128"
    have "n \<le> ?i" using x n by (auto elim!: dvdE simp: less_eq_div_iff_mult_less_eq [symmetric])
    moreover have "?i \<le> x" "x < ?i + 128" by (simp_all add: dividend_less_div_times add.commute)
    ultimately have "?i \<in> ?N" "x \<in> span ?i (ord' ?i)" using x by (auto simp: newN span7)
    then show "x \<in> (\<Union>i\<in>?N. span i (ord' i))" by blast
  qed
  moreover have "(\<Union>i\<in>S. span i (ord' i)) = {..<n}"
    using t oldS by (simp add: tiling_def)
  ultimately have un: "(\<Union>i\<in>S \<union> ?N. span i (ord' i)) = {..<m}" using le by auto
  have SN: "span i (ord' i) \<inter> span j (ord' j) = {}" if "i \<in> S" "j \<in> ?N" for i j
    using that tilingD(3) [OF t that(1)] by (auto simp: oldS newN span7)
  have NN: "span i (ord' i) \<inter> span j (ord' j) = {}" if "i \<in> ?N" "j \<in> ?N" "i \<noteq> j" for i j
    using that by (auto simp: newN span7 elim!: dvdE)
  have "span i (ord' i) \<inter> span j (ord' j) = {}" if "i \<in> S \<union> ?N" "j \<in> S \<union> ?N" "i \<noteq> j" for i j
    using that SN [of i j] SN [of j i] NN [of i j] tiling_disjoint [OF t, of i j]
    by (auto simp: oldS Int_commute)
  moreover have "\<forall>i\<in>S \<union> ?N. ord' i < 8 \<and> 2 ^ ord' i dvd i"
    using tilingD(1,2) [OF t] by (auto simp: oldS newN)
  ultimately show ?thesis using un by (simp add: tiling_def)
qed

text \<open>The blocks of a tiling are found by walking from block to block.\<close>

inductive_set starts :: "nat \<Rightarrow> (nat \<Rightarrow> nat) \<Rightarrow> nat set" for n ord where
  starts_zero: "0 < n \<Longrightarrow> 0 \<in> starts n ord"
| starts_next: "i \<in> starts n ord \<Longrightarrow> i + 2 ^ ord i < n \<Longrightarrow> i + 2 ^ ord i \<in> starts n ord"

lemma tiling_next:
  assumes t: "tiling n ord S" and i: "i \<in> S" and lt: "i + 2 ^ ord i < n"
  shows "i + 2 ^ ord i \<in> S"
proof -
  let ?e = "i + 2 ^ ord i"
  obtain b where b: "b \<in> S" and e: "?e \<in> span b (ord b)" using tiling_cover [OF t lt] by blast
  have "?e - 1 \<in> span i (ord i)"
    using exp_pos [of "ord i"] unfolding span_def atLeastLessThan_iff by linarith
  then have "?e - 1 \<notin> span b (ord b)" if "b \<noteq> i"
    using tiling_disjoint [OF t i b] that by auto
  moreover have "b \<noteq> i" using e by (auto simp: span_def)
  ultimately have "?e = b" using e by (auto simp: span_def)
  with b show ?thesis by simp
qed

lemma tiling_starts:
  assumes t: "tiling n ord S"
  shows "S = starts n ord"
proof (intro equalityI subsetI)
  fix x assume "x \<in> starts n ord"
  then show "x \<in> S"
    by induction (auto intro: tiling_zero [OF t] tiling_next [OF t])
next
  fix x assume "x \<in> S"
  then show "x \<in> starts n ord"
  proof (induction x rule: less_induct)
    case (less x)
    show ?case
    proof (cases "x = 0")
      case True
      then show ?thesis using tilingD(4) [OF t less.prems] by (auto intro: starts_zero)
    next
      case False
      then have "x - 1 < n" using tilingD(4) [OF t less.prems] by simp
      then obtain b where b: "b \<in> S" and xb: "x - 1 \<in> span b (ord b)" using tiling_cover [OF t] by blast
      have bx: "b < x" using xb False by (auto simp: span_def)
      then have "x \<notin> span b (ord b)" using tiling_notin_span [OF t less.prems b] by auto
      then have "x = b + 2 ^ ord b" using xb False by (auto simp: span_def)
      with less.IH [OF bx b] tilingD(4) [OF t less.prems] show ?thesis
        using starts_next by metis
    qed
  qed
qed

section \<open>Threaded lists\<close>

fun chain :: "(nat \<Rightarrow> nat) \<Rightarrow> nat \<Rightarrow> nat list \<Rightarrow> bool" where
  "chain nx p [] \<longleftrightarrow> p = 0"
| "chain nx p (x # xs) \<longleftrightarrow> p = x \<and> chain nx (nx x) xs"

lemma chain_upd_notin [simp]: "i \<notin> set xs \<Longrightarrow> chain (nx(i := v)) p xs = chain nx p xs"
  by (induction xs arbitrary: p) auto

lemma chain_next: "chain nx p (xs @ x # y # ys) \<Longrightarrow> nx x = y"
  by (induction xs arbitrary: p) auto

lemma chain_push: "chain nx p xs \<Longrightarrow> i \<notin> set xs \<Longrightarrow> chain (nx(i := p)) i (i # xs)"
  by simp

lemma chain_cong: "(\<And>i. i \<in> set xs \<Longrightarrow> nx i = nx' i) \<Longrightarrow> chain nx p xs = chain nx' p xs"
  by (induction xs arbitrary: p) auto

lemma chain_remove_later:
  assumes "chain nx p (xs @ x # y # ys)" and "distinct (xs @ x # y # ys)"
  shows "chain (nx(x := nx y)) p (xs @ x # ys)"
  using assms by (induction xs arbitrary: p) auto

section \<open>Free lists over a tiling\<close>

text \<open>
  The state of a buddy allocator: a tiling of the units, and for each order the list of
  the free blocks of that order, threaded through \<open>nx\<close> from the head \<open>hs\<close>. The blocks in
  \<open>X\<close> are in the hands of the running operation: neither on a list nor used. \<open>U\<close> is what
  the clients see: the blocks in use with their orders.
\<close>

definition buddy_wf :: "nat \<Rightarrow> (nat \<Rightarrow> nat) \<Rightarrow> (nat \<Rightarrow> bool) \<Rightarrow> (nat \<Rightarrow> nat) \<Rightarrow> (nat \<Rightarrow> nat) \<Rightarrow>
    nat set \<Rightarrow> nat set \<Rightarrow> (nat \<Rightarrow> nat list) \<Rightarrow> (nat \<rightharpoonup> nat) \<Rightarrow> bool" where
  "buddy_wf n ord fr nx hs X S L U \<longleftrightarrow>
     tiling n ord S \<and> X \<subseteq> S \<and>
     (\<forall>k<8. distinct (L k) \<and> set (L k) = {i \<in> S - X. ord i = k \<and> fr i} \<and> chain nx (hs k) (L k)) \<and>
     U = (\<lambda>i. if i \<in> S - X \<and> \<not> fr i then Some (ord i) else None)"

lemma buddy_wfD:
  assumes "buddy_wf n ord fr nx hs X S L U"
  shows "tiling n ord S" and "X \<subseteq> S"
    and "k < 8 \<Longrightarrow> distinct (L k)"
    and "k < 8 \<Longrightarrow> set (L k) = {i \<in> S - X. ord i = k \<and> fr i}"
    and "k < 8 \<Longrightarrow> chain nx (hs k) (L k)"
    and "U i = (if i \<in> S - X \<and> \<not> fr i then Some (ord i) else None)"
  using assms by (auto simp: buddy_wf_def)

lemma buddy_wf_used:
  assumes "buddy_wf n ord fr nx hs X S L U"
  shows "U i = Some k \<longleftrightarrow> i \<in> S \<and> i \<notin> X \<and> \<not> fr i \<and> ord i = k"
  using buddy_wfD(6) [OF assms, of i] by auto

lemma buddy_wf_unlink_head:
  assumes w: "buddy_wf n ord fr nx hs X S L U" and k: "k < 8" and l: "L k = i # xs"
  shows "buddy_wf n ord fr nx (hs(k := nx i)) (insert i X) S (L(k := xs)) U"
proof -
  have i: "i \<in> S" "i \<notin> X" "ord i = k" "fr i" and "i \<notin> set xs"
    using buddy_wfD(4) [OF w k] buddy_wfD(3) [OF w k] l by auto
  moreover have "set xs = {j \<in> S - insert i X. ord j = k \<and> fr j}"
    using buddy_wfD(4) [OF w k] l \<open>i \<notin> set xs\<close> by auto
  ultimately show ?thesis
    using w l k by (auto simp: buddy_wf_def)
qed

lemma buddy_wf_unlink_later:
  assumes w: "buddy_wf n ord fr nx hs X S L U" and k: "k < 8" and l: "L k = xs @ p # i # ys"
  shows "buddy_wf n ord fr (nx(p := nx i)) hs (insert i X) S (L(k := xs @ p # ys)) U"
proof -
  have d: "distinct (xs @ p # i # ys)" using buddy_wfD(3) [OF w k] l by simp
  have i: "i \<in> S" "i \<notin> X" "ord i = k" "fr i" and p: "ord p = k" "p \<in> S"
    using buddy_wfD(4) [OF w k] l by auto
  have "set (xs @ p # ys) = {j \<in> S - insert i X. ord j = k \<and> fr j}"
    using buddy_wfD(4) [OF w k] l d by auto
  moreover have "chain (nx(p := nx i)) (hs k) (xs @ p # ys)"
    using chain_remove_later [of nx "hs k" xs p i ys] buddy_wfD(5) [OF w k] l d by simp
  moreover have "chain (nx(p := nx i)) (hs j) (L j)" if "j < 8" "j \<noteq> k" for j
    using that buddy_wfD(4,5) [OF w, of j] p by simp
  moreover have "set (L j) = {x \<in> S - insert i X. ord x = j \<and> fr x}" if "j < 8" "j \<noteq> k" for j
    using that buddy_wfD(4) [OF w, of j] i by auto
  ultimately show ?thesis
    using w d i unfolding buddy_wf_def by (auto simp del: chain_upd_notin)
qed

lemma buddy_wf_push:
  assumes w: "buddy_wf n ord fr nx hs X S L U" and i: "i \<in> X" and k: "ord i = k"
  shows "buddy_wf n ord (fr(i := True)) (nx(i := hs k)) (hs(k := i)) (X - {i}) S (L(k := i # L k)) U"
proof -
  have "i \<in> S" using i buddy_wfD(2) [OF w] by blast
  then have "k < 8" using tilingD(1) [OF buddy_wfD(1) [OF w]] k by blast
  have notin: "i \<notin> set (L j)" if "j < 8" for j using buddy_wfD(4) [OF w that] i by blast
  show ?thesis
    using w notin i \<open>i \<in> S\<close> k unfolding buddy_wf_def by auto
qed

lemma buddy_wf_take:
  assumes w: "buddy_wf n ord fr nx hs X S L U" and i: "i \<in> X"
  shows "buddy_wf n ord (fr(i := False)) nx hs (X - {i}) S L (U(i \<mapsto> ord i))"
  using assms unfolding buddy_wf_def by (auto simp: fun_eq_iff)

lemma buddy_wf_release:
  assumes w: "buddy_wf n ord fr nx hs X S L U" and i: "U i = Some k"
  shows "buddy_wf n ord fr nx hs (insert i X) S L (U(i := None))"
  using assms(1) assms(2) [unfolded buddy_wf_used [OF w]] unfolding buddy_wf_def
  by (auto simp: fun_eq_iff)

lemma buddy_wf_split:
  assumes w: "buddy_wf n ord fr nx hs X S L U" and i: "i \<in> X" and k: "ord i = Suc k"
  shows "buddy_wf n (ord(i := k, i + 2 ^ k := k)) fr nx hs
    (insert (i + 2 ^ k) X) (insert (i + 2 ^ k) S) L U"
proof -
  have iS: "i \<in> S" using i buddy_wfD(2) [OF w] by blast
  note t = tiling_split [OF buddy_wfD(1) [OF w] iS k]
  show ?thesis
    using w t i unfolding buddy_wf_def by (auto simp: fun_eq_iff)
qed

lemma buddy_wf_merge:
  assumes w: "buddy_wf n ord fr nx hs X S L U" and i: "i \<in> X" and b: "i + 2 ^ k \<in> X"
    and "ord i = k" and "ord (i + 2 ^ k) = k" and "2 ^ Suc k dvd i" and "k < 7"
  shows "buddy_wf n (ord(i := Suc k)) fr nx hs (X - {i + 2 ^ k}) (S - {i + 2 ^ k}) L U"
proof -
  have "i \<in> S" "i + 2 ^ k \<in> S" using i b buddy_wfD(2) [OF w] by blast+
  note t = tiling_merge [OF buddy_wfD(1) [OF w] this assms(4-7)]
  show ?thesis
    using w t i b unfolding buddy_wf_def by (auto simp: fun_eq_iff)
qed

lemma buddy_wf_grow:
  assumes w: "buddy_wf n ord fr nx hs X S L U" and n: "128 dvd n" and m: "128 dvd m" and le: "n \<le> m"
    and new: "\<And>i. i \<in> set N \<Longrightarrow> ord' i = 7 \<and> fr' i"
    and old: "\<And>i. i < n \<Longrightarrow> ord' i = ord i \<and> fr' i = fr i \<and> nx' i = nx i"
    and N: "set N = {i \<in> {n..<m}. 128 dvd i}" "distinct N"
    and ch: "chain nx' h (N @ L 7)"
  shows "buddy_wf m ord' fr' nx' (hs(7 := h)) X (S \<union> set N) (L(7 := N @ L 7)) U"
proof -
  have "tiling m ord' (S \<union> {i \<in> {n..<m}. 128 dvd i})"
    using new old N(1) by (intro tiling_grow [OF buddy_wfD(1) [OF w] n m le]) auto
  then have t: "tiling m ord' (S \<union> set N)" by (simp only: N(1))
  have ltn: "i < n" if "i \<in> S" for i using that tilingD(4) [OF buddy_wfD(1) [OF w]] by blast
  have oldS: "ord' i = ord i" "fr' i = fr i" "nx' i = nx i" if "i \<in> S" for i
    using old [OF ltn [OF that]] by simp_all
  have NS: "i \<notin> S" if "i \<in> set N" for i using that ltn [of i] by (auto simp: N(1))
  have LS: "set (L k) \<subseteq> S" if "k < 8" for k using buddy_wfD(4) [OF w that] by auto
  have sets: "set (L k) = {i \<in> S - X. ord' i = k \<and> fr' i}" if "k < 8" for k
    unfolding buddy_wfD(4) [OF w that] by (rule Collect_cong) (metis DiffD1 oldS(1,2))
  have XS: "X \<subseteq> S" by (rule buddy_wfD(2) [OF w])
  have "chain nx' (hs k) (L k)" if "k < 8" for k
  proof -
    have "chain nx' (hs k) (L k) = chain nx (hs k) (L k)"
      using LS [OF that] oldS(3) by (intro chain_cong) blast
    then show ?thesis using buddy_wfD(5) [OF w that] by simp
  qed
  moreover have "set ((L(7 := N @ L 7)) k) = {i \<in> S \<union> set N - X. ord' i = k \<and> fr' i}" if "k < 8" for k
  proof (cases "k = 7")
    case True
    then show ?thesis using that sets [of 7] new NS XS by auto
  next
    case False
    then show ?thesis using that sets [of k] new by auto
  qed
  moreover have "distinct (N @ L 7)"
    using N(2) buddy_wfD(3) [OF w, of 7] LS [of 7] NS by auto
  moreover have "U = (\<lambda>i. if i \<in> S \<union> set N - X \<and> \<not> fr' i then Some (ord' i) else None)"
  proof (rule ext)
    show "U i = (if i \<in> S \<union> set N - X \<and> \<not> fr' i then Some (ord' i) else None)" for i
      using buddy_wfD(6) [OF w, of i] new [of i] oldS [of i] by auto
  qed
  ultimately show ?thesis
    unfolding buddy_wf_def
  proof (intro conjI allI impI)
    show "tiling m ord' (S \<union> set N)" by (rule t)
    show "X \<subseteq> S \<union> set N" using XS by blast
  qed (use ch buddy_wfD(3) [OF w] in simp_all)
qed

section \<open>Coalescing\<close>

text \<open>
  Two free buddies of the same order, below the largest, are always merged: no list holds
  a block together with its buddy. While a block is being split this holds except for it.
\<close>

definition coalesced :: "(nat \<Rightarrow> nat list) \<Rightarrow> bool" where
  "coalesced L \<longleftrightarrow> (\<forall>k<7. \<forall>j\<in>set (L k). buddy_of j k \<notin> set (L k))"

definition coalesced_but :: "nat \<Rightarrow> (nat \<Rightarrow> nat list) \<Rightarrow> bool" where
  "coalesced_but i L \<longleftrightarrow> (\<forall>k<7. \<forall>j\<in>set (L k) - {i}. buddy_of j k \<notin> set (L k) - {i})"

lemma buddy_of_buddy_of [simp]: "buddy_of (buddy_of i k) k = i"
  by (simp add: buddy_of_def xor.assoc)

lemma coalesced_imp_but: "coalesced L \<Longrightarrow> coalesced_but i L"
  by (auto simp: coalesced_def coalesced_but_def)

lemma coalesced_mono:
  assumes "\<And>k. set (L' k) \<subseteq> set (L k)"
  shows "coalesced L \<Longrightarrow> coalesced L'" and "coalesced_but i L \<Longrightarrow> coalesced_but i L'"
  using assms unfolding coalesced_def coalesced_but_def by blast+

lemma coalesced_remove:
  "coalesced L \<Longrightarrow> coalesced (L(f := remove1 r (L f)))"
  "coalesced_but i L \<Longrightarrow> coalesced_but i (L(f := remove1 r (L f)))"
  by (rule coalesced_mono [of _ L], simp add: set_remove1_subset, assumption)+

lemma coalesced_but_remove:
  assumes "coalesced_but i L" and out: "\<And>k. k < 8 \<Longrightarrow> i \<notin> set ((L(f := remove1 i (L f))) k)"
  shows "coalesced (L(f := remove1 i (L f)))"
proof -
  let ?L = "L(f := remove1 i (L f))"
  have "buddy_of j k \<notin> set (?L k)" if "k < 7" "j \<in> set (?L k)" for j k
  proof -
    have "i \<notin> set (?L k)" using out [of k] \<open>k < 7\<close> by linarith
    then show ?thesis using that coalesced_remove(2) [OF assms(1), of f i]
      unfolding coalesced_but_def by blast
  qed
  then show ?thesis unfolding coalesced_def by blast
qed

lemma coalesced_but_split:
  assumes c: "coalesced_but i L" and b: "buddy_of i k = b"
  shows "coalesced_but i ((L(q := remove1 i (L q)))(k := i # b # (L(q := remove1 i (L q))) k))"
proof -
  let ?L = "L(q := remove1 i (L q))"
  have c': "coalesced_but i ?L"
    by (rule coalesced_remove(2) [OF c])
  have bi: "buddy_of b k = i" using b by auto
  have nb: "buddy_of j k \<noteq> b" if "j \<noteq> i" for j using that bi buddy_of_buddy_of [of j k] by metis
  show ?thesis
    unfolding coalesced_but_def
  proof (intro allI impI ballI)
    fix r j assume "r < 7" and j: "j \<in> set ((?L(k := i # b # ?L k)) r) - {i}"
    show "buddy_of j r \<notin> set ((?L(k := i # b # ?L k)) r) - {i}"
    proof (cases "r = k")
      case True
      then show ?thesis using j nb [of j] bi c' \<open>r < 7\<close> unfolding coalesced_but_def by auto
    next
      case False
      then show ?thesis using j c' \<open>r < 7\<close> unfolding coalesced_but_def by simp
    qed
  qed
qed

lemma buddy_of_neq: "buddy_of i k \<noteq> i"
proof
  assume "buddy_of i k = i"
  then have "i XOR (i XOR 2 ^ k) = i XOR i" by (simp only: buddy_of_def)
  then have "(2::nat) ^ k = 0" by (simp only: xor.assoc [symmetric] xor_self_eq xor.left_neutral)
  then show False by simp
qed

lemma coalesced_push:
  assumes "coalesced L" and "k = 7 \<or> buddy_of i k \<notin> set (L k)"
  shows "coalesced (L(k := i # L k))"
  unfolding coalesced_def
proof (intro allI impI ballI)
  fix q j assume q: "q < 7" and j: "j \<in> set ((L(k := i # L k)) q)"
  show "buddy_of j q \<notin> set ((L(k := i # L k)) q)"
  proof (cases "q = k")
    case True
    with q assms(2) have b: "buddy_of i q \<notin> set (L q)" by auto
    have "buddy_of j q \<noteq> i" if "j \<in> set (L q)" using b that buddy_of_buddy_of [of j q] by metis
    then show ?thesis using True j b assms(1) q buddy_of_neq [of i q] by (auto simp: coalesced_def)
  next
    case False
    then show ?thesis using j assms(1) q by (simp add: coalesced_def)
  qed
qed

lemma coalesced_cong: "(\<And>k. k < 7 \<Longrightarrow> L k = L' k) \<Longrightarrow> coalesced L = coalesced L'"
  by (simp add: coalesced_def)

end
