(* ===== verification/Inspect_Heap_Correct.thy ===== *)
theory Inspect_Heap_Correct
  imports Inspect_Heap Buddy_Tiling
begin

text \<open>
  The correctness of the Inspect heap: the invariant of the allocator, that every
  operation of \<^verbatim>\<open>heap.rs\<close> keeps it and returns, what allocation and freeing do to the set of
  used blocks, and that the bytes of the other used blocks stay as they are.
\<close>

section \<open>The invariant\<close>

definition sized :: "heap \<Rightarrow> bool" where
  "sized h \<longleftrightarrow> 4096 dvd length (mapping h) \<and> length (mapping h) \<le> 2 ^ 32
     \<and> 4096 dvd current_size_bytes h \<and> current_size_bytes h \<le> length (mapping h)
     \<and> length (free_head_per_order h) = 8"

abbreviation units :: "heap \<Rightarrow> nat" where
  "units h \<equiv> current_size_bytes h div 16"

abbreviation free_at :: "crate_ops \<Rightarrow> u8 list \<Rightarrow> nat \<Rightarrow> bool" where
  "free_at cr m \<equiv> \<lambda>i. type_at cr m i = Some Free"

definition heap_wf :: "crate_ops \<Rightarrow> nat set \<Rightarrow> nat set \<Rightarrow> (nat \<Rightarrow> nat list) \<Rightarrow> (nat \<rightharpoonup> nat) \<Rightarrow> heap \<Rightarrow> bool" where
  "heap_wf cr X S L U h \<longleftrightarrow> sized h
     \<and> buddy_wf (units h) (ord_at cr (mapping h)) (free_at cr (mapping h)) (next_at cr (mapping h))
         ((!) (free_head_per_order h)) X S L U
     \<and> (\<forall>i\<in>S. type_at cr (mapping h) i \<noteq> None)"

text \<open>The units no used block covers, and the writes that stay inside a set of units.\<close>

definition free_area :: "(nat \<rightharpoonup> nat) \<Rightarrow> nat set" where
  "free_area U = {p. \<forall>j k. U j = Some k \<longrightarrow> p \<notin> span j k}"

definition touched_only :: "nat set \<Rightarrow> u8 list \<Rightarrow> u8 list \<Rightarrow> bool" where
  "touched_only W m m' \<longleftrightarrow> length m' = length m \<and>
     (\<forall>j k. span j k \<inter> W = {} \<longrightarrow> window m' (16 * j) (16 * 2 ^ k) = window m (16 * j) (16 * 2 ^ k))"

lemma touched_only_refl [simp]: "touched_only W m m"
  by (simp add: touched_only_def)

lemma touched_only_trans: "touched_only W a b \<Longrightarrow> touched_only W b c \<Longrightarrow> touched_only W a c"
  by (auto simp: touched_only_def)

lemma touched_only_mono: "touched_only V a b \<Longrightarrow> V \<subseteq> W \<Longrightarrow> touched_only W a b"
  unfolding touched_only_def by blast

lemma touched_only_put_hdr:
  assumes "p \<in> W"
  shows "touched_only W m (put_hdr p w m)"
proof -
  have "window (put_hdr p w m) (16 * j) (16 * 2 ^ k) = window m (16 * j) (16 * 2 ^ k)"
    if "span j k \<inter> W = {}" for j k
  proof -
    have "p \<notin> span j k" using that assms by blast
    then have "p < j \<or> j + 2 ^ k \<le> p" unfolding span_def atLeastLessThan_iff by linarith
    then have "16 * p + 16 \<le> 16 * j \<or> 16 * j + 16 * 2 ^ k \<le> 16 * p" by linarith
    then show ?thesis by (auto simp: put_hdr_def intro!: window_overwrite_disjoint)
  qed
  then show ?thesis by (simp add: touched_only_def)
qed

lemma touched_only_step:
  "touched_only W m m' \<Longrightarrow> p \<in> W \<Longrightarrow> touched_only W m (put_hdr p w m')"
  by (rule touched_only_trans [OF _ touched_only_put_hdr])

lemma fun_upd_eq_const: "(\<lambda>j. (f(i := v)) j = c) = (\<lambda>j. f j = c)(i := (v = c))"
  by auto

lemma nth_list_update_fun:
  "k < length xs \<Longrightarrow> (!) (xs[k := v]) = ((!) xs)(k := v)"
  by (auto simp: fun_eq_iff nth_list_update)

lemma heap_wfD:
  assumes "heap_wf cr X S L U h"
  shows "sized h"
    and "buddy_wf (units h) (ord_at cr (mapping h)) (free_at cr (mapping h)) (next_at cr (mapping h))
         ((!) (free_head_per_order h)) X S L U"
    and "i \<in> S \<Longrightarrow> type_at cr (mapping h) i \<noteq> None"
  using assms by (auto simp: heap_wf_def)

lemmas heap_wf_tiling = heap_wfD(2) [THEN buddy_wfD(1)]
lemmas heap_wf_held = heap_wfD(2) [THEN buddy_wfD(2)]
lemmas heap_wf_distinct = heap_wfD(2) [THEN buddy_wfD(3)]
lemmas heap_wf_list = heap_wfD(2) [THEN buddy_wfD(4)]
lemmas heap_wf_chain = heap_wfD(2) [THEN buddy_wfD(5)]
lemmas heap_wf_used = heap_wfD(2) [THEN buddy_wf_used]

lemma sizedD:
  assumes "sized h"
  shows "length (free_head_per_order h) = 8" and "units h * 16 = current_size_bytes h"
    and "256 dvd units h" and "units h \<le> 2 ^ 28" and "16 * units h \<le> length (mapping h)"
proof -
  obtain a b where "current_size_bytes h = 4096 * a" "length (mapping h) = 4096 * b"
    using assms by (auto simp: sized_def elim!: dvdE)
  then show "units h * 16 = current_size_bytes h" "256 dvd units h" "units h \<le> 2 ^ 28"
    "16 * units h \<le> length (mapping h)" "length (free_head_per_order h) = 8"
    using assms by (auto simp: sized_def)
qed

lemma units_block_in:
  assumes "sized h" and "i < units h"
  shows "block_in (mapping h) i"
proof -
  have "16 * Suc i \<le> 16 * units h" using assms(2) by (intro mult_le_mono2) simp
  then show ?thesis using sizedD(5) [OF assms(1)] by (simp add: block_in_def)
qed

lemma heap_wf_in:
  assumes w: "heap_wf cr X S L U h" and i: "i \<in> S"
  shows "block_in (mapping h) i" and "i < units h" and "i + 2 ^ ord_at cr (mapping h) i \<le> units h"
    and "ord_at cr (mapping h) i < 8" and "i < 2 ^ 28"
proof -
  note t = tilingD [OF heap_wf_tiling [OF w] i] and z = sizedD [OF heap_wfD(1) [OF w]]
  show "i < units h" "i + 2 ^ ord_at cr (mapping h) i \<le> units h" "ord_at cr (mapping h) i < 8"
    using t by simp_all
  then show "i < 2 ^ 28" using z(4) by linarith
  show "block_in (mapping h) i" by (rule units_block_in [OF heap_wfD(1) [OF w] \<open>i < units h\<close>])
qed

lemma span_free_area:
  assumes w: "heap_wf cr X S L U h" and i: "i \<in> S" "U i = None"
  shows "span i (ord_at cr (mapping h) i) \<subseteq> free_area U" and "i \<in> free_area U"
proof -
  have "p \<notin> span j k" if "U j = Some k" and p: "p \<in> span i (ord_at cr (mapping h) i)" for p j k
  proof -
    have "j \<in> S" "ord_at cr (mapping h) j = k" using that heap_wf_used [OF w] by auto
    moreover have "i \<noteq> j" using that i by auto
    ultimately show ?thesis using tiling_disjoint [OF heap_wf_tiling [OF w] i(1), of j] p by blast
  qed
  then show "span i (ord_at cr (mapping h) i) \<subseteq> free_area U" by (auto simp: free_area_def)
  then show "i \<in> free_area U" using exp_pos [of "ord_at cr (mapping h) i"]
    unfolding span_def subset_iff atLeastLessThan_iff by auto
qed

section \<open>Reading the heap\<close>

lemma bindP_readB_Ok [simp]: "f (Mapping (mapping h)) = Ok a \<Longrightarrow> bindP (readB f) g h = g a h"
  by (simp add: readB_def)

lemma bindP_onB_Ok: "p (mapping h) = (Ok a, m') \<Longrightarrow> bindP (onB p) g h = g a (h\<lparr>mapping := m'\<rparr>)"
  by (simp add: onB_def zoomP_def bindP_def)

lemma unwrapP_onB_Ok:
  "p (mapping h) = (Ok a, m') \<Longrightarrow> bindP (unwrapP (onB p)) g h = g a (h\<lparr>mapping := m'\<rparr>)"
  by (simp add: onB_def zoomP_def bindP_def unwrapP_def)

lemma head_at_in [simp]: "sized h \<Longrightarrow> k < 8 \<Longrightarrow> head_at h k = Ok (free_head_per_order h ! k)"
  by (simp add: head_at_def sized_def)

lemma set_head_in [simp]:
  "sized h \<Longrightarrow> k < 8 \<Longrightarrow>
    set_head k v h = (Ok (), h\<lparr>free_head_per_order := (free_head_per_order h)[k := v]\<rparr>)"
  by (simp add: set_head_def sized_def)

lemma sized_update [simp]:
  "length m = length (mapping h) \<Longrightarrow> sized (h\<lparr>mapping := m\<rparr>) = sized h"
  "sized (h\<lparr>free_head_per_order := (free_head_per_order h)[k := v]\<rparr>) = sized h"
  "length m = length (mapping h) \<Longrightarrow>
    sized (h\<lparr>mapping := m, free_head_per_order := (free_head_per_order h)[k := v]\<rparr>) = sized h"
  by (simp_all add: sized_def)

context inspect_crates
begin

lemma next_at_mod [simp]: "next_at cr m i mod 2 ^ 28 = next_at cr m i"
  using get_field_bound [of 8 35 "hdr_at m i"]
  by (simp add: next_at_def hdr_free_next_index_def)

lemma get_block_in:
  assumes w: "heap_wf cr X S L U h" and i: "i \<in> S"
  shows "get_block cr h i = Ok i"
proof -
  note d = heap_wf_in [OF w i] and z = sizedD(2) [OF heap_wfD(1) [OF w]]
  have "(i + 2 ^ ord_at cr (mapping h) i) * 16 \<le> units h * 16"
    using d(3) by (rule mult_le_mono1)
  then have "16 * i + 16 * 2 ^ ord_at cr (mapping h) i \<le> current_size_bytes h"
    unfolding z by (simp add: algebra_simps)
  then have "i * 16 < current_size_bytes h" "16 * 2 ^ ord_at cr (mapping h) i \<le> current_size_bytes h - i * 16"
    using exp_pos [of "ord_at cr (mapping h) i"] by linarith+
  then show ?thesis
    using d(1) by (simp add: get_block_def offset_for_index_eq order_to_size_eq Let_def)
qed

lemma is_free_block_in:
  assumes w: "heap_wf cr X S L U h" and i: "i \<in> S"
  shows "is_free_block cr h i k = Ok (free_at cr (mapping h) i \<and> ord_at cr (mapping h) i = k)"
proof -
  note d = heap_wf_in [OF w i]
  obtain t where "type_at cr (mapping h) i = Some t" using heap_wfD(3) [OF w i] by blast
  then show ?thesis
    using d(1,2) get_block_in [OF w i] by (simp add: is_free_block_def MIN_ORDER_SIZE_def)
qed

text \<open>The head of a list is a free block of that order exactly when the list is not empty.\<close>

lemma is_free_block_head:
  assumes w: "heap_wf cr {} S L U h" and pos: "0 < current_size_bytes h" and k: "k < 8"
  shows "is_free_block cr h (free_head_per_order h ! k) k = Ok (L k \<noteq> [])"
proof (cases "L k")
  case Nil
  then have "free_head_per_order h ! k = 0" using heap_wf_chain [OF w k] by simp
  moreover have "0 < units h" using pos sizedD(2) [OF heap_wfD(1) [OF w]] by (metis mult_0 neq0_conv)
  then have "0 \<in> S" by (rule tiling_zero [OF heap_wf_tiling [OF w]])
  moreover have "\<not> (free_at cr (mapping h) 0 \<and> ord_at cr (mapping h) 0 = k)"
    using heap_wf_list [OF w k] Nil \<open>0 \<in> S\<close> by auto
  ultimately show ?thesis using is_free_block_in [OF w] Nil by auto
next
  case (Cons i xs)
  then have "free_head_per_order h ! k = i" using heap_wf_chain [OF w k] by simp
  moreover have "i \<in> S" "free_at cr (mapping h) i" "ord_at cr (mapping h) i = k"
    using heap_wf_list [OF w k] Cons by auto
  ultimately show ?thesis using is_free_block_in [OF w] Cons by auto
qed

section \<open>Unlinking a block\<close>

lemma remove_free_loop:
  assumes w: "heap_wf cr X S L U h" and k: "k < 8" and l: "L k = xs @ p # ys @ i # zs"
  shows "iterateP (remove_free_step cr i k) p h = Some (Ok True, h\<lparr>mapping :=
    put_hdr (last (p # ys)) (hdr_set_free_next_index cr (next_at cr (mapping h) i)
      (hdr_at (mapping h) (last (p # ys)))) (mapping h)\<rparr>)"
  using l
proof (induction ys arbitrary: xs p)
  case Nil
  have p: "p \<in> S" "free_at cr (mapping h) p" "ord_at cr (mapping h) p = k"
    and i: "i \<in> S" "free_at cr (mapping h) i"
    using heap_wf_list [OF w k] Nil by auto
  have nx: "next_at cr (mapping h) p = i"
    using chain_next [of "next_at cr (mapping h)" _ xs p i zs] heap_wf_chain [OF w k] Nil by simp
  show ?case
    using p i nx heap_wf_in(1) [OF w p(1)] heap_wf_in(1) [OF w i(1)]
    by (simp add: remove_free_step_def is_free_block_in [OF w] get_block_in [OF w] bindP_onB_Ok
        set_free_next_index_in iterateP_break)
next
  case (Cons y ys)
  have p: "p \<in> S" "free_at cr (mapping h) p" "ord_at cr (mapping h) p = k"
    using heap_wf_list [OF w k] Cons.prems by auto
  have nx: "next_at cr (mapping h) p = y"
    using chain_next [of "next_at cr (mapping h)" _ xs p y] heap_wf_chain [OF w k] Cons.prems by simp
  have "y \<noteq> i" using heap_wf_distinct [OF w k] Cons.prems by auto
  have "remove_free_step cr i k p h = (Ok (Inl y), h)"
    using p nx \<open>y \<noteq> i\<close> heap_wf_in(1) [OF w p(1)]
    by (simp add: remove_free_step_def is_free_block_in [OF w] get_block_in [OF w])
  then show ?case
    using Cons.IH [of "xs @ [p]" y] Cons.prems by (simp add: iterateP_continue)
qed

text \<open>
  A step that leaves the orders, the types, the sizes and every byte outside the free area
  as they are.
\<close>

lemma remove_free_wf:
  assumes w: "heap_wf cr X S L U h" and k: "k < 8" and i: "i \<in> set (L k)"
  obtains h' where "remove_free cr i h = (Ok True, h')"
    and "heap_wf cr (insert i X) S (L(k := remove1 i (L k))) U h'"
    and "ord_at cr (mapping h') = ord_at cr (mapping h)"
    and "type_at cr (mapping h') = type_at cr (mapping h)"
    and "current_size_bytes h' = current_size_bytes h"
    and "touched_only (free_area U) (mapping h) (mapping h')"
proof -
  have iS: "i \<in> S" "free_at cr (mapping h) i" "ord_at cr (mapping h) i = k"
    using heap_wf_list [OF w k] i by auto
  note in_i = heap_wf_in [OF w iS(1)] and z = heap_wfD(1) [OF w]
  obtain ys zs where l: "L k = ys @ i # zs" using i by (meson split_list)
  have d: "distinct (L k)" by (rule heap_wf_distinct [OF w k])
  then have rm: "remove1 i (L k) = ys @ zs" using l by (simp add: remove1_append)
  let ?nx = "next_at cr (mapping h) i"
  show thesis
  proof (cases ys rule: rev_cases)
    case Nil
    let ?h = "h\<lparr>free_head_per_order := (free_head_per_order h)[k := ?nx]\<rparr>"
    have hd: "free_head_per_order h ! k = i" using heap_wf_chain [OF w k] l Nil by simp
    have "remove_free cr i h = (Ok True, ?h)"
      using in_i iS hd z k by (simp add: remove_free_def NUM_ORDERS_def bindP_step)
    moreover have "heap_wf cr (insert i X) S (L(k := remove1 i (L k))) U ?h"
      using buddy_wf_unlink_head [OF heap_wfD(2) [OF w] k, of i zs] l Nil rm w z k
      by (simp add: heap_wf_def nth_list_update_fun sizedD(1))
    ultimately show thesis by (rule that) simp_all
  next
    case (snoc xs p)
    then have l': "L k = xs @ p # i # zs" using l by simp
    let ?w = "hdr_set_free_next_index cr ?nx (hdr_at (mapping h) p)"
    let ?h = "h\<lparr>mapping := put_hdr p ?w (mapping h)\<rparr>"
    have p: "p \<in> S" "free_at cr (mapping h) p"
      using heap_wf_list [OF w k] l' by auto
    note in_p = heap_wf_in [OF w p(1)]
    obtain q ys' where q: "ys = q # ys'" using snoc by (cases xs) auto
    have hd: "free_head_per_order h ! k = q" "q \<noteq> i"
      using heap_wf_chain [OF w k] l q d by auto
    have "last (q # ys') = p" using snoc q by (metis last_snoc)
    then have "remove_free cr i h = (Ok True, ?h)"
      using in_i iS hd z k remove_free_loop [OF w k, of "[]" q ys' i zs] l q
      by (simp add: remove_free_def NUM_ORDERS_def loopP_def)
    moreover have "heap_wf cr (insert i X) S (L(k := remove1 i (L k))) U ?h"
    proof -
      have "type_at cr (mapping ?h) = type_at cr (mapping h)" "ord_at cr (mapping ?h) = ord_at cr (mapping h)"
        using in_p by (auto simp: fun_eq_iff type_at_def ord_at_def)
      moreover have "next_at cr (mapping ?h) = (next_at cr (mapping h))(p := ?nx)"
        using in_p next_at_mod [of "mapping h" i] by simp
      ultimately show ?thesis
        using buddy_wf_unlink_later [OF heap_wfD(2) [OF w] k l'] rm w z snoc
        by (simp add: heap_wf_def)
    qed
    moreover have "p \<in> free_area U"
      using span_free_area(2) [OF w p(1)] heap_wf_used [OF w, of p] p(2) by (cases "U p") auto
    ultimately show thesis
      using in_p by (intro that [of ?h]) (auto simp: touched_only_put_hdr fun_eq_iff ord_at_def type_at_def)
  qed
qed

section \<open>Splitting a block\<close>

lemma head_small:
  assumes w: "heap_wf cr X S L U h" and k: "k < 8"
  shows "free_head_per_order h ! k < 2 ^ 28"
proof (cases "L k")
  case Nil
  then show ?thesis using heap_wf_chain [OF w k] by simp
next
  case (Cons i xs)
  then have "free_head_per_order h ! k = i" "i \<in> S"
    using heap_wf_chain [OF w k] heap_wf_list [OF w k] by auto
  then show ?thesis using heap_wf_in(5) [OF w, of i] by simp
qed

lemma buddy_eq: "k < 8 \<Longrightarrow> buddy i k = Ok (buddy_of i k)"
proof -
  assume "k < 8"
  then have "(2::nat) ^ k < 2 ^ 8" by (intro power_strict_increasing) auto
  then show ?thesis
    by (simp add: buddy_def index_for_offset_def order_to_size_eq MIN_ORDER_SIZE_def buddy_of_def)
qed

lemma split_block_wf:
  assumes w: "heap_wf cr {} S L U h" and i: "i \<in> S" "free_at cr (mapping h) i"
    and k: "ord_at cr (mapping h) i = Suc k"
  obtains h' L' where "split_block cr i h = (Ok (), h')"
    and "heap_wf cr {} (insert (i + 2 ^ k) S) L' U h'"
    and "coalesced_but i L \<Longrightarrow> coalesced_but i L'"
    and "free_at cr (mapping h') i" and "ord_at cr (mapping h') i = k"
    and "current_size_bytes h' = current_size_bytes h"
    and "touched_only (free_area U) (mapping h) (mapping h')"
proof -
  let ?b = "i + 2 ^ k"
  have k8: "Suc k < 8" "k < 8" using heap_wf_in(4) [OF w i(1)] k by simp_all
  have iL: "i \<in> set (L (Suc k))" using heap_wf_list [OF w k8(1)] i k by simp
  obtain h1 where r: "remove_free cr i h = (Ok True, h1)"
    and w1: "heap_wf cr {i} S (L(Suc k := remove1 i (L (Suc k)))) U h1" (is "heap_wf cr {i} S ?L U h1")
    and same: "ord_at cr (mapping h1) = ord_at cr (mapping h)" "type_at cr (mapping h1) = type_at cr (mapping h)"
      "current_size_bytes h1 = current_size_bytes h"
    and tou: "touched_only (free_area U) (mapping h) (mapping h1)"
    by (rule remove_free_wf [OF w k8(1) iL]) simp
  note in_i = heap_wf_in [OF w i(1)] and in1 = heap_wf_in [OF w1 i(1)]
  have dv: "2 ^ Suc k dvd i" using tilingD(2) [OF heap_wf_tiling [OF w] i(1)] k by simp
  have bud: "buddy_of i k = ?b" using dv dvd_lower [OF dv] by (simp add: buddy_of_eq)
  have "?b < i + 2 ^ Suc k" by simp
  then have bu: "?b < units h1" using in1(3) unfolding same(1) k by (rule less_le_trans)
  note z1 = heap_wfD(1) [OF w1]
  have bin: "block_in (mapping h1) ?b" by (rule units_block_in [OF z1 bu])
  have bsz: "?b mod 2 ^ 28 = ?b" using bu sizedD(4) [OF z1] by simp
  have hsz: "free_head_per_order h1 ! k mod 2 ^ 28 = free_head_per_order h1 ! k"
    by (rule mod_less [OF head_small [OF w1 k8(2)]])
  let ?mi = "put_hdr i (hdr_set_free_next_index cr ?b (hdr_set_block_type cr 0
    (hdr_set_order cr k (hdr_at (mapping h1) i)))) (mapping h1)"
  let ?hd = "free_head_per_order h1 ! k"
  let ?m = "put_hdr ?b (hdr_set_free_next_index cr ?hd (hdr_set_block_type cr 0
    (hdr_set_order cr k (hdr_at (mapping h1) ?b)))) ?mi"
  let ?h = "h1\<lparr>mapping := ?m, free_head_per_order := (free_head_per_order h1)[k := i]\<rparr>"
  have "split_block cr i h = (Ok (), ?h)"
    using in_i in1 bin k k8 same z1 i
    by (simp add: split_block_def NUM_ORDERS_def bindP_step r buddy_eq bud bindP_onB_Ok
        set_order_in become_free_in)
  moreover have flds: "ord_at cr ?m = (ord_at cr (mapping h1))(i := k, ?b := k)"
    "free_at cr ?m = (free_at cr (mapping h1))(?b := True, i := True)"
    "next_at cr ?m = (next_at cr (mapping h1))(?b := ?hd, i := ?b)"
    using in1(1) bin k8 bsz hsz by (auto simp: fun_eq_iff)
  have "heap_wf cr {} (insert ?b S) (?L(k := i # ?b # ?L k)) U ?h"
  proof -
    have ord1: "ord_at cr (mapping h1) i = Suc k" using k same by simp
    note s = buddy_wf_split [OF heap_wfD(2) [OF w1] singletonI ord1]
    note p1 = buddy_wf_push [OF s insertI1, of k]
    have "buddy_wf (units h1) (ord_at cr ?m) (free_at cr ?m) (next_at cr ?m)
      (((!) (free_head_per_order h1))(k := i)) {} (insert ?b S) (?L(k := i # ?b # ?L k)) U"
      using buddy_wf_push [OF p1, of i k] unfolding flds by simp
    moreover have "\<forall>j\<in>insert ?b S. type_at cr ?m j \<noteq> None"
      using heap_wfD(3) [OF w1] in1(1) bin by auto
    ultimately show ?thesis using z1 k8 by (simp add: heap_wf_def nth_list_update_fun sizedD(1))
  qed
  moreover have "free_at cr (mapping ?h) i" and "ord_at cr (mapping ?h) i = k"
    using fun_cong [OF flds(2), of i] fun_cong [OF flds(1), of i] by simp_all
  moreover have "touched_only (free_area U) (mapping h) (mapping ?h)"
  proof -
    have "U i = None" using i(2) heap_wf_used [OF w, of i] by (cases "U i") auto
    then have "i \<in> free_area U" "?b \<in> free_area U"
      using span_free_area [OF w i(1)] k by (auto simp: span_def)
    then show ?thesis using tou by (simp add: touched_only_step)
  qed
  moreover have "coalesced_but i (?L(k := i # ?b # ?L k))" if "coalesced_but i L"
    by (rule coalesced_but_split [OF that bud])
  ultimately show thesis using same(3) by (intro that [of ?h]) simp_all
qed

lemma split_loop_wf:
  assumes "heap_wf cr {} S L U h" and "i \<in> S" and "free_at cr (mapping h) i"
    and "f \<le> ord_at cr (mapping h) i"
  shows "\<exists>h' S' L'. iterateP (split_step cr i f) () h = Some (Ok (), h') \<and> heap_wf cr {} S' L' U h'
    \<and> i \<in> S' \<and> S \<subseteq> S' \<and> free_at cr (mapping h') i \<and> ord_at cr (mapping h') i = f
    \<and> (coalesced_but i L \<longrightarrow> coalesced_but i L')
    \<and> current_size_bytes h' = current_size_bytes h
    \<and> touched_only (free_area U) (mapping h) (mapping h')"
  using assms
proof (induction "ord_at cr (mapping h) i - f" arbitrary: h S L)
  case 0
  then have "split_step cr i f () h = (Ok (Inr ()), h)"
    using heap_wf_in(1) [OF 0(2,3)] by (simp add: split_step_def)
  then show ?case using 0 by (auto simp: iterateP_break)
next
  case (Suc d)
  then obtain k where k: "ord_at cr (mapping h) i = Suc k" by (cases "ord_at cr (mapping h) i") auto
  obtain h1 L1 where s: "split_block cr i h = (Ok (), h1)"
    and w: "heap_wf cr {} (insert (i + 2 ^ k) S) L1 U h1"
    and co: "coalesced_but i L \<Longrightarrow> coalesced_but i L1"
    and f: "free_at cr (mapping h1) i" "ord_at cr (mapping h1) i = k"
    and c: "current_size_bytes h1 = current_size_bytes h"
    and t: "touched_only (free_area U) (mapping h) (mapping h1)"
    by (rule split_block_wf [OF Suc.prems(1-3) k]) blast
  have "split_step cr i f () h = (Ok (Inl ()), h1)"
    using heap_wf_in(1) [OF Suc.prems(1,2)] Suc.hyps(2) s
    by (simp add: split_step_def bindP_step)
  moreover have "d = ord_at cr (mapping h1) i - f" "f \<le> ord_at cr (mapping h1) i"
    using Suc.hyps(2) k f by auto
  then obtain h' S' L' where "iterateP (split_step cr i f) () h1 = Some (Ok (), h')" "heap_wf cr {} S' L' U h'"
    "i \<in> S'" "insert (i + 2 ^ k) S \<subseteq> S'" "free_at cr (mapping h') i" "ord_at cr (mapping h') i = f"
    "coalesced_but i L1 \<longrightarrow> coalesced_but i L'"
    "current_size_bytes h' = current_size_bytes h1" "touched_only (free_area U) (mapping h1) (mapping h')"
    using Suc.hyps(1) [OF _ w _ f(1)] Suc.prems(2) by blast
  ultimately show ?case
    using c co touched_only_trans [OF t] iterateP_continue [of "split_step cr i f"] by (intro exI [of _ h'] exI [of _ S'] exI [of _ L']) simp
qed

end

section \<open>Growing the heap\<close>

text \<open>
  Between two rounds of the loop of \<open>grow_heap\<close>: the blocks of the largest order from unit
  \<open>128 * c\<close> to the new end are free and linked in front of the old list.
\<close>

definition grow_inv :: "crate_ops \<Rightarrow> heap \<Rightarrow> nat list \<Rightarrow> nat set \<Rightarrow> nat \<Rightarrow> nat \<Rightarrow> nat \<Rightarrow> heap \<Rightarrow> bool" where
  "grow_inv cr h l W e c la g \<longleftrightarrow> (\<exists>m. g = h\<lparr>mapping := m\<rparr> \<and> touched_only W (mapping h) m
     \<and> (\<forall>i<units h. ord_at cr m i = ord_at cr (mapping h) i \<and> type_at cr m i = type_at cr (mapping h) i
          \<and> next_at cr m i = next_at cr (mapping h) i)
     \<and> (\<forall>j. c \<le> j \<and> j < e \<longrightarrow> ord_at cr m (128 * j) = 7 \<and> type_at cr m (128 * j) = Some Free)
     \<and> la < 2 ^ 28 \<and> chain (next_at cr m) la (map (\<lambda>j. 128 * j) [c..<e] @ l))"

context inspect_crates
begin

lemma index_for_max: "index_for_offset MAX_ORDER_SIZE = Ok 128"
  by (simp add: index_for_offset_def MIN_ORDER_SIZE_def MAX_ORDER_SIZE_def MAX_ORDER_SHIFT_def
      MIN_ORDER_SHIFT_def NUM_ORDERS_def)

lemma grow_step_inv:
  assumes g: "grow_inv cr h l W e (Suc c) la g" and n: "units h \<le> 128 * c" and e: "c < e" "e \<le> 2 ^ 21"
    and len: "2048 * e \<le> length (mapping h)" and W: "128 * c \<in> W" and l: "128 * c \<notin> set l"
  obtains g' where "grow_step cr (units h) (128 * Suc c, la) g =
      (Ok (if c * 128 \<le> units h then Inr (128 * c) else Inl (128 * c, 128 * c)), g')"
    and "grow_inv cr h l W e c (128 * c) g'"
proof -
  obtain m where gm: "g = h\<lparr>mapping := m\<rparr>" and t: "touched_only W (mapping h) m"
    and old: "\<forall>i<units h. ord_at cr m i = ord_at cr (mapping h) i \<and> type_at cr m i = type_at cr (mapping h) i
          \<and> next_at cr m i = next_at cr (mapping h) i"
    and new: "\<forall>j. Suc c \<le> j \<and> j < e \<longrightarrow> ord_at cr m (128 * j) = 7 \<and> type_at cr m (128 * j) = Some Free"
    and ch: "la < 2 ^ 28" "chain (next_at cr m) la (map (\<lambda>j. 128 * j) [Suc c..<e] @ l)"
    using g unfolding grow_inv_def by blast
  have "length m = length (mapping h)" using t by (simp add: touched_only_def)
  then have bin: "block_in m (128 * c)" using e(1) len by (simp add: block_in_def)
  let ?m = "put_hdr (128 * c) (hdr_set_free_next_index cr la (hdr_set_block_type cr 0 (hdr_set_order cr 7 0))) m"
  have step: "grow_step cr (units h) (128 * Suc c, la) g =
      (Ok (if c * 128 \<le> units h then Inr (128 * c) else Inl (128 * c, 128 * c)), h\<lparr>mapping := ?m\<rparr>)"
    using bin e by (simp add: grow_step_def index_for_max NUM_ORDERS_def unwrapP_onB_Ok new_free_in gm mult.commute)
  have "128 * c \<notin> set (map (\<lambda>j. 128 * j) [Suc c..<e] @ l)" using l by auto
  then have "chain (next_at cr ?m) (128 * c) (128 * c # map (\<lambda>j. 128 * j) [Suc c..<e] @ l)"
    using bin chain_push [OF ch(2)] ch(1) by simp
  then have "chain (next_at cr ?m) (128 * c) (map (\<lambda>j. 128 * j) [c..<e] @ l)"
    using e(1) by (simp add: upt_conv_Cons)
  moreover have "ord_at cr ?m (128 * j) = 7 \<and> type_at cr ?m (128 * j) = Some Free" if "c \<le> j" "j < e" for j
    using that new bin by (cases "j = c") auto
  moreover have "128 * c < 2 ^ 28" using e by simp
  ultimately have "grow_inv cr h l W e c (128 * c) (h\<lparr>mapping := ?m\<rparr>)"
    unfolding grow_inv_def using old n bin touched_only_step [OF t W] by (intro exI [of _ ?m]) auto
  with step show thesis by (rule that)
qed

lemma grow_loop_wf:
  assumes "grow_inv cr h l W e (Suc (n + d)) la g" and n: "units h = 128 * n"
    and "n + d < e" and e: "e \<le> 2 ^ 21" "2048 * e \<le> length (mapping h)"
    and W: "{128 * n..} \<subseteq> W" and l: "\<forall>i\<in>set l. i < units h"
  shows "\<exists>g'. iterateP (grow_step cr (units h)) (128 * Suc (n + d), la) g = Some (Ok (128 * n), g')
    \<and> grow_inv cr h l W e n (128 * n) g'"
  using assms(1,3)
proof (induction d arbitrary: la g)
  case 0
  obtain g' where "grow_step cr (units h) (128 * Suc n, la) g = (Ok (Inr (128 * n)), g')"
    "grow_inv cr h l W e n (128 * n) g'"
    using grow_step_inv [of h l W e n la g] 0 n e W l by (auto simp: mult.commute)
  then show ?case by (auto simp: iterateP_break)
next
  case (Suc d)
  let ?c = "n + Suc d"
  have big: "\<not> ?c * 128 \<le> units h" using n by simp
  have Wc: "128 * ?c \<in> W" using W by auto
  have lc: "128 * ?c \<notin> set l"
  proof
    assume "128 * ?c \<in> set l"
    then have "128 * ?c < 128 * n" using l n by fastforce
    then show False by simp
  qed
  obtain g' where g': "grow_step cr (units h) (128 * Suc ?c, la) g = (Ok (Inl (128 * ?c, 128 * ?c)), g')"
    "grow_inv cr h l W e ?c (128 * ?c) g'"
    by (rule grow_step_inv [OF Suc.prems(1) _ _ e Wc lc]) (use n Suc.prems(2) big in auto)
  have "\<exists>g''. iterateP (grow_step cr (units h)) (128 * Suc (n + d), 128 * ?c) g' = Some (Ok (128 * n), g'')
    \<and> grow_inv cr h l W e n (128 * n) g''"
    using Suc.IH [of "128 * ?c" g'] g'(2) Suc.prems(2) by simp
  then show ?case using g'(1) by (simp add: iterateP_continue)
qed

lemma grow_heap_wf:
  assumes w: "heap_wf cr {} S L U h" and r: "4096 dvd r" "current_size_bytes h < r"
    and room: "current_size_bytes h < length (mapping h)"
  obtains h' L' N where "grow_heap cr r h = (Ok (), h')" and "heap_wf cr {} (S \<union> set N) L' U h'"
    and "L' 7 = N @ L 7" and "N \<noteq> []" and "hd N = units h" and "\<forall>k. k \<noteq> 7 \<longrightarrow> L' k = L k"
    and "current_size_bytes h' = min (length (mapping h)) r"
    and "touched_only (free_area U) (mapping h) (mapping h')"
proof -
  let ?new = "min (length (mapping h)) r"
  note z = heap_wfD(1) [OF w]
  have "4096 dvd current_size_bytes h" "4096 dvd ?new"
    using z r(1) by (simp_all add: sized_def min_def)
  then obtain a b where ab: "current_size_bytes h = 4096 * a" "?new = 4096 * b"
    by (elim dvdE)
  have lt: "a < b" using ab r(2) room by (simp add: min_def split: if_splits)
  define n e where "n = 2 * a" and "e = 2 * b"
  have un: "units h = 128 * n" using ab by (simp add: n_def)
  have ne: "n < e" "e \<le> 2 ^ 21" "2048 * e \<le> length (mapping h)"
    using lt ab z by (auto simp: n_def e_def sized_def)
  let ?h7 = "free_head_per_order h ! 7"
  have ch7: "chain (next_at cr (mapping h)) ?h7 (L 7)" using heap_wf_chain [OF w, of 7] by simp
  have l7: "\<forall>i\<in>set (L 7). i < units h"
    using heap_wf_list [OF w, of 7] tilingD(4) [OF heap_wf_tiling [OF w]] by auto
  have "?h7 < 2 ^ 28" by (rule head_small [OF w]) simp
  then have init: "grow_inv cr h (L 7) (free_area U) e e ?h7 h"
    using ch7 by (auto simp: grow_inv_def intro!: exI [of _ "mapping h"])
  have W: "{128 * n..} \<subseteq> free_area U"
  proof (intro subsetI)
    fix p assume "p \<in> {128 * n..}"
    then have p: "units h \<le> p" using un by simp
    show "p \<in> free_area U"
      unfolding free_area_def
    proof (intro CollectI allI impI)
      fix j k assume "U j = Some k"
      then have "j \<in> S" "ord_at cr (mapping h) j = k" using heap_wf_used [OF w] by auto
      then show "p \<notin> span j k" using tilingD(3) [OF heap_wf_tiling [OF w]] p by force
    qed
  qed
  obtain d where d: "e = Suc (n + d)" using ne(1) less_iff_Suc_add by auto
  obtain g where loop: "iterateP (grow_step cr (units h)) (128 * e, ?h7) h = Some (Ok (128 * n), g)"
    and inv: "grow_inv cr h (L 7) (free_area U) e n (128 * n) g"
    using grow_loop_wf [of h "L 7" "free_area U" e n d ?h7 h] init un d ne W l7 by auto
  let ?h = "g\<lparr>free_head_per_order := (free_head_per_order h)[7 := 128 * n], current_size_bytes := ?new\<rparr>"
  let ?N = "map (\<lambda>j. 128 * j) [n..<e]"
  obtain m where gm: "g = h\<lparr>mapping := m\<rparr>" and t: "touched_only (free_area U) (mapping h) m"
    and old: "\<forall>i<units h. ord_at cr m i = ord_at cr (mapping h) i \<and> type_at cr m i = type_at cr (mapping h) i
          \<and> next_at cr m i = next_at cr (mapping h) i"
    and new: "\<forall>j. n \<le> j \<and> j < e \<longrightarrow> ord_at cr m (128 * j) = 7 \<and> type_at cr m (128 * j) = Some Free"
    and ch: "chain (next_at cr m) (128 * n) (?N @ L 7)"
    using inv unfolding grow_inv_def by blast
  have newN: "ord_at cr m i = 7 \<and> type_at cr m i = Some Free" if "i \<in> set ?N" for i
    using that new by auto
  have len: "length m = length (mapping h)" using t by (simp add: touched_only_def)
  have "b \<le> 2 ^ 20" using ne(2) by (simp add: e_def)
  then have ix: "index_for_offset (current_size_bytes h) = (Ok (units h) :: (inspect_error, nat) outcome)"
    "index_for_offset (?new - ?new mod PAGE_SIZE_BYTES) = (Ok (128 * e) :: (inspect_error, nat) outcome)"
    using ab lt by (auto simp: index_for_offset_def MIN_ORDER_SIZE_def PAGE_SIZE_BYTES_def e_def)
  have "grow_heap cr r h = (Ok (), ?h)"
    using room z loop ix gm len by (simp add: grow_heap_def Let_def NUM_ORDERS_def loopP_def bindP_step)
  moreover have "heap_wf cr {} (S \<union> set ?N) (L(7 := ?N @ L 7)) U ?h"
  proof -
    have uh: "units ?h = 128 * e" using ab by (simp add: e_def)
    have "set ?N = {i \<in> {units h..<128 * e}. 128 dvd i}"
      by (auto simp: un image_iff elim!: dvdE)
    moreover have "distinct ?N" by (simp add: distinct_map inj_on_def)
    ultimately have "buddy_wf (128 * e) (ord_at cr m) (free_at cr m) (next_at cr m)
        (((!) (free_head_per_order h))(7 := 128 * n)) {} (S \<union> set ?N) (L(7 := ?N @ L 7)) U"
      using old newN ch ne(1) by (intro buddy_wf_grow [OF heap_wfD(2) [OF w]]) (simp_all add: un)
    moreover have "type_at cr m i \<noteq> None" if "i \<in> S \<union> set ?N" for i
      using that newN [of i] old heap_wfD(3) [OF w, of i] tilingD(4) [OF heap_wf_tiling [OF w], of i] by force
    moreover have "sized ?h" using z ab ne len gm by (simp add: sized_def)
    ultimately show ?thesis
      using uh gm z by (simp add: heap_wf_def nth_list_update_fun sizedD(1))
  qed
  moreover have "hd ?N = units h" using ne(1) un by (simp add: upt_conv_Cons)
  ultimately show thesis
    using ne t gm by (intro that [of ?h ?N "L(7 := ?N @ L 7)"]) auto
qed

section \<open>Allocating\<close>

lemma find_free_order_eq:
  assumes w: "heap_wf cr {} S L U h" and pos: "0 < current_size_bytes h"
  shows "set ks \<subseteq> {..<8} \<Longrightarrow> find_free_order cr h ks = Ok (find (\<lambda>k. L k \<noteq> []) ks)"
proof (induction ks)
  case (Cons k ks)
  then have k: "k < 8" by simp
  show ?case
    using Cons k heap_wfD(1) [OF w] is_free_block_head [OF w pos k] by simp
qed simp

lemma find_free_order_upt:
  "heap_wf cr {} S L U h \<Longrightarrow> 0 < current_size_bytes h \<Longrightarrow>
    find_free_order cr h [f..<8] = Ok (find (\<lambda>k. L k \<noteq> []) [f..<8])"
  by (rule find_free_order_eq) auto

lemma carve_block_wf:
  assumes w: "heap_wf cr {} S L U h" and k: "k < 8" "f \<le> k" and l: "L k = i # xs"
  obtains h' S' L' where "carve_block cr f k h = (Ok i, h')" and "heap_wf cr {} S' L' (U(i \<mapsto> f)) h'"
    and "coalesced L \<Longrightarrow> coalesced L'" and "U i = None" and "span i f \<subseteq> free_area U" and "type_at cr (mapping h') i = Some Reserved"
    and "current_size_bytes h' = current_size_bytes h" and "S \<subseteq> S'"
    and "touched_only (free_area U) (mapping h) (mapping h')"
proof -
  have hd: "free_head_per_order h ! k = i" using heap_wf_chain [OF w k(1)] l by simp
  have i: "i \<in> S" "free_at cr (mapping h) i" "ord_at cr (mapping h) i = k"
    using heap_wf_list [OF w k(1)] l by auto
  obtain h1 S1 L1 where sp: "iterateP (split_step cr i f) () h = Some (Ok (), h1)"
    and w1: "heap_wf cr {} S1 L1 U h1"
    and co1: "coalesced_but i L \<Longrightarrow> coalesced_but i L1"
    and i1: "i \<in> S1" "free_at cr (mapping h1) i" "ord_at cr (mapping h1) i = f" and S1: "S \<subseteq> S1"
    and c1: "current_size_bytes h1 = current_size_bytes h"
    and t1: "touched_only (free_area U) (mapping h) (mapping h1)"
    using split_loop_wf [OF w i(1,2), of f] i(3) k(2) by auto
  have f: "f < 8" using k by simp
  have "i \<in> set (L1 f)" using heap_wf_list [OF w1 f] i1 by simp
  then obtain h2 where rm: "remove_free cr i h1 = (Ok True, h2)"
    and w2: "heap_wf cr {i} S1 (L1(f := remove1 i (L1 f))) U h2"
    and s2: "ord_at cr (mapping h2) = ord_at cr (mapping h1)" "type_at cr (mapping h2) = type_at cr (mapping h1)"
      "current_size_bytes h2 = current_size_bytes h1"
    and t2: "touched_only (free_area U) (mapping h1) (mapping h2)"
    by (rule remove_free_wf [OF w1 f]) simp
  note in2 = heap_wf_in [OF w2 i1(1)] and z2 = heap_wfD(1) [OF w2]
  let ?m = "put_hdr i (hdr_set_block_type cr 1 (hdr_at (mapping h2) i)) (mapping h2)"
  let ?h = "h2\<lparr>mapping := ?m\<rparr>"
  have "carve_block cr f k h = (Ok i, ?h)"
    using k hd heap_wfD(1) [OF w] in2(1) i1(2) s2(2)
    by (simp add: carve_block_def get_block_in [OF w i(1)] bindP_step loopP_def sp rm unwrapP_onB_Ok
        become_reserved_in)
  moreover have flds: "ord_at cr ?m = ord_at cr (mapping h2)" "next_at cr ?m = next_at cr (mapping h2)"
    "free_at cr ?m = (free_at cr (mapping h2))(i := False)" "type_at cr ?m i = Some Reserved"
    using in2(1) by (auto simp: fun_eq_iff ord_at_def next_at_def)
  have "heap_wf cr {} S1 (L1(f := remove1 i (L1 f))) (U(i \<mapsto> f)) ?h"
  proof -
    have "ord_at cr (mapping h2) i = f" using i1 s2 by simp
    with buddy_wf_take [OF heap_wfD(2) [OF w2] singletonI]
    have "buddy_wf (units h2) (ord_at cr ?m) (free_at cr ?m) (next_at cr ?m)
        ((!) (free_head_per_order h2)) {} S1 (L1(f := remove1 i (L1 f))) (U(i \<mapsto> f))"
      unfolding flds by simp
    moreover have "\<forall>j\<in>S1. type_at cr ?m j \<noteq> None"
      using heap_wfD(3) [OF w2] in2(1) by auto
    ultimately show ?thesis using z2 by (simp add: heap_wf_def)
  qed
  moreover have U: "U i = None" using i1(2) heap_wf_used [OF w1, of i] by (cases "U i") auto
  moreover have "span i f \<subseteq> free_area U" "i \<in> free_area U"
    using span_free_area [OF w1 i1(1) U] i1(3) by simp_all
  moreover have "touched_only (free_area U) (mapping h) ?m"
    using touched_only_trans [OF t1 t2] \<open>i \<in> free_area U\<close> by (rule touched_only_step)
  moreover have "coalesced (L1(f := remove1 i (L1 f)))" if "coalesced L"
    using co1 [OF coalesced_imp_but [OF that]]
  proof (rule coalesced_but_remove)
    show "i \<notin> set ((L1(f := remove1 i (L1 f))) q)" if "q < 8" for q
      using heap_wf_list [OF w2 that] by auto
  qed
  ultimately show thesis using flds(4) c1 s2(3) S1 by (intro that [of ?h]) simp_all
qed

lemma allocate_block_Ok:
  assumes w: "heap_wf cr {} S L U h" and pos: "0 < current_size_bytes h"
    and f: "fit_order n = (Ok f :: (inspect_error, nat) outcome)" "f < 8"
    and room: "(\<exists>k<8. f \<le> k \<and> L k \<noteq> []) \<or> current_size_bytes h < length (mapping h)"
  obtains i h' S' L' where "allocate_block cr n h = (Ok i, h')" and "heap_wf cr {} S' L' (U(i \<mapsto> f)) h'"
    and "coalesced L \<Longrightarrow> coalesced L'" and "U i = None" and "span i f \<subseteq> free_area U"
    and "type_at cr (mapping h') i = Some Reserved"
    and "current_size_bytes h \<le> current_size_bytes h'" and "S \<subseteq> S'"
    and "touched_only (free_area U) (mapping h) (mapping h')"
proof (cases "find (\<lambda>k. L k \<noteq> []) [f..<8]")
  case (Some k)
  then have k: "k < 8" "f \<le> k" "L k \<noteq> []" by (auto simp: find_Some_iff)
  then obtain i xs where l: "L k = i # xs" by (cases "L k") auto
  have al: "allocate_block cr n h = carve_block cr f k h"
    using f Some find_free_order_upt [OF w pos, of f]
    by (simp add: allocate_block_def NUM_ORDERS_def)
  obtain h' S' L' where
    c: "carve_block cr f k h = (Ok i, h')" "heap_wf cr {} S' L' (U(i \<mapsto> f)) h'"
      "coalesced L \<Longrightarrow> coalesced L'" "U i = None" "span i f \<subseteq> free_area U"
      "type_at cr (mapping h') i = Some Reserved" "current_size_bytes h' = current_size_bytes h"
      "S \<subseteq> S'" "touched_only (free_area U) (mapping h) (mapping h')"
    by (rule carve_block_wf [OF w k(1,2) l]) blast
  show thesis
    by (rule that [of i h' S' L']) (use c al in auto)
next
  case None
  then have none: "L k = []" if "k < 8" "f \<le> k" for k using that by (auto simp: find_None_iff)
  then have lt: "current_size_bytes h < length (mapping h)" using room by auto
  have dbl: "4096 dvd current_size_bytes h * 2" "current_size_bytes h < current_size_bytes h * 2"
    using heap_wfD(1) [OF w] pos by (auto simp: sized_def)
  obtain h1 L1 N where g: "grow_heap cr (current_size_bytes h * 2) h = (Ok (), h1)"
    and w1: "heap_wf cr {} (S \<union> set N) L1 U h1" and L1: "L1 7 = N @ L 7" "N \<noteq> []" "\<forall>k. k \<noteq> 7 \<longrightarrow> L1 k = L k"
    and c1: "current_size_bytes h1 = min (length (mapping h)) (current_size_bytes h * 2)"
    and t1: "touched_only (free_area U) (mapping h) (mapping h1)"
    by (rule grow_heap_wf [OF w dbl lt]) simp
  have co: "coalesced L1 = coalesced L" using L1(3) by (intro coalesced_cong) simp
  obtain i xs where l: "L1 7 = i # xs" using L1 by (cases N) auto
  have al: "allocate_block cr n h = carve_block cr f 7 h1"
    using f None find_free_order_upt [OF w pos, of f] g
    by (simp add: allocate_block_def NUM_ORDERS_def bindP_step)
  have "(7::nat) < 8" "f \<le> 7" using f(2) by simp_all
  obtain h' S' L' where
    c: "carve_block cr f 7 h1 = (Ok i, h')" "heap_wf cr {} S' L' (U(i \<mapsto> f)) h'"
      "coalesced L1 \<Longrightarrow> coalesced L'" "U i = None" "span i f \<subseteq> free_area U"
      "type_at cr (mapping h') i = Some Reserved" "current_size_bytes h' = current_size_bytes h1"
      "S \<union> set N \<subseteq> S'" "touched_only (free_area U) (mapping h1) (mapping h')"
    by (rule carve_block_wf [OF w1 \<open>7 < 8\<close> \<open>f \<le> 7\<close> l]) blast
  show thesis
    by (rule that [of i h' S' L']) (use c al co c1 lt touched_only_trans [OF t1 c(9)] in auto)
qed

lemma allocate_block_full:
  assumes w: "heap_wf cr {} S L U h" and pos: "0 < current_size_bytes h"
    and f: "fit_order n = (Ok f :: (inspect_error, nat) outcome)" "f < 8"
    and full: "\<forall>k<8. f \<le> k \<longrightarrow> L k = []" "current_size_bytes h = length (mapping h)"
  shows "allocate_block cr n h = (Err HeapAtMaximumSize, h)"
proof -
  have "find (\<lambda>k. L k \<noteq> []) [f..<8] = None" using full(1) by (auto simp: find_None_iff)
  then show ?thesis
    using f full(2) pos find_free_order_upt [OF w pos, of f]
    by (simp add: allocate_block_def NUM_ORDERS_def grow_heap_def bindP_step)
qed

section \<open>Freeing\<close>

lemma find_buddy_in:
  assumes w: "heap_wf cr X S L U h" and i: "i \<in> S"
  shows "find_buddy cr i h = (Ok (buddy_of i (ord_at cr (mapping h) i)), h)"
    and "buddy_of i (ord_at cr (mapping h) i) \<in> S"
proof -
  note d = heap_wf_in [OF w i]
  show b: "buddy_of i (ord_at cr (mapping h) i) \<in> S"
    by (rule tiling_buddy(1) [OF heap_wf_tiling [OF w] i sizedD(3) [OF heap_wfD(1) [OF w]]])
  show "find_buddy cr i h = (Ok (buddy_of i (ord_at cr (mapping h) i)), h)"
    using d get_block_in [OF w b] by (simp add: find_buddy_def buddy_eq)
qed

lemma free_guard_in:
  assumes w: "heap_wf cr X S L U h" and i: "i \<in> S" and b: "b \<in> S"
  shows "free_guard cr i b h = (Ok (free_at cr (mapping h) b \<and> ord_at cr (mapping h) i < 7
    \<and> ord_at cr (mapping h) i = ord_at cr (mapping h) b), h)"
proof -
  obtain t where "type_at cr (mapping h) b = Some t" using heap_wfD(3) [OF w b] by blast
  then show ?thesis
    using heap_wf_in(1) [OF w i] heap_wf_in(1) [OF w b] by (simp add: free_guard_def NUM_ORDERS_def)
qed

text \<open>One round of the merge loop: the buddy leaves its list and the pair becomes one block.\<close>

lemma free_step_merge:
  assumes w: "heap_wf cr {b} S L U h" and k: "ord_at cr (mapping h) b = k" "k < 7"
    and bud: "c = buddy_of b k" "free_at cr (mapping h) c" "ord_at cr (mapping h) c = k"
  obtains h' where "free_step cr (b, c) h = (Ok (Inl (min b c, buddy_of (min b c) (Suc k))), h')"
    and "heap_wf cr {min b c} (S - {max b c}) (L(k := remove1 c (L k))) U h'"
    and "ord_at cr (mapping h') (min b c) = Suc k"
    and "current_size_bytes h' = current_size_bytes h"
    and "touched_only (free_area U) (mapping h) (mapping h')"
proof -
  have bS: "b \<in> S" using heap_wf_held [OF w] by simp
  have cS: "c \<in> S" and ne: "c \<noteq> b" using find_buddy_in(2) [OF w bS] k bud buddy_of_neq [of b k] by auto
  have k8: "k < 8" using k by simp
  have "c \<in> set (L k)" using heap_wf_list [OF w k8] cS ne bud by simp
  then obtain h1 where rm: "remove_free cr c h = (Ok True, h1)"
    and w1: "heap_wf cr {c, b} S (L(k := remove1 c (L k))) U h1"
    and s1: "ord_at cr (mapping h1) = ord_at cr (mapping h)" "type_at cr (mapping h1) = type_at cr (mapping h)"
      "current_size_bytes h1 = current_size_bytes h"
    and t1: "touched_only (free_area U) (mapping h) (mapping h1)"
    by (rule remove_free_wf [OF w k8]) simp
  define lo hi where "lo = min b c" and "hi = max b c"
  have lohi: "{lo, hi} = {b, c}" "lo \<in> S" using bS cS by (auto simp: lo_def hi_def min_def max_def)
  have dv: "2 ^ k dvd b" using tilingD(2) [OF heap_wf_tiling [OF w] bS] k by simp
  have hi: "hi = lo + 2 ^ k" "2 ^ Suc k dvd lo"
    using dv by (cases rule: buddy_of_cases; use bud in \<open>simp add: lo_def hi_def\<close>)+
  note in1 = heap_wf_in [OF w1 lohi(2)] and z1 = heap_wfD(1) [OF w1]
  let ?m = "put_hdr lo (hdr_set_order cr (Suc k) (hdr_at (mapping h1) lo)) (mapping h1)"
  let ?h = "h1\<lparr>mapping := ?m\<rparr>"
  have flds: "ord_at cr ?m = (ord_at cr (mapping h1))(lo := Suc k)" "next_at cr ?m = next_at cr (mapping h1)"
    "type_at cr ?m = type_at cr (mapping h1)"
    using in1(1) k by (auto simp: fun_eq_iff type_at_def next_at_def)
  have ords: "ord_at cr (mapping h1) lo = k" "ord_at cr (mapping h1) hi = k"
    using k bud s1 by (auto simp: lo_def hi_def min_def max_def)
  have wh: "heap_wf cr {lo} (S - {hi}) (L(k := remove1 c (L k))) U ?h"
  proof -
    have "lo \<in> {c, b}" "lo + 2 ^ k \<in> {c, b}" using lohi(1) hi by auto
    from buddy_wf_merge [OF heap_wfD(2) [OF w1] this] ords hi k(2)
    have "buddy_wf (units h1) (ord_at cr ?m) (free_at cr ?m) (next_at cr ?m) ((!) (free_head_per_order h1))
        ({c, b} - {hi}) (S - {hi}) (L(k := remove1 c (L k))) U"
      unfolding flds by simp
    moreover have "{c, b} - {hi} = {lo}" using ne by (auto simp: lo_def hi_def min_def max_def)
    ultimately show ?thesis using z1 heap_wfD(3) [OF w1] by (simp add: heap_wf_def flds)
  qed
  have "lo \<in> S - {hi}" using heap_wf_held [OF wh] by simp
  note fb = find_buddy_in [OF wh this]
  have swap: "swap_blocks cr (Mapping (mapping h1)) b c = Ok (c, b)"
    using heap_wf_in(1) [OF w1 bS] heap_wf_in(1) [OF w1 cS] k bud s1 by (simp add: swap_blocks_def)
  have pick: "bindP (if c < b then readB (\<lambda>m. swap_blocks cr m b c) else returnP (b, c)) g h1 = g (lo, hi) h1" for g
    using swap by (simp add: lo_def hi_def min_def max_def)
  have "free_step cr (b, c) h = (Ok (Inl (lo, buddy_of lo (Suc k))), ?h)"
    using in1 k bud(2,3) fb(1) unfolding free_step_def
    by (simp add: free_guard_in [OF w bS cS] bindP_step rm pick bindP_onB_Ok set_order_in ords
        NUM_ORDERS_def flds split del: if_split)
  moreover have "U lo = None" using heap_wf_used [OF w1, of lo] lohi(1) by (cases "U lo") auto
  then have "touched_only (free_area U) (mapping h) ?m"
    using span_free_area(2) [OF w1 lohi(2)] t1 by (simp add: touched_only_step)
  ultimately show thesis
    using wh s1(3) by (intro that [of ?h, folded lo_def hi_def]) (simp_all add: flds)
qed

lemma free_loop_wf:
  assumes "heap_wf cr {b} S L U h" and "coalesced L"
  shows "\<exists>h' S' L' b'. iterateP (free_step cr) (b, buddy_of b (ord_at cr (mapping h) b)) h = Some (Ok b', h')
    \<and> heap_wf cr {b'} S' L' U h' \<and> coalesced L'
    \<and> (let k = ord_at cr (mapping h') b' in k = 7 \<or> buddy_of b' k \<notin> set (L' k))
    \<and> current_size_bytes h' = current_size_bytes h
    \<and> touched_only (free_area U) (mapping h) (mapping h')"
  using assms
proof (induction "7 - ord_at cr (mapping h) b" arbitrary: b h S L rule: less_induct)
  case less
  let ?k = "ord_at cr (mapping h) b" let ?c = "buddy_of b ?k"
  note w = less.prems(1)
  have bS: "b \<in> S" using heap_wf_held [OF w] by simp
  note cS = find_buddy_in(2) [OF w bS] and k8 = heap_wf_in(4) [OF w bS]
  show ?case
  proof (cases "free_at cr (mapping h) ?c \<and> ?k < 7 \<and> ?k = ord_at cr (mapping h) ?c")
    case False
    then have "free_step cr (b, ?c) h = (Ok (Inr b), h)"
      by (simp add: free_step_def free_guard_in [OF w bS cS] bindP_step)
    then have "iterateP (free_step cr) (b, ?c) h = Some (Ok b, h)" by (rule iterateP_break)
    moreover have "free_at cr (mapping h) ?c \<and> ord_at cr (mapping h) ?c = ?k" if "?c \<in> set (L ?k)"
      using that unfolding heap_wf_list [OF w k8] by simp
    then have "?k = 7 \<or> ?c \<notin> set (L ?k)"
      using False k8 by linarith
    ultimately show ?thesis
      using less.prems unfolding Let_def
      by (intro exI [of _ h] exI [of _ S] exI [of _ L] exI [of _ b] conjI) simp_all
  next
    case True
    then have T: "?k < 7" "free_at cr (mapping h) ?c" "ord_at cr (mapping h) ?c = ?k" by simp_all
    let ?b = "min b ?c"
    obtain h1 where st: "free_step cr (b, ?c) h = (Ok (Inl (?b, buddy_of ?b (Suc ?k))), h1)"
      and w1: "heap_wf cr {?b} (S - {max b ?c}) (L(?k := remove1 ?c (L ?k))) U h1"
      and k1: "ord_at cr (mapping h1) ?b = Suc ?k"
      and c1: "current_size_bytes h1 = current_size_bytes h"
      and t1: "touched_only (free_area U) (mapping h) (mapping h1)"
      by (rule free_step_merge [OF w refl T(1) refl T(2,3)])
    have "7 - ord_at cr (mapping h1) ?b < 7 - ?k" using k1 T(1) by linarith
    from less.hyps [OF this w1 coalesced_remove(1) [OF less.prems(2)]]
    obtain h' S' L' b' where r: "iterateP (free_step cr) (?b, buddy_of ?b (Suc ?k)) h1 = Some (Ok b', h')"
      "heap_wf cr {b'} S' L' U h'" "coalesced L'"
      "let k = ord_at cr (mapping h') b' in k = 7 \<or> buddy_of b' k \<notin> set (L' k)"
      "current_size_bytes h' = current_size_bytes h1" "touched_only (free_area U) (mapping h1) (mapping h')"
      unfolding k1 by blast
    moreover have "iterateP (free_step cr) (b, ?c) h = iterateP (free_step cr) (?b, buddy_of ?b (Suc ?k)) h1"
      by (rule iterateP_continue [of "free_step cr"]) (rule st)
    ultimately show ?thesis
      using c1 touched_only_trans [OF t1 r(6)]
      by (intro exI [of _ h'] exI [of _ S'] exI [of _ L'] exI [of _ b'] conjI) simp_all
  qed
qed

lemma free_block_wf:
  assumes w: "heap_wf cr {} S L U h" and u: "U i = Some k" and co: "coalesced L"
  obtains h' S' L' where "free_block cr i h = (Ok (), h')" and "heap_wf cr {} S' L' (U(i := None)) h'"
    and "coalesced L'" and "current_size_bytes h' = current_size_bytes h"
    and "touched_only (free_area (U(i := None))) (mapping h) (mapping h')"
proof -
  let ?U = "U(i := None)"
  have i: "i \<in> S" "\<not> free_at cr (mapping h) i" using u heap_wf_used [OF w, of i k] by auto
  obtain t where t: "type_at cr (mapping h) i = Some t" "t \<noteq> Free" using heap_wfD(3) [OF w i(1)] i(2) by auto
  have wr: "heap_wf cr {i} S L ?U h"
    using buddy_wf_release [OF heap_wfD(2) [OF w] u] heap_wfD(1,3) [OF w] by (simp add: heap_wf_def)
  obtain h1 S1 L1 b where lp: "iterateP (free_step cr) (i, buddy_of i (ord_at cr (mapping h) i)) h = Some (Ok b, h1)"
    and w1: "heap_wf cr {b} S1 L1 ?U h1" and co1: "coalesced L1"
    and ex: "ord_at cr (mapping h1) b = 7 \<or> buddy_of b (ord_at cr (mapping h1) b) \<notin> set (L1 (ord_at cr (mapping h1) b))"
    and c1: "current_size_bytes h1 = current_size_bytes h"
    and t1: "touched_only (free_area ?U) (mapping h) (mapping h1)"
    using free_loop_wf [OF wr co] unfolding Let_def by blast
  have bS: "b \<in> S1" using heap_wf_held [OF w1] by simp
  let ?k = "ord_at cr (mapping h1) b" let ?hd = "free_head_per_order h1 ! ?k"
  note in1 = heap_wf_in [OF w1 bS] and z1 = heap_wfD(1) [OF w1]
  let ?m = "put_hdr b (hdr_set_free_next_index cr ?hd (hdr_set_block_type cr 0 (hdr_at (mapping h1) b))) (mapping h1)"
  let ?h = "h1\<lparr>mapping := ?m, free_head_per_order := (free_head_per_order h1)[?k := b]\<rparr>"
  have fb: "free_block cr i h = (Ok (), ?h)"
    using heap_wf_in [OF w i(1)] t find_buddy_in(1) [OF w i(1)] in1 z1
    by (simp add: free_block_def bindP_step loopP_def lp bindP_onB_Ok become_free_in)
  have wf: "heap_wf cr {} S1 (L1(?k := b # L1 ?k)) ?U ?h"
  proof -
    have flds: "ord_at cr ?m = ord_at cr (mapping h1)" "next_at cr ?m = (next_at cr (mapping h1))(b := ?hd)"
      "free_at cr ?m = (free_at cr (mapping h1))(b := True)"
      using in1 head_small [OF w1 in1(4)] by (auto simp: fun_eq_iff ord_at_def)
    have "buddy_wf (units h1) (ord_at cr ?m) (free_at cr ?m) (next_at cr ?m)
      (((!) (free_head_per_order h1))(?k := b)) {} S1 (L1(?k := b # L1 ?k)) ?U"
      using buddy_wf_push [OF heap_wfD(2) [OF w1] singletonI refl] unfolding flds by simp
    moreover have "\<forall>j\<in>S1. type_at cr ?m j \<noteq> None" using heap_wfD(3) [OF w1] in1(1) by auto
    ultimately show ?thesis
      using z1 in1(4) by (simp add: heap_wf_def nth_list_update_fun sizedD(1))
  qed
  have "?U b = None" using heap_wf_used [OF w1, of b] by (cases "?U b") auto
  then have tf: "touched_only (free_area ?U) (mapping h) ?m"
    using span_free_area(2) [OF w1 bS] t1 by (simp add: touched_only_step)
  show thesis
    by (rule that [OF fb wf coalesced_push [OF co1 ex]]) (use c1 tf in simp_all)
qed

end

section \<open>What the clients of the heap see\<close>

text \<open>
  The blocks of a heap are found by walking from block to block. A block in use is one whose
  type is not \<open>Free\<close>; its contents are the bytes of its span.
\<close>

definition heap_blocks :: "crate_ops \<Rightarrow> heap \<Rightarrow> nat set" where
  "heap_blocks cr h = starts (units h) (ord_at cr (mapping h))"

definition used_blocks :: "crate_ops \<Rightarrow> heap \<Rightarrow> nat \<rightharpoonup> nat" where
  "used_blocks cr h = (\<lambda>i. if i \<in> heap_blocks cr h \<and> \<not> free_at cr (mapping h) i
     then Some (ord_at cr (mapping h) i) else None)"

definition block_bytes :: "heap \<Rightarrow> nat \<Rightarrow> nat \<Rightarrow> u8 list" where
  "block_bytes h i k = window (mapping h) (16 * i) (16 * 2 ^ k)"

definition heap_inv :: "crate_ops \<Rightarrow> heap \<Rightarrow> bool" where
  "heap_inv cr h \<longleftrightarrow> 0 < current_size_bytes h
     \<and> (\<exists>L. heap_wf cr {} (heap_blocks cr h) L (used_blocks cr h) h \<and> coalesced L)"

lemma heap_wf_view:
  assumes "heap_wf cr {} S L U h"
  shows "S = heap_blocks cr h" and "U = used_blocks cr h"
proof -
  show S: "S = heap_blocks cr h"
    unfolding heap_blocks_def by (rule tiling_starts [OF heap_wf_tiling [OF assms]])
  show "U = used_blocks cr h"
    using buddy_wfD(6) [OF heap_wfD(2) [OF assms]] by (auto simp: used_blocks_def S fun_eq_iff)
qed

lemma heap_invI:
  assumes "heap_wf cr {} S L U h" and "coalesced L" and "0 < current_size_bytes h"
  shows "heap_inv cr h" and "used_blocks cr h = U" and "heap_blocks cr h = S"
  using assms heap_wf_view [OF assms(1)] by (auto simp: heap_inv_def)

lemma heap_invE:
  assumes "heap_inv cr h"
  obtains L where "heap_wf cr {} (heap_blocks cr h) L (used_blocks cr h) h" and "coalesced L"
    and "0 < current_size_bytes h"
  using assms by (auto simp: heap_inv_def)

lemma touched_only_used:
  assumes "touched_only (free_area U) (mapping h) (mapping h')" and "U j = Some k"
  shows "block_bytes h' j k = block_bytes h j k"
proof -
  have "span j k \<inter> free_area U = {}" using assms(2) by (auto simp: free_area_def)
  then show ?thesis using assms(1) by (auto simp: touched_only_def block_bytes_def)
qed

text \<open>The blocks that were there still are, where some may have been split, and the mapping has its length.\<close>

definition kept_blocks :: "crate_ops \<Rightarrow> heap \<Rightarrow> heap \<Rightarrow> bool" where
  "kept_blocks cr h h' \<longleftrightarrow> heap_blocks cr h \<subseteq> heap_blocks cr h' \<and> length (mapping h') = length (mapping h)"

lemma kept_blocks_trans: "kept_blocks cr h h1 \<Longrightarrow> kept_blocks cr h1 h2 \<Longrightarrow> kept_blocks cr h h2"
  by (auto simp: kept_blocks_def)

text \<open>What an allocation promises: a fresh block of the order asked for, everything else as before.\<close>

definition alloc_ok :: "(nat \<rightharpoonup> nat) \<Rightarrow> (nat \<Rightarrow> nat \<Rightarrow> u8 list) \<Rightarrow> nat \<Rightarrow> nat \<Rightarrow>
    (nat \<rightharpoonup> nat) \<Rightarrow> (nat \<Rightarrow> nat \<Rightarrow> u8 list) \<Rightarrow> bool" where
  "alloc_ok U C k i U' C' \<longleftrightarrow> U i = None \<and> U' = U(i \<mapsto> k) \<and> 2 ^ k dvd i
     \<and> (\<forall>j q. U j = Some q \<longrightarrow> span i k \<inter> span j q = {} \<and> C' j q = C j q)"

context inspect_crates
begin

lemma heap_allocate:
  assumes inv: "heap_inv cr h" and k: "fit_order n = (Ok k :: (inspect_error, nat) outcome)" "k < 8"
  shows "(\<exists>i h'. allocate_block cr n h = (Ok i, h') \<and> heap_inv cr h'
        \<and> alloc_ok (used_blocks cr h) (block_bytes h) k i (used_blocks cr h') (block_bytes h')
        \<and> type_at cr (mapping h') i = Some Reserved)
    \<or> (allocate_block cr n h = (Err HeapAtMaximumSize, h) \<and> current_size_bytes h = length (mapping h)
        \<and> (\<forall>i\<in>heap_blocks cr h. free_at cr (mapping h) i \<longrightarrow> ord_at cr (mapping h) i < k))"
proof -
  let ?U = "used_blocks cr h"
  obtain L where w: "heap_wf cr {} (heap_blocks cr h) L ?U h" "coalesced L" "0 < current_size_bytes h"
    by (rule heap_invE [OF inv])
  show ?thesis
  proof (cases "(\<exists>q<8. k \<le> q \<and> L q \<noteq> []) \<or> current_size_bytes h < length (mapping h)")
    case True
    obtain i h' S' L' where a: "allocate_block cr n h = (Ok i, h')"
      and w': "heap_wf cr {} S' L' (?U(i \<mapsto> k)) h'" and co: "coalesced L'" and u: "?U i = None"
      and sp: "span i k \<subseteq> free_area ?U" and ty: "type_at cr (mapping h') i = Some Reserved"
      and le: "current_size_bytes h \<le> current_size_bytes h'"
      and t: "touched_only (free_area ?U) (mapping h) (mapping h')"
      by (rule allocate_block_Ok [OF w(1,3) k True]) (use w(2) in blast)
    have "0 < current_size_bytes h'" using le w(3) by simp
    note v = heap_invI [OF w' co this]
    have "i \<in> S'" "ord_at cr (mapping h') i = k" using heap_wf_used [OF w', of i k] by auto
    then have "2 ^ k dvd i" using tilingD(2) [OF heap_wf_tiling [OF w']] by blast
    then have "alloc_ok ?U (block_bytes h) k i (used_blocks cr h') (block_bytes h')"
      using u v(2) sp touched_only_used [OF t] unfolding alloc_ok_def free_area_def by blast
    then show ?thesis using a v(1) ty by blast
  next
    case False
    then have full: "\<forall>q<8. k \<le> q \<longrightarrow> L q = []" "current_size_bytes h = length (mapping h)"
      using heap_wfD(1) [OF w(1)] by (auto simp: sized_def)
    have "ord_at cr (mapping h) i < k" if i: "i \<in> heap_blocks cr h" "free_at cr (mapping h) i" for i
    proof (rule ccontr)
      assume "\<not> ord_at cr (mapping h) i < k"
      then have "L (ord_at cr (mapping h) i) = []" using full(1) heap_wf_in(4) [OF w(1) i(1)] by auto
      then show False using heap_wf_list [OF w(1) heap_wf_in(4) [OF w(1) i(1)]] i by auto
    qed
    then show ?thesis using allocate_block_full [OF w(1,3) k full] full(2) by blast
  qed
qed

lemma heap_allocate_kept:
  assumes inv: "heap_inv cr h" and k: "fit_order n = (Ok k :: (inspect_error, nat) outcome)" "k < 8"
    and run: "allocate_block cr n h = (Ok i, h')"
  shows "kept_blocks cr h h'"
proof -
  obtain L where w: "heap_wf cr {} (heap_blocks cr h) L (used_blocks cr h) h" "coalesced L" "0 < current_size_bytes h"
    by (rule heap_invE [OF inv])
  have room: "(\<exists>q<8. k \<le> q \<and> L q \<noteq> []) \<or> current_size_bytes h < length (mapping h)"
  proof (rule ccontr)
    assume "\<not> ?thesis"
    then have "\<forall>q<8. k \<le> q \<longrightarrow> L q = []" "current_size_bytes h = length (mapping h)"
      using heap_wfD(1) [OF w(1)] by (auto simp: sized_def)
    from allocate_block_full [OF w(1,3) k this] run show False by simp
  qed
  obtain j h'' S' L' where a: "allocate_block cr n h = (Ok j, h'')" and w': "heap_wf cr {} S' L' ((used_blocks cr h)(j \<mapsto> k)) h''"
    and S: "heap_blocks cr h \<subseteq> S'" and t: "touched_only (free_area (used_blocks cr h)) (mapping h) (mapping h'')"
    by (rule allocate_block_Ok [OF w(1,3) k room]) blast
  have "h'' = h'" using a run by simp
  then show ?thesis using heap_wf_view(1) [OF w'] S t by (simp add: kept_blocks_def touched_only_def)
qed

lemma heap_free:
  assumes inv: "heap_inv cr h" and u: "used_blocks cr h i = Some k"
  shows "\<exists>h'. free_block cr i h = (Ok (), h') \<and> heap_inv cr h'
    \<and> used_blocks cr h' = (used_blocks cr h)(i := None)
    \<and> (\<forall>j q. j \<noteq> i \<longrightarrow> used_blocks cr h j = Some q \<longrightarrow> block_bytes h' j q = block_bytes h j q)"
proof -
  let ?U = "used_blocks cr h"
  obtain L where w: "heap_wf cr {} (heap_blocks cr h) L ?U h" "coalesced L" "0 < current_size_bytes h"
    by (rule heap_invE [OF inv])
  obtain h' S' L' where f: "free_block cr i h = (Ok (), h')" and w': "heap_wf cr {} S' L' (?U(i := None)) h'"
    and co: "coalesced L'" and c: "current_size_bytes h' = current_size_bytes h"
    and t: "touched_only (free_area (?U(i := None))) (mapping h) (mapping h')"
    by (rule free_block_wf [OF w(1) u w(2)])
  have "0 < current_size_bytes h'" using c w(3) by simp
  note v = heap_invI [OF w' co this]
  show ?thesis
    using f v touched_only_used [OF t] by (intro exI [of _ h']) simp
qed

lemma heap_new_fresh:
  assumes "4096 dvd length m" and "m \<noteq> []" and "length m \<le> 2 ^ 32"
  obtains h S L xs where "heap_new cr m = Ok h" and "heap_wf cr {} S L Map.empty h" and "coalesced L"
    and "L 7 = 0 # xs" and "\<forall>k. k \<noteq> 7 \<longrightarrow> L k = []"
    and "current_size_bytes h = 4096" and "length (mapping h) = length m"
proof -
  let ?h = "\<lparr>mapping = m, current_size_bytes = 0, free_head_per_order = replicate NUM_ORDERS 0\<rparr>"
  have w: "heap_wf cr {} {} (\<lambda>_. []) Map.empty ?h"
    using assms by (simp add: heap_wf_def sized_def buddy_wf_def tiling_def NUM_ORDERS_def)
  have len: "4096 \<le> length m" using assms(1,2) by (intro dvd_imp_le) simp_all
  then have pre: "(4096::nat) dvd 4096" "current_size_bytes ?h < 4096" "current_size_bytes ?h < length (mapping ?h)"
    using assms(2) by simp_all
  obtain h' L' N where g: "grow_heap cr 4096 ?h = (Ok (), h')" and w': "heap_wf cr {} ({} \<union> set N) L' Map.empty h'"
    and N: "L' 7 = N" "N \<noteq> []" "hd N = 0"
    and L': "\<forall>k. k \<noteq> 7 \<longrightarrow> L' k = []" and c: "current_size_bytes h' = min (length (mapping ?h)) 4096"
    and t: "touched_only (free_area Map.empty) (mapping ?h) (mapping h')"
    by (rule grow_heap_wf [OF w pre]) simp
  show thesis
  proof (rule that)
    show "heap_new cr m = Ok h'" using g by (simp add: heap_new_def PAGE_SIZE_BYTES_def)
    show "heap_wf cr {} ({} \<union> set N) L' Map.empty h'" by (rule w')
    show "coalesced L'" using L' by (simp add: coalesced_def)
    show "L' 7 = 0 # tl N" using N by (cases N) auto
    show "\<forall>k. k \<noteq> 7 \<longrightarrow> L' k = []" by (rule L')
    show "current_size_bytes h' = 4096" using c len by simp
    show "length (mapping h') = length m" using t by (simp add: touched_only_def)
  qed
qed

lemma heap_new_inv:
  assumes "4096 dvd length m" and "m \<noteq> []" and "length m \<le> 2 ^ 32"
  shows "\<exists>h. heap_new cr m = Ok h \<and> heap_inv cr h \<and> used_blocks cr h = Map.empty
    \<and> current_size_bytes h = 4096 \<and> length (mapping h) = length m"
proof -
  obtain h S L xs where h: "heap_new cr m = Ok h" "heap_wf cr {} S L Map.empty h" "coalesced L"
    "current_size_bytes h = 4096" "length (mapping h) = length m"
    by (rule heap_new_fresh [OF assms])
  then show ?thesis using heap_invI [OF h(2,3)] by simp
qed

text \<open>The first block of a fresh heap is the one at index 0.\<close>

lemma fresh_first_block:
  assumes "4096 dvd length m" and "m \<noteq> []" and "length m \<le> 2 ^ 32" and "heap_new cr m = Ok h"
    and f: "fit_order n = (Ok f :: (inspect_error, nat) outcome)" "f < 8"
  obtains h' where "allocate_block cr n h = (Ok 0, h')" and "heap_inv cr h'" and "used_blocks cr h' = [0 \<mapsto> f]"
    and "type_at cr (mapping h') 0 = Some Reserved" and "length (mapping h') = length m"
proof -
  obtain S L xs where w: "heap_wf cr {} S L Map.empty h" "coalesced L" and L: "L 7 = 0 # xs" "\<forall>k. k \<noteq> 7 \<longrightarrow> L k = []"
    and sz: "current_size_bytes h = 4096" "length (mapping h) = length m"
    by (rule heap_new_fresh [OF assms(1-3)]) (use assms(4) in simp)
  have pos: "0 < current_size_bytes h" using sz by simp
  have "[f..<8] = [f..<7] @ [7]" using upt_Suc_append [of f 7] f(2) by simp
  moreover have "find (\<lambda>k. L k \<noteq> []) (xs @ [7]) = Some 7" if "\<forall>k\<in>set xs. k < 7" for xs
    using that L by (induction xs) auto
  ultimately have "find (\<lambda>k. L k \<noteq> []) [f..<8] = Some 7" by simp
  then have a: "allocate_block cr n h = carve_block cr f 7 h"
    using f find_free_order_upt [OF w(1) pos, of f] by (simp add: allocate_block_def NUM_ORDERS_def)
  have k7: "(7::nat) < 8" "f \<le> 7" using f(2) by simp_all
  obtain h' S' L' where
    c: "carve_block cr f 7 h = (Ok 0, h')" "heap_wf cr {} S' L' [0 \<mapsto> f] h'" "coalesced L \<Longrightarrow> coalesced L'"
      "type_at cr (mapping h') 0 = Some Reserved" "current_size_bytes h' = current_size_bytes h"
      "touched_only (free_area Map.empty) (mapping h) (mapping h')"
    by (rule carve_block_wf [OF w(1) k7 L(1)]) blast
  have pos': "0 < current_size_bytes h'" using c(5) pos by simp
  show thesis
    by (rule that [OF a [unfolded c(1)] heap_invI(1,2) [OF c(2) c(3) [OF w(2)] pos'] c(4)])
      (use c(6) sz(2) in \<open>simp add: touched_only_def\<close>)
qed

lemma allocate_block_too_big:
  "fit_order n = (Ok k :: (inspect_error, nat) outcome) \<Longrightarrow> 8 \<le> k \<Longrightarrow>
    allocate_block cr n h = (Err OrderTooBig, h)"
  by (simp add: allocate_block_def NUM_ORDERS_def)

lemma used_disjoint:
  assumes "heap_inv cr h" and "used_blocks cr h i = Some k" and "used_blocks cr h j = Some q" and "i \<noteq> j"
  shows "span i k \<inter> span j q = {}"
proof -
  obtain L where w: "heap_wf cr {} (heap_blocks cr h) L (used_blocks cr h) h"
    using assms(1) by (rule heap_invE)
  show ?thesis
    using tiling_disjoint [OF heap_wf_tiling [OF w], of i j] assms(2-4) by (auto simp: heap_wf_used [OF w])
qed

end

section \<open>The allocator as an interface\<close>

text \<open>
  What a client of an allocator of power-of-two blocks may rely on, and the runs of a client
  that frees only blocks it holds.
\<close>

inductive reachable :: "(nat \<Rightarrow> ('h, inspect_error, nat) prog) \<Rightarrow> (nat \<Rightarrow> ('h, inspect_error, unit) prog) \<Rightarrow>
    ('h \<Rightarrow> nat \<rightharpoonup> nat) \<Rightarrow> 'h \<Rightarrow> 'h \<Rightarrow> bool" for alloc release used h0 where
  reachable_start: "reachable alloc release used h0 h0"
| reachable_alloc: "reachable alloc release used h0 h \<Longrightarrow> 8 < n \<Longrightarrow> n \<le> 2 ^ 64 \<Longrightarrow> alloc n h = (r, h') \<Longrightarrow>
    reachable alloc release used h0 h'"
| reachable_free: "reachable alloc release used h0 h \<Longrightarrow> used h i = Some k \<Longrightarrow> release i h = (q, h') \<Longrightarrow>
    reachable alloc release used h0 h'"

locale block_allocator =
  fixes alloc :: "nat \<Rightarrow> ('h, inspect_error, nat) prog" and release :: "nat \<Rightarrow> ('h, inspect_error, unit) prog"
    and inv :: "'h \<Rightarrow> bool" and used :: "'h \<Rightarrow> nat \<rightharpoonup> nat" and bytes :: "'h \<Rightarrow> nat \<Rightarrow> nat \<Rightarrow> u8 list"
  assumes alloc_law: "inv h \<Longrightarrow> fit_order n = (Ok k :: (inspect_error, nat) outcome) \<Longrightarrow> k < 8 \<Longrightarrow>
      (\<exists>i h'. alloc n h = (Ok i, h') \<and> inv h' \<and> alloc_ok (used h) (bytes h) k i (used h') (bytes h'))
      \<or> alloc n h = (Err HeapAtMaximumSize, h)"
    and alloc_big_law: "fit_order n = (Ok k :: (inspect_error, nat) outcome) \<Longrightarrow> 8 \<le> k \<Longrightarrow>
      alloc n h = (Err OrderTooBig, h)"
    and release_law: "inv h \<Longrightarrow> used h i = Some k \<Longrightarrow> \<exists>h'. release i h = (Ok (), h') \<and> inv h'
      \<and> used h' = (used h)(i := None) \<and> (\<forall>j q. j \<noteq> i \<longrightarrow> used h j = Some q \<longrightarrow> bytes h' j q = bytes h j q)"
    and disjoint_law: "inv h \<Longrightarrow> used h i = Some k \<Longrightarrow> used h j = Some q \<Longrightarrow> i \<noteq> j \<Longrightarrow>
      span i k \<inter> span j q = {}"
begin

lemma alloc_total:
  assumes "inv h" and "8 < n" and "n \<le> 2 ^ 64"
  shows "\<exists>r h'. alloc n h = (r, h') \<and> inv h' \<and> r \<noteq> Panic \<and> r \<noteq> Diverge"
proof -
  obtain k where k: "fit_order n = (Ok k :: (inspect_error, nat) outcome)"
    using fit_order_eq [OF assms(2,3)] by blast
  show ?thesis
  proof (cases "k < 8")
    case True
    from alloc_law [OF assms(1) k True] show ?thesis using assms(1) by auto
  next
    case False
    with alloc_big_law [OF k, of h] assms(1) show ?thesis by auto
  qed
qed

lemma reachable_inv: "reachable alloc release used h0 h \<Longrightarrow> inv h0 \<Longrightarrow> inv h"
proof (induction rule: reachable.induct)
  case (reachable_alloc h n r h')
  then show ?case using alloc_total [of h n] by auto
next
  case (reachable_free h i k q h')
  then show ?case using release_law [of h i k] by auto
qed

lemma alloc_release:
  assumes "inv h" and "fit_order n = (Ok k :: (inspect_error, nat) outcome)" and "k < 8" and "alloc n h = (Ok i, h1)"
  shows "\<exists>h2. release i h1 = (Ok (), h2) \<and> inv h2 \<and> used h2 = used h
    \<and> (\<forall>j q. used h j = Some q \<longrightarrow> bytes h2 j q = bytes h j q)"
proof -
  have a: "inv h1" "alloc_ok (used h) (bytes h) k i (used h1) (bytes h1)"
    using alloc_law [OF assms(1-3)] assms(4) by auto
  then have "used h1 i = Some k" by (simp add: alloc_ok_def)
  then obtain h2 where h2: "release i h1 = (Ok (), h2)" "inv h2" "used h2 = (used h1)(i := None)"
    "\<And>j q. j \<noteq> i \<Longrightarrow> used h1 j = Some q \<Longrightarrow> bytes h2 j q = bytes h1 j q"
    using release_law [OF a(1), of i k] by blast
  have "bytes h2 j q = bytes h j q" if "used h j = Some q" for j q
    using that a(2) h2(4) [of j q] unfolding alloc_ok_def by (cases "j = i") auto
  moreover have "used h2 = used h" using a(2) h2(3) by (auto simp: alloc_ok_def)
  ultimately show ?thesis using h2 by blast
qed

end

sublocale inspect_crates \<subseteq> heap_allocator: block_allocator
    "allocate_block cr" "free_block cr" "heap_inv cr" "used_blocks cr" block_bytes
proof
  show "(\<exists>i h'. allocate_block cr n h = (Ok i, h') \<and> heap_inv cr h'
        \<and> alloc_ok (used_blocks cr h) (block_bytes h) k i (used_blocks cr h') (block_bytes h'))
      \<or> allocate_block cr n h = (Err HeapAtMaximumSize, h)"
    if "heap_inv cr h" "fit_order n = (Ok k :: (inspect_error, nat) outcome)" "k < 8" for h n k
    using heap_allocate [OF that] by blast
qed (fact allocate_block_too_big heap_free used_disjoint)+

interpretation shift_heap: block_allocator "allocate_block shift_mask_ops" "free_block shift_mask_ops"
    "heap_inv shift_mask_ops" "used_blocks shift_mask_ops" block_bytes
  by (rule shift_mask.heap_allocator.block_allocator_axioms)

section \<open>Writing into a used block\<close>

lemma heap_wf_cong:
  assumes w: "heap_wf cr X S L U h" and len: "length m = length (mapping h)"
    and same: "\<And>j. j \<in> S \<Longrightarrow> ord_at cr m j = ord_at cr (mapping h) j \<and> free_at cr m j = free_at cr (mapping h) j
      \<and> type_at cr m j \<noteq> None \<and> (free_at cr m j \<longrightarrow> next_at cr m j = next_at cr (mapping h) j)"
  shows "heap_wf cr X S L U (h\<lparr>mapping := m\<rparr>)"
proof -
  have "tiling (units h) (ord_at cr m) S"
    using heap_wf_tiling [OF w] same by (simp add: tiling_def)
  moreover have sets: "set (L k) = {i \<in> S - X. ord_at cr m i = k \<and> free_at cr m i}" if "k < 8" for k
    unfolding heap_wf_list [OF w that] using same by (intro Collect_cong) auto
  moreover have "chain (next_at cr m) (free_head_per_order h ! k) (L k)" if "k < 8" for k
  proof -
    have "chain (next_at cr m) (free_head_per_order h ! k) (L k)
        = chain (next_at cr (mapping h)) (free_head_per_order h ! k) (L k)"
      using same unfolding sets [OF that] by (intro chain_cong) (auto simp: sets [OF that])
    then show ?thesis using heap_wf_chain [OF w that] by simp
  qed
  moreover have "U = (\<lambda>i. if i \<in> S - X \<and> \<not> free_at cr m i then Some (ord_at cr m i) else None)"
    using buddy_wfD(6) [OF heap_wfD(2) [OF w]] same by (auto simp: fun_eq_iff)
  ultimately show ?thesis
    using w len same heap_wf_held [OF w] heap_wf_distinct [OF w] by (simp add: heap_wf_def buddy_wf_def)
qed

text \<open>A write that stays inside the block at \<open>i\<close> of order \<open>k\<close>.\<close>

definition written_inside :: "nat \<Rightarrow> nat \<Rightarrow> u8 list \<Rightarrow> u8 list \<Rightarrow> bool" where
  "written_inside i k m m' \<longleftrightarrow> length m' = length m
     \<and> (\<forall>p<length m. p < 16 * i \<or> 16 * (i + 2 ^ k) \<le> p \<longrightarrow> m' ! p = m ! p)"

lemma written_inside_refl [simp]: "written_inside i k m m"
  by (simp add: written_inside_def)

lemma written_inside_trans:
  "written_inside i k a b \<Longrightarrow> written_inside i k b c \<Longrightarrow> written_inside i k a c"
  by (simp add: written_inside_def)

lemma written_inside_overwrite:
  assumes "16 * i \<le> off" and "off + length bs \<le> 16 * (i + 2 ^ k)"
  shows "written_inside i k m (overwrite m off bs)"
  using assms by (auto simp: written_inside_def nth_overwrite)

lemma written_inside_put:
  "written_inside i k m (put_hdr i w m)" "written_inside i k m (put_pl i w m)"
proof -
  have "16 * i + 16 \<le> 16 * (i + 2 ^ k)" by simp
  then show "written_inside i k m (put_hdr i w m)" "written_inside i k m (put_pl i w m)"
    unfolding put_hdr_def put_pl_def by (intro written_inside_overwrite; simp)+
qed

lemma window_written_inside:
  assumes "written_inside i k m m'" and "off + n \<le> 16 * i \<or> 16 * (i + 2 ^ k) \<le> off"
  shows "window m' off n = window m off n"
  using assms by (intro nth_equalityI) (auto simp: written_inside_def)

lemma span_bytes_disjoint:
  assumes "span i k \<inter> span j q = {}"
  shows "16 * j + 16 * 2 ^ q \<le> 16 * i \<or> 16 * (i + 2 ^ k) \<le> 16 * j"
proof -
  have "j + 2 ^ q \<le> i \<or> i + 2 ^ k \<le> j"
  proof (rule ccontr)
    assume "\<not> (j + 2 ^ q \<le> i \<or> i + 2 ^ k \<le> j)"
    then have "max i j \<in> span i k \<inter> span j q"
      using exp_pos [of k] exp_pos [of q] unfolding span_def by auto
    with assms show False by simp
  qed
  then show ?thesis by auto
qed

context inspect_crates
begin

lemma heap_write_used:
  assumes inv: "heap_inv cr h" and u: "used_blocks cr h i = Some k" and wr: "written_inside i k (mapping h) m"
    and o: "ord_at cr m i = k" and t: "type_at cr m i = Some t" "t \<noteq> Free"
  shows "heap_inv cr (h\<lparr>mapping := m\<rparr>)" and "used_blocks cr (h\<lparr>mapping := m\<rparr>) = used_blocks cr h"
    and "\<And>j q. j \<noteq> i \<Longrightarrow> used_blocks cr h j = Some q \<Longrightarrow>
      block_bytes (h\<lparr>mapping := m\<rparr>) j q = block_bytes h j q"
    and "kept_blocks cr h (h\<lparr>mapping := m\<rparr>)"
proof -
  let ?U = "used_blocks cr h" and ?S = "heap_blocks cr h"
  obtain L where w: "heap_wf cr {} ?S L ?U h" "coalesced L" "0 < current_size_bytes h"
    by (rule heap_invE [OF inv])
  have i: "i \<in> ?S" "ord_at cr (mapping h) i = k" "\<not> free_at cr (mapping h) i"
    using u heap_wf_used [OF w(1), of i k] by auto
  have hdr: "hdr_at m j = hdr_at (mapping h) j" if "j \<in> ?S" "j \<noteq> i" for j
  proof -
    have "span i k \<inter> span j (ord_at cr (mapping h) j) = {}"
      using tiling_disjoint [OF heap_wf_tiling [OF w(1)] i(1) that(1)] that(2) i(2) by simp
    from span_bytes_disjoint [OF this] have "16 * j + 8 \<le> 16 * i \<or> 16 * (i + 2 ^ k) \<le> 16 * j"
      using exp_pos [of "ord_at cr (mapping h) j"] by linarith
    then show ?thesis unfolding hdr_at_def by (simp only: window_written_inside [OF wr])
  qed
  have "ord_at cr m j = ord_at cr (mapping h) j \<and> free_at cr m j = free_at cr (mapping h) j
      \<and> type_at cr m j \<noteq> None \<and> (free_at cr m j \<longrightarrow> next_at cr m j = next_at cr (mapping h) j)"
    if "j \<in> ?S" for j
    using hdr [OF that] i o t heap_wfD(3) [OF w(1) that]
    by (cases "j = i") (simp_all add: ord_at_def type_at_def next_at_def)
  then have w': "heap_wf cr {} ?S L ?U (h\<lparr>mapping := m\<rparr>)"
    using wr by (intro heap_wf_cong [OF w(1)]) (auto simp: written_inside_def)
  from heap_invI [OF w' w(2)] w(3)
  show "heap_inv cr (h\<lparr>mapping := m\<rparr>)" "used_blocks cr (h\<lparr>mapping := m\<rparr>) = ?U" "kept_blocks cr h (h\<lparr>mapping := m\<rparr>)"
    using wr by (simp_all add: kept_blocks_def written_inside_def)
  show "block_bytes (h\<lparr>mapping := m\<rparr>) j q = block_bytes h j q" if "j \<noteq> i" "?U j = Some q" for j q
  proof -
    have "span i k \<inter> span j q = {}" using used_disjoint [OF inv u that(2)] that(1) by simp
    from window_written_inside [OF wr span_bytes_disjoint [OF this]]
    show ?thesis by (simp add: block_bytes_def)
  qed
qed

end

context inspect_crates
begin

lemmas run_inv = heap_allocator.reachable_inv

lemma allocate_returns:
  assumes "heap_inv cr h" and "8 < n" and "n \<le> 2 ^ 64"
  shows "fst (allocate_block cr n h) \<noteq> Panic \<and> fst (allocate_block cr n h) \<noteq> Diverge"
  using heap_allocator.alloc_total [OF assms] by auto

end

section \<open>Properties\<close>

text \<open>
  \<open>Heap::new\<close> on a mapping of whole pages returns a heap of one page that satisfies the
  invariant and in which no block is used.
\<close>

theorem heap_new_establishes:
  assumes "inspect_crates cr" and "4096 dvd length m" and "m \<noteq> []" and "length m \<le> 2 ^ 32"
  shows "\<exists>h. heap_new cr m = Ok h \<and> heap_inv cr h \<and> used_blocks cr h = Map.empty
    \<and> current_size_bytes h = 4096 \<and> length (mapping h) = length m"
  by (rule inspect_crates.heap_new_inv [OF assms])

lemma heap_new_zeroed:
  "\<exists>h. heap_new shift_mask_ops (replicate 8192 0) = Ok h \<and> heap_inv shift_mask_ops h
    \<and> used_blocks shift_mask_ops h = Map.empty \<and> current_size_bytes h = 4096 \<and> length (mapping h) = 8192"
  using shift_mask.heap_new_inv [of "replicate 8192 0"] by simp

theorem heap_new_establishes_witness:
  "\<exists>h. heap_new shift_mask_ops (replicate 4096 0) = Ok h \<and> heap_inv shift_mask_ops h
    \<and> used_blocks shift_mask_ops h = Map.empty \<and> current_size_bytes h = 4096 \<and> length (mapping h) = 4096"
  using heap_new_establishes [of shift_mask_ops "replicate 4096 0"] shift_mask.inspect_crates_axioms by simp

text \<open>
  C3. \<open>allocate_block\<close> on a heap that satisfies the invariant returns, without a panic: either
  a block that was not used, of exactly the order \<open>fit_order\<close> asks for, aligned and disjoint
  from every used block, with the invariant kept, the used blocks grown by this block only,
  and the bytes of all the others unchanged; or the error that the heap is at its maximum
  size, with the heap unchanged, and then every free block is too small.
\<close>

theorem allocate_block_correct:
  assumes "inspect_crates cr" and "heap_inv cr h"
    and "fit_order n = (Ok k :: (inspect_error, nat) outcome)" and "k < NUM_ORDERS"
  shows "(\<exists>i h'. allocate_block cr n h = (Ok i, h') \<and> heap_inv cr h'
        \<and> used_blocks cr h i = None \<and> used_blocks cr h' = (used_blocks cr h)(i \<mapsto> k) \<and> 2 ^ k dvd i
        \<and> type_at cr (mapping h') i = Some Reserved
        \<and> (\<forall>j q. used_blocks cr h j = Some q \<longrightarrow>
             span i k \<inter> span j q = {} \<and> block_bytes h' j q = block_bytes h j q))
    \<or> (allocate_block cr n h = (Err HeapAtMaximumSize, h) \<and> current_size_bytes h = length (mapping h)
        \<and> (\<forall>i\<in>heap_blocks cr h. type_at cr (mapping h) i = Some Free \<longrightarrow> ord_at cr (mapping h) i < k))"
  using inspect_crates.heap_allocate [OF assms(1,2,3)] assms(4)
  unfolding alloc_ok_def NUM_ORDERS_def by blast

theorem allocate_block_correct_witness:
  "\<exists>h i h'. heap_new shift_mask_ops (replicate 8192 0) = Ok h \<and> heap_inv shift_mask_ops h
    \<and> fit_order 100 = (Ok 3 :: (inspect_error, nat) outcome)
    \<and> allocate_block shift_mask_ops 100 h = (Ok i, h') \<and> used_blocks shift_mask_ops h' = [i \<mapsto> 3]"
proof -
  obtain h where h: "heap_new shift_mask_ops (replicate 8192 0) = Ok h" "heap_inv shift_mask_ops h"
    "used_blocks shift_mask_ops h = Map.empty" "current_size_bytes h \<noteq> length (mapping h)"
    using heap_new_zeroed by auto
  have k: "fit_order 100 = (Ok 3 :: (inspect_error, nat) outcome)" by code_simp
  have "(3::nat) < NUM_ORDERS" by (simp add: NUM_ORDERS_def)
  from allocate_block_correct [OF shift_mask.inspect_crates_axioms h(2) k this] h k
  show ?thesis by auto
qed

text \<open>
  C4. \<open>free_block\<close> of a used block of a heap that satisfies the invariant returns \<open>Ok\<close>, keeps
  the invariant (so the block was merged with its buddy as far as possible), takes exactly
  this block out of the used blocks and leaves the bytes of all the others unchanged.
\<close>

theorem free_block_correct:
  assumes "inspect_crates cr" and "heap_inv cr h" and "used_blocks cr h i = Some k"
  shows "\<exists>h'. free_block cr i h = (Ok (), h') \<and> heap_inv cr h'
    \<and> used_blocks cr h' = (used_blocks cr h)(i := None)
    \<and> (\<forall>j q. j \<noteq> i \<longrightarrow> used_blocks cr h j = Some q \<longrightarrow> block_bytes h' j q = block_bytes h j q)"
  by (rule inspect_crates.heap_free [OF assms])

text \<open>A heap of one page with one block in use, for the examples.\<close>

lemma one_block_heap:
  "\<exists>h i. heap_inv shift_mask_ops h \<and> used_blocks shift_mask_ops h = [i \<mapsto> 3]
    \<and> type_at shift_mask_ops (mapping h) i = Some Reserved"
proof -
  obtain h0 where h0: "heap_inv shift_mask_ops h0" "used_blocks shift_mask_ops h0 = Map.empty"
    "current_size_bytes h0 \<noteq> length (mapping h0)"
    using heap_new_zeroed by auto
  have k: "fit_order 100 = (Ok 3 :: (inspect_error, nat) outcome)" by code_simp
  have "(3::nat) < 8" by simp
  from shift_mask.heap_allocate [OF h0(1) k this] h0 show ?thesis by (auto simp: alloc_ok_def)
qed

theorem free_block_correct_witness:
  "\<exists>h i h'. heap_inv shift_mask_ops h \<and> used_blocks shift_mask_ops h = [i \<mapsto> 3]
    \<and> free_block shift_mask_ops i h = (Ok (), h') \<and> used_blocks shift_mask_ops h' = Map.empty"
proof -
  obtain h i where h: "heap_inv shift_mask_ops h" "used_blocks shift_mask_ops h = [i \<mapsto> 3]"
    using one_block_heap by blast
  then show ?thesis
    using free_block_correct [OF shift_mask.inspect_crates_axioms h(1), of i 3] by auto
qed

text \<open>
  C5. From a fresh heap, whatever sequence of allocations (of 9 bytes or more) and of frees
  of used blocks is run, and whether or not single calls fail: the invariant holds, no two
  used blocks overlap, and no further call panics or fails to return.
\<close>

theorem heap_runs_safe:
  assumes "inspect_crates cr" and "heap_new cr m = Ok h0"
    and "4096 dvd length m" and "m \<noteq> []" and "length m \<le> 2 ^ 32"
    and "reachable (allocate_block cr) (free_block cr) (used_blocks cr) h0 h"
  shows "heap_inv cr h
    \<and> (\<forall>i j k q. used_blocks cr h i = Some k \<and> used_blocks cr h j = Some q \<and> i \<noteq> j \<longrightarrow>
         span i k \<inter> span j q = {})
    \<and> (\<forall>n. 8 < n \<and> n \<le> 2 ^ 64 \<longrightarrow> fst (allocate_block cr n h) \<noteq> Panic \<and> fst (allocate_block cr n h) \<noteq> Diverge)
    \<and> (\<forall>i k. used_blocks cr h i = Some k \<longrightarrow> fst (free_block cr i h) = Ok ())"
proof -
  have "heap_inv cr h0" using inspect_crates.heap_new_inv [OF assms(1,3,4,5)] assms(2) by auto
  then have inv: "heap_inv cr h" by (rule inspect_crates.run_inv [OF assms(1,6)])
  show ?thesis
    using inv inspect_crates.used_disjoint [OF assms(1) inv] inspect_crates.allocate_returns [OF assms(1) inv]
      inspect_crates.heap_free [OF assms(1) inv] by fastforce
qed

theorem heap_runs_safe_witness:
  "\<exists>h0 h1 i. heap_new shift_mask_ops (replicate 8192 0) = Ok h0
    \<and> allocate_block shift_mask_ops 100 h0 = (Ok i, h1) \<and> heap_inv shift_mask_ops h1"
proof -
  let ?cr = shift_mask_ops
  obtain h0 where h0: "heap_new ?cr (replicate 8192 0) = Ok h0" "heap_inv ?cr h0"
    "current_size_bytes h0 \<noteq> length (mapping h0)"
    using heap_new_zeroed by auto
  have k: "fit_order 100 = (Ok 3 :: (inspect_error, nat) outcome)" "(3::nat) < 8" by code_simp+
  obtain i h1 where a: "allocate_block ?cr 100 h0 = (Ok i, h1)"
    using shift_mask.heap_allocate [OF h0(2) k] h0(3) by blast
  have "reachable (allocate_block ?cr) (free_block ?cr) (used_blocks ?cr) h0 h1"
    by (rule reachable_alloc [where n = 100, OF reachable_start]) (simp_all add: a)
  from heap_runs_safe [OF shift_mask.inspect_crates_axioms h0(1) _ _ _ this] h0 a
  show ?thesis by auto
qed

end
