(* ===== verification/Inspect_Block_Correct.thy ===== *)
theory Inspect_Block_Correct
  imports Inspect_Block
begin

text \<open>
  The behaviour of the block methods on the bytes of a mapping: what a block reads as after
  each \<open>become\<close> and \<open>set\<close> method, the header lock, names, extents and array slots.
\<close>

section \<open>Reading words and payloads\<close>


abbreviation payload_at :: "u8 list \<Rightarrow> nat \<Rightarrow> nat \<Rightarrow> u8 list" where
  "payload_at m i n \<equiv> window m (16 * i + 8) n"

lemma hdr_at_write_payload [simp]: "hdr_at (overwrite m (16 * i + 8) bs) i = hdr_at m i"
  unfolding hdr_at_def by (subst window_overwrite_disjoint) auto

lemma block_in_overwrite [simp]: "block_in (overwrite m off bs) j = block_in m j"
  by (simp add: block_in_def)

lemma write_payload_from_bytes_in:
  "block_in m i \<Longrightarrow> write_payload_from_bytes i bs m = (Ok (), overwrite m (16 * i + 8) bs)"
  by (simp add: write_payload_from_bytes_def buffer_write_at_def bindP_def payload_offset_def
      offset_for_index_eq block_in_def HEADER_SIZE_BYTES_def)

lemma read_bytes_Mapping_in:
  "16 * i + 8 + n \<le> length m \<Longrightarrow>
    read_bytes (Mapping m) (payload_offset i) (replicate n 0) = Ok (n, payload_at m i n)"
  using buffer_read_at_in [of "16 * i + 8" "replicate n 0" m]
  by (simp add: payload_offset_def offset_for_index_eq HEADER_SIZE_BYTES_def)

lemma payload_at_put_hdr [simp]: "payload_at (put_hdr i w m) i n = payload_at m i n"
  unfolding put_hdr_def by (rule window_overwrite_disjoint) auto

text \<open>The word \<open>write_value_header\<close> writes.\<close>

definition value_hdr :: "crate_ops \<Rightarrow> block_type \<Rightarrow> nat \<Rightarrow> nat \<Rightarrow> u64 \<Rightarrow> u64" where
  "value_hdr cr t name parent w = hdr_set_value_parent_index cr parent (hdr_set_value_name_index cr name
      (hdr_set_block_type cr (block_type_to_u8 t) w))"

context inspect_crates
begin

lemma type_at_write_payload [simp]: "type_at cr (overwrite m (16 * i + 8) bs) i = type_at cr m i"
  and ord_at_write_payload [simp]: "ord_at cr (overwrite m (16 * i + 8) bs) i = ord_at cr m i"
  by (simp_all add: type_at_def ord_at_def)

lemma check_any_value_in [simp]:
  "block_in m i \<Longrightarrow> type_at cr m i = Some t \<Longrightarrow>
    check_any_value cr (Mapping m) i = (if is_any_value t then Ok () else Err (NotAnyValue t))"
  by (simp add: check_any_value_def)

lemma check_node_or_tombstone_in [simp]:
  "block_in m i \<Longrightarrow> type_at cr m i = Some t \<Longrightarrow> check_node_or_tombstone cr (Mapping m) i =
    (if is_node_or_tombstone t then Ok () else Err (ExpectedNodeOrTombstone t))"
  by (simp add: check_node_or_tombstone_def)

lemma name_index_in:
  "block_in m i \<Longrightarrow> type_at cr m i = Some t \<Longrightarrow> is_any_value t \<Longrightarrow>
    name_index cr (Mapping m) i = Ok (hdr_value_name_index cr (hdr_at m i))"
  by (simp add: name_index_def header_field_def)

lemma parent_index_in:
  "block_in m i \<Longrightarrow> type_at cr m i = Some t \<Longrightarrow> is_any_value t \<Longrightarrow>
    parent_index cr (Mapping m) i = Ok (hdr_value_parent_index cr (hdr_at m i))"
  by (simp add: parent_index_def header_field_def)

lemma child_count_in:
  "block_in m i \<Longrightarrow> type_at cr m i = Some t \<Longrightarrow> is_node_or_tombstone t \<Longrightarrow>
    child_count cr (Mapping m) i = Ok (pl_at m i)"
  by (simp add: child_count_def payload_field_def)

lemma numeric_value_in:
  "block_in m i \<Longrightarrow> type_at cr m i = Some IntValue \<Longrightarrow> int_value cr (Mapping m) i = Ok (pl_at m i)"
  "block_in m i \<Longrightarrow> type_at cr m i = Some UintValue \<Longrightarrow> uint_value cr (Mapping m) i = Ok (pl_at m i)"
  "block_in m i \<Longrightarrow> type_at cr m i = Some DoubleValue \<Longrightarrow> double_value cr (Mapping m) i = Ok (pl_at m i)"
  by (simp_all add: int_value_def uint_value_def double_value_def payload_field_def)

lemma property_fields_in:
  assumes "block_in m i" and "type_at cr m i = Some PropertyValue"
  shows "property_extent_index cr (Mapping m) i = Ok (pl_property_extent_index cr (pl_at m i))"
    and "property_total_length cr (Mapping m) i = Ok (pl_property_total_length cr (pl_at m i))"
  using assms by (simp_all add: property_extent_index_def property_total_length_def payload_field_def)

section \<open>Values\<close>

lemma write_value_header_in:
  assumes "block_in m i" and "type_at cr m i = Some Reserved" and "is_any_value t"
  shows "write_value_header cr i t name parent m =
    (Ok (), put_hdr i (hdr_set_value_parent_index cr parent (hdr_set_value_name_index cr name
      (hdr_set_block_type cr (block_type_to_u8 t) (hdr_at m i)))) m)"
  using assms by (simp add: write_value_header_def)

lemma block_type_from_u8_numerals [simp]:
  "block_type_from_u8 2 = Some Header" "block_type_from_u8 3 = Some NodeValue"
  "block_type_from_u8 4 = Some IntValue" "block_type_from_u8 5 = Some UintValue"
  "block_type_from_u8 6 = Some DoubleValue" "block_type_from_u8 7 = Some PropertyValue"
  "block_type_from_u8 8 = Some Extent" "block_type_from_u8 9 = Some Name"
  "block_type_from_u8 10 = Some Tombstone" "block_type_from_u8 11 = Some ArrayValue"
  by (simp_all add: block_type_from_u8_def block_types_def)

lemma value_hdr_fields [simp]:
  "hdr_order cr (value_hdr cr t name parent w) = hdr_order cr w"
  "block_type_from_u8 (hdr_block_type cr (value_hdr cr t name parent w)) = Some t"
  "hdr_value_name_index cr (value_hdr cr t name parent w) = name mod 2 ^ 28"
  "hdr_value_parent_index cr (value_hdr cr t name parent w) = parent mod 2 ^ 28"
  by (simp_all add: value_hdr_def)

lemma become_value_in:
  assumes "block_in m i" and "type_at cr m i = Some Reserved"
  shows "become_int_value cr i v name parent m =
      (Ok (), put_pl i v (put_hdr i (value_hdr cr IntValue name parent (hdr_at m i)) m))"
    and "become_uint_value cr i v name parent m =
      (Ok (), put_pl i v (put_hdr i (value_hdr cr UintValue name parent (hdr_at m i)) m))"
    and "become_double_value cr i v name parent m =
      (Ok (), put_pl i v (put_hdr i (value_hdr cr DoubleValue name parent (hdr_at m i)) m))"
    and "become_node cr i name parent m =
      (Ok (), put_pl i 0 (put_hdr i (value_hdr cr NodeValue name parent (hdr_at m i)) m))"
    and "become_property cr i name parent fmt m =
      (Ok (), put_pl i (pl_set_property_flags cr (property_format_to_u8 fmt) 0)
        (put_hdr i (value_hdr cr PropertyValue name parent (hdr_at m i)) m))"
    and "is_numeric_value t \<Longrightarrow> become_array_value cr i slots afmt t name parent m =
      (Ok (), put_pl i (pl_set_array_slots_count cr slots (pl_set_array_flags cr (array_format_to_u8 afmt)
          (pl_set_array_entry_type cr (block_type_to_u8 t) 0)))
        (put_hdr i (value_hdr cr ArrayValue name parent (hdr_at m i)) m))"
  using assms
  by (simp_all add: become_int_value_def become_uint_value_def become_double_value_def become_node_def
      become_property_def become_array_value_def bindP_step write_value_header_in value_hdr_def
      set_int_value_def set_uint_value_def set_double_value_def read_u64_le)

lemma set_value_in:
  assumes "block_in m i"
  shows "type_at cr m i = Some IntValue \<Longrightarrow> set_int_value cr i v m = (Ok (), put_pl i v m)"
    and "type_at cr m i = Some UintValue \<Longrightarrow> set_uint_value cr i v m = (Ok (), put_pl i v m)"
    and "type_at cr m i = Some DoubleValue \<Longrightarrow> set_double_value cr i v m = (Ok (), put_pl i v m)"
  using assms by (simp_all add: set_int_value_def set_uint_value_def set_double_value_def read_u64_le)

lemma set_child_count_in:
  "block_in m i \<Longrightarrow> type_at cr m i = Some t \<Longrightarrow> is_node_or_tombstone t \<Longrightarrow>
    set_child_count cr i n m = (Ok (), put_pl i n m)"
  by (simp add: set_child_count_def)

section \<open>The header lock\<close>

lemma increment_generation_count_in:
  "block_in m i \<Longrightarrow> increment_generation_count cr i m = (Ok (), put_pl i (pl_at m i + 1) m)"
  by (simp add: increment_generation_count_def Let_def)

lemma check_locked_in:
  "block_in m i \<Longrightarrow> check_locked cr (Mapping m) i b =
    (if odd (pl_at m i) \<noteq> b then Err (ExpectedLocked b) else Ok ())"
  by (simp add: check_locked_def and_one_eq odd_iff_mod_2_eq_one)

lemma header_is_locked_in:
  "block_in m i \<Longrightarrow> type_at cr m i = Some Header \<Longrightarrow> header_is_locked cr (Mapping m) i = Ok (odd (pl_at m i))"
  by (simp add: header_is_locked_def and_one_eq odd_iff_mod_2_eq_one)

lemma lock_header_in:
  assumes "block_in m i" and "type_at cr m i = Some Header"
  shows "lock_header cr i m = (if even (pl_at m i) then (Ok (), put_pl i (pl_at m i + 1) m)
      else (Err (ExpectedLocked False), m))"
    and "unlock_header cr i m = (if odd (pl_at m i) then (Ok (), put_pl i (pl_at m i + 1) m)
      else (Err (ExpectedLocked True), m))"
  using assms
  by (simp_all add: lock_header_def unlock_header_def check_locked_in increment_generation_count_in)

section \<open>Names and extents\<close>

lemma name_contents_in:
  assumes "block_in m i" and "type_at cr m i = Some Name"
    and "16 * i + 8 + hdr_name_length cr (hdr_at m i) \<le> length m"
  shows "name_contents cr (Mapping m) i =
    (let bs = payload_at m i (hdr_name_length cr (hdr_at m i)) in if utf8_valid bs then Ok bs else Panic)"
  using assms
  by (simp add: name_contents_def name_length_def header_field_def Let_def read_bytes_Mapping_in
      del: read_bytes.simps)

lemma become_extent_in:
  assumes "block_in m i" and "type_at cr m i = Some Reserved"
  shows "become_extent cr i n m =
    (Ok (), put_hdr i (hdr_set_extent_next_index cr n (hdr_set_block_type cr 8 (hdr_at m i))) m)"
  using assms by (simp add: become_extent_def)

lemma extent_set_contents_in:
  assumes "block_in m i" and "type_at cr m i = Some Extent"
  shows "extent_set_contents cr i v m =
    (Ok (min (length v) (payload_size_for_order (ord_at cr m i))),
     overwrite m (16 * i + 8) (take (payload_size_for_order (ord_at cr m i)) v))"
proof -
  have "(if payload_size_for_order (ord_at cr m i) < length v
      then take (min (length v) (payload_size_for_order (ord_at cr m i))) v else v)
    = take (payload_size_for_order (ord_at cr m i)) v" by (auto simp: min_def)
  then show ?thesis
    using assms by (simp add: extent_set_contents_def Let_def bindP_step write_payload_from_bytes_in)
qed

lemma extent_contents_in:
  assumes "block_in m i" and "type_at cr m i = Some Extent"
    and "16 * i + 16 * 2 ^ ord_at cr m i \<le> length m"
  shows "extent_contents cr (Mapping m) i = Ok (payload_at m i (16 * 2 ^ ord_at cr m i - 8))"
proof -
  have "16 * i + 8 + (16 * 2 ^ ord_at cr m i - 8) \<le> length m" using assms(3) by simp
  with assms show ?thesis
    by (simp add: extent_contents_def payload_size_for_order_eq read_bytes_Mapping_in del: read_bytes.simps)
qed

lemma next_extent_in:
  "block_in m i \<Longrightarrow> type_at cr m i = Some Extent \<Longrightarrow>
    next_extent cr (Mapping m) i = Ok (hdr_extent_next_index cr (hdr_at m i))"
  by (simp add: next_extent_def header_field_def)

lemma set_extent_next_index_in:
  "block_in m i \<Longrightarrow> type_at cr m i = Some Extent \<Longrightarrow>
    set_extent_next_index cr i n m = (Ok (), put_hdr i (hdr_set_extent_next_index cr n (hdr_at m i)) m)"
  by (simp add: set_extent_next_index_def)

section \<open>Array slots\<close>

text \<open>A block that is an array of entries of type \<open>t\<close>.\<close>

lemma array_slot_offset_in:
  assumes "block_in m i" and "type_at cr m i = Some ArrayValue"
    and "block_type_from_u8 (pl_array_entry_type cr (pl_at m i)) = Some t" and "Suc i < U32_LIMIT"
  shows "array_slot_offset cr t (Mapping m) i slot =
    (if slot > 2 * 2 ^ ord_at cr m i - 2 then Err (IndexOutOfBounds slot) else Ok (16 * i + 16 + 8 * slot))"
  using assms
  by (simp add: array_slot_offset_def check_array_entry_type_def array_entry_type_def array_capacity_eq
      offset_for_index_eq)

lemma array_slot_rw:
  assumes "block_in m i" and "type_at cr m i = Some ArrayValue"
    and "block_type_from_u8 (pl_array_entry_type cr (pl_at m i)) = Some t" and "Suc i < U32_LIMIT"
    and slot: "slot \<le> 2 * 2 ^ ord_at cr m i - 2" and room: "16 * i + 24 + 8 * slot \<le> length m"
  shows "array_set_slot cr t i slot v m = (Ok (), overwrite m (16 * i + 16 + 8 * slot) (u64_to_le_bytes v))"
    and "array_get_slot cr t (Mapping m) i slot = Ok (u64_from_le_bytes (window m (16 * i + 16 + 8 * slot) 8))"
proof -
  have off: "array_slot_offset cr t (Mapping m) i slot = Ok (16 * i + 16 + 8 * slot)"
    using slot array_slot_offset_in [OF assms(1-4), of slot] by simp
  show "array_set_slot cr t i slot v m = (Ok (), overwrite m (16 * i + 16 + 8 * slot) (u64_to_le_bytes v))"
    using off room by (simp add: array_set_slot_def buffer_write_at_def bindP_def)
  show "array_get_slot cr t (Mapping m) i slot = Ok (u64_from_le_bytes (window m (16 * i + 16 + 8 * slot) 8))"
    using off room by (simp add: array_get_slot_def buffer_read_at_in)
qed

lemma words_slot_write:
  "hdr_at (overwrite m (16 * i + 16 + 8 * slot) bs) i = hdr_at m i"
  "pl_at (overwrite m (16 * i + 16 + 8 * slot) bs) i = pl_at m i"
  unfolding hdr_at_def pl_at_def by (subst window_overwrite_disjoint; simp)+

lemma slot_write_read:
  assumes "16 * i + 24 + 8 * slot \<le> length m"
  shows "u64_from_le_bytes (window (overwrite m (16 * i + 16 + 8 * slot) (u64_to_le_bytes v)) (16 * i + 16 + 8 * j) 8)
    = (if j = slot then v else u64_from_le_bytes (window m (16 * i + 16 + 8 * j) 8))"
proof (cases "j = slot")
  case True
  then show ?thesis using assms by (simp add: window_overwrite_8)
next
  case False
  then have "16 * i + 16 + 8 * j + 8 \<le> 16 * i + 16 + 8 * slot \<or> 16 * i + 16 + 8 * slot + 8 \<le> 16 * i + 16 + 8 * j"
    by linarith
  then show ?thesis using False by (simp add: window_overwrite_disjoint)
qed

section \<open>The methods together\<close>

lemma value_reads_back:
  assumes b: "block_in m i" "type_at cr m i = Some Reserved" and n: "name < 2 ^ 28" "parent < 2 ^ 28"
    and k: "(become, getv) \<in> {(become_int_value, int_value), (become_uint_value, uint_value),
      (become_double_value, double_value)}"
  shows "\<exists>m'. become cr i v name parent m = (Ok (), m') \<and> getv cr (Mapping m') i = Ok v
    \<and> name_index cr (Mapping m') i = Ok name \<and> parent_index cr (Mapping m') i = Ok parent
    \<and> ord_at cr m' i = ord_at cr m i
    \<and> length m' = length m \<and> (\<forall>p<length m. p < 16 * i \<or> 16 * i + 16 \<le> p \<longrightarrow> m' ! p = m ! p)"
proof -
  have frame: "put_pl i w (put_hdr i w' m) ! p = m ! p" if "p < length m" "p < 16 * i \<or> 16 * i + 16 \<le> p" for p w w'
    using that by (auto simp: put_pl_def put_hdr_def nth_overwrite)
  from k consider "become = become_int_value" "getv = int_value" | "become = become_uint_value" "getv = uint_value"
    | "become = become_double_value" "getv = double_value" by auto
  then show ?thesis
  proof cases
    case 1
    with b n frame show ?thesis
      by (simp add: become_value_in numeric_value_in name_index_in [where t = IntValue]
          parent_index_in [where t = IntValue] ord_at_def)
  next
    case 2
    with b n frame show ?thesis
      by (simp add: become_value_in numeric_value_in name_index_in [where t = UintValue]
          parent_index_in [where t = UintValue] ord_at_def)
  next
    case 3
    with b n frame show ?thesis
      by (simp add: become_value_in numeric_value_in name_index_in [where t = DoubleValue]
          parent_index_in [where t = DoubleValue] ord_at_def)
  qed
qed

lemma header_lock_cycle:
  assumes "block_in m i" and "type_at cr m i = Some Header" and "even (pl_at m i)"
  shows "\<exists>m1 m2. lock_header cr i m = (Ok (), m1) \<and> unlock_header cr i m1 = (Ok (), m2)
    \<and> header_is_locked cr (Mapping m1) i = Ok True \<and> header_is_locked cr (Mapping m2) i = Ok False
    \<and> block_generation_count cr (Mapping m2) i = Ok (pl_at m i + 2)
    \<and> lock_header cr i m1 = (Err (ExpectedLocked False), m1)
    \<and> unlock_header cr i m = (Err (ExpectedLocked True), m)"
  using assms
  by (simp add: lock_header_in header_is_locked_in block_generation_count_def payload_field_def)

text \<open>A name is cut at the end of its block.\<close>

lemma become_name_cut:
  assumes b: "block_in m i" "type_at cr m i = Some Reserved" and k: "ord_at cr m i < 8"
    and c: "c = take (payload_size_for_order (ord_at cr m i)) name"
  shows "become_name cr i name m = (Ok (), overwrite (put_hdr i
      (hdr_set_name_length cr (length c) (hdr_set_block_type cr 9 (hdr_at m i))) m) (16 * i + 8) c)"
    and "length c < 4096"
proof -
  let ?n = "payload_size_for_order (ord_at cr m i)"
  have "(2::nat) ^ ord_at cr m i \<le> 2 ^ 7" using k by (intro power_increasing) auto
  then have small: "?n < 4096" by (simp add: payload_size_for_order_eq)
  then show "length c < 4096" by (simp add: c)
  have "(if ?n < length name then take (min (length name) ?n) name else name) = c"
    by (auto simp: c min_def)
  then show "become_name cr i name m = (Ok (), overwrite (put_hdr i
      (hdr_set_name_length cr (length c) (hdr_set_block_type cr 9 (hdr_at m i))) m) (16 * i + 8) c)"
    using b small by (simp add: become_name_def Let_def bindP_step write_payload_from_bytes_in c)
qed

lemma name_cut:
  assumes b: "block_in m i" "type_at cr m i = Some Reserved" and k: "ord_at cr m i < 8"
    and room: "16 * i + 16 * 2 ^ ord_at cr m i \<le> length m"
    and c: "c = take (payload_size_for_order (ord_at cr m i)) name"
  shows "\<exists>m'. become_name cr i name m = (Ok (), m') \<and> ord_at cr m' i = ord_at cr m i
    \<and> type_at cr m' i = Some Name
    \<and> name_length cr (Mapping m') i = Ok (length c)
    \<and> name_contents cr (Mapping m') i = (if utf8_valid c then Ok c else Panic)
    \<and> (\<exists>w. m' = overwrite (put_hdr i w m) (16 * i + 8) c)"
proof -
  note bn = become_name_cut [OF b k c]
  have "(1::nat) \<le> 2 ^ ord_at cr m i" by simp
  then have "8 + payload_size_for_order (ord_at cr m i) = 16 * 2 ^ ord_at cr m i"
    unfolding payload_size_for_order_eq by linarith
  then have in': "16 * i + 8 + length c \<le> length m" using room c by simp
  let ?w = "hdr_set_name_length cr (length c) (hdr_set_block_type cr 9 (hdr_at m i))"
  let ?m = "overwrite (put_hdr i ?w m) (16 * i + 8) c"
  have "payload_at ?m i (length c) = c"
    using in' by (simp add: window_overwrite_same)
  moreover have "hdr_at ?m i = ?w" using b by simp
  moreover have "length c mod 4096 = length c" using bn(2) by simp
  ultimately show ?thesis
    using b in' bn
    by (intro exI [of _ ?m]) (auto simp: name_contents_in name_length_def header_field_def type_at_def ord_at_def Let_def)
qed

lemma array_slot_reads_back:
  assumes b: "block_in m i" "type_at cr m i = Some ArrayValue"
    "block_type_from_u8 (pl_array_entry_type cr (pl_at m i)) = Some t" "Suc i < U32_LIMIT"
    and slot: "slot < array_capacity (ord_at cr m i)" "j < array_capacity (ord_at cr m i)"
    and room: "16 * i + 16 * 2 ^ ord_at cr m i \<le> length m"
  shows "\<exists>m'. array_set_slot cr t i slot v m = (Ok (), m')
    \<and> array_get_slot cr t (Mapping m') i j = (if j = slot then Ok v else array_get_slot cr t (Mapping m) i j)
    \<and> length m' = length m
    \<and> (\<forall>p<length m. p < 16 * i + 16 \<or> 16 * (i + 2 ^ ord_at cr m i) \<le> p \<longrightarrow> m' ! p = m ! p)"
proof -
  let ?m = "overwrite m (16 * i + 16 + 8 * slot) (u64_to_le_bytes v)"
  have le: "s \<le> 2 * 2 ^ ord_at cr m i - 2" "16 * i + 24 + 8 * s \<le> 16 * i + 16 * 2 ^ ord_at cr m i"
    if "s < array_capacity (ord_at cr m i)" for s
    using that by (auto simp: array_capacity_eq)
  have sj: "16 * i + 24 + 8 * slot \<le> length m" "16 * i + 24 + 8 * j \<le> length m"
    using le(2) [OF slot(1)] le(2) [OF slot(2)] room by linarith+
  have b': "block_in ?m i" "type_at cr ?m i = Some ArrayValue" "ord_at cr ?m i = ord_at cr m i"
    "block_type_from_u8 (pl_array_entry_type cr (pl_at ?m i)) = Some t"
    using b by (simp_all add: type_at_def ord_at_def words_slot_write)
  have "array_get_slot cr t (Mapping ?m) i j = Ok (u64_from_le_bytes (window ?m (16 * i + 16 + 8 * j) 8))"
    using array_slot_rw(2) [OF b'(1,2,4) b(4), of j] le(1) [OF slot(2)] sj(2) b'(3) by simp
  also have "\<dots> = (if j = slot then Ok v else array_get_slot cr t (Mapping m) i j)"
    using slot_write_read [OF sj(1), of v j] array_slot_rw(2) [OF b le(1) [OF slot(2)] sj(2)] by simp
  finally have "array_get_slot cr t (Mapping ?m) i j = \<dots>" .
  moreover have "?m ! p = m ! p" if "p < length m" "p < 16 * i + 16 \<or> 16 * (i + 2 ^ ord_at cr m i) \<le> p" for p
    using that le(2) [OF slot(1)] by (auto simp: nth_overwrite)
  ultimately show ?thesis
    using array_slot_rw(1) [OF b le(1) [OF slot(1)] sj(1)] by (intro exI [of _ ?m]) simp
qed

lemma array_slot_at_capacity:
  assumes b: "block_in m i" "type_at cr m i = Some ArrayValue"
    "block_type_from_u8 (pl_array_entry_type cr (pl_at m i)) = Some t" "Suc i < U32_LIMIT"
    and room: "block_in m (i + 2 ^ ord_at cr m i)"
  shows "array_set_slot cr t i (array_capacity (ord_at cr m i)) v m
    = (Ok (), put_hdr (i + 2 ^ ord_at cr m i) v m)"
proof -
  let ?c = "array_capacity (ord_at cr m i)"
  obtain q where "(2::nat) ^ ord_at cr m i = Suc q" by (cases "(2::nat) ^ ord_at cr m i") simp_all
  then have off: "16 * i + 16 + 8 * ?c = 16 * (i + 2 ^ ord_at cr m i)" by (simp add: array_capacity_eq)
  have "16 * i + 24 + 8 * ?c \<le> length m" using room off by (simp add: block_in_def)
  moreover have "?c \<le> 2 * 2 ^ ord_at cr m i - 2" by (simp add: array_capacity_eq)
  ultimately show ?thesis
    using array_slot_rw(1) [OF b, of ?c v] unfolding off put_hdr_def by blast
qed

end

section \<open>Properties\<close>

text \<open>
  A reserved block turned into an integer, unsigned or double value reads back as that
  value with the name and the parent it was given, keeps its order, and nothing outside
  its first sixteen bytes is written.
\<close>

theorem become_value_reads_back:
  assumes "inspect_crates cr" and "block_in m i" and "type_at cr m i = Some Reserved"
    and "name < 2 ^ 28" and "parent < 2 ^ 28"
    and "(become, getv) \<in> {(become_int_value, int_value), (become_uint_value, uint_value),
      (become_double_value, double_value)}"
  shows "\<exists>m'. become cr i v name parent m = (Ok (), m') \<and> getv cr (Mapping m') i = Ok v
    \<and> name_index cr (Mapping m') i = Ok name \<and> parent_index cr (Mapping m') i = Ok parent
    \<and> block_order cr (Mapping m') i = (block_order cr (Mapping m) i :: (inspect_error, nat) outcome)
    \<and> length m' = length m \<and> (\<forall>p<length m. p < 16 * i \<or> 16 * i + 16 \<le> p \<longrightarrow> m' ! p = m ! p)"
proof -
  note ord = inspect_crates.block_order_in [OF assms(1)]
  obtain m' where "become cr i v name parent m = (Ok (), m')" "getv cr (Mapping m') i = Ok v"
    "name_index cr (Mapping m') i = Ok name" "parent_index cr (Mapping m') i = Ok parent"
    "ord_at cr m' i = ord_at cr m i" "length m' = length m"
    "\<forall>p<length m. p < 16 * i \<or> 16 * i + 16 \<le> p \<longrightarrow> m' ! p = m ! p"
    using inspect_crates.value_reads_back [OF assms, of v] by blast
  then show ?thesis
    using assms(2) by (intro exI [of _ m']) (simp add: ord block_in_def)
qed

text \<open>A zeroed mapping with a reserved block of order 0 at index 0, and the same as a header, for the examples.\<close>

definition reserved_page :: "u8 list" where
  "reserved_page = 0x10 # replicate 63 0"

definition header_page :: "u8 list" where
  "header_page = 0x20 # replicate 63 0"

lemma example_pages:
  "block_in reserved_page 0" "type_at shift_mask_ops reserved_page 0 = Some Reserved"
  "ord_at shift_mask_ops reserved_page 0 = 0" "length reserved_page = 64"
  "block_in header_page 0" "type_at shift_mask_ops header_page 0 = Some Header" "pl_at header_page 0 = 0"
  by code_simp+

theorem become_value_reads_back_witness:
  "\<exists>m'. become_int_value shift_mask_ops 0 42 2 1 reserved_page = (Ok (), m')
    \<and> int_value shift_mask_ops (Mapping m') 0 = Ok 42 \<and> name_index shift_mask_ops (Mapping m') 0 = Ok 2"
  using become_value_reads_back [OF shift_mask.inspect_crates_axioms example_pages(1,2), of 2 1
      become_int_value int_value 42] by auto

text \<open>
  The header lock is a toggle of the generation count: locking an unlocked header makes it
  locked, unlocking it again leaves it unlocked with a generation count two higher; locking a
  locked header and unlocking an unlocked one are errors that change nothing.
\<close>

theorem header_lock_toggles:
  assumes "inspect_crates cr" and "block_in m i" and "type_at cr m i = Some Header" and "even (pl_at m i)"
  shows "\<exists>m1 m2. lock_header cr i m = (Ok (), m1) \<and> unlock_header cr i m1 = (Ok (), m2)
    \<and> header_is_locked cr (Mapping m1) i = Ok True \<and> header_is_locked cr (Mapping m2) i = Ok False
    \<and> block_generation_count cr (Mapping m2) i = Ok (pl_at m i + 2)
    \<and> lock_header cr i m1 = (Err (ExpectedLocked False), m1)
    \<and> unlock_header cr i m = (Err (ExpectedLocked True), m)"
  by (rule inspect_crates.header_lock_cycle [OF assms])

theorem header_lock_toggles_witness:
  "\<exists>m1 m2. lock_header shift_mask_ops 0 header_page = (Ok (), m1)
    \<and> unlock_header shift_mask_ops 0 m1 = (Ok (), m2)
    \<and> block_generation_count shift_mask_ops (Mapping m2) 0 = Ok 2"
  using header_lock_toggles [OF shift_mask.inspect_crates_axioms example_pages(5,6)] example_pages(7) by auto

text \<open>
  A name that fits the block is read back from it: \<open>name_contents\<close> after \<open>become_name\<close> is the
  name, and the order of the block is kept.
\<close>

theorem become_name_reads_back:
  assumes "inspect_crates cr" and "block_in m i" and "type_at cr m i = Some Reserved" and "utf8_valid name"
    and "length name \<le> payload_size_for_order (ord_at cr m i)" and "ord_at cr m i < NUM_ORDERS"
    and "16 * i + order_to_size (ord_at cr m i) \<le> length m"
  shows "\<exists>m'. become_name cr i name m = (Ok (), m') \<and> name_contents cr (Mapping m') i = Ok name
    \<and> name_length cr (Mapping m') i = Ok (length name) \<and> ord_at cr m' i = ord_at cr m i"
  using inspect_crates.name_cut [OF assms(1,2,3) _ _ refl, of name] assms(4-7)
  by (auto simp: NUM_ORDERS_def order_to_size_eq)

theorem become_name_reads_back_witness:
  "\<exists>m'. become_name shift_mask_ops 0 [0x68, 0xC3, 0xA9] reserved_page = (Ok (), m')
    \<and> name_contents shift_mask_ops (Mapping m') 0 = Ok [0x68, 0xC3, 0xA9]"
proof -
  have "utf8_valid [0x68, 0xC3, 0xA9]" by code_simp
  moreover have "length [0x68 :: u8, 0xC3, 0xA9] \<le> payload_size_for_order (ord_at shift_mask_ops reserved_page 0)"
    "ord_at shift_mask_ops reserved_page 0 < NUM_ORDERS"
    "16 * 0 + order_to_size (ord_at shift_mask_ops reserved_page 0) \<le> length reserved_page" by code_simp+
  ultimately show ?thesis
    using become_name_reads_back [OF shift_mask.inspect_crates_axioms example_pages(1,2)] by blast
qed

text \<open>
  An array slot below the capacity of the block reads back what was written to it, every other
  slot below the capacity keeps its value, and nothing outside the slots of the block is written.
\<close>

theorem array_slots_read_back:
  assumes "inspect_crates cr" and "block_in m i" and "type_at cr m i = Some ArrayValue"
    and "block_type_from_u8 (pl_array_entry_type cr (pl_at m i)) = Some IntValue" and "Suc i < U32_LIMIT"
    and "slot < array_capacity (ord_at cr m i)" and "j < array_capacity (ord_at cr m i)"
    and "16 * i + 16 * 2 ^ ord_at cr m i \<le> length m"
  shows "\<exists>m'. array_set_int_slot cr i slot v m = (Ok (), m')
    \<and> array_get_int_slot cr (Mapping m') i j = (if j = slot then Ok v else array_get_int_slot cr (Mapping m) i j)
    \<and> length m' = length m
    \<and> (\<forall>p<length m. p < 16 * i + 16 \<or> 16 * (i + 2 ^ ord_at cr m i) \<le> p \<longrightarrow> m' ! p = m ! p)"
  unfolding array_set_int_slot_def array_get_int_slot_def
  by (rule inspect_crates.array_slot_reads_back [OF assms])

text \<open>A mapping with an array of integers of order 1 at index 0 followed by a free block.\<close>

definition array_page :: "u8 list" where
  "array_page = 0xB1 # replicate 7 0 @ 0x04 # replicate 55 0"

lemma example_array:
  "block_in array_page 0" "type_at shift_mask_ops array_page 0 = Some ArrayValue"
  "block_type_from_u8 (pl_array_entry_type shift_mask_ops (pl_at array_page 0)) = Some IntValue"
  "ord_at shift_mask_ops array_page 0 = 1" "length array_page = 64" "block_in array_page 2"
  by code_simp+

theorem array_slots_read_back_witness:
  "\<exists>m'. array_set_int_slot shift_mask_ops 0 1 7 array_page = (Ok (), m')
    \<and> array_get_int_slot shift_mask_ops (Mapping m') 0 1 = Ok 7"
  using array_slots_read_back [OF shift_mask.inspect_crates_axioms example_array(1-3), of 1 1 7]
  by (auto simp: example_array array_capacity_eq)

text \<open>
  C30. The bound check of the slot accessors lets the slot index equal to the capacity through: the
  write succeeds and replaces the header word of the block that follows the array.
\<close>

theorem array_slot_bound_off_by_one:
  assumes "inspect_crates cr" and "block_in m i" and "type_at cr m i = Some ArrayValue"
    and "block_type_from_u8 (pl_array_entry_type cr (pl_at m i)) = Some IntValue" and "Suc i < U32_LIMIT"
    and "block_in m (i + 2 ^ ord_at cr m i)"
  shows "array_set_int_slot cr i (array_capacity (ord_at cr m i)) v m
    = (Ok (), put_hdr (i + 2 ^ ord_at cr m i) v m)"
  unfolding array_set_int_slot_def by (rule inspect_crates.array_slot_at_capacity [OF assms])

theorem array_slot_bound_off_by_one_witness:
  "array_set_int_slot shift_mask_ops 0 2 (- 1) array_page = (Ok (), put_hdr 2 (- 1) array_page)"
proof -
  have "0 + 2 ^ ord_at shift_mask_ops array_page 0 = (2::nat)" "array_capacity (ord_at shift_mask_ops array_page 0) = 2"
    by (simp_all add: example_array array_capacity_eq)
  with array_slot_bound_off_by_one [OF shift_mask.inspect_crates_axioms example_array(1-3), of "- 1"] example_array(6)
  show ?thesis by simp
qed

text \<open>
  C31. A name longer than the payload of its block is cut at the last byte that fits, even inside
  a character: the name block is then not UTF-8 and reading it panics.
\<close>

theorem cut_name_panics:
  assumes "inspect_crates cr" and "block_in m i" and "type_at cr m i = Some Reserved"
    and "ord_at cr m i < 8" and "payload_size_for_order (ord_at cr m i) < length name"
    and "16 * i + 16 * 2 ^ ord_at cr m i \<le> length m"
    and "\<not> utf8_valid (take (payload_size_for_order (ord_at cr m i)) name)"
  shows "\<exists>m'. become_name cr i name m = (Ok (), m') \<and> name_contents cr (Mapping m') i = Panic"
  using inspect_crates.name_cut [OF assms(1,2,3,4,6) refl, of name] assms(7) by auto

theorem cut_name_panics_witness:
  "utf8_valid (replicate 7 0x61 @ [0xC3, 0xA9]) \<and> (\<exists>m'.
    become_name shift_mask_ops 0 (replicate 7 0x61 @ [0xC3, 0xA9]) reserved_page = (Ok (), m')
    \<and> name_contents shift_mask_ops (Mapping m') 0 = Panic)"
proof
  show "utf8_valid (replicate 7 0x61 @ [0xC3, 0xA9])" by code_simp
  have n: "payload_size_for_order 0 = 8" by code_simp
  have "\<not> utf8_valid (take 8 (replicate 7 0x61 @ [0xC3, 0xA9]))" by code_simp
  then show "\<exists>m'. become_name shift_mask_ops 0 (replicate 7 0x61 @ [0xC3, 0xA9]) reserved_page = (Ok (), m')
    \<and> name_contents shift_mask_ops (Mapping m') 0 = Panic"
    using cut_name_panics [OF shift_mask.inspect_crates_axioms example_pages(1,2), of "replicate 7 0x61 @ [0xC3, 0xA9]"]
    by (simp only: example_pages n) simp
qed

end
