(* ===== verification/Ordered_Map.thy ===== *)
theory Ordered_Map
  imports Garnet_Prelude
begin

text \<open>
  The ordered maps of the standard library (\<open>BTreeMap\<close>): association lists in strictly
  ascending order of their keys, which is also the order of iteration. The operations are
  specified by an interface over lookups, from which the clients' lemmas are derived once.
\<close>

section \<open>The interface\<close>

locale map_interface =
  fixes empty :: "'m" and insert' :: "'k \<Rightarrow> 'v \<Rightarrow> 'm \<Rightarrow> 'm" and remove :: "'k \<Rightarrow> 'm \<Rightarrow> 'm"
    and get :: "'m \<Rightarrow> 'k \<Rightarrow> 'v option" and wf :: "'m \<Rightarrow> bool"
  assumes wf_empty: "wf empty"
    and wf_insert: "wf m \<Longrightarrow> wf (insert' k v m)"
    and wf_remove: "wf m \<Longrightarrow> wf (remove k m)"
    and get_empty: "get empty = Map.empty"
    and get_insert: "wf m \<Longrightarrow> get (insert' k v m) = (get m)(k \<mapsto> v)"
    and get_remove: "wf m \<Longrightarrow> get (remove k m) = (get m)(k := None)"
begin

text \<open>Inserting a list of entries one by one, the later ones winning.\<close>

lemma get_foldl_insert:
  "wf m \<Longrightarrow> get (foldl (\<lambda>m (k, v). insert' k v m) m xs) = get m ++ map_of (rev xs)"
proof (induction xs arbitrary: m)
  case (Cons x xs)
  then show ?case
    by (cases x) (simp add: wf_insert get_insert fun_eq_iff map_add_def split: option.splits)
qed simp

lemma wf_foldl_insert: "wf m \<Longrightarrow> wf (foldl (\<lambda>m (k, v). insert' k v m) m xs)"
  by (induction xs arbitrary: m) (auto simp: wf_insert split: prod.splits)

lemma insert_remove: "wf m \<Longrightarrow> get m k = None \<Longrightarrow> get (remove k (insert' k v m)) = get m"
  by (auto simp: get_remove get_insert wf_insert)

end

section \<open>Sorted association lists\<close>

fun om_insert :: "'k::linorder \<Rightarrow> 'v \<Rightarrow> ('k \<times> 'v) list \<Rightarrow> ('k \<times> 'v) list" where
  "om_insert k v [] = [(k, v)]"
| "om_insert k v ((k', v') # m) =
     (if k < k' then (k, v) # (k', v') # m
      else if k = k' then (k, v) # m
      else (k', v') # om_insert k v m)"

fun om_remove :: "'k::linorder \<Rightarrow> ('k \<times> 'v) list \<Rightarrow> ('k \<times> 'v) list" where
  "om_remove k [] = []"
| "om_remove k ((k', v') # m) = (if k = k' then m else (k', v') # om_remove k m)"

abbreviation om_get :: "('k \<times> 'v) list \<Rightarrow> 'k \<Rightarrow> 'v option" where
  "om_get \<equiv> map_of"

definition om_wf :: "('k::linorder \<times> 'v) list \<Rightarrow> bool" where
  "om_wf m \<longleftrightarrow> sorted_wrt (<) (map fst m)"

text \<open>\<open>entry(k).or_insert(d)\<close> followed by a change of the value.\<close>

definition om_entry :: "'k::linorder \<Rightarrow> 'v \<Rightarrow> ('v \<Rightarrow> 'v) \<Rightarrow> ('k \<times> 'v) list \<Rightarrow> ('k \<times> 'v) list" where
  "om_entry k d f m = om_insert k (f (case om_get m k of None \<Rightarrow> d | Some v \<Rightarrow> v)) m"

lemma set_om_insert_keys [simp]: "set (map fst (om_insert k v m)) = insert k (set (map fst m))"
  by (induction k v m rule: om_insert.induct) auto

lemma om_wf_insert [simp]: "om_wf m \<Longrightarrow> om_wf (om_insert k v m)"
  unfolding om_wf_def
proof (induction k v m rule: om_insert.induct)
  case (2 k v k' v' m)
  then show ?case using set_om_insert_keys [of k v m] by (auto simp: sorted_wrt_append)
qed simp

lemma om_get_insert: "om_get (om_insert k v m) = (om_get m)(k \<mapsto> v)"
  by (induction k v m rule: om_insert.induct) (auto simp: fun_eq_iff)

lemma set_om_remove: "set (om_remove k m) \<subseteq> set m"
  by (induction k m rule: om_remove.induct) auto

lemma om_wf_remove [simp]: "om_wf m \<Longrightarrow> om_wf (om_remove k m)"
  unfolding om_wf_def
proof (induction k m rule: om_remove.induct)
  case (2 k k' v' m)
  then show ?case using set_om_remove [of k m] by (auto split: if_splits)
qed simp

lemma om_get_remove: "om_wf m \<Longrightarrow> om_get (om_remove k m) = (om_get m)(k := None)"
  unfolding om_wf_def
proof (induction k m rule: om_remove.induct)
  case (2 k k' v' m)
  have "om_get m k' = None" using 2(2) by (auto simp: map_of_eq_None_iff)
  then show ?case using 2 by (auto simp: fun_eq_iff)
qed simp

interpretation om: map_interface "[] :: ('k::linorder \<times> 'v) list" om_insert om_remove om_get om_wf
  by unfold_locales (simp_all add: om_get_insert om_get_remove, simp add: om_wf_def)

lemma om_wf_entry [simp]: "om_wf m \<Longrightarrow> om_wf (om_entry k d f m)"
  by (simp add: om_entry_def)

lemma om_get_entry:
  "om_get (om_entry k d f m) = (om_get m)(k \<mapsto> f (case om_get m k of None \<Rightarrow> d | Some v \<Rightarrow> v))"
  by (simp add: om_entry_def om_get_insert)

lemma length_om_remove: "om_get m k = Some v \<Longrightarrow> length (om_remove k m) < length m"
  by (induction k m rule: om_remove.induct) (auto split: if_splits)

lemma length_om_insert_present: "om_get m k = Some v \<Longrightarrow> om_wf m \<Longrightarrow> length (om_insert k w m) = length m"
proof (induction k w m rule: om_insert.induct)
  case (2 k w k' v' m)
  then show ?case by (auto simp: om_wf_def dest!: map_of_SomeD split: if_splits)
qed simp

end
