(* ===== verification/Inspect_State.thy ===== *)
theory Inspect_State
  imports Inspect_Heap
begin

text \<open>
  The model of \<^verbatim>\<open>src/public/rust/fuchsia-inspect/src/state.rs\<close>: the Inspect VMO API on top of the
  heap. Every public method runs between \<open>lock_header\<close> and \<open>unlock_header\<close>, which make the
  generation count odd and even again. The methods the source generates with macros are
  one definition per macro method, with the instances for the three metric types.
\<close>

section \<open>The state\<close>

record state =
  state_heap :: heap
  state_header :: nat

type_synonym 'a sprog = "(state, inspect_error, 'a) prog"

text \<open>Calls of the heap, reads of the heap, and methods of a block of the heap's mapping.\<close>

definition onHeap :: "'a hprog \<Rightarrow> 'a sprog" where
  "onHeap = zoomP state_heap (\<lambda>h s. s\<lparr>state_heap := h\<rparr>)"

definition readHeap :: "(heap \<Rightarrow> (inspect_error, 'a) outcome) \<Rightarrow> 'a sprog" where
  "readHeap f = readP (\<lambda>s. f (state_heap s))"

definition onBlock :: "'a mprog \<Rightarrow> 'a sprog" where
  "onBlock p = onHeap (onB p)"

definition readBlock :: "(container \<Rightarrow> (inspect_error, 'a) outcome) \<Rightarrow> 'a sprog" where
  "readBlock f = readHeap (\<lambda>h. f (Mapping (mapping h)))"

text \<open>
  \<open>with_header_lock!\<close>: the code block is a closure, so its early returns end in \<open>result\<close> and the
  header is unlocked in every case but a panic.
\<close>

definition with_header_lock :: "crate_ops \<Rightarrow> 'a sprog \<Rightarrow> 'a sprog" where
  "with_header_lock cr code =
     bindP (getP state_header) (\<lambda>header.
     bindP (onBlock (lock_header cr header)) (\<lambda>_.
     bindP (attemptP code) (\<lambda>result.
     bindP (onBlock (unlock_header cr header)) (\<lambda>_.
       case result of Inl e \<Rightarrow> throwP e | Inr a \<Rightarrow> returnP a))))"

definition state_create :: "crate_ops \<Rightarrow> heap \<Rightarrow> (inspect_error, state) outcome" where
  "state_create cr h =
     (case bindP (allocate_block cr 16) (\<lambda>block. onB (become_header cr block)) h of
        (Ok b, h') \<Rightarrow> Ok \<lparr>state_heap = h', state_header = b\<rparr>
      | (Err e, _) \<Rightarrow> Err e | (Panic, _) \<Rightarrow> Panic | (Diverge, _) \<Rightarrow> Diverge)"

section \<open>Values and their names\<close>

text \<open>The child count is a \<open>u64\<close>; the increment and the decrement panic on overflow.\<close>

definition u64_add :: "u64 \<Rightarrow> u64 \<Rightarrow> ('e, u64) outcome" where
  "u64_add a b = (if unat a + unat b < 2 ^ 64 then Ok (a + b) else Panic)"

definition u64_sub :: "u64 \<Rightarrow> u64 \<Rightarrow> ('e, u64) outcome" where
  "u64_sub a b = (if b \<le> a then Ok (a - b) else Panic)"

text \<open>Registering a value with its parent, the closure of \<open>allocate_reserved_value\<close>.\<close>

definition add_child :: "crate_ops \<Rightarrow> nat \<Rightarrow> unit sprog" where
  "add_child cr parent =
     bindP (readHeap (\<lambda>h. get_block cr h parent)) (\<lambda>parent_block.
     bindP (readBlock (\<lambda>c. get_block_type cr c parent_block)) (\<lambda>t.
       if t = NodeValue \<or> t = Tombstone then
         bindP (readBlock (\<lambda>c. unwrapO (child_count cr c parent_block))) (\<lambda>n.
         bindP (readP (\<lambda>_. u64_add n 1)) (\<lambda>n'.
           onBlock (set_child_count cr parent_block n')))
       else if t = Header then returnP ()
       else throwP (InvalidBlockType t)))"

text \<open>
  The first half of \<open>allocate_reserved_value\<close>: the two blocks are allocated and the name is written.
\<close>

definition allocate_named :: "crate_ops \<Rightarrow> u8 list \<Rightarrow> nat \<Rightarrow> (nat \<times> nat) sprog" where
  "allocate_named cr name block_size =
     bindP (onHeap (allocate_block cr block_size)) (\<lambda>block.
       let max_bytes = MAX_ORDER_SIZE - HEADER_SIZE_BYTES;
           bytes = (if length name > max_bytes then take max_bytes name else name)
       in
       bindP (attemptP (onHeap (allocate_block cr (block_size_for_payload (length bytes))))) (\<lambda>r.
         case r of
           Inl err \<Rightarrow> bindP (onHeap (free_block cr block)) (\<lambda>_. throwP err)
         | Inr name_block \<Rightarrow>
             bindP (unwrapP (onBlock (become_name cr name_block name))) (\<lambda>_.
               returnP (block, name_block))))"

definition allocate_reserved_value :: "crate_ops \<Rightarrow> u8 list \<Rightarrow> nat \<Rightarrow> nat \<Rightarrow> (nat \<times> nat) sprog" where
  "allocate_reserved_value cr name parent block_size =
     bindP (allocate_named cr name block_size) (\<lambda>(block, name_block).
     bindP (attemptP (add_child cr parent)) (\<lambda>result.
       case result of
         Inr _ \<Rightarrow> returnP (block, name_block)
       | Inl e \<Rightarrow>
           bindP (unwrapP (onHeap (free_block cr name_block))) (\<lambda>_.
           bindP (unwrapP (onHeap (free_block cr block))) (\<lambda>_.
             throwP (InvalidParentIndex parent e)))))"

definition release_child :: "crate_ops \<Rightarrow> nat \<Rightarrow> unit sprog" where
  "release_child cr parent_index' =
     bindP (readHeap (\<lambda>h. unwrapO (get_block cr h parent_index'))) (\<lambda>parent.
     bindP (readBlock (\<lambda>c. unwrapO (child_count cr c parent))) (\<lambda>n.
     bindP (readP (\<lambda>_. u64_sub n 1)) (\<lambda>n'.
     bindP (readBlock (\<lambda>c. get_block_type cr c parent)) (\<lambda>t.
       if t = Tombstone \<and> n' = 0 then unwrapP (onHeap (free_block cr parent))
       else unwrapP (onBlock (set_child_count cr parent n'))))))"

definition delete_value :: "crate_ops \<Rightarrow> nat \<Rightarrow> unit sprog" where
  "delete_value cr block =
     bindP (readBlock (\<lambda>c. parent_index cr c block)) (\<lambda>parent.
     bindP (if parent \<noteq> HEADER_INDEX then release_child cr parent else returnP ()) (\<lambda>_.
     bindP (readBlock (\<lambda>c. name_index cr c block)) (\<lambda>ni.
     bindP (readHeap (\<lambda>h. unwrapO (get_block cr h ni))) (\<lambda>name.
     bindP (unwrapP (onHeap (free_block cr name))) (\<lambda>_.
     bindP (readBlock (\<lambda>c. get_block_type cr c block)) (\<lambda>t.
     bindP (if t = NodeValue then readBlock (\<lambda>c. bindO (child_count cr c block) (\<lambda>n. Ok (n \<noteq> 0)))
            else returnP False) (\<lambda>has_children.
       if has_children then onBlock (become_tombstone cr block)
       else onHeap (free_block cr block))))))))"

section \<open>Nodes\<close>

definition create_node :: "crate_ops \<Rightarrow> u8 list \<Rightarrow> nat \<Rightarrow> nat sprog" where
  "create_node cr name parent = with_header_lock cr (
     bindP (allocate_reserved_value cr name parent MIN_ORDER_SIZE) (\<lambda>(block, name_block).
     bindP (onBlock (become_node cr block name_block parent)) (\<lambda>_.
       returnP block)))"

definition free_value :: "crate_ops \<Rightarrow> nat \<Rightarrow> unit sprog" where
  "free_value cr index = with_header_lock cr (
     bindP (readHeap (\<lambda>h. get_block cr h index)) (\<lambda>block.
       unwrapP (delete_value cr block)))"

section \<open>Properties\<close>

definition free_extents_step :: "crate_ops \<Rightarrow> nat \<Rightarrow> (state, inspect_error, nat + unit) prog" where
  "free_extents_step cr index =
     (if index = HEADER_INDEX then returnP (Inr ())
      else bindP (readHeap (\<lambda>h. unwrapO (get_block cr h index))) (\<lambda>block.
           bindP (readBlock (\<lambda>c. next_extent cr c block)) (\<lambda>index'.
           bindP (onHeap (free_block cr block)) (\<lambda>_.
             returnP (Inl index')))))"

definition free_extents :: "crate_ops \<Rightarrow> nat \<Rightarrow> unit sprog" where
  "free_extents cr head_extent_index = loopP (free_extents_step cr) head_extent_index"

definition write_extents_step :: "crate_ops \<Rightarrow> u8 list \<Rightarrow> nat \<times> nat \<Rightarrow>
    (state, inspect_error, (nat \<times> nat) + unit) prog" where
  "write_extents_step cr value = (\<lambda>(offset, extent_block).
     if \<not> offset < length value then returnP (Inr ())
     else bindP (onBlock (become_extent cr extent_block 0)) (\<lambda>_.
          bindP (onBlock (extent_set_contents cr extent_block (drop offset value))) (\<lambda>bytes_written.
            let offset' = offset + bytes_written in
            if offset' < length value then
              bindP (onHeap (allocate_block cr (block_size_for_payload (length value - offset')))) (\<lambda>block.
              bindP (onBlock (set_extent_next_index cr extent_block block)) (\<lambda>_.
                returnP (Inl (offset', block))))
            else returnP (Inl (offset', extent_block)))))"

definition write_extents :: "crate_ops \<Rightarrow> u8 list \<Rightarrow> nat sprog" where
  "write_extents cr value =
     (if length value = 0 then returnP HEADER_INDEX
      else bindP (onHeap (allocate_block cr (block_size_for_payload (length value)))) (\<lambda>extent_block.
           bindP (loopP (write_extents_step cr value) (0, extent_block)) (\<lambda>_.
             returnP extent_block)))"

definition inner_set_property_value :: "crate_ops \<Rightarrow> nat \<Rightarrow> u8 list \<Rightarrow> unit sprog" where
  "inner_set_property_value cr block value =
     bindP (readBlock (\<lambda>c. property_extent_index cr c block)) (\<lambda>head.
     bindP (free_extents cr head) (\<lambda>_.
     bindP (write_extents cr value) (\<lambda>extent_index.
     bindP (readP (\<lambda>_. if length value < U32_LIMIT then Ok (length value) else Panic)) (\<lambda>n.
     bindP (onBlock (set_property_total_length cr block n)) (\<lambda>_.
       onBlock (set_property_extent_index cr block extent_index))))))"

definition create_property :: "crate_ops \<Rightarrow> u8 list \<Rightarrow> u8 list \<Rightarrow> property_format \<Rightarrow> nat \<Rightarrow> nat sprog" where
  "create_property cr name value format parent = with_header_lock cr (
     bindP (allocate_reserved_value cr name parent MIN_ORDER_SIZE) (\<lambda>(block, name_block).
     bindP (onBlock (become_property cr block name_block parent format)) (\<lambda>_.
     bindP (attemptP (inner_set_property_value cr block value)) (\<lambda>r.
       case r of
         Inl err \<Rightarrow>
           bindP (unwrapP (onHeap (free_block cr block))) (\<lambda>_.
           bindP (unwrapP (onHeap (free_block cr name_block))) (\<lambda>_.
             throwP err))
       | Inr _ \<Rightarrow> returnP block))))"

definition free_property :: "crate_ops \<Rightarrow> nat \<Rightarrow> unit sprog" where
  "free_property cr index = with_header_lock cr (
     bindP (readHeap (\<lambda>h. get_block cr h index)) (\<lambda>block.
     bindP (readBlock (\<lambda>c. property_extent_index cr c block)) (\<lambda>head.
     bindP (free_extents cr head) (\<lambda>_.
       delete_value cr block))))"

definition set_property :: "crate_ops \<Rightarrow> nat \<Rightarrow> u8 list \<Rightarrow> unit sprog" where
  "set_property cr block_index value = with_header_lock cr (
     bindP (readHeap (\<lambda>h. get_block cr h block_index)) (\<lambda>block.
       inner_set_property_value cr block value))"

section \<open>Metrics\<close>

text \<open>
  \<open>metric_fns!\<close>: the methods of one metric type, given the \<open>become\<close>, \<open>set\<close> and read methods of
  its blocks and its addition and subtraction.
\<close>

type_synonym block_become = "crate_ops \<Rightarrow> nat \<Rightarrow> u64 \<Rightarrow> nat \<Rightarrow> nat \<Rightarrow> unit mprog"
type_synonym block_set = "crate_ops \<Rightarrow> nat \<Rightarrow> u64 \<Rightarrow> unit mprog"
type_synonym block_read = "crate_ops \<Rightarrow> container \<Rightarrow> nat \<Rightarrow> (inspect_error, u64) outcome"
type_synonym u64_op = "u64 \<Rightarrow> u64 \<Rightarrow> (inspect_error, u64) outcome"

definition create_metric :: "block_become \<Rightarrow> crate_ops \<Rightarrow> u8 list \<Rightarrow> u64 \<Rightarrow> nat \<Rightarrow> nat sprog" where
  "create_metric become cr name value parent = with_header_lock cr (
     bindP (allocate_reserved_value cr name parent MIN_ORDER_SIZE) (\<lambda>(block, name_block).
     bindP (onBlock (become cr block value name_block parent)) (\<lambda>_.
       returnP block)))"

definition set_metric :: "block_set \<Rightarrow> crate_ops \<Rightarrow> nat \<Rightarrow> u64 \<Rightarrow> unit sprog" where
  "set_metric setv cr block_index value = with_header_lock cr (
     bindP (readHeap (\<lambda>h. get_block cr h block_index)) (\<lambda>block.
       onBlock (setv cr block value)))"

definition update_metric :: "u64_op \<Rightarrow> block_read \<Rightarrow> block_set \<Rightarrow> crate_ops \<Rightarrow> nat \<Rightarrow> u64 \<Rightarrow> unit sprog" where
  "update_metric op getv setv cr block_index value = with_header_lock cr (
     bindP (readHeap (\<lambda>h. get_block cr h block_index)) (\<lambda>block.
     bindP (readBlock (\<lambda>c. getv cr c block)) (\<lambda>current_value.
     bindP (readP (\<lambda>_. op current_value value)) (\<lambda>v.
       onBlock (setv cr block v)))))"

definition get_metric :: "block_read \<Rightarrow> crate_ops \<Rightarrow> nat \<Rightarrow> u64 sprog" where
  "get_metric getv cr block_index = with_header_lock cr (
     bindP (readHeap (\<lambda>h. get_block cr h block_index)) (\<lambda>block.
       readBlock (\<lambda>c. getv cr c block)))"

text \<open>Signed arithmetic panics when the result leaves the range of \<open>i64\<close>.\<close>

definition i64_checked :: "int \<Rightarrow> ('e, u64) outcome" where
  "i64_checked z = (if - (2 ^ 63) \<le> z \<and> z < 2 ^ 63 then Ok (word_of_int z) else Panic)"

definition i64_add :: "u64 \<Rightarrow> u64 \<Rightarrow> ('e, u64) outcome" where
  "i64_add a b = i64_checked (sint a + sint b)"

definition i64_sub :: "u64 \<Rightarrow> u64 \<Rightarrow> ('e, u64) outcome" where
  "i64_sub a b = i64_checked (sint a - sint b)"

definition create_int_metric where "create_int_metric = create_metric become_int_value"
definition set_int_metric where "set_int_metric = set_metric set_int_value"
definition add_int_metric where "add_int_metric = update_metric i64_add int_value set_int_value"
definition subtract_int_metric where "subtract_int_metric = update_metric i64_sub int_value set_int_value"
definition get_int_metric where "get_int_metric = get_metric int_value"

definition create_uint_metric where "create_uint_metric = create_metric become_uint_value"
definition set_uint_metric where "set_uint_metric = set_metric set_uint_value"
definition add_uint_metric where "add_uint_metric = update_metric u64_add uint_value set_uint_value"
definition subtract_uint_metric where "subtract_uint_metric = update_metric u64_sub uint_value set_uint_value"
definition get_uint_metric where "get_uint_metric = get_metric uint_value"

text \<open>
  Doubles: the addition and the subtraction of the floating-point unit act on bit patterns
  and are parameters; they return a value for every pair of operands.
\<close>

definition create_double_metric where "create_double_metric = create_metric become_double_value"
definition set_double_metric where "set_double_metric = set_metric set_double_value"
definition add_double_metric where
  "add_double_metric f64_add = update_metric (\<lambda>a b. Ok (f64_add a b)) double_value set_double_value"
definition subtract_double_metric where
  "subtract_double_metric f64_sub = update_metric (\<lambda>a b. Ok (f64_sub a b)) double_value set_double_value"
definition get_double_metric where "get_double_metric = get_metric double_value"

section \<open>Arrays\<close>

text \<open>\<open>array_fns!\<close>: every element type takes eight bytes.\<close>

type_synonym slot_read = "crate_ops \<Rightarrow> container \<Rightarrow> nat \<Rightarrow> nat \<Rightarrow> (inspect_error, u64) outcome"
type_synonym slot_set = "crate_ops \<Rightarrow> nat \<Rightarrow> nat \<Rightarrow> u64 \<Rightarrow> unit mprog"

definition create_array :: "block_type \<Rightarrow> crate_ops \<Rightarrow> u8 list \<Rightarrow> nat \<Rightarrow> array_format \<Rightarrow> nat \<Rightarrow> nat sprog" where
  "create_array t cr name slots format parent =
     (let block_size = slots * 8 + MIN_ORDER_SIZE in
      if block_size > MAX_ORDER_SIZE then throwP (CannotAllocateBlockOfSize block_size)
      else with_header_lock cr (
        bindP (allocate_reserved_value cr name parent block_size) (\<lambda>(block, name_block).
        bindP (onBlock (become_array_value cr block slots format t name_block parent)) (\<lambda>_.
          returnP block))))"

definition set_array_slot :: "slot_set \<Rightarrow> crate_ops \<Rightarrow> nat \<Rightarrow> nat \<Rightarrow> u64 \<Rightarrow> unit sprog" where
  "set_array_slot setv cr block_index slot_index value = with_header_lock cr (
     bindP (readHeap (\<lambda>h. get_block cr h block_index)) (\<lambda>block.
       onBlock (setv cr block slot_index value)))"

definition update_array_slot :: "u64_op \<Rightarrow> slot_read \<Rightarrow> slot_set \<Rightarrow> crate_ops \<Rightarrow> nat \<Rightarrow> nat \<Rightarrow> u64 \<Rightarrow> unit sprog" where
  "update_array_slot op getv setv cr block_index slot_index value = with_header_lock cr (
     bindP (readHeap (\<lambda>h. get_block cr h block_index)) (\<lambda>block.
     bindP (readBlock (\<lambda>c. getv cr c block slot_index)) (\<lambda>previous_value.
     bindP (readP (\<lambda>_. op previous_value value)) (\<lambda>v.
       onBlock (setv cr block slot_index v)))))"

definition create_int_array where "create_int_array = create_array IntValue"
definition set_array_int_slot where "set_array_int_slot = set_array_slot array_set_int_slot"
definition add_array_int_slot where "add_array_int_slot = update_array_slot i64_add array_get_int_slot array_set_int_slot"
definition subtract_array_int_slot where
  "subtract_array_int_slot = update_array_slot i64_sub array_get_int_slot array_set_int_slot"

definition create_uint_array where "create_uint_array = create_array UintValue"
definition set_array_uint_slot where "set_array_uint_slot = set_array_slot array_set_uint_slot"
definition add_array_uint_slot where "add_array_uint_slot = update_array_slot u64_add array_get_uint_slot array_set_uint_slot"
definition subtract_array_uint_slot where
  "subtract_array_uint_slot = update_array_slot u64_sub array_get_uint_slot array_set_uint_slot"

definition create_double_array where "create_double_array = create_array DoubleValue"
definition set_array_double_slot where "set_array_double_slot = set_array_slot array_set_double_slot"
definition add_array_double_slot where
  "add_array_double_slot f64_add =
     update_array_slot (\<lambda>a b. Ok (f64_add a b)) array_get_double_slot array_set_double_slot"
definition subtract_array_double_slot where
  "subtract_array_double_slot f64_sub =
     update_array_slot (\<lambda>a b. Ok (f64_sub a b)) array_get_double_slot array_set_double_slot"

end
