(* ===== verification/Inspect_State_Correct.thy ===== *)
theory Inspect_State_Correct
  imports Inspect_State Inspect_Heap_Correct Inspect_Block_Correct
begin

text \<open>
  The correctness of the Inspect state: the invariant that ties the header block to the heap,
  the header lock around every method, and what the methods do to the blocks.
\<close>

section \<open>The invariant\<close>

abbreviation state_bytes :: "state \<Rightarrow> u8 list" where
  "state_bytes s \<equiv> mapping (state_heap s)"

abbreviation state_used :: "crate_ops \<Rightarrow> state \<Rightarrow> nat \<rightharpoonup> nat" where
  "state_used cr s \<equiv> used_blocks cr (state_heap s)"

definition generation :: "state \<Rightarrow> u64" where
  "generation s = pl_at (state_bytes s) 0"

text \<open>The header is the used block of order 0 at index 0; its generation count tells whether it is locked.\<close>

definition state_ok :: "crate_ops \<Rightarrow> bool \<Rightarrow> state \<Rightarrow> bool" where
  "state_ok cr locked s \<longleftrightarrow> heap_inv cr (state_heap s) \<and> state_header s = 0
     \<and> state_used cr s 0 = Some 0 \<and> type_at cr (state_bytes s) 0 = Some Header
     \<and> odd (generation s) = locked"

abbreviation state_inv :: "crate_ops \<Rightarrow> state \<Rightarrow> bool" where
  "state_inv cr \<equiv> state_ok cr False"

definition set_bytes :: "state \<Rightarrow> u8 list \<Rightarrow> state" where
  "set_bytes s m = s\<lparr>state_heap := (state_heap s)\<lparr>mapping := m\<rparr>\<rparr>"

lemma set_bytes_simps [simp]:
  "state_bytes (set_bytes s m) = m" "state_header (set_bytes s m) = state_header s"
  "state_heap (set_bytes s m) = (state_heap s)\<lparr>mapping := m\<rparr>"
  "set_bytes (set_bytes s m) m' = set_bytes s m'"
  by (simp_all add: set_bytes_def)

text \<open>One step of the generation count.\<close>

definition bump :: "state \<Rightarrow> state" where
  "bump s = set_bytes s (put_pl 0 (generation s + 1) (state_bytes s))"

text \<open>The three kinds of metric blocks: their \<open>set\<close> and read methods and their type.\<close>

definition metric_kinds :: "(block_set \<times> block_read \<times> block_type) set" where
  "metric_kinds = {(set_int_value, int_value, IntValue), (set_uint_value, uint_value, UintValue),
     (set_double_value, double_value, DoubleValue)}"

text \<open>A name block of order \<open>k\<close> that holds the bytes \<open>c\<close>.\<close>

definition name_block :: "crate_ops \<Rightarrow> u8 list \<Rightarrow> nat \<Rightarrow> nat \<Rightarrow> u8 list \<Rightarrow> bool" where
  "name_block cr m i k c \<longleftrightarrow> type_at cr m i = Some Name \<and> hdr_name_length cr (hdr_at m i) = length c
     \<and> length c \<le> payload_size_for_order k \<and> payload_at m i (length c) = c"

section \<open>Blocks by their bytes\<close>

lemma window_window: "a + n \<le> b \<Longrightarrow> window (window m off b) a n = window m (off + a) n"
  by (simp add: window_def min_absorb1 add.commute drop_take)

lemma words_of_bytes:
  assumes "block_bytes h j q = block_bytes h' j q"
  shows "hdr_at (mapping h) j = hdr_at (mapping h') j" and "pl_at (mapping h) j = pl_at (mapping h') j"
proof -
  have "(1::nat) \<le> 2 ^ q" by simp
  then have le: "0 + 8 \<le> 16 * (2::nat) ^ q" "8 + 8 \<le> 16 * (2::nat) ^ q" by linarith+
  show "hdr_at (mapping h) j = hdr_at (mapping h') j"
    using arg_cong [OF assms, of "\<lambda>b. window b 0 8"]
    by (simp add: block_bytes_def hdr_at_def window_window [OF le(1)])
  show "pl_at (mapping h) j = pl_at (mapping h') j"
    using arg_cong [OF assms, of "\<lambda>b. window b 8 8"]
    by (simp add: block_bytes_def pl_at_def window_window [OF le(2)])
qed

lemma fields_of_bytes:
  assumes "block_bytes h j q = block_bytes h' j q"
  shows "ord_at cr (mapping h) j = ord_at cr (mapping h') j"
    and "type_at cr (mapping h) j = type_at cr (mapping h') j"
  using words_of_bytes(1) [OF assms] by (simp_all add: ord_at_def type_at_def)

lemma payload_of_bytes:
  assumes "block_bytes h j q = block_bytes h' j q" and "n \<le> 16 * 2 ^ q - 8"
  shows "payload_at (mapping h) j n = payload_at (mapping h') j n"
proof -
  have "(1::nat) \<le> 2 ^ q" by simp
  then have le: "8 + n \<le> 16 * (2::nat) ^ q" using assms(2) by linarith
  show ?thesis
    using arg_cong [OF assms(1), of "\<lambda>b. window b 8 n"]
    by (simp add: block_bytes_def window_window [OF le])
qed

lemma name_block_of_bytes:
  assumes "block_bytes h j k = block_bytes h' j k" and "name_block cr (mapping h') j k c"
  shows "name_block cr (mapping h) j k c"
  using assms(2) words_of_bytes(1) [OF assms(1)] fields_of_bytes(2) [OF assms(1)]
    payload_of_bytes [OF assms(1), of "length c"]
  by (simp add: name_block_def payload_size_for_order_eq)

context inspect_crates
begin

lemma used_in:
  assumes "heap_inv cr h" and "used_blocks cr h i = Some k"
  shows "block_in (mapping h) i" and "ord_at cr (mapping h) i = k" and "k < 8" and "i < 2 ^ 28"
    and "get_block cr h i = Ok i" and "\<exists>t. type_at cr (mapping h) i = Some t \<and> t \<noteq> Free"
    and "16 * i + 16 * 2 ^ k \<le> length (mapping h)"
proof -
  obtain L where w: "heap_wf cr {} (heap_blocks cr h) L (used_blocks cr h) h" using assms(1) by (rule heap_invE)
  have i: "i \<in> heap_blocks cr h" "\<not> free_at cr (mapping h) i" "ord_at cr (mapping h) i = k"
    using assms(2) heap_wf_used [OF w, of i k] by auto
  note d = heap_wf_in [OF w i(1)]
  show "block_in (mapping h) i" "ord_at cr (mapping h) i = k" "k < 8" "i < 2 ^ 28" using d i(3) by simp_all
  show "get_block cr h i = Ok i" by (rule get_block_in [OF w i(1)])
  show "\<exists>t. type_at cr (mapping h) i = Some t \<and> t \<noteq> Free" using heap_wfD(3) [OF w i(1)] i(2) by auto
  have "16 * (i + 2 ^ k) \<le> 16 * units h" using d(3) i(3) by (intro mult_le_mono2) simp
  then show "16 * i + 16 * 2 ^ k \<le> length (mapping h)"
    using sizedD(5) [OF heap_wfD(1) [OF w]] by simp
qed

lemma state_okD:
  assumes "state_ok cr b s"
  shows "heap_inv cr (state_heap s)" and "state_header s = 0" and "state_used cr s 0 = Some 0"
    and "type_at cr (state_bytes s) 0 = Some Header" and "odd (generation s) = b"
    and "block_in (state_bytes s) 0"
  using assms used_in(1) by (auto simp: state_ok_def)

text \<open>A change of the heap that leaves the bytes of the header alone keeps the state.\<close>

lemma state_ok_heap:
  assumes ok: "state_ok cr b s" and inv: "heap_inv cr h" and u: "used_blocks cr h 0 = Some 0"
    and same: "block_bytes h 0 0 = block_bytes (state_heap s) 0 0"
  shows "state_ok cr b (s\<lparr>state_heap := h\<rparr>)" and "generation (s\<lparr>state_heap := h\<rparr>) = generation s"
  using assms words_of_bytes(2) [OF same] fields_of_bytes(2) [OF same] by (simp_all add: state_ok_def generation_def)

lemma name_block_contents:
  assumes "heap_inv cr h" and "used_blocks cr h i = Some k" and "name_block cr (mapping h) i k c"
  shows "name_contents cr (Mapping (mapping h)) i = (if utf8_valid c then Ok c else Panic)"
proof -
  note d = used_in [OF assms(1,2)]
  obtain z where z: "(2::nat) ^ k = Suc z" by (cases "(2::nat) ^ k") simp_all
  show ?thesis
    using assms(3) d(1,7) by (simp add: name_block_def name_contents_in payload_size_for_order_eq z Let_def)
qed

text \<open>A write inside a used block other than the header.\<close>

lemma state_ok_write:
  assumes ok: "state_ok cr b s" and u: "state_used cr s i = Some k" and i: "i \<noteq> 0"
    and wr: "written_inside i k (state_bytes s) m" and o: "ord_at cr m i = k"
    and t: "type_at cr m i = Some t" "t \<noteq> Free"
  shows "state_ok cr b (set_bytes s m)" and "generation (set_bytes s m) = generation s"
    and "state_used cr (set_bytes s m) = state_used cr s"
    and "\<And>j q. j \<noteq> i \<Longrightarrow> state_used cr s j = Some q \<Longrightarrow>
      block_bytes (state_heap (set_bytes s m)) j q = block_bytes (state_heap s) j q"
    and "kept_blocks cr (state_heap s) (state_heap (set_bytes s m))"
proof -
  note w = heap_write_used [OF state_okD(1) [OF ok] u wr o t]
  show "kept_blocks cr (state_heap s) (state_heap (set_bytes s m))" using w(4) by simp
  show "state_used cr (set_bytes s m) = state_used cr s" using w(2) by simp
  show "block_bytes (state_heap (set_bytes s m)) j q = block_bytes (state_heap s) j q"
    if "j \<noteq> i" "state_used cr s j = Some q" for j q using w(3) [OF that] by simp
  have "used_blocks cr ((state_heap s)\<lparr>mapping := m\<rparr>) 0 = Some 0" using w(2) state_okD(3) [OF ok] by simp
  from state_ok_heap [OF ok w(1) this] w(3) [OF i [symmetric] state_okD(3) [OF ok]]
  show "state_ok cr b (set_bytes s m)" "generation (set_bytes s m) = generation s"
    by (simp_all add: set_bytes_def)
qed

section \<open>The lock around a method\<close>

lemma onBlock_apply: "onBlock p s = (fst (p (state_bytes s)), set_bytes s (snd (p (state_bytes s))))"
  by (simp add: onBlock_def onHeap_def onB_def zoomP_def set_bytes_def split: prod.splits)

lemma onBlock_step:
  "p (state_bytes s) = (r, m) \<Longrightarrow> onBlock p s = (r, set_bytes s m)"
  by (simp add: onBlock_def onHeap_def onB_def zoomP_def set_bytes_def)

lemma onHeap_step: "p (state_heap s) = (r, h) \<Longrightarrow> onHeap p s = (r, s\<lparr>state_heap := h\<rparr>)"
  by (simp add: onHeap_def zoomP_def)

lemma readHeap_apply [simp]: "readHeap f s = (f (state_heap s), s)"
  by (simp add: readHeap_def)

lemma readBlock_apply [simp]: "readBlock f s = (f (Mapping (state_bytes s)), s)"
  by (simp add: readBlock_def)

lemma bump_ok:
  assumes ok: "state_ok cr b s"
  shows "state_ok cr (\<not> b) (bump s)" and "generation (bump s) = generation s + 1"
    and "state_used cr (bump s) = state_used cr s"
    and "\<And>j q. j \<noteq> 0 \<Longrightarrow> state_used cr s j = Some q \<Longrightarrow>
      block_bytes (state_heap (bump s)) j q = block_bytes (state_heap s) j q"
    and "kept_blocks cr (state_heap s) (state_heap (bump s))"
proof -
  let ?m = "put_pl 0 (generation s + 1) (state_bytes s)"
  note d = state_okD [OF ok]
  have f: "ord_at cr ?m 0 = 0" "type_at cr ?m 0 = Some Header"
    using d used_in(2) [OF d(1,3)] by simp_all
  note w = heap_write_used [OF d(1,3) written_inside_put(2) f, simplified]
  show g: "generation (bump s) = generation s + 1" using d(6) by (simp add: generation_def bump_def)
  have "odd (generation s + 1) \<longleftrightarrow> \<not> odd (generation s)" by simp
  then show "state_ok cr (\<not> b) (bump s)"
    using w(1,2) d f g by (simp add: state_ok_def bump_def)
  show "state_used cr (bump s) = state_used cr s" "kept_blocks cr (state_heap s) (state_heap (bump s))"
    using w(2,4) by (simp_all add: bump_def)
  show "block_bytes (state_heap (bump s)) j q = block_bytes (state_heap s) j q"
    if "j \<noteq> 0" "state_used cr s j = Some q" for j q using w(3) [OF _ that(2)] that(1) by (simp add: bump_def)
qed

lemma lock_ok:
  assumes ok: "state_ok cr b s"
  shows "onBlock (lock_header cr 0) s = (if b then (Err (ExpectedLocked False), s) else (Ok (), bump s))"
    and "onBlock (unlock_header cr 0) s = (if b then (Ok (), bump s) else (Err (ExpectedLocked True), s))"
proof -
  note d = state_okD [OF ok]
  have id: "set_bytes s (state_bytes s) = s" by (simp add: set_bytes_def)
  show "onBlock (lock_header cr 0) s = (if b then (Err (ExpectedLocked False), s) else (Ok (), bump s))"
    using d(5) id by (auto simp: onBlock_apply lock_header_in(1) [OF d(6,4)] generation_def bump_def)
  show "onBlock (unlock_header cr 0) s = (if b then (Ok (), bump s) else (Err (ExpectedLocked True), s))"
    using d(5) id by (auto simp: onBlock_apply lock_header_in(2) [OF d(6,4)] generation_def bump_def)
qed

lemma with_header_lock_ok:
  assumes ok: "state_inv cr s" and code: "code (bump s) = (r, s')" "r \<noteq> Panic" "r \<noteq> Diverge"
    and ok': "state_ok cr True s'"
  shows "with_header_lock cr code s = (r, bump s')"
proof -
  have h: "state_header s = 0" by (rule state_okD(2) [OF ok])
  note l = lock_ok(1) [OF ok] and u = lock_ok(2) [OF ok']
  show ?thesis
  proof (cases r)
    case (Ok a)
    then show ?thesis
      using code l u h by (simp add: with_header_lock_def bindP_step attemptP_step)
  next
    case (Err e)
    then show ?thesis
      using code l u h by (simp add: with_header_lock_def bindP_step attemptP_step)
  qed (use code in simp_all)
qed

text \<open>The two steps of the generation count around a method that left the header alone.\<close>

lemma with_header_lock_inv:
  assumes ok: "state_inv cr s" and code: "code (bump s) = (r, s')" "r \<noteq> Panic" "r \<noteq> Diverge"
    and ok': "state_ok cr True s'" and g: "generation s' = generation (bump s)"
  shows "with_header_lock cr code s = (r, bump s')" and "state_inv cr (bump s')"
    and "generation (bump s') = generation s + 2"
  using with_header_lock_ok [where code = code, OF assms(1-5)] bump_ok(1,2) [OF ok'] bump_ok(2) [OF ok] g by simp_all

section \<open>Metrics\<close>

lemma metric_block:
  assumes "block_in m i" and "type_at cr m i = Some t" and "(setv, getv, t) \<in> metric_kinds"
  shows "setv cr i v m = (Ok (), put_pl i v m)" and "getv cr (Mapping m) i = Ok (pl_at m i)"
    and "t \<noteq> Free" and "t \<noteq> Header"
  using assms by (auto simp: metric_kinds_def set_value_in numeric_value_in)

lemma bump_fields:
  assumes ok: "state_ok cr b s" and i: "i \<noteq> 0"
  shows "type_at cr (state_bytes (bump s)) i = type_at cr (state_bytes s) i"
    and "pl_at (state_bytes (bump s)) i = pl_at (state_bytes s) i"
    and "hdr_at (state_bytes (bump s)) i = hdr_at (state_bytes s) i"
  using i state_okD(6) [OF ok] by (simp_all add: bump_def)

lemma get_metric_ok:
  assumes ok: "state_inv cr s" and u: "state_used cr s i = Some k" and t: "type_at cr (state_bytes s) i = Some t"
    and m: "(setv, getv, t) \<in> metric_kinds"
  shows "get_metric getv cr i s = (Ok (pl_at (state_bytes s) i), bump (bump s))"
proof -
  let ?s = "bump s"
  have "t \<noteq> Header" using m by (auto simp: metric_kinds_def)
  then have i: "i \<noteq> 0" using t state_okD(4) [OF ok] by (metis option.inject)
  note b = bump_ok [OF ok] and f = bump_fields [OF ok i]
  have ok1: "state_ok cr True ?s" using b(1) by simp
  have u1: "state_used cr ?s i = Some k" using u b(3) by simp
  note d = used_in [OF state_okD(1) [OF ok1] u1]
  have "bindP (readHeap (\<lambda>h. get_block cr h i)) (\<lambda>block. readBlock (\<lambda>c. getv cr c block)) ?s
      = (Ok (pl_at (state_bytes s) i), ?s)"
    using d(1,5) t f metric_block(2) [OF d(1) _ m] by (simp add: bindP_step)
  then show ?thesis
    unfolding get_metric_def by (rule with_header_lock_ok [OF ok]) (simp_all add: ok1)
qed

lemma update_metric_ok:
  assumes ok: "state_inv cr s" and u: "state_used cr s i = Some k" and t: "type_at cr (state_bytes s) i = Some t"
    and m: "(setv, getv, t) \<in> metric_kinds"
    and code: "code (bump s) = onBlock (setv cr i v) (bump s)"
  shows "\<exists>s'. with_header_lock cr code s = (Ok (), s') \<and> state_inv cr s'
    \<and> pl_at (state_bytes s') i = v \<and> state_used cr s' = state_used cr s
    \<and> generation s' = generation s + 2 \<and> type_at cr (state_bytes s') i = Some t
    \<and> (\<forall>j q. j \<noteq> 0 \<and> j \<noteq> i \<and> state_used cr s j = Some q \<longrightarrow>
         block_bytes (state_heap s') j q = block_bytes (state_heap s) j q)"
proof -
  let ?s = "bump s"
  have "t \<noteq> Header" using m by (auto simp: metric_kinds_def)
  then have i: "i \<noteq> 0" using t state_okD(4) [OF ok] by (metis option.inject)
  note b = bump_ok [OF ok] and f = bump_fields [OF ok i]
  have ok1: "state_ok cr True ?s" using b(1) by simp
  have u1: "state_used cr ?s i = Some k" using u b(3) by simp
  note d = used_in [OF state_okD(1) [OF ok1] u1]
  have t1: "type_at cr (state_bytes ?s) i = Some t" using t f by simp
  let ?m = "put_pl i v (state_bytes ?s)" let ?s2 = "set_bytes ?s ?m"
  have c: "code ?s = (Ok (), ?s2)"
    using code onBlock_step [of "setv cr i v"] metric_block(1) [OF d(1) t1 m] by simp
  have "ord_at cr ?m i = k" "type_at cr ?m i = Some t" using d(2) t1 by simp_all
  note w = state_ok_write [OF ok1 u1 i written_inside_put(2) this metric_block(3) [OF d(1) t1 m]]
  note l = with_header_lock_inv [where code = code, OF ok c _ _ w(1,2)]
  note b2 = bump_ok [OF w(1)] and f2 = bump_fields [OF w(1) i]
  have "pl_at (state_bytes (bump ?s2)) i = v" using f2(2) d(1) by simp
  moreover have "type_at cr (state_bytes (bump ?s2)) i = Some t" using f2(1) t1 by simp
  moreover have "block_bytes (state_heap (bump ?s2)) j q = block_bytes (state_heap s) j q"
    if "j \<noteq> 0" "j \<noteq> i" "state_used cr s j = Some q" for j q
    using that b2(4) [of j q] w(4) [of j q] b(4) [of j q] w(3) b(3) by simp
  moreover have "state_used cr (bump ?s2) = state_used cr s" using b2(3) w(3) b(3) by simp
  ultimately show ?thesis using l by auto
qed

lemma set_metric_ok:
  assumes ok: "state_inv cr s" and u: "state_used cr s i = Some k" and t: "type_at cr (state_bytes s) i = Some t"
    and m: "(setv, getv, t) \<in> metric_kinds"
  shows "\<exists>s'. set_metric setv cr i v s = (Ok (), s') \<and> state_inv cr s'
    \<and> fst (get_metric getv cr i s') = Ok v \<and> state_used cr s' = state_used cr s
    \<and> generation s' = generation s + 2
    \<and> (\<forall>j q. j \<noteq> 0 \<and> j \<noteq> i \<and> state_used cr s j = Some q \<longrightarrow>
         block_bytes (state_heap s') j q = block_bytes (state_heap s) j q)"
proof -
  let ?code = "bindP (readHeap (\<lambda>h. get_block cr h i)) (\<lambda>block. onBlock (setv cr block v))"
  have b: "state_ok cr True (bump s)" "state_used cr (bump s) i = Some k" using bump_ok [OF ok] u by simp_all
  have "?code (bump s) = onBlock (setv cr i v) (bump s)"
    using used_in(5) [OF state_okD(1) [OF b(1)] b(2)] by (simp add: bindP_step)
  from update_metric_ok [where code = ?code, OF ok u t m this]
  obtain s' where "set_metric setv cr i v s = (Ok (), s')" "state_inv cr s'" "pl_at (state_bytes s') i = v"
    "state_used cr s' = state_used cr s" "generation s' = generation s + 2" "type_at cr (state_bytes s') i = Some t"
    "\<forall>j q. j \<noteq> 0 \<and> j \<noteq> i \<and> state_used cr s j = Some q \<longrightarrow>
         block_bytes (state_heap s') j q = block_bytes (state_heap s) j q"
    unfolding set_metric_def by blast
  then show ?thesis
    using get_metric_ok [of s' i k t setv getv] u m by simp
qed

section \<open>The first state\<close>

lemma become_header_in:
  assumes "block_in m 0" and "type_at cr m 0 = Some Reserved"
  shows "\<exists>w. become_header cr 0 m = (Ok 0, put_pl 0 0 (put_hdr 0 w m))
    \<and> hdr_order cr w = 0 \<and> block_type_from_u8 (hdr_block_type cr w) = Some Header"
  using assms by (intro exI conjI) (simp add: become_header_def write_block_def bindP_step, simp_all)

lemma state_create_ok:
  assumes m: "4096 dvd length m" "m \<noteq> []" "length m \<le> 2 ^ 32" and h: "heap_new cr m = Ok h"
  shows "\<exists>s. state_create cr h = Ok s \<and> state_inv cr s \<and> state_used cr s = [0 \<mapsto> 0] \<and> generation s = 0
    \<and> length (state_bytes s) = length m"
proof -
  have f: "fit_order 16 = (Ok 0 :: (inspect_error, nat) outcome)" "(0::nat) < 8" by code_simp+
  obtain h1 where a: "allocate_block cr 16 h = (Ok 0, h1)" and i: "heap_inv cr h1" "used_blocks cr h1 = [0 \<mapsto> 0]"
    and t: "type_at cr (mapping h1) 0 = Some Reserved" and len: "length (mapping h1) = length m"
    by (rule fresh_first_block [OF m h f])
  have u: "used_blocks cr h1 0 = Some 0" using i by simp
  note d = used_in [OF i(1) u]
  obtain w where w: "become_header cr 0 (mapping h1) = (Ok 0, put_pl 0 0 (put_hdr 0 w (mapping h1)))"
    "hdr_order cr w = 0" "block_type_from_u8 (hdr_block_type cr w) = Some Header"
    using become_header_in [OF d(1) t] by blast
  let ?m = "put_pl 0 0 (put_hdr 0 w (mapping h1))" let ?h = "h1\<lparr>mapping := ?m\<rparr>"
  have wr: "written_inside 0 0 (mapping h1) ?m"
    by (rule written_inside_trans [OF written_inside_put(1) written_inside_put(2)])
  have f2: "ord_at cr ?m 0 = 0" "type_at cr ?m 0 = Some Header" using d(1) w by simp_all
  note x = heap_write_used [OF i(1) u wr f2, simplified]
  let ?s = "\<lparr>state_heap = ?h, state_header = 0\<rparr>"
  have "state_create cr h = Ok ?s"
    using a w(1) by (simp add: state_create_def bindP_step onB_def zoomP_def)
  moreover have "state_inv cr ?s" "generation ?s = 0"
    using x(1,2) i(2) f2 d(1) by (simp_all add: state_ok_def generation_def)
  ultimately show ?thesis using x(2) i(2) len by auto
qed

section \<open>Allocating and freeing from a state\<close>

lemma fit_order_small:
  assumes "8 < n" and "n \<le> 2048"
  obtains k where "fit_order n = (Ok k :: (inspect_error, nat) outcome)" and "k < 8" and "n \<le> 16 * 2 ^ k"
proof -
  obtain k where k: "fit_order n = (Ok k :: (inspect_error, nat) outcome)"
    using fit_order_eq [of n] assms by auto
  have n64: "n \<le> 2 ^ 64" using assms(2) by simp
  note le = fit_order_le_iff [OF assms(1) n64 k]
  show thesis
    using that [OF k] le [of 7] le [of k] assms by (simp add: order_to_size_eq)
qed

lemma alloc_state:
  assumes ok: "state_ok cr b s" and k: "fit_order n = (Ok k :: (inspect_error, nat) outcome)" "k < 8"
  shows "(\<exists>i s'. onHeap (allocate_block cr n) s = (Ok i, s') \<and> state_ok cr b s' \<and> generation s' = generation s
      \<and> i \<noteq> 0 \<and> state_used cr s i = None \<and> state_used cr s' = (state_used cr s)(i \<mapsto> k)
      \<and> type_at cr (state_bytes s') i = Some Reserved
      \<and> (\<forall>j q. state_used cr s j = Some q \<longrightarrow> block_bytes (state_heap s') j q = block_bytes (state_heap s) j q)
      \<and> kept_blocks cr (state_heap s) (state_heap s'))
    \<or> onHeap (allocate_block cr n) s = (Err HeapAtMaximumSize, s)"
  using heap_allocate [OF state_okD(1) [OF ok] k]
proof (elim disjE exE conjE)
  fix i h' assume a: "allocate_block cr n (state_heap s) = (Ok i, h')" and inv: "heap_inv cr h'"
    and al: "alloc_ok (state_used cr s) (block_bytes (state_heap s)) k i (used_blocks cr h') (block_bytes h')"
    and t: "type_at cr (mapping h') i = Some Reserved"
  have al': "state_used cr s i = None" "used_blocks cr h' = (state_used cr s)(i \<mapsto> k)"
    "\<And>j q. state_used cr s j = Some q \<Longrightarrow> block_bytes h' j q = block_bytes (state_heap s) j q"
    using al by (auto simp: alloc_ok_def)
  have i: "i \<noteq> 0" using al'(1) state_okD(3) [OF ok] by (metis option.distinct(1))
  have "used_blocks cr h' 0 = Some 0" using al'(2) i state_okD(3) [OF ok] by simp
  note st = state_ok_heap [OF ok inv this al'(3) [OF state_okD(3) [OF ok]]]
  have "onHeap (allocate_block cr n) s = (Ok i, s\<lparr>state_heap := h'\<rparr>)"
    by (rule onHeap_step) (rule a)
  then show ?thesis using st i al' t heap_allocate_kept [OF state_okD(1) [OF ok] k a] by auto
next
  assume "allocate_block cr n (state_heap s) = (Err HeapAtMaximumSize, state_heap s)"
  then show ?thesis using onHeap_step [of "allocate_block cr n" s] by auto
qed

lemma free_state:
  assumes ok: "state_ok cr b s" and u: "state_used cr s i = Some k" and i: "i \<noteq> 0"
  shows "\<exists>s'. onHeap (free_block cr i) s = (Ok (), s') \<and> state_ok cr b s' \<and> generation s' = generation s
    \<and> state_used cr s' = (state_used cr s)(i := None)
    \<and> (\<forall>j q. j \<noteq> i \<longrightarrow> state_used cr s j = Some q \<longrightarrow>
         block_bytes (state_heap s') j q = block_bytes (state_heap s) j q)"
proof -
  obtain h' where f: "free_block cr i (state_heap s) = (Ok (), h')" "heap_inv cr h'"
    "used_blocks cr h' = (state_used cr s)(i := None)"
    "\<And>j q. j \<noteq> i \<Longrightarrow> state_used cr s j = Some q \<Longrightarrow> block_bytes h' j q = block_bytes (state_heap s) j q"
    using heap_free [OF state_okD(1) [OF ok] u] by blast
  have "used_blocks cr h' 0 = Some 0" using f(3) i state_okD(3) [OF ok] by simp
  note st = state_ok_heap [OF ok f(2) this f(4) [OF i [symmetric] state_okD(3) [OF ok]]]
  show ?thesis
    using onHeap_step [of "free_block cr i" s, OF f(1)] st f(3,4) by (intro exI [of _ "s\<lparr>state_heap := h'\<rparr>"]) simp
qed

section \<open>Creating a value with its name\<close>

text \<open>What changes under a new value: only the payload of a parent that is a node.\<close>

lemma add_child_ok:
  assumes ok: "state_ok cr b s" and u: "state_used cr s p = Some k" and t: "type_at cr (state_bytes s) p = Some t"
    and c: "is_node_or_tombstone t \<Longrightarrow> pl_at (state_bytes s) p \<noteq> - 1"
  shows "if t = Header then add_child cr p s = (Ok (), s)
    else if is_node_or_tombstone t
    then add_child cr p s = (Ok (), set_bytes s (put_pl p (pl_at (state_bytes s) p + 1) (state_bytes s)))
    else add_child cr p s = (Err (InvalidBlockType t), s)"
proof -
  note d = used_in [OF state_okD(1) [OF ok] u]
  have nt: "is_node_or_tombstone t \<longleftrightarrow> t = NodeValue \<or> t = Tombstone" by (cases t) simp_all
  have "unat (pl_at (state_bytes s) p) + unat (1 :: u64) < 2 ^ 64" if "is_node_or_tombstone t"
  proof -
    have "pl_at (state_bytes s) p < - 1" using c [OF that] by (simp add: word_order.not_eq_extremum)
    then have "unat (pl_at (state_bytes s) p) < unat (- 1 :: u64)" by (rule unat_mono)
    then show ?thesis by (simp add: unsigned_minus_1_eq_mask mask_eq_exp_minus_1)
  qed
  then show ?thesis
    using d(1,5) t nt
    by (auto simp: add_child_def bindP_step child_count_in [OF d(1) t] u64_add_def onBlock_apply
        set_child_count_in [OF d(1) t])
qed

lemma name_block_size:
  obtains k where "fit_order (block_size_for_payload (min (length name) 2040)) = (Ok k :: (inspect_error, nat) outcome)"
    and "k < 8" and "take (payload_size_for_order k) name = take 2040 name"
proof -
  let ?n = "block_size_for_payload (min (length name) 2040)"
  have n: "?n = min 2048 (max (min (length name) 2040 + 8) 16)"
    by (simp add: block_size_for_payload_def inspect_constants)
  obtain k where k: "fit_order ?n = (Ok k :: (inspect_error, nat) outcome)" "k < 8" "?n \<le> 16 * 2 ^ k"
    by (rule fit_order_small [of ?n]) (auto simp: n)
  have "(2::nat) ^ k \<le> 2 ^ 7" using k(2) by (intro power_increasing) auto
  then have p: "min (length name) 2040 \<le> payload_size_for_order k" "payload_size_for_order k \<le> 2040"
    using k(3) by (auto simp: n payload_size_for_order_eq)
  have "take (payload_size_for_order k) name = take 2040 name"
  proof (cases "length name \<le> 2040")
    case True
    then show ?thesis using p(1) by simp
  next
    case False
    then have "payload_size_for_order k = 2040" using p by simp
    then show ?thesis by simp
  qed
  with k show thesis by (intro that) auto
qed

lemma become_name_state:
  assumes ok: "state_ok cr b s" and u: "state_used cr s i = Some k" and t: "type_at cr (state_bytes s) i = Some Reserved"
    and i: "i \<noteq> 0"
  shows "\<exists>s'. onBlock (become_name cr i name) s = (Ok (), s') \<and> state_ok cr b s' \<and> generation s' = generation s
    \<and> state_used cr s' = state_used cr s \<and> name_block cr (state_bytes s') i k (take (payload_size_for_order k) name)
    \<and> (\<forall>j q. j \<noteq> i \<longrightarrow> state_used cr s j = Some q \<longrightarrow>
         block_bytes (state_heap s') j q = block_bytes (state_heap s) j q)
    \<and> kept_blocks cr (state_heap s) (state_heap s')"
proof -
  note d = used_in [OF state_okD(1) [OF ok] u]
  let ?c = "take (payload_size_for_order k) name"
  have o: "ord_at cr (state_bytes s) i < 8" "16 * i + 16 * 2 ^ ord_at cr (state_bytes s) i \<le> length (state_bytes s)"
    "?c = take (payload_size_for_order (ord_at cr (state_bytes s) i)) name" using d(2,3,7) by simp_all
  obtain m w where m: "become_name cr i name (state_bytes s) = (Ok (), m)" "ord_at cr m i = k" "type_at cr m i = Some Name"
    "name_length cr (Mapping m) i = Ok (length ?c)" "m = overwrite (put_hdr i w (state_bytes s)) (16 * i + 8) ?c"
    using name_cut [OF d(1) t o] d(2) by auto
  obtain z where z: "(2::nat) ^ k = Suc z" by (cases "(2::nat) ^ k") simp_all
  have "16 * i + 8 + length ?c \<le> 16 * (i + 2 ^ k)" by (simp add: payload_size_for_order_eq z min_def)
  then have wr: "written_inside i k (state_bytes s) m"
    unfolding m(5) by (intro written_inside_trans [OF written_inside_put(1) written_inside_overwrite]) simp_all
  note x = state_ok_write [OF ok u i wr m(2,3), simplified]
  have "16 * i + 8 + length ?c \<le> length (put_hdr i w (state_bytes s))"
    using d(7) by (simp add: payload_size_for_order_eq z min_def)
  then have "payload_at m i (length ?c) = ?c" unfolding m(5) by (rule window_overwrite_same)
  moreover have "block_in m i" using d(1) m(5) by simp
  then have "hdr_name_length cr (hdr_at m i) = length ?c"
    using m(3,4) by (simp add: name_length_def header_field_def)
  ultimately have "name_block cr m i k ?c" using m(3) by (simp add: name_block_def)
  moreover have "onBlock (become_name cr i name) s = (Ok (), set_bytes s m)" by (rule onBlock_step) (rule m(1))
  ultimately show ?thesis using x by (intro exI [of _ "set_bytes s m"]) simp
qed

text \<open>The two blocks of a new value: the value still reserved, the name written.\<close>

lemma allocate_named_ok:
  assumes ok: "state_ok cr b s" and n: "8 < n" "n \<le> 2048"
  shows "(\<exists>i ni k kn s'. allocate_named cr name n s = (Ok (i, ni), s') \<and> state_ok cr b s' \<and> generation s' = generation s
      \<and> fit_order n = (Ok k :: (inspect_error, nat) outcome) \<and> i \<noteq> 0 \<and> ni \<noteq> 0 \<and> ni \<noteq> i
      \<and> state_used cr s i = None \<and> state_used cr s ni = None \<and> state_used cr s' = (state_used cr s)(i \<mapsto> k, ni \<mapsto> kn)
      \<and> type_at cr (state_bytes s') i = Some Reserved \<and> name_block cr (state_bytes s') ni kn (take 2040 name)
      \<and> (\<forall>j q. state_used cr s j = Some q \<longrightarrow> block_bytes (state_heap s') j q = block_bytes (state_heap s) j q)
      \<and> kept_blocks cr (state_heap s) (state_heap s'))
    \<or> (\<exists>s'. allocate_named cr name n s = (Err HeapAtMaximumSize, s') \<and> state_ok cr b s' \<and> generation s' = generation s
      \<and> state_used cr s' = state_used cr s
      \<and> (\<forall>j q. state_used cr s j = Some q \<longrightarrow> block_bytes (state_heap s') j q = block_bytes (state_heap s) j q))"
    (is "?A \<or> ?B")
proof -
  obtain k where k: "fit_order n = (Ok k :: (inspect_error, nat) outcome)" "k < 8" by (rule fit_order_small [OF n])
  have "(if 2040 < length name then take 2040 name else name) = take 2040 name" by simp
  then have len: "length (let m = MAX_ORDER_SIZE - HEADER_SIZE_BYTES in if m < length name then take m name else name)
      = min (length name) 2040" by (simp add: MAX_ORDER_SIZE_2048 HEADER_SIZE_BYTES_def Let_def)
  let ?nn = "block_size_for_payload (min (length name) 2040)"
  obtain kn where kn: "fit_order ?nn = (Ok kn :: (inspect_error, nat) outcome)" "kn < 8"
    "take (payload_size_for_order kn) name = take 2040 name" by (rule name_block_size)
  from alloc_state [OF ok k] show ?thesis
  proof (elim disjE exE conjE)
    assume "onHeap (allocate_block cr n) s = (Err HeapAtMaximumSize, s)"
    then have "allocate_named cr name n s = (Err HeapAtMaximumSize, s)"
      by (simp add: allocate_named_def bindP_step)
    then show ?thesis using ok by blast
  next
    fix i s1 assume a1: "onHeap (allocate_block cr n) s = (Ok i, s1)" and ok1: "state_ok cr b s1"
      and g1: "generation s1 = generation s" and i: "i \<noteq> 0" "state_used cr s i = None"
      and u1: "state_used cr s1 = (state_used cr s)(i \<mapsto> k)" and t1: "type_at cr (state_bytes s1) i = Some Reserved"
      and c1: "\<forall>j q. state_used cr s j = Some q \<longrightarrow> block_bytes (state_heap s1) j q = block_bytes (state_heap s) j q"
      and b1: "kept_blocks cr (state_heap s) (state_heap s1)"
    from alloc_state [OF ok1 kn(1,2)] show ?thesis
    proof (elim disjE exE conjE)
      assume a2: "onHeap (allocate_block cr ?nn) s1 = (Err HeapAtMaximumSize, s1)"
      have ui: "state_used cr s1 i = Some k" using u1 by simp
      obtain s2 where f: "onHeap (free_block cr i) s1 = (Ok (), s2)" "state_ok cr b s2" "generation s2 = generation s1"
        "state_used cr s2 = (state_used cr s1)(i := None)"
        "\<forall>j q. j \<noteq> i \<longrightarrow> state_used cr s1 j = Some q \<longrightarrow>
           block_bytes (state_heap s2) j q = block_bytes (state_heap s1) j q"
        using free_state [OF ok1 ui i(1)] by blast
      have "allocate_named cr name n s = (Err HeapAtMaximumSize, s2)"
        using a1 a2 f(1) len by (simp add: allocate_named_def bindP_step attemptP_step Let_def)
      moreover have "state_used cr s2 = state_used cr s" using f(4) u1 i(2) by auto
      moreover have "block_bytes (state_heap s2) j q = block_bytes (state_heap s) j q" if "state_used cr s j = Some q" for j q
        using that f(5) c1 u1 i(2) by (cases "j = i") auto
      ultimately show ?thesis using f g1 by auto
    next
      fix ni s2 assume a2: "onHeap (allocate_block cr ?nn) s1 = (Ok ni, s2)" and ok2: "state_ok cr b s2"
        and g2: "generation s2 = generation s1" and ni: "ni \<noteq> 0" "state_used cr s1 ni = None"
        and u2: "state_used cr s2 = (state_used cr s1)(ni \<mapsto> kn)" and t2: "type_at cr (state_bytes s2) ni = Some Reserved"
        and c2: "\<forall>j q. state_used cr s1 j = Some q \<longrightarrow> block_bytes (state_heap s2) j q = block_bytes (state_heap s1) j q"
        and b2: "kept_blocks cr (state_heap s1) (state_heap s2)"
      have "state_used cr s2 ni = Some kn" using u2 by simp
      from become_name_state [OF ok2 this t2 ni(1), of name]
      obtain s3 where n3: "onBlock (become_name cr ni name) s2 = (Ok (), s3)" "state_ok cr b s3"
        "generation s3 = generation s2" "state_used cr s3 = state_used cr s2"
        "name_block cr (state_bytes s3) ni kn (take 2040 name)"
        "\<And>j q. j \<noteq> ni \<Longrightarrow> state_used cr s2 j = Some q \<Longrightarrow>
          block_bytes (state_heap s3) j q = block_bytes (state_heap s2) j q"
        "kept_blocks cr (state_heap s2) (state_heap s3)"
        unfolding kn(3) by blast
      have "allocate_named cr name n s = (Ok (i, ni), s3)"
        using a1 a2 n3(1) len by (simp add: allocate_named_def bindP_step attemptP_step unwrapP_step Let_def)
      moreover have ne: "ni \<noteq> i" "state_used cr s ni = None" using ni(2) u1 by (auto split: if_splits)
      moreover have "state_used cr s3 = (state_used cr s)(i \<mapsto> k, ni \<mapsto> kn)" using n3(4) u1 u2 by simp
      moreover have "block_bytes (state_heap s3) j q = block_bytes (state_heap s1) j q"
        if "state_used cr s1 j = Some q" for j q
        using that n3(6) [of j q] c2 u2 ni(2) by (cases "j = ni") simp_all
      note c3 = this
      have "type_at cr (state_bytes s3) i = Some Reserved"
        using fields_of_bytes(2) [OF c3 [of i k]] u1 t1 by simp
      moreover have "block_bytes (state_heap s3) j q = block_bytes (state_heap s) j q"
        if "state_used cr s j = Some q" for j q
        using that c1 c3 [of j q] u1 i(2) by (cases "j = i") simp_all
      moreover have "kept_blocks cr (state_heap s) (state_heap s3)"
        by (rule kept_blocks_trans [OF kept_blocks_trans [OF b1 b2] n3(7)])
      ultimately show ?thesis using n3(2,3,5) g1 g2 k(1) i ni(1) by auto
    qed
  qed
qed

end

end
