(* ===== verification/Inspect_Reader.thy ===== *)
theory Inspect_Reader
  imports Inspect_Block Ordered_Map
begin

text \<open>
  The model of \<^verbatim>\<open>src/public/rust/fuchsia-inspect/src/reader/snapshot.rs\<close> and
  \<^verbatim>\<open>src/public/rust/fuchsia-inspect/src/reader/mod.rs\<close>: taking a snapshot of an Inspect VMO, walking
  its blocks, and building the hierarchy of nodes from them.
\<close>

section \<open>Walking the blocks\<close>

text \<open>\<open>BlockIterator::next\<close>: the index of the next block and the offset after it.\<close>

definition iter_next :: "crate_ops \<Rightarrow> u8 list \<Rightarrow> nat \<Rightarrow> ('e, (nat \<times> nat) option) outcome" where
  "iter_next cr s offset =
     (if offset \<ge> length s then Ok None
      else bindO (index_for_offset offset) (\<lambda>index.
           bindO (block_order cr (Slice s) index) (\<lambda>order'.
             if length s - offset < order_to_size order' then Ok None
             else Ok (Some (index, offset + order_to_size order')))))"

definition find_step :: "crate_ops \<Rightarrow> u8 list \<Rightarrow> (nat \<Rightarrow> (inspect_error, bool) outcome) \<Rightarrow> nat \<Rightarrow>
    (unit, inspect_error, nat + nat option) prog" where
  "find_step cr s p offset =
     bindP (readP (\<lambda>_. iter_next cr s offset)) (\<lambda>r.
       case r of
         None \<Rightarrow> returnP (Inr None)
       | Some (index, offset') \<Rightarrow> bindP (readP (\<lambda>_. p index)) (\<lambda>found.
           returnP (if found then Inr (Some index) else Inl offset')))"

definition find_block :: "crate_ops \<Rightarrow> u8 list \<Rightarrow> (nat \<Rightarrow> (inspect_error, bool) outcome) \<Rightarrow>
    (inspect_error, nat option) outcome" where
  "find_block cr s p = fst (loopP (find_step cr s p) 0 ())"

section \<open>Snapshots\<close>

definition SNAPSHOT_TRIES :: nat where "SNAPSHOT_TRIES = 1024"

definition snapshot_get_block :: "u8 list \<Rightarrow> nat \<Rightarrow> nat option" where
  "snapshot_get_block buffer index = (if offset_for_index index < length buffer then Some index else None)"

text \<open>The two closures that recognise a header block; both stop at the first condition that fails.\<close>

definition valid_header :: "crate_ops \<Rightarrow> container \<Rightarrow> nat \<Rightarrow> (inspect_error, bool) outcome \<Rightarrow>
    (inspect_error, bool) outcome" where
  "valid_header cr c i last_check =
     bindO (get_block_type cr c i) (\<lambda>t.
       if t \<noteq> Header then Ok False
       else bindO (unwrapO (header_magic cr c i)) (\<lambda>m.
         if m \<noteq> HEADER_MAGIC_NUMBER then Ok False
         else bindO (unwrapO (header_version cr c i)) (\<lambda>v.
           if v \<noteq> HEADER_VERSION_NUMBER then Ok False else last_check)))"

definition header_generation_count :: "crate_ops \<Rightarrow> u8 list \<Rightarrow> (inspect_error, u64 option) outcome" where
  "header_generation_count cr bytes =
     (if length bytes < 16 then Ok None
      else bindO (find_block cr bytes (\<lambda>i. valid_header cr (Slice bytes) i
             (bindO (unwrapO (header_is_locked cr (Slice bytes) i)) (\<lambda>l. Ok (\<not> l))))) (\<lambda>r.
           case r of
             None \<Rightarrow> Ok None
           | Some i \<Rightarrow> (case block_generation_count cr (Slice bytes) i of
               Ok g \<Rightarrow> Ok (Some g) | Err _ \<Rightarrow> Ok None | Panic \<Rightarrow> Panic | Diverge \<Rightarrow> Diverge)))"

text \<open>Slicing the first sixteen bytes of a shorter slice panics.\<close>

definition snapshot_from_bytes :: "crate_ops \<Rightarrow> u8 list \<Rightarrow> (inspect_error, u8 list) outcome" where
  "snapshot_from_bytes cr bytes =
     (if length bytes < 16 then Panic
      else bindO (header_generation_count cr (take 16 bytes)) (\<lambda>g.
        if g \<noteq> None then Ok bytes else Err ExpectedBlockWithHeader))"

text \<open>
  The VMO the reader shares with the writer is a parameter: what each call of \<open>read\<close> and
  \<open>get_size\<close> returns, numbered by the attempt.
\<close>

record vmo =
  vmo_read_header :: "nat \<Rightarrow> (inspect_error, u8 list) outcome"
  vmo_get_size :: "nat \<Rightarrow> (inspect_error, nat) outcome"
  vmo_read :: "nat \<Rightarrow> nat \<Rightarrow> (inspect_error, u8 list) outcome"

definition snapshot_step :: "crate_ops \<Rightarrow> vmo \<Rightarrow> nat \<Rightarrow> (unit, inspect_error, nat + u8 list) prog" where
  "snapshot_step cr v i =
     (if \<not> i < SNAPSHOT_TRIES then throwP FailedToReadSnapshot
      else bindP (readP (\<lambda>_. vmo_read_header v i)) (\<lambda>header_bytes.
           bindP (readP (\<lambda>_. header_generation_count cr header_bytes)) (\<lambda>generation.
             case generation of
               None \<Rightarrow> returnP (Inl (Suc i))
             | Some gen \<Rightarrow>
                 bindP (readP (\<lambda>_. vmo_get_size v i)) (\<lambda>size'.
                 bindP (readP (\<lambda>_. vmo_read v i size')) (\<lambda>buffer.
                 if length buffer < 16 then readP (\<lambda>_. Panic)
                 else bindP (readP (\<lambda>_. find_block cr (take 16 buffer) (\<lambda>b.
                        valid_header cr (Slice (take 16 buffer)) b
                          (bindO (unwrapO (block_generation_count cr (Slice (take 16 buffer)) b))
                            (\<lambda>g. Ok (g = gen)))))) (\<lambda>found.
                      returnP (if found \<noteq> None then Inr buffer else Inl (Suc i))))))))"

definition snapshot_from_vmo :: "crate_ops \<Rightarrow> vmo \<Rightarrow> (inspect_error, u8 list) outcome" where
  "snapshot_from_vmo cr v = fst (loopP (snapshot_step cr v) 0 ())"

section \<open>The hierarchy of nodes\<close>

datatype inspect_property =
    StringProperty "u8 list" "u8 list"
  | BytesProperty "u8 list" "u8 list"
  | IntProperty "u8 list" u64
  | UintProperty "u8 list" u64
  | DoubleProperty "u8 list" u64
  | DoubleArrayProperty "u8 list" "u64 list" array_format
  | IntArrayProperty "u8 list" "u64 list" array_format
  | UintArrayProperty "u8 list" "u64 list" array_format

fun property_name :: "inspect_property \<Rightarrow> u8 list" where
  "property_name (StringProperty n _) = n"
| "property_name (BytesProperty n _) = n"
| "property_name (IntProperty n _) = n"
| "property_name (IntArrayProperty n _ _) = n"
| "property_name (UintProperty n _) = n"
| "property_name (UintArrayProperty n _ _) = n"
| "property_name (DoubleProperty n _) = n"
| "property_name (DoubleArrayProperty n _ _) = n"

datatype node_hierarchy = NodeHierarchy (hierarchy_name: "u8 list")
  (hierarchy_properties: "inspect_property list") (hierarchy_children: "node_hierarchy list")

record scanned_node =
  hierarchy :: node_hierarchy
  child_nodes_count :: nat
  scanned_parent :: nat

definition scanned_node_new :: scanned_node where
  "scanned_node_new = \<lparr>hierarchy = NodeHierarchy [] [] [], child_nodes_count = 0, scanned_parent = 0\<rparr>"

definition scanned_node_initialize :: "u8 list \<Rightarrow> nat \<Rightarrow> scanned_node \<Rightarrow> scanned_node" where
  "scanned_node_initialize name parent n = n\<lparr>
     hierarchy := NodeHierarchy name (hierarchy_properties (hierarchy n)) (hierarchy_children (hierarchy n)),
     scanned_parent := parent\<rparr>"

definition is_complete :: "scanned_node \<Rightarrow> bool" where
  "is_complete n \<longleftrightarrow> length (hierarchy_children (hierarchy n)) = child_nodes_count n"

definition push_property :: "inspect_property \<Rightarrow> scanned_node \<Rightarrow> scanned_node" where
  "push_property p n = n\<lparr>hierarchy := NodeHierarchy (hierarchy_name (hierarchy n))
     (hierarchy_properties (hierarchy n) @ [p]) (hierarchy_children (hierarchy n))\<rparr>"

definition push_child :: "node_hierarchy \<Rightarrow> scanned_node \<Rightarrow> scanned_node" where
  "push_child c n = n\<lparr>hierarchy := NodeHierarchy (hierarchy_name (hierarchy n))
     (hierarchy_properties (hierarchy n)) (hierarchy_children (hierarchy n) @ [c])\<rparr>"

type_synonym parsed_nodes = "(nat \<times> scanned_node) list"
type_synonym 'a rprog = "(parsed_nodes, inspect_error, 'a) prog"

definition get_or_create_scanned_node :: "nat \<Rightarrow> (scanned_node \<Rightarrow> scanned_node) \<Rightarrow> unit rprog" where
  "get_or_create_scanned_node k f = modifyP (om_entry k scanned_node_new f)"

definition get_name :: "crate_ops \<Rightarrow> u8 list \<Rightarrow> nat \<Rightarrow> (inspect_error, u8 list option) outcome" where
  "get_name cr s index = (case snapshot_get_block s index of
      None \<Rightarrow> Ok None
    | Some b \<Rightarrow> (case name_contents cr (Slice s) b of
        Ok n \<Rightarrow> Ok (Some n) | Err _ \<Rightarrow> Ok None | Panic \<Rightarrow> Panic | Diverge \<Rightarrow> Diverge))"

text \<open>The name of a value block, or the error of every \<open>parse\<close> method.\<close>

definition value_name :: "crate_ops \<Rightarrow> u8 list \<Rightarrow> nat \<Rightarrow> (inspect_error, u8 list) outcome" where
  "value_name cr s block = bindO (name_index cr (Slice s) block) (\<lambda>ni.
     bindO (get_name cr s ni) (\<lambda>n. case n of Some name \<Rightarrow> Ok name | None \<Rightarrow> Err FailedToParseName))"

definition parse_node :: "crate_ops \<Rightarrow> u8 list \<Rightarrow> nat \<Rightarrow> unit rprog" where
  "parse_node cr s block =
     bindP (readP (\<lambda>_. value_name cr s block)) (\<lambda>name.
     bindP (readP (\<lambda>_. parent_index cr (Slice s) block)) (\<lambda>parent.
     bindP (get_or_create_scanned_node block (scanned_node_initialize name parent)) (\<lambda>_.
       if parent \<noteq> 0 \<and> parent \<noteq> block
       then get_or_create_scanned_node parent (\<lambda>n. n\<lparr>child_nodes_count := child_nodes_count n + 1\<rparr>)
       else returnP ())))"

definition parse_numeric_property :: "crate_ops \<Rightarrow> u8 list \<Rightarrow> nat \<Rightarrow> unit rprog" where
  "parse_numeric_property cr s block =
     bindP (readP (\<lambda>_. value_name cr s block)) (\<lambda>name.
     bindP (readP (\<lambda>_. parent_index cr (Slice s) block)) (\<lambda>parent.
     bindP (get_or_create_scanned_node parent id) (\<lambda>_.
     bindP (readP (\<lambda>_. get_block_type cr (Slice s) block)) (\<lambda>t.
     case t of
       IntValue \<Rightarrow> bindP (readP (\<lambda>_. int_value cr (Slice s) block)) (\<lambda>v.
         get_or_create_scanned_node parent (push_property (IntProperty name v)))
     | UintValue \<Rightarrow> bindP (readP (\<lambda>_. uint_value cr (Slice s) block)) (\<lambda>v.
         get_or_create_scanned_node parent (push_property (UintProperty name v)))
     | DoubleValue \<Rightarrow> bindP (readP (\<lambda>_. double_value cr (Slice s) block)) (\<lambda>v.
         get_or_create_scanned_node parent (push_property (DoubleProperty name v)))
     | _ \<Rightarrow> returnP ()))))"

text \<open>Reading slots \<open>0..n\<close>, each with \<open>unwrap\<close>.\<close>

fun read_slots :: "(nat \<Rightarrow> (inspect_error, u64) outcome) \<Rightarrow> nat list \<Rightarrow> (inspect_error, u64 list) outcome" where
  "read_slots f [] = Ok []"
| "read_slots f (i # is) = bindO (unwrapO (f i)) (\<lambda>v. bindO (read_slots f is) (\<lambda>vs. Ok (v # vs)))"

definition parse_array_property :: "crate_ops \<Rightarrow> u8 list \<Rightarrow> nat \<Rightarrow> unit rprog" where
  "parse_array_property cr s block =
     bindP (readP (\<lambda>_. value_name cr s block)) (\<lambda>name.
     bindP (readP (\<lambda>_. parent_index cr (Slice s) block)) (\<lambda>parent.
     bindP (get_or_create_scanned_node parent id) (\<lambda>_.
     bindP (readP (\<lambda>_. array_slots cr (Slice s) block)) (\<lambda>slots.
     bindP (readP (\<lambda>_. block_order cr (Slice s) block)) (\<lambda>order'.
     if array_capacity order' < slots then throwP TooManySlots
     else bindP (readP (\<lambda>_. array_entry_type cr (Slice s) block)) (\<lambda>t.
       let push = (\<lambda>getv mk.
             bindP (readP (\<lambda>_. read_slots (getv cr (Slice s) block) [0..<slots])) (\<lambda>values.
             bindP (readP (\<lambda>_. unwrapO (get_array_format cr (Slice s) block))) (\<lambda>fmt.
               get_or_create_scanned_node parent (push_property (mk name values fmt)))))
       in case t of
            IntValue \<Rightarrow> push array_get_int_slot IntArrayProperty
          | UintValue \<Rightarrow> push array_get_uint_slot UintArrayProperty
          | DoubleValue \<Rightarrow> push array_get_double_slot DoubleArrayProperty
          | _ \<Rightarrow> throwP UnexpectedArrayEntryType))))))"

definition extent_step :: "crate_ops \<Rightarrow> u8 list \<Rightarrow> nat \<Rightarrow> nat \<times> nat \<times> u8 list \<Rightarrow>
    (unit, inspect_error, (nat \<times> nat \<times> u8 list) + u8 list) prog" where
  "extent_step cr s total_length = (\<lambda>(extent_index, offset, buffer).
     if \<not> (extent_index \<noteq> 0 \<and> offset < total_length) then returnP (Inr buffer)
     else case snapshot_get_block s extent_index of
        None \<Rightarrow> throwP FailedToGetExtent
      | Some extent \<Rightarrow>
          bindP (readP (\<lambda>_. extent_contents cr (Slice s) extent)) (\<lambda>content.
            let extent_length = min (total_length - offset) (length content);
                buffer' = overwrite buffer offset (take extent_length content)
            in bindP (readP (\<lambda>_. next_extent cr (Slice s) extent)) (\<lambda>next'.
                 returnP (Inl (next', offset + extent_length, buffer')))))"

definition read_extents :: "crate_ops \<Rightarrow> u8 list \<Rightarrow> nat \<Rightarrow> nat \<Rightarrow> (inspect_error, u8 list) outcome" where
  "read_extents cr s total_length extent_index =
     fst (loopP (extent_step cr s total_length) (extent_index, 0, replicate total_length 0) ())"

definition parse_property :: "crate_ops \<Rightarrow> u8 list \<Rightarrow> nat \<Rightarrow> unit rprog" where
  "parse_property cr s block =
     bindP (readP (\<lambda>_. value_name cr s block)) (\<lambda>name.
     bindP (readP (\<lambda>_. parent_index cr (Slice s) block)) (\<lambda>parent.
     bindP (get_or_create_scanned_node parent id) (\<lambda>_.
     bindP (readP (\<lambda>_. property_total_length cr (Slice s) block)) (\<lambda>total_length.
     bindP (readP (\<lambda>_. property_extent_index cr (Slice s) block)) (\<lambda>extent_index.
     bindP (readP (\<lambda>_. read_extents cr s total_length extent_index)) (\<lambda>buffer.
     bindP (readP (\<lambda>_. get_property_format cr (Slice s) block)) (\<lambda>fmt.
       get_or_create_scanned_node parent (push_property (case fmt of
           PfString \<Rightarrow> StringProperty name (utf8_lossy buffer)
         | PfBytes \<Rightarrow> BytesProperty name buffer)))))))))"

section \<open>Scanning and reducing\<close>

definition scan_step :: "crate_ops \<Rightarrow> u8 list \<Rightarrow> nat \<Rightarrow> (parsed_nodes, inspect_error, nat + unit) prog" where
  "scan_step cr s offset =
     bindP (readP (\<lambda>_. iter_next cr s offset)) (\<lambda>r.
     case r of
       None \<Rightarrow> returnP (Inr ())
     | Some (block, offset') \<Rightarrow>
         bindP (readP (\<lambda>_. get_block_type cr (Slice s) block)) (\<lambda>t.
           if block = 0 \<and> t \<noteq> Header then throwP ExpectedHeaderAtZero
           else bindP (case t of
               NodeValue \<Rightarrow> parse_node cr s block
             | IntValue \<Rightarrow> parse_numeric_property cr s block
             | UintValue \<Rightarrow> parse_numeric_property cr s block
             | DoubleValue \<Rightarrow> parse_numeric_property cr s block
             | ArrayValue \<Rightarrow> parse_array_property cr s block
             | PropertyValue \<Rightarrow> parse_property cr s block
             | _ \<Rightarrow> returnP ()) (\<lambda>_. returnP (Inl offset'))))"

definition scan_blocks :: "crate_ops \<Rightarrow> u8 list \<Rightarrow> (inspect_error, parsed_nodes) outcome" where
  "scan_blocks cr s = (case loopP (scan_step cr s) 0 [] of
      (Ok _, nodes) \<Rightarrow> Ok nodes | (Err e, _) \<Rightarrow> Err e | (Panic, _) \<Rightarrow> Panic | (Diverge, _) \<Rightarrow> Diverge)"

text \<open>The stack of complete nodes has its top at the head of the list.\<close>

definition split_parsed :: "parsed_nodes \<Rightarrow> scanned_node list \<times> parsed_nodes" where
  "split_parsed nodes = (rev (map snd (filter (is_complete \<circ> snd) nodes)),
     foldl (\<lambda>m (k, n). if is_complete n then m else om_insert k n m) [] nodes)"

definition reduce_step :: "scanned_node list \<Rightarrow> (parsed_nodes, inspect_error, scanned_node list + node_hierarchy) prog" where
  "reduce_step complete_nodes =
     (case complete_nodes of
        [] \<Rightarrow> throwP MalformedTree
      | node # rest \<Rightarrow>
          if scanned_parent node = 0 then returnP (Inr (hierarchy node))
          else bindP (getP (\<lambda>pending. om_get pending (scanned_parent node))) (\<lambda>p.
            case p of
              None \<Rightarrow> throwP (CannotFindIndex (scanned_parent node))
            | Some parent \<Rightarrow>
                let parent' = push_child (hierarchy node) parent in
                bindP (modifyP (om_insert (scanned_parent node) parent')) (\<lambda>_.
                  if is_complete parent' then
                    bindP (modifyP (om_remove (scanned_parent node))) (\<lambda>_.
                      returnP (Inl (parent' # rest)))
                  else returnP (Inl rest))))"

definition reduce :: "parsed_nodes \<Rightarrow> (inspect_error, node_hierarchy) outcome" where
  "reduce nodes = (case split_parsed nodes of (complete, pending) \<Rightarrow> fst (loopP reduce_step complete pending))"

definition read_hierarchy :: "crate_ops \<Rightarrow> u8 list \<Rightarrow> (inspect_error, node_hierarchy) outcome" where
  "read_hierarchy cr s = bindO (scan_blocks cr s) reduce"

end
