(* ===== verification/Inspect_State_Values.thy ===== *)
theory Inspect_State_Values
  imports Inspect_State_Correct
begin

text \<open>
  Creating, updating and freeing values: nodes and metrics with their name blocks and the child
  counts of their parents, on every path including the roll back after an error.
\<close>

section \<open>Frames\<close>

text \<open>The blocks outside \<open>X\<close> that were in use have kept their bytes.\<close>

definition same_blocks :: "crate_ops \<Rightarrow> nat set \<Rightarrow> state \<Rightarrow> state \<Rightarrow> bool" where
  "same_blocks cr X s s' \<longleftrightarrow> (\<forall>j q. j \<notin> X \<longrightarrow> state_used cr s j = Some q \<longrightarrow>
     block_bytes (state_heap s') j q = block_bytes (state_heap s) j q)"

text \<open>A parent a value can be created under: the header, or a node whose child count can grow.\<close>

definition valid_parent :: "crate_ops \<Rightarrow> state \<Rightarrow> nat \<Rightarrow> bool" where
  "valid_parent cr s p \<longleftrightarrow> p = 0 \<or> state_used cr s p \<noteq> None
     \<and> type_at cr (state_bytes s) p \<in> {Some NodeValue, Some Tombstone} \<and> pl_at (state_bytes s) p \<noteq> - 1"

text \<open>
  A parent no value can be created under, with the errors it leads to: a block in use of another
  type; a free block, which may meanwhile have become one of the two blocks of the new value; or an
  index beyond the VMO.
\<close>

definition refused_parent :: "crate_ops \<Rightarrow> state \<Rightarrow> nat \<Rightarrow> inspect_error set \<Rightarrow> bool" where
  "refused_parent cr s p E \<longleftrightarrow>
     (\<exists>t. state_used cr s p \<noteq> None \<and> type_at cr (state_bytes s) p = Some t \<and> t \<notin> {Header, NodeValue, Tombstone}
       \<and> E = {InvalidBlockType t})
     \<or> p \<in> heap_blocks cr (state_heap s) \<and> type_at cr (state_bytes s) p = Some Free
       \<and> E = {InvalidBlockType Free, InvalidBlockType Reserved, InvalidBlockType Name}
     \<or> length (state_bytes s) \<le> 16 * p \<and> E = {InvalidIndex}"

text \<open>What a new or deleted child does to the parent: its child count moves by \<open>d\<close>.\<close>

definition child_count_moved :: "nat \<Rightarrow> u64 \<Rightarrow> state \<Rightarrow> state \<Rightarrow> bool" where
  "child_count_moved p d s s' \<longleftrightarrow> p = 0 \<or> hdr_at (state_bytes s') p = hdr_at (state_bytes s) p
     \<and> pl_at (state_bytes s') p = pl_at (state_bytes s) p + d"

text \<open>The blocks \<open>delete_value\<close> gives back: the name, a value that is no node with children, and a
  tombstone that loses its last child.\<close>

definition deleted_blocks :: "crate_ops \<Rightarrow> state \<Rightarrow> nat \<Rightarrow> nat \<Rightarrow> nat \<Rightarrow> nat set" where
  "deleted_blocks cr s i ni p = {ni}
     \<union> (if type_at cr (state_bytes s) i = Some NodeValue \<and> pl_at (state_bytes s) i \<noteq> 0 then {} else {i})
     \<union> (if p \<noteq> 0 \<and> type_at cr (state_bytes s) p = Some Tombstone \<and> pl_at (state_bytes s) p = 1 then {p} else {})"

text \<open>A value block with its name block and its parent, as \<open>delete_value\<close> needs them.\<close>

definition deletable :: "crate_ops \<Rightarrow> state \<Rightarrow> nat \<Rightarrow> nat \<Rightarrow> nat \<Rightarrow> bool" where
  "deletable cr s i ni p \<longleftrightarrow> i \<noteq> 0 \<and> ni \<noteq> 0 \<and> ni \<noteq> i \<and> state_used cr s i \<noteq> None \<and> state_used cr s ni \<noteq> None
     \<and> (\<exists>t. type_at cr (state_bytes s) i = Some t \<and> is_any_value t)
     \<and> hdr_value_name_index cr (hdr_at (state_bytes s) i) = ni \<and> hdr_value_parent_index cr (hdr_at (state_bytes s) i) = p
     \<and> (p = 0 \<or> p \<noteq> i \<and> p \<noteq> ni \<and> state_used cr s p \<noteq> None
         \<and> type_at cr (state_bytes s) p \<in> {Some NodeValue, Some Tombstone} \<and> pl_at (state_bytes s) p \<noteq> 0)"

lemma same_blocksD:
  "same_blocks cr X s s' \<Longrightarrow> j \<notin> X \<Longrightarrow> state_used cr s j = Some q \<Longrightarrow>
    block_bytes (state_heap s') j q = block_bytes (state_heap s) j q"
  by (simp add: same_blocks_def)

lemma same_blocks_refl [simp]: "same_blocks cr X s s"
  by (simp add: same_blocks_def)

lemma same_blocks_mono: "same_blocks cr X s s' \<Longrightarrow> X \<subseteq> Y \<Longrightarrow> same_blocks cr Y s s'"
  by (auto simp: same_blocks_def)

lemma same_blocks_trans:
  assumes "same_blocks cr X s s1" and "same_blocks cr Y s1 s2"
    and "\<And>j q. j \<notin> X \<Longrightarrow> j \<notin> Y \<Longrightarrow> state_used cr s j = Some q \<Longrightarrow> state_used cr s1 j = Some q"
  shows "same_blocks cr (X \<union> Y) s s2"
  using assms unfolding same_blocks_def by (metis UnI1 UnI2)

lemma same_blocks_fresh:
  assumes "same_blocks cr Y s s'" and "\<And>y. y \<in> Y \<Longrightarrow> y \<notin> X \<Longrightarrow> state_used cr s y = None"
  shows "same_blocks cr X s s'"
  unfolding same_blocks_def
proof (intro allI impI)
  fix j q assume "j \<notin> X" "state_used cr s j = Some q"
  moreover from this assms(2) [of j] have "j \<notin> Y" by auto
  ultimately show "block_bytes (state_heap s') j q = block_bytes (state_heap s) j q"
    using same_blocksD [OF assms(1)] by blast
qed

lemma same_blocks_words:
  assumes "same_blocks cr X s s'" and "j \<notin> X" and "state_used cr s j = Some q"
  shows "hdr_at (state_bytes s') j = hdr_at (state_bytes s) j" and "pl_at (state_bytes s') j = pl_at (state_bytes s) j"
    and "type_at cr (state_bytes s') j = type_at cr (state_bytes s) j"
  using words_of_bytes [OF same_blocksD [OF assms]] fields_of_bytes(2) [OF same_blocksD [OF assms]] by simp_all

context inspect_crates
begin

lemma bump_same: "state_ok cr b s \<Longrightarrow> same_blocks cr {0} s (bump s)"
  using bump_ok(4) by (simp add: same_blocks_def)

text \<open>The writes of block methods, as steps from one state to the next.\<close>

lemma put_state:
  assumes ok: "state_ok cr b s" and u: "state_used cr s i = Some k" and i: "i \<noteq> 0"
    and wr: "written_inside i k (state_bytes s) m" and o: "ord_at cr m i = k" and t: "type_at cr m i = Some t" "t \<noteq> Free"
  shows "state_ok cr b (set_bytes s m)" and "generation (set_bytes s m) = generation s"
    and "state_used cr (set_bytes s m) = state_used cr s" and "same_blocks cr {i} s (set_bytes s m)"
  using state_ok_write [OF assms] by (auto simp: same_blocks_def)

section \<open>The parent\<close>

lemma add_child_state:
  assumes ok: "state_ok cr b s" and p: "valid_parent cr s p"
  shows "\<exists>s'. add_child cr p s = (Ok (), s') \<and> state_ok cr b s' \<and> generation s' = generation s
    \<and> state_used cr s' = state_used cr s \<and> same_blocks cr (if p = 0 then {} else {p}) s s' \<and> child_count_moved p 1 s s'"
proof (cases "p = 0")
  case True
  then show ?thesis
    using add_child_ok [OF ok state_okD(3,4) [OF ok]] ok by (auto simp: child_count_moved_def)
next
  case False
  then obtain k t where k: "state_used cr s p = Some k" and t: "type_at cr (state_bytes s) p = Some t"
    and n: "t = NodeValue \<or> t = Tombstone" "pl_at (state_bytes s) p \<noteq> - 1"
    using p by (auto simp: valid_parent_def)
  note d = used_in [OF state_okD(1) [OF ok] k]
  let ?m = "put_pl p (pl_at (state_bytes s) p + 1) (state_bytes s)"
  have c: "add_child cr p s = (Ok (), set_bytes s ?m)"
    using add_child_ok [OF ok k t] n by (auto split: if_splits)
  have "t \<noteq> Free" using n by auto
  note x = put_state [OF ok k False written_inside_put(2) _ _ this, of "pl_at (state_bytes s) p + 1"]
  show ?thesis
    using c x d(1,2) t False by (intro exI [of _ "set_bytes s ?m"]) (simp add: child_count_moved_def)
qed

section \<open>Reserved values\<close>

text \<open>The block of a new value and the block of its name.\<close>

lemma allocate_reserved_value_ok:
  assumes ok: "state_ok cr b s" and n: "8 < n" "n \<le> 2048" and p: "valid_parent cr s p"
  shows "(\<exists>i ni k kn s'. allocate_reserved_value cr name p n s = (Ok (i, ni), s') \<and> state_ok cr b s'
      \<and> generation s' = generation s \<and> fit_order n = (Ok k :: (inspect_error, nat) outcome)
      \<and> i \<noteq> 0 \<and> ni \<noteq> 0 \<and> ni \<noteq> i \<and> state_used cr s i = None \<and> state_used cr s ni = None
      \<and> state_used cr s' = (state_used cr s)(i \<mapsto> k, ni \<mapsto> kn)
      \<and> type_at cr (state_bytes s') i = Some Reserved \<and> name_block cr (state_bytes s') ni kn (take 2040 name)
      \<and> same_blocks cr (if p = 0 then {} else {p}) s s' \<and> child_count_moved p 1 s s')
    \<or> (\<exists>s'. allocate_reserved_value cr name p n s = (Err HeapAtMaximumSize, s') \<and> state_ok cr b s'
      \<and> generation s' = generation s \<and> state_used cr s' = state_used cr s \<and> same_blocks cr {} s s')"
  using allocate_named_ok [OF ok n, of name]
proof (elim disjE exE conjE)
  fix s' assume "allocate_named cr name n s = (Err HeapAtMaximumSize, s')"
    and "state_ok cr b s'" "generation s' = generation s" "state_used cr s' = state_used cr s"
    and "\<forall>j q. state_used cr s j = Some q \<longrightarrow> block_bytes (state_heap s') j q = block_bytes (state_heap s) j q"
  then show ?thesis by (auto simp: allocate_reserved_value_def bindP_step same_blocks_def)
next
  fix i ni k kn s1
  assume a: "allocate_named cr name n s = (Ok (i, ni), s1)" and ok1: "state_ok cr b s1"
    and g1: "generation s1 = generation s" and k: "fit_order n = (Ok k :: (inspect_error, nat) outcome)"
    and i: "i \<noteq> 0" "ni \<noteq> 0" "ni \<noteq> i" "state_used cr s i = None" "state_used cr s ni = None"
    and u1: "state_used cr s1 = (state_used cr s)(i \<mapsto> k, ni \<mapsto> kn)"
    and t1: "type_at cr (state_bytes s1) i = Some Reserved" "name_block cr (state_bytes s1) ni kn (take 2040 name)"
    and c1: "\<forall>j q. state_used cr s j = Some q \<longrightarrow> block_bytes (state_heap s1) j q = block_bytes (state_heap s) j q"
  have e1: "same_blocks cr {} s s1" using c1 by (simp add: same_blocks_def)
  have p1: "valid_parent cr s1 p" "child_count_moved p 0 s s1" "p = 0 \<or> p \<noteq> i \<and> p \<noteq> ni"
    using p same_blocks_words [OF e1, of p] u1 i by (auto simp: valid_parent_def child_count_moved_def split: if_splits)
  obtain s2 where s2: "add_child cr p s1 = (Ok (), s2)" "state_ok cr b s2" "generation s2 = generation s1"
    "state_used cr s2 = state_used cr s1" "same_blocks cr (if p = 0 then {} else {p}) s1 s2" "child_count_moved p 1 s1 s2"
    using add_child_state [OF ok1 p1(1)] by blast
  have "allocate_reserved_value cr name p n s = (Ok (i, ni), s2)"
    using a s2(1) by (simp add: allocate_reserved_value_def bindP_step attemptP_step)
  moreover have "same_blocks cr ({} \<union> (if p = 0 then {} else {p})) s s2"
    by (rule same_blocks_trans [OF e1 s2(5)]) (use u1 i in auto)
  moreover have "type_at cr (state_bytes s2) i = Some Reserved"
    using same_blocks_words(3) [OF s2(5), of i k] p1(3) u1 t1 i by auto
  moreover have "name_block cr (state_bytes s2) ni kn (take 2040 name)"
    by (rule name_block_of_bytes [OF same_blocksD [OF s2(5)] t1(2)]) (use p1(3) u1 i in auto)
  moreover have "child_count_moved p 1 s s2" using p1(2) s2(6) by (auto simp: child_count_moved_def)
  ultimately show ?thesis using s2 g1 k i u1 by auto
qed

text \<open>A parent that is refused: both blocks are given back.\<close>

lemma free_state_same:
  assumes "state_ok cr b s" and "state_used cr s i = Some k" and "i \<noteq> 0"
  shows "\<exists>s'. onHeap (free_block cr i) s = (Ok (), s') \<and> state_ok cr b s' \<and> generation s' = generation s
    \<and> state_used cr s' = (state_used cr s)(i := None) \<and> same_blocks cr {i} s s'"
  using free_state [OF assms] by (simp add: same_blocks_def)

lemma add_child_block:
  assumes ok: "state_ok cr b s" and p: "p \<in> heap_blocks cr (state_heap s)" "type_at cr (state_bytes s) p = Some t"
    and t: "t \<notin> {Header, NodeValue, Tombstone}"
  shows "add_child cr p s = (Err (InvalidBlockType t), s)"
proof -
  obtain L where w: "heap_wf cr {} (heap_blocks cr (state_heap s)) L (state_used cr s) (state_heap s)"
    using state_okD(1) [OF ok] by (rule heap_invE)
  show ?thesis
    using get_block_in [OF w p(1)] heap_wf_in(1) [OF w p(1)] p(2) t by (simp add: add_child_def bindP_step)
qed

lemma add_child_refused:
  assumes ok: "state_ok cr b s" "state_ok cr b s1" and p: "refused_parent cr s p E"
    and kept: "kept_blocks cr (state_heap s) (state_heap s1)" and same: "same_blocks cr {} s s1"
    and u: "state_used cr s i = None" "state_used cr s ni = None" "state_used cr s1 = (state_used cr s)(i \<mapsto> k, ni \<mapsto> kn)"
    and ty: "type_at cr (state_bytes s1) i = Some Reserved" "type_at cr (state_bytes s1) ni = Some Name"
  shows "\<exists>e\<in>E. add_child cr p s1 = (Err e, s1)"
  using p unfolding refused_parent_def
proof (elim disjE exE conjE)
  fix t assume t: "state_used cr s p \<noteq> None" "type_at cr (state_bytes s) p = Some t" "t \<notin> {Header, NodeValue, Tombstone}"
    "E = {InvalidBlockType t}"
  then obtain kp where kp: "state_used cr s p = Some kp" by auto
  then have "state_used cr s1 p = Some kp" "type_at cr (state_bytes s1) p = Some t"
    using same_blocks_words(3) [OF same _ kp] u t(2) by auto
  moreover from this(1) have "p \<in> heap_blocks cr (state_heap s1)" by (simp add: used_blocks_def split: if_splits)
  ultimately show ?thesis using add_child_block [OF ok(2)] t by simp
next
  assume f: "p \<in> heap_blocks cr (state_heap s)" "type_at cr (state_bytes s) p = Some Free"
    and E: "E = {InvalidBlockType Free, InvalidBlockType Reserved, InvalidBlockType Name}"
  have p1: "p \<in> heap_blocks cr (state_heap s1)" using f(1) kept by (auto simp: kept_blocks_def)
  have "state_used cr s p = None" using f(2) by (simp add: used_blocks_def)
  then have "p = i \<or> p = ni \<or> state_used cr s1 p = None" using u(3) by auto
  then have "type_at cr (state_bytes s1) p \<in> {Some Reserved, Some Name, Some Free}"
    using ty p1 by (auto simp: used_blocks_def split: if_splits)
  then show ?thesis using add_child_block [OF ok(2) p1] E by auto
next
  assume far: "length (state_bytes s) \<le> 16 * p" and E: "E = {InvalidIndex}"
  obtain L where w: "heap_wf cr {} (heap_blocks cr (state_heap s1)) L (state_used cr s1) (state_heap s1)"
    using state_okD(1) [OF ok(2)] by (rule heap_invE)
  note z = sizedD(2,5) [OF heap_wfD(1) [OF w]]
  have "current_size_bytes (state_heap s1) \<le> length (state_bytes s)"
    using z kept by (simp add: kept_blocks_def)
  then have "get_block cr (state_heap s1) p = Err InvalidIndex"
    using far by (simp add: get_block_def offset_for_index_eq Let_def)
  then show ?thesis using E by (simp add: add_child_def bindP_step)
qed

lemma allocate_reserved_value_bad_parent:
  assumes ok: "state_ok cr b s" and n: "8 < n" "n \<le> 2048" and p: "refused_parent cr s p E"
  shows "\<exists>e s'. allocate_reserved_value cr name p n s = (Err e, s')
      \<and> e \<in> insert HeapAtMaximumSize (InvalidParentIndex p ` E) \<and> state_ok cr b s'
      \<and> generation s' = generation s \<and> state_used cr s' = state_used cr s \<and> same_blocks cr {} s s'"
  using allocate_named_ok [OF ok n, of name]
proof (elim disjE exE conjE)
  fix s' assume "allocate_named cr name n s = (Err HeapAtMaximumSize, s')"
    and "state_ok cr b s'" "generation s' = generation s" "state_used cr s' = state_used cr s"
    and "\<forall>j q. state_used cr s j = Some q \<longrightarrow> block_bytes (state_heap s') j q = block_bytes (state_heap s) j q"
  then show ?thesis by (auto simp: allocate_reserved_value_def bindP_step same_blocks_def)
next
  fix i ni k kn s1
  assume a: "allocate_named cr name n s = (Ok (i, ni), s1)" and ok1: "state_ok cr b s1"
    and g1: "generation s1 = generation s"
    and i: "i \<noteq> 0" "ni \<noteq> 0" "ni \<noteq> i" "state_used cr s i = None" "state_used cr s ni = None"
    and u1: "state_used cr s1 = (state_used cr s)(i \<mapsto> k, ni \<mapsto> kn)"
    and t1: "type_at cr (state_bytes s1) i = Some Reserved" "name_block cr (state_bytes s1) ni kn (take 2040 name)"
    and c1: "\<forall>j q. state_used cr s j = Some q \<longrightarrow> block_bytes (state_heap s1) j q = block_bytes (state_heap s) j q"
    and b1: "kept_blocks cr (state_heap s) (state_heap s1)"
  have e1: "same_blocks cr {} s s1" using c1 by (simp add: same_blocks_def)
  have "type_at cr (state_bytes s1) ni = Some Name" using t1(2) by (simp add: name_block_def)
  then obtain e where ac: "e \<in> E" "add_child cr p s1 = (Err e, s1)"
    using add_child_refused [OF ok ok1 p b1 e1 i(4,5) u1 t1(1)] by blast
  obtain s2 where s2: "onHeap (free_block cr ni) s1 = (Ok (), s2)" "state_ok cr b s2" "generation s2 = generation s1"
    "state_used cr s2 = (state_used cr s1)(ni := None)" "same_blocks cr {ni} s1 s2"
    using free_state_same [OF ok1 _ i(2), of kn] u1 by auto
  obtain s3 where s3: "onHeap (free_block cr i) s2 = (Ok (), s3)" "state_ok cr b s3" "generation s3 = generation s2"
    "state_used cr s3 = (state_used cr s2)(i := None)" "same_blocks cr {i} s2 s3"
    using free_state_same [OF s2(2) _ i(1), of k] s2(4) u1 i by auto
  have "allocate_reserved_value cr name p n s = (Err (InvalidParentIndex p e), s3)"
    using a ac(2) s2(1) s3(1) by (simp add: allocate_reserved_value_def bindP_step attemptP_step unwrapP_step)
  moreover have "state_used cr s3 = state_used cr s" using s3(4) s2(4) u1 i by auto
  moreover have "same_blocks cr ({} \<union> {ni}) s s2"
    by (rule same_blocks_trans [OF e1 s2(5)]) (use u1 i in auto)
  then have "same_blocks cr (({} \<union> {ni}) \<union> {i}) s s3"
    by (rule same_blocks_trans [OF _ s3(5)]) (use u1 i s2(4) in auto)
  then have "same_blocks cr {} s s3" by (rule same_blocks_fresh) (use i in auto)
  ultimately show ?thesis using s2 s3 g1 ac(1) by auto
qed

section \<open>Under the header lock\<close>

lemma locked_step:
  assumes ok: "state_inv cr s" and code: "code (bump s) = (r, s')" "r \<noteq> Panic" "r \<noteq> Diverge"
    and ok': "state_ok cr True s'" and g: "generation s' = generation (bump s)" and X: "same_blocks cr X (bump s) s'"
  shows "with_header_lock cr code s = (r, bump s')" and "state_inv cr (bump s')"
    and "generation (bump s') = generation s + 2" and "state_used cr (bump s') = state_used cr s'"
    and "(\<And>j q. j \<notin> X \<Longrightarrow> state_used cr s j = Some q \<Longrightarrow> state_used cr s' j = Some q) \<Longrightarrow>
      same_blocks cr (insert 0 X) s (bump s')"
proof -
  note b = bump_ok [OF ok] and b' = bump_ok [OF ok'] and l = with_header_lock_inv [where code = code, OF assms(1-6)]
  show "with_header_lock cr code s = (r, bump s')" "state_inv cr (bump s')" "generation (bump s') = generation s + 2"
    "state_used cr (bump s') = state_used cr s'" using l b' by simp_all
  show "same_blocks cr (insert 0 X) s (bump s')"
    if k: "\<And>j q. j \<notin> X \<Longrightarrow> state_used cr s j = Some q \<Longrightarrow> state_used cr s' j = Some q"
  proof -
    have "same_blocks cr ({0} \<union> X) s s'"
      by (rule same_blocks_trans [OF bump_same [OF ok] X]) (simp add: b(3))
    then have "same_blocks cr (({0} \<union> X) \<union> {0}) s (bump s')"
      by (rule same_blocks_trans [OF _ bump_same [OF ok']]) (use k in auto)
    then show ?thesis by (rule same_blocks_mono) auto
  qed
qed

lemma bump_words:
  assumes ok: "state_ok cr b s" and i: "i \<noteq> 0"
  shows "type_at cr (state_bytes (bump s)) i = type_at cr (state_bytes s) i"
    and "pl_at (state_bytes (bump s)) i = pl_at (state_bytes s) i"
    and "hdr_at (state_bytes (bump s)) i = hdr_at (state_bytes s) i"
    and "valid_parent cr (bump s) p = valid_parent cr s p"
    and "child_count_moved p d (bump s) s' = child_count_moved p d s s'"
    and "child_count_moved p d s' (bump s) = child_count_moved p d s' s"
proof -
  have w: "p = 0 \<or> type_at cr (state_bytes (bump s)) p = type_at cr (state_bytes s) p
      \<and> pl_at (state_bytes (bump s)) p = pl_at (state_bytes s) p \<and> hdr_at (state_bytes (bump s)) p = hdr_at (state_bytes s) p" for p
    using bump_fields [OF ok, of p] by blast
  show "type_at cr (state_bytes (bump s)) i = type_at cr (state_bytes s) i"
    "pl_at (state_bytes (bump s)) i = pl_at (state_bytes s) i" "hdr_at (state_bytes (bump s)) i = hdr_at (state_bytes s) i"
    using w [of i] i by simp_all
  show "valid_parent cr (bump s) p = valid_parent cr s p"
    using w [of p] bump_ok(3) [OF ok] by (auto simp: valid_parent_def)
  show "child_count_moved p d (bump s) s' = child_count_moved p d s s'"
    "child_count_moved p d s' (bump s) = child_count_moved p d s' s"
    using w [of p] by (auto simp: child_count_moved_def)
qed

lemma bump_refused:
  assumes ok: "state_ok cr b s" and p: "refused_parent cr s p E"
  shows "refused_parent cr (bump s) p E"
proof -
  have kept: "heap_blocks cr (state_heap s) \<subseteq> heap_blocks cr (state_heap (bump s))" "length (state_bytes (bump s)) = length (state_bytes s)"
    using bump_ok(5) [OF ok] by (simp_all add: kept_blocks_def)
  have "p \<noteq> 0" using p state_okD(4,6) [OF ok] by (auto simp: refused_parent_def block_in_def)
  then show ?thesis
    using p kept bump_ok(3) [OF ok] bump_words(1) [OF ok, of p] unfolding refused_parent_def by auto
qed

section \<open>Creating values\<close>

text \<open>
  A new value: \<open>bec\<close> is one of the \<open>become\<close> methods, which writes the type, the name and
  parent indexes and a payload word.
\<close>

lemma create_value_ok:
  assumes ok: "state_inv cr s" and p: "valid_parent cr s p"
    and bec: "\<And>m i ni. block_in m i \<Longrightarrow> type_at cr m i = Some Reserved \<Longrightarrow>
      bec i ni m = (Ok (), put_pl i w (put_hdr i (value_hdr cr T ni p (hdr_at m i)) m))"
    and T: "T \<noteq> Free"
    and code: "code = bindP (allocate_reserved_value cr name p MIN_ORDER_SIZE)
      (\<lambda>(block, name_block). bindP (onBlock (bec block name_block)) (\<lambda>_. returnP block))"
  shows "\<exists>s'. state_inv cr s' \<and> generation s' = generation s + 2
    \<and> ((\<exists>i ni kn. with_header_lock cr code s = (Ok i, s') \<and> state_used cr s i = None \<and> state_used cr s ni = None
        \<and> i \<noteq> 0 \<and> ni \<noteq> 0 \<and> ni \<noteq> i \<and> state_used cr s' = (state_used cr s)(i \<mapsto> 0, ni \<mapsto> kn)
        \<and> (\<exists>h. hdr_at (state_bytes s') i = value_hdr cr T ni p h) \<and> pl_at (state_bytes s') i = w
        \<and> name_block cr (state_bytes s') ni kn (take 2040 name)
        \<and> same_blocks cr {0, p} s s' \<and> child_count_moved p 1 s s')
      \<or> with_header_lock cr code s = (Err HeapAtMaximumSize, s') \<and> state_used cr s' = state_used cr s
        \<and> same_blocks cr {0} s s'
        \<and> (\<exists>s1. allocate_reserved_value cr name p MIN_ORDER_SIZE (bump s) = (Err HeapAtMaximumSize, s1)))"
proof -
  let ?s = "bump s"
  have ok1: "state_ok cr True ?s" using bump_ok(1) [OF ok] by simp
  have u1: "state_used cr ?s = state_used cr s" by (rule bump_ok(3) [OF ok])
  have p1: "valid_parent cr ?s p" using p bump_words(4) [OF ok, of 1 p] by simp
  have sz: "8 < MIN_ORDER_SIZE" "MIN_ORDER_SIZE \<le> 2048" by code_simp+
  have f0: "fit_order MIN_ORDER_SIZE = (Ok 0 :: (inspect_error, nat) outcome)" by code_simp
  from allocate_reserved_value_ok [OF ok1 sz p1, of name] show ?thesis
  proof (elim disjE exE conjE)
    fix s' assume a: "allocate_reserved_value cr name p MIN_ORDER_SIZE ?s = (Err HeapAtMaximumSize, s')"
      and s': "state_ok cr True s'" "generation s' = generation ?s" "state_used cr s' = state_used cr ?s"
      "same_blocks cr {} ?s s'"
    have "code ?s = (Err HeapAtMaximumSize, s')" using a by (simp add: code bindP_step)
    note l = locked_step [where code = code, OF ok this _ _ s'(1,2,4)]
    show ?thesis using l s'(3) u1 a by (intro exI [of _ "bump s'"]) simp
  next
    fix i ni k kn s1
    assume a: "allocate_reserved_value cr name p MIN_ORDER_SIZE ?s = (Ok (i, ni), s1)" and ok2: "state_ok cr True s1"
      and g: "generation s1 = generation ?s" and k: "fit_order MIN_ORDER_SIZE = (Ok k :: (inspect_error, nat) outcome)"
      and i: "i \<noteq> 0" "ni \<noteq> 0" "ni \<noteq> i" "state_used cr ?s i = None" "state_used cr ?s ni = None"
      and u: "state_used cr s1 = (state_used cr ?s)(i \<mapsto> k, ni \<mapsto> kn)"
      and t: "type_at cr (state_bytes s1) i = Some Reserved" and nb: "name_block cr (state_bytes s1) ni kn (take 2040 name)"
      and e: "same_blocks cr (if p = 0 then {} else {p}) ?s s1" and cc: "child_count_moved p 1 ?s s1"
    have k0: "k = 0" using k f0 by simp
    have ui: "state_used cr s1 i = Some 0" "state_used cr s1 ni = Some kn" using u i k0 by simp_all
    have pi: "p \<noteq> i" "p \<noteq> ni" using p1 i by (auto simp: valid_parent_def)
    note d = used_in [OF state_okD(1) [OF ok2] ui(1)]
    let ?h = "value_hdr cr T ni p (hdr_at (state_bytes s1) i)"
    let ?m = "put_pl i w (put_hdr i ?h (state_bytes s1))" let ?s2 = "set_bytes s1 ?m"
    have c: "code ?s = (Ok i, ?s2)"
      using a onBlock_step [of "bec i ni" s1, OF bec [OF d(1) t]] by (simp add: code bindP_step)
    have wr: "written_inside i 0 (state_bytes s1) ?m"
      by (rule written_inside_trans [OF written_inside_put(1) written_inside_put(2)])
    have f: "ord_at cr ?m i = 0" "type_at cr ?m i = Some T" "hdr_at ?m i = ?h" "pl_at ?m i = w"
      using d(1,2) by (simp_all add: ord_at_def)
    note x = put_state [OF ok2 ui(1) i(1) wr f(1,2) T]
    have e2: "same_blocks cr ((if p = 0 then {} else {p}) \<union> {i}) ?s ?s2"
      by (rule same_blocks_trans [OF e x(4)]) (use u i in auto)
    have e3: "same_blocks cr (if p = 0 then {} else {p}) ?s ?s2"
      by (rule same_blocks_fresh [OF e2]) (use i in auto)
    note l = locked_step [where code = code, OF ok c _ _ x(1) _ e3]
    have fin: "same_blocks cr {0, p} s (bump ?s2)"
      by (rule same_blocks_mono [OF l(5)]) (use x(2,3) g u i u1 in auto)
    have nb2: "name_block cr (state_bytes ?s2) ni kn (take 2040 name)"
      by (rule name_block_of_bytes [OF same_blocksD [OF x(4)] nb]) (use i ui in auto)
    have nb3: "name_block cr (state_bytes (bump ?s2)) ni kn (take 2040 name)"
      by (rule name_block_of_bytes [OF same_blocksD [OF bump_same [OF x(1)]] nb2]) (use i ui x(3) in auto)
    have "pl_at ?m p = pl_at (state_bytes s1) p" "hdr_at ?m p = hdr_at (state_bytes s1) p" if "p \<noteq> 0"
      using same_blocks_words(1,2) [OF x(4), of p] that pi p1 u by (auto simp: valid_parent_def)
    then have cc2: "child_count_moved p 1 s (bump ?s2)"
      using cc bump_words(5) [OF ok i(1)] bump_words(6) [OF x(1) i(1)] by (auto simp: child_count_moved_def)
    show ?thesis
      using l(1-4) x(2,3) g fin nb3 cc2 i u u1 k0 f bump_words(2,3) [OF x(1) i(1)]
      by (intro exI [of _ "bump ?s2"]) auto
  qed
qed

section \<open>Deleting values\<close>

lemma release_child_ok:
  assumes ok: "state_ok cr b s" and p: "p \<noteq> 0" "state_used cr s p = Some k"
    and t: "type_at cr (state_bytes s) p = Some t" "t = NodeValue \<or> t = Tombstone" and n: "pl_at (state_bytes s) p \<noteq> 0"
  shows "\<exists>s'. release_child cr p s = (Ok (), s') \<and> state_ok cr b s' \<and> generation s' = generation s
    \<and> same_blocks cr {p} s s'
    \<and> (if t = Tombstone \<and> pl_at (state_bytes s) p = 1 then state_used cr s' = (state_used cr s)(p := None)
       else state_used cr s' = state_used cr s \<and> child_count_moved p (- 1) s s')"
proof -
  note d = used_in [OF state_okD(1) [OF ok] p(2)]
  have nt: "is_node_or_tombstone t" "t \<noteq> Free" using t(2) by auto
  have "1 \<le> pl_at (state_bytes s) p" using n by (simp add: word_le_nat_alt Suc_le_eq unat_gt_0)
  then have sub: "u64_sub (pl_at (state_bytes s) p) 1 = (Ok (pl_at (state_bytes s) p - 1) :: (inspect_error, u64) outcome)"
    by (simp add: u64_sub_def)
  show ?thesis
  proof (cases "t = Tombstone \<and> pl_at (state_bytes s) p = 1")
    case True
    obtain s' where "onHeap (free_block cr p) s = (Ok (), s')" "state_ok cr b s'" "generation s' = generation s"
      "state_used cr s' = (state_used cr s)(p := None)" "same_blocks cr {p} s s'"
      using free_state_same [OF ok p(2,1)] by blast
    then show ?thesis
      using True d(1,5) t(1) sub nt(1)
      by (intro exI [of _ s']) (simp add: release_child_def bindP_step child_count_in unwrapP_step)
  next
    case False
    let ?m = "put_pl p (pl_at (state_bytes s) p - 1) (state_bytes s)"
    have "onBlock (set_child_count cr p (pl_at (state_bytes s) p - 1)) s = (Ok (), set_bytes s ?m)"
      by (rule onBlock_step) (rule set_child_count_in [OF d(1) t(1) nt(1)])
    moreover note x = put_state [OF ok p(2,1) written_inside_put(2) _ _ nt(2), of "pl_at (state_bytes s) p - 1"]
    moreover have "child_count_moved p (- 1) s (set_bytes s ?m)" using d(1) by (simp add: child_count_moved_def)
    ultimately show ?thesis
      using False d(1,2,5) t(1) sub nt(1)
      by (intro exI [of _ "set_bytes s ?m"]) (auto simp: release_child_def bindP_step child_count_in unwrapP_step)
  qed
qed

text \<open>The end of \<open>delete_value\<close>: a node with children stays as a tombstone.\<close>

lemma bury_or_free:
  assumes ok: "state_ok cr b s" and u: "state_used cr s i = Some k" "i \<noteq> 0"
    and t: "type_at cr (state_bytes s) i = Some t" "is_any_value t"
  shows "\<exists>s'. (if t = NodeValue \<and> pl_at (state_bytes s) i \<noteq> 0 then onBlock (become_tombstone cr i)
      else onHeap (free_block cr i)) s = (Ok (), s')
    \<and> state_ok cr b s' \<and> generation s' = generation s \<and> same_blocks cr {i} s s'
    \<and> (if t = NodeValue \<and> pl_at (state_bytes s) i \<noteq> 0
       then state_used cr s' = state_used cr s \<and> type_at cr (state_bytes s') i = Some Tombstone
         \<and> pl_at (state_bytes s') i = pl_at (state_bytes s) i
       else state_used cr s' = (state_used cr s)(i := None))"
proof (cases "t = NodeValue \<and> pl_at (state_bytes s) i \<noteq> 0")
  case True
  note d = used_in [OF state_okD(1) [OF ok] u(1)]
  let ?w = "hdr_set_block_type cr 10 (hdr_at (state_bytes s) i)" let ?m = "put_hdr i ?w (state_bytes s)"
  have "become_tombstone cr i (state_bytes s) = (Ok (), ?m)"
    using d(1) t True by (simp add: become_tombstone_def)
  then have "onBlock (become_tombstone cr i) s = (Ok (), set_bytes s ?m)" by (rule onBlock_step)
  moreover have f: "ord_at cr ?m i = k" "type_at cr ?m i = Some Tombstone" "pl_at ?m i = pl_at (state_bytes s) i"
    using d(1,2) by (simp_all add: ord_at_def)
  moreover note x = put_state [OF ok u written_inside_put(1) f(1,2)]
  ultimately show ?thesis using True by (intro exI [of _ "set_bytes s ?m"]) simp
next
  case False
  then show ?thesis using free_state_same [OF ok u] by auto
qed

text \<open>The parent of a value on its way out.\<close>

lemma release_parent:
  assumes ok: "state_ok cr b s" and del: "deletable cr s i ni p"
  shows "\<exists>s'. (if p \<noteq> HEADER_INDEX then release_child cr p else returnP ()) s = (Ok (), s') \<and> state_ok cr b s'
    \<and> generation s' = generation s \<and> same_blocks cr (if p = 0 then {} else {p}) s s'
    \<and> state_used cr s' = state_used cr s |` (- (deleted_blocks cr s i ni p - {i, ni}))
    \<and> (p \<notin> deleted_blocks cr s i ni p \<longrightarrow> child_count_moved p (- 1) s s')"
proof (cases "p = 0")
  case True
  then have D: "deleted_blocks cr s i ni p - {i, ni} = {}" by (auto simp: deleted_blocks_def)
  show ?thesis unfolding D using True ok by (intro exI [of _ s]) (simp add: HEADER_INDEX_def child_count_moved_def restrict_map_def)
next
  case False
  obtain k t where k: "state_used cr s p = Some k" "type_at cr (state_bytes s) p = Some t" "t = NodeValue \<or> t = Tombstone"
    "pl_at (state_bytes s) p \<noteq> 0" "p \<noteq> i" "p \<noteq> ni"
    using del False by (auto simp: deletable_def)
  have D: "deleted_blocks cr s i ni p - {i, ni} = (if t = Tombstone \<and> pl_at (state_bytes s) p = 1 then {p} else {})"
    "p \<in> deleted_blocks cr s i ni p \<longleftrightarrow> t = Tombstone \<and> pl_at (state_bytes s) p = 1"
    using k False by (auto simp: deleted_blocks_def)
  show ?thesis
    using release_child_ok [OF ok False k(1-4)] False
    by (auto simp: HEADER_INDEX_def D fun_eq_iff restrict_map_def split: if_splits)
qed

lemma delete_value_ok:
  assumes ok: "state_ok cr b s" and del: "deletable cr s i ni p"
  shows "\<exists>s'. delete_value cr i s = (Ok (), s') \<and> state_ok cr b s' \<and> generation s' = generation s
    \<and> state_used cr s' = state_used cr s |` (- deleted_blocks cr s i ni p)
    \<and> same_blocks cr ({i, ni} \<union> (if p = 0 then {} else {p})) s s'
    \<and> (p \<notin> deleted_blocks cr s i ni p \<longrightarrow> child_count_moved p (- 1) s s')
    \<and> (i \<notin> deleted_blocks cr s i ni p \<longrightarrow> type_at cr (state_bytes s') i = Some Tombstone
         \<and> pl_at (state_bytes s') i = pl_at (state_bytes s) i)"
proof -
  let ?D = "deleted_blocks cr s i ni p" let ?P = "if p = 0 then {} else {p}"
  obtain k kn t where i: "i \<noteq> 0" "ni \<noteq> 0" "ni \<noteq> i" "state_used cr s i = Some k" "state_used cr s ni = Some kn"
    and t: "type_at cr (state_bytes s) i = Some t" "is_any_value t"
    and hd: "hdr_value_name_index cr (hdr_at (state_bytes s) i) = ni" "hdr_value_parent_index cr (hdr_at (state_bytes s) i) = p"
    and p: "p \<noteq> i" "p \<noteq> ni" using del by (auto simp: deletable_def)
  note d = used_in [OF state_okD(1) [OF ok] i(4)]
  obtain s1 where s1: "(if p \<noteq> HEADER_INDEX then release_child cr p else returnP ()) s = (Ok (), s1)" "state_ok cr b s1"
    "generation s1 = generation s" "same_blocks cr ?P s s1" "state_used cr s1 = state_used cr s |` (- (?D - {i, ni}))"
    "p \<notin> ?D \<longrightarrow> child_count_moved p (- 1) s s1"
    using release_parent [OF ok del] by blast
  have u1: "state_used cr s1 i = Some k" "state_used cr s1 ni = Some kn" using s1(5) i by simp_all
  have w1: "hdr_at (state_bytes s1) i = hdr_at (state_bytes s) i" "pl_at (state_bytes s1) i = pl_at (state_bytes s) i"
    "type_at cr (state_bytes s1) i = Some t"
    using same_blocks_words [OF s1(4) _ i(4)] p t by (simp_all split: if_splits)
  note d1 = used_in [OF state_okD(1) [OF s1(2)] u1(1)]
  obtain s2 where s2: "onHeap (free_block cr ni) s1 = (Ok (), s2)" "state_ok cr b s2" "generation s2 = generation s1"
    "state_used cr s2 = (state_used cr s1)(ni := None)" "same_blocks cr {ni} s1 s2"
    using free_state_same [OF s1(2) u1(2) i(2)] by blast
  have u2: "state_used cr s2 i = Some k" using s2(4) u1 i by simp
  note w2 = same_blocks_words [OF s2(5) _ u1(1)] and d2 = used_in [OF state_okD(1) [OF s2(2)] u2]
  have t2: "type_at cr (state_bytes s2) i = Some t" "pl_at (state_bytes s2) i = pl_at (state_bytes s) i" using w2 w1 i by simp_all
  obtain s3 where s3: "(if t = NodeValue \<and> pl_at (state_bytes s2) i \<noteq> 0 then onBlock (become_tombstone cr i)
      else onHeap (free_block cr i)) s2 = (Ok (), s3)" "state_ok cr b s3" "generation s3 = generation s2"
    "same_blocks cr {i} s2 s3" "if t = NodeValue \<and> pl_at (state_bytes s2) i \<noteq> 0
       then state_used cr s3 = state_used cr s2 \<and> type_at cr (state_bytes s3) i = Some Tombstone
         \<and> pl_at (state_bytes s3) i = pl_at (state_bytes s2) i
       else state_used cr s3 = (state_used cr s2)(i := None)"
    using bury_or_free [OF s2(2) u2 i(1) t2(1) t(2)] by blast
  have "get_block cr (state_heap s1) ni = Ok ni" by (rule used_in(5) [OF state_okD(1) [OF s1(2)] u1(2)])
  then have "delete_value cr i s = (Ok (), s3)"
    using s1(1) s2(1) s3(1) d(1) d1(1) d2(1) t hd w1 t2 child_count_in [OF d2(1) t2(1)]
    by (cases "t = NodeValue")
      (auto simp: delete_value_def parent_index_in name_index_in bindP_step unwrapP_step split: if_splits)
  moreover have D: "i \<in> ?D \<longleftrightarrow> \<not> (t = NodeValue \<and> pl_at (state_bytes s2) i \<noteq> 0)" "ni \<in> ?D"
    using t t2 p i by (auto simp: deleted_blocks_def)
  then have "state_used cr s3 = state_used cr s |` (- ?D)"
    using s3(5) s2(4) s1(5) by (auto simp: fun_eq_iff restrict_map_def split: if_splits)
  moreover have "same_blocks cr (?P \<union> {ni}) s s2"
    by (rule same_blocks_trans [OF s1(4) s2(5)]) (use s1(5) p in \<open>auto simp: deleted_blocks_def split: if_splits\<close>)
  then have "same_blocks cr ((?P \<union> {ni}) \<union> {i}) s s3"
    by (rule same_blocks_trans [OF _ s3(4)]) (use s1(5) s2(4) p in \<open>auto simp: deleted_blocks_def split: if_splits\<close>)
  then have "same_blocks cr ({i, ni} \<union> ?P) s s3" by (rule same_blocks_mono) auto
  moreover have "child_count_moved p (- 1) s s3" if "p \<notin> ?D"
  proof (cases "p = 0")
    case False
    then obtain kp where "state_used cr s p = Some kp" using del by (auto simp: deletable_def)
    then have "state_used cr s1 p = Some kp" "state_used cr s2 p = Some kp" using s1(5) s2(4) that p by auto
    then show ?thesis
      using s1(6) that same_blocks_words [OF s2(5), of p kp] same_blocks_words [OF s3(4), of p kp] p
      by (auto simp: child_count_moved_def)
  qed (simp add: child_count_moved_def)
  ultimately show ?thesis using s3(2,3,5) s2(3) s1(3) D t2 by auto
qed

lemma free_value_ok:
  assumes ok: "state_inv cr s" and del: "deletable cr s i ni p"
  shows "\<exists>s'. free_value cr i s = (Ok (), s') \<and> state_inv cr s' \<and> generation s' = generation s + 2
    \<and> state_used cr s' = state_used cr s |` (- deleted_blocks cr s i ni p)
    \<and> same_blocks cr {0, i, ni, p} s s'
    \<and> (p \<notin> deleted_blocks cr s i ni p \<longrightarrow> child_count_moved p (- 1) s s')
    \<and> (i \<notin> deleted_blocks cr s i ni p \<longrightarrow> type_at cr (state_bytes s') i = Some Tombstone
         \<and> pl_at (state_bytes s') i = pl_at (state_bytes s) i)"
proof -
  let ?s = "bump s" let ?X = "{i, ni} \<union> (if p = 0 then {} else {p})"
  have ok1: "state_ok cr True ?s" using bump_ok(1) [OF ok] by simp
  have i: "i \<noteq> 0" "ni \<noteq> 0" "ni \<noteq> i" using del by (auto simp: deletable_def)
  note bw = bump_words [OF ok i(1)]
  have q: "p = 0 \<or> type_at cr (state_bytes ?s) p = type_at cr (state_bytes s) p
      \<and> pl_at (state_bytes ?s) p = pl_at (state_bytes s) p" using bump_words(1,2) [OF ok] by blast
  have del1: "deletable cr ?s i ni p" using del q bw(1,3) bump_ok(3) [OF ok] by (auto simp: deletable_def)
  have D: "deleted_blocks cr ?s i ni p = deleted_blocks cr s i ni p"
    using q bw(1,2) by (auto simp: deleted_blocks_def)
  obtain s' where s': "delete_value cr i ?s = (Ok (), s')" "state_ok cr True s'" "generation s' = generation ?s"
    "state_used cr s' = state_used cr s |` (- deleted_blocks cr s i ni p)" "same_blocks cr ?X ?s s'"
    "p \<notin> deleted_blocks cr s i ni p \<longrightarrow> child_count_moved p (- 1) s s'"
    "i \<notin> deleted_blocks cr s i ni p \<longrightarrow> type_at cr (state_bytes s') i = Some Tombstone
         \<and> pl_at (state_bytes s') i = pl_at (state_bytes s) i"
    using delete_value_ok [OF ok1 del1] unfolding D bump_ok(3) [OF ok] bw(2,5) by blast
  obtain k where k: "state_used cr ?s i = Some k" using del1 by (auto simp: deletable_def)
  let ?code = "bindP (readHeap (\<lambda>h. get_block cr h i)) (\<lambda>block. unwrapP (delete_value cr block))"
  have "?code ?s = (Ok (), s')"
    using s'(1) used_in(5) [OF state_okD(1) [OF ok1] k] by (simp add: bindP_step unwrapP_step)
  note l = locked_step [where code = ?code, OF ok this _ _ s'(2,3,5)]
  have "same_blocks cr (insert 0 ?X) s (bump s')"
    by (rule l(5)) (use s'(4) in \<open>auto simp: deleted_blocks_def split: if_splits\<close>)
  then have "same_blocks cr {0, i, ni, p} s (bump s')" by (rule same_blocks_mono) auto
  then show ?thesis
    using l(1-4) s'(4,6,7) bump_words [OF s'(2) i(1)]
    by (intro exI [of _ "bump s'"]) (simp add: free_value_def)
qed

section \<open>Room for small blocks\<close>

text \<open>An allocation of the smallest order fails only when the used blocks cover the whole heap.\<close>

lemma full_heap_covered:
  assumes inv: "heap_inv cr h" and k: "fit_order n = (Ok 0 :: (inspect_error, nat) outcome)"
    and e: "allocate_block cr n h = (Err e, h')" and x: "x < units h"
  shows "\<exists>j q. used_blocks cr h j = Some q \<and> x \<in> span j q"
proof -
  obtain L where w: "heap_wf cr {} (heap_blocks cr h) L (used_blocks cr h) h" using inv by (rule heap_invE)
  obtain j where j: "j \<in> heap_blocks cr h" "x \<in> span j (ord_at cr (mapping h) j)"
    using tiling_cover [OF heap_wf_tiling [OF w] x] by blast
  have "(0::nat) < 8" by simp
  from heap_allocate [OF inv k this] e j(1) have "\<not> free_at cr (mapping h) j" by auto
  then show ?thesis using j by (auto simp: used_blocks_def)
qed

lemma room_for_three:
  assumes inv: "heap_inv cr h" and k: "fit_order n = (Ok 0 :: (inspect_error, nat) outcome)"
    and u: "\<And>j q. used_blocks cr h j = Some q \<Longrightarrow> q = 0 \<and> (j = 0 \<or> j = a)"
  shows "allocate_block cr n h \<noteq> (Err e, h')"
proof
  assume e: "allocate_block cr n h = (Err e, h')"
  obtain L where w: "heap_wf cr {} (heap_blocks cr h) L (used_blocks cr h) h" "0 < current_size_bytes h"
    by (rule heap_invE [OF inv])
  have "256 dvd units h" "units h * 16 = current_size_bytes h" using sizedD [OF heap_wfD(1) [OF w(1)]] by simp_all
  then have "256 \<le> units h" using w(2) by (intro dvd_imp_le) simp_all
  then have "x = 0 \<or> x = a" if "x < 256" for x
    using full_heap_covered [OF inv k e, of x] u that by (fastforce simp: span_def)
  from this [of 1] this [of 2] show False by simp
qed

lemma room_state:
  assumes "state_ok cr b s" and "fit_order n = (Ok 0 :: (inspect_error, nat) outcome)"
    and "\<forall>j q. state_used cr s j = Some q \<longrightarrow> q = 0 \<and> (j = 0 \<or> j = a)"
  shows "onHeap (allocate_block cr n) s \<noteq> (Err e, s')"
  using room_for_three [OF state_okD(1) [OF assms(1)] assms(2), of a e] assms(3)
  by (auto simp: onHeap_def zoomP_def split: prod.splits)

lemma allocate_named_room:
  assumes ok: "state_ok cr b s" and u: "state_used cr s = [0 \<mapsto> 0]" and n: "length name \<le> 8"
  shows "allocate_named cr name MIN_ORDER_SIZE s \<noteq> (Err e, s')"
proof -
  have f: "fit_order MIN_ORDER_SIZE = (Ok 0 :: (inspect_error, nat) outcome)" "(0::nat) < 8" by code_simp+
  have nn: "block_size_for_payload (min (length name) 2040) = MIN_ORDER_SIZE"
    using n by (simp add: block_size_for_payload_def inspect_constants)
  from alloc_state [OF ok f]
  obtain i s1 where a: "onHeap (allocate_block cr MIN_ORDER_SIZE) s = (Ok i, s1)" and ok1: "state_ok cr b s1"
    and u1: "state_used cr s1 = [0 \<mapsto> 0, i \<mapsto> 0]"
    using room_state [OF ok f(1), of 0] u by auto
  from alloc_state [OF ok1 f]
  obtain j s2 where a2: "onHeap (allocate_block cr MIN_ORDER_SIZE) s1 = (Ok j, s2)" and ok2: "state_ok cr b s2"
    and u2: "state_used cr s2 j = Some 0" "j \<noteq> 0" and t2: "type_at cr (state_bytes s2) j = Some Reserved"
    using room_state [OF ok1 f(1), of i] u1 by auto
  obtain s3 where "onBlock (become_name cr j name) s2 = (Ok (), s3)"
    using become_name_state [OF ok2 u2(1) t2 u2(2)] by blast
  then have "allocate_named cr name MIN_ORDER_SIZE s = (Ok (i, j), s3)"
    using a a2 n nn by (simp add: allocate_named_def bindP_step attemptP_step unwrapP_step Let_def inspect_constants)
  then show ?thesis by simp
qed

lemma allocate_reserved_value_room:
  assumes ok: "state_ok cr b s" and u: "state_used cr s = [0 \<mapsto> 0]" and n: "length name \<le> 8"
  shows "allocate_reserved_value cr name 0 MIN_ORDER_SIZE s \<noteq> (Err e, s')"
proof -
  have sz: "8 < MIN_ORDER_SIZE" "MIN_ORDER_SIZE \<le> 2048" by code_simp+
  obtain i ni s1 where "allocate_named cr name MIN_ORDER_SIZE s = (Ok (i, ni), s1)" "state_ok cr b s1"
    using allocate_named_ok [OF ok sz, of name] allocate_named_room [OF assms] by blast
  moreover from add_child_state [OF this(2), of 0] obtain s2 where "add_child cr 0 s1 = (Ok (), s2)"
    by (auto simp: valid_parent_def)
  ultimately show ?thesis by (simp add: allocate_reserved_value_def bindP_step attemptP_step)
qed

section \<open>The four constructors of plain values\<close>

lemma new_value_ok:
  assumes ok: "state_inv cr s" and p: "valid_parent cr s p"
    and prog: "(prog, T, w) \<in> {(create_node cr name p, NodeValue, 0), (create_int_metric cr name w p, IntValue, w),
      (create_uint_metric cr name w p, UintValue, w), (create_double_metric cr name w p, DoubleValue, w)}"
  shows "\<exists>s'. state_inv cr s' \<and> generation s' = generation s + 2
    \<and> ((\<exists>i ni kn. prog s = (Ok i, s') \<and> state_used cr s i = None \<and> state_used cr s ni = None
        \<and> i \<noteq> 0 \<and> ni \<noteq> 0 \<and> ni \<noteq> i \<and> state_used cr s' = (state_used cr s)(i \<mapsto> 0, ni \<mapsto> kn)
        \<and> (\<exists>h. hdr_at (state_bytes s') i = value_hdr cr T ni p h) \<and> pl_at (state_bytes s') i = w
        \<and> name_block cr (state_bytes s') ni kn (take 2040 name)
        \<and> same_blocks cr {0, p} s s' \<and> child_count_moved p 1 s s')
      \<or> prog s = (Err HeapAtMaximumSize, s') \<and> state_used cr s' = state_used cr s
        \<and> same_blocks cr {0} s s'
        \<and> (\<exists>s1. allocate_reserved_value cr name p MIN_ORDER_SIZE (bump s) = (Err HeapAtMaximumSize, s1)))"
proof -
  note cv = create_value_ok [OF ok p _ _ refl]
  from prog consider "prog = create_node cr name p" "T = NodeValue" "w = 0"
    | "prog = create_int_metric cr name w p" "T = IntValue" | "prog = create_uint_metric cr name w p" "T = UintValue"
    | "prog = create_double_metric cr name w p" "T = DoubleValue" by auto
  then show ?thesis
  proof cases
    case 1
    then show ?thesis unfolding 1 create_node_def by (intro cv) (simp_all add: become_value_in)
  next
    case 2
    then show ?thesis unfolding 2 create_int_metric_def create_metric_def by (intro cv) (simp_all add: become_value_in)
  next
    case 3
    then show ?thesis unfolding 3 create_uint_metric_def create_metric_def by (intro cv) (simp_all add: become_value_in)
  next
    case 4
    then show ?thesis unfolding 4 create_double_metric_def create_metric_def by (intro cv) (simp_all add: become_value_in)
  qed
qed

end

end
