(* ===== verification/Inspect_State_Lifecycle.thy ===== *)
theory Inspect_State_Lifecycle
  imports Inspect_State_Values
begin

text \<open>
  The life of a value: a value created and freed again leaves the other blocks as they were, and
  a refused creation gives back what it took. The properties of nodes and metrics.
\<close>

section \<open>New values read back\<close>

context inspect_crates
begin

text \<open>The header word of a new value, read through the block methods.\<close>

lemma new_value_reads:
  assumes ok: "state_ok cr b s" and u: "state_used cr s i = Some k" "state_used cr s ni = Some kn" "p = 0 \<or> state_used cr s p \<noteq> None"
    and h: "hdr_at (state_bytes s) i = value_hdr cr T ni p w" and T: "is_any_value T"
  shows "type_at cr (state_bytes s) i = Some T" and "name_index cr (Mapping (state_bytes s)) i = Ok ni"
    and "parent_index cr (Mapping (state_bytes s)) i = Ok p"
    and "hdr_value_name_index cr (hdr_at (state_bytes s) i) = ni"
    and "hdr_value_parent_index cr (hdr_at (state_bytes s) i) = p"
proof -
  note inv = state_okD(1) [OF ok]
  note d = used_in [OF inv u(1)]
  have lt: "ni < 2 ^ 28" "p < 2 ^ 28" using used_in(4) [OF inv] u by auto
  show t: "type_at cr (state_bytes s) i = Some T" using h by (simp add: type_at_def)
  show "name_index cr (Mapping (state_bytes s)) i = Ok ni" "parent_index cr (Mapping (state_bytes s)) i = Ok p"
    "hdr_value_name_index cr (hdr_at (state_bytes s) i) = ni" "hdr_value_parent_index cr (hdr_at (state_bytes s) i) = p"
    using lt h name_index_in [OF d(1) t T] parent_index_in [OF d(1) t T] by simp_all
qed

lemma new_value_kinds:
  assumes "(prog, T, w) \<in> {(create_node cr name p, NodeValue, 0), (create_int_metric cr name w p, IntValue, w),
      (create_uint_metric cr name w p, UintValue, w), (create_double_metric cr name w p, DoubleValue, w)}"
  shows "is_any_value T" and "T = NodeValue \<longrightarrow> w = 0"
  using assms by auto

lemma new_value_deletable:
  assumes ok: "state_inv cr s" and p: "valid_parent cr s p"
    and prog: "(prog, T, w) \<in> {(create_node cr name p, NodeValue, 0), (create_int_metric cr name w p, IntValue, w),
      (create_uint_metric cr name w p, UintValue, w), (create_double_metric cr name w p, DoubleValue, w)}"
    and run: "prog s = (Ok i, s1)"
  shows "\<exists>ni kn. state_inv cr s1 \<and> deletable cr s1 i ni p \<and> state_used cr s i = None \<and> state_used cr s ni = None
    \<and> state_used cr s1 = (state_used cr s)(i \<mapsto> 0, ni \<mapsto> kn) \<and> type_at cr (state_bytes s1) i = Some T
    \<and> pl_at (state_bytes s1) i = w
    \<and> name_block cr (state_bytes s1) ni kn (take 2040 name)
    \<and> same_blocks cr {0, p} s s1 \<and> child_count_moved p 1 s s1 \<and> generation s1 = generation s + 2"
proof -
  obtain ni kn h where a: "state_inv cr s1" "generation s1 = generation s + 2" "state_used cr s i = None" "state_used cr s ni = None"
    "i \<noteq> 0" "ni \<noteq> 0" "ni \<noteq> i" "state_used cr s1 = (state_used cr s)(i \<mapsto> 0, ni \<mapsto> kn)"
    "hdr_at (state_bytes s1) i = value_hdr cr T ni p h" "pl_at (state_bytes s1) i = w"
    "name_block cr (state_bytes s1) ni kn (take 2040 name)" "same_blocks cr {0, p} s s1" "child_count_moved p 1 s s1"
    using new_value_ok [OF ok p prog] run by auto
  have u: "state_used cr s1 i = Some 0" "state_used cr s1 ni = Some kn" "p = 0 \<or> state_used cr s1 p \<noteq> None"
    using a p by (auto simp: valid_parent_def)
  note r = new_value_reads [OF a(1) u a(9) new_value_kinds(1) [OF prog]]
  have "p = 0 \<or> p \<noteq> i \<and> p \<noteq> ni \<and> type_at cr (state_bytes s1) p \<in> {Some NodeValue, Some Tombstone}
      \<and> pl_at (state_bytes s1) p \<noteq> 0"
  proof (cases "p = 0")
    case False
    then have "pl_at (state_bytes s) p \<noteq> - 1" using p by (simp add: valid_parent_def)
    then have "pl_at (state_bytes s) p + 1 \<noteq> 0" unfolding eq_neg_iff_add_eq_0 .
    then show ?thesis using False p a(3,4,13) by (auto simp: valid_parent_def child_count_moved_def type_at_def)
  qed simp
  then have "deletable cr s1 i ni p"
    using r a u new_value_kinds(1) [OF prog] by (auto simp: deletable_def)
  then show ?thesis using a r by blast
qed

lemma new_value_free_again:
  assumes ok: "state_inv cr s" and p: "valid_parent cr s p" "p = 0 \<or> type_at cr (state_bytes s) p = Some NodeValue"
    and prog: "(prog, T, w) \<in> {(create_node cr name p, NodeValue, 0), (create_int_metric cr name w p, IntValue, w),
      (create_uint_metric cr name w p, UintValue, w), (create_double_metric cr name w p, DoubleValue, w)}"
    and run: "prog s = (Ok i, s1)"
  shows "\<exists>s2. free_value cr i s1 = (Ok (), s2) \<and> state_inv cr s2 \<and> state_used cr s2 = state_used cr s
    \<and> same_blocks cr {0, p} s s2 \<and> child_count_moved p 0 s s2 \<and> generation s2 = generation s + 4"
proof -
  obtain ni kn where a: "state_inv cr s1" "deletable cr s1 i ni p" "state_used cr s i = None" "state_used cr s ni = None"
    "state_used cr s1 = (state_used cr s)(i \<mapsto> 0, ni \<mapsto> kn)" "type_at cr (state_bytes s1) i = Some T"
    "pl_at (state_bytes s1) i = w" "same_blocks cr {0, p} s s1" "child_count_moved p 1 s s1" "generation s1 = generation s + 2"
    using new_value_deletable [OF ok p(1) prog run] by blast
  have "p = 0 \<or> type_at cr (state_bytes s1) p = Some NodeValue"
    using p(2) a(9) by (auto simp: child_count_moved_def type_at_def)
  then have D: "deleted_blocks cr s1 i ni p = {i, ni}"
    using a(6,7) new_value_kinds(2) [OF prog] by (auto simp: deleted_blocks_def)
  have np: "p \<notin> {i, ni}" using a(2) by (auto simp: deletable_def)
  obtain s2 where s2: "free_value cr i s1 = (Ok (), s2)" "state_inv cr s2" "generation s2 = generation s1 + 2"
    "state_used cr s2 = state_used cr s1 |` (- {i, ni})" "same_blocks cr {0, i, ni, p} s1 s2" "child_count_moved p (- 1) s1 s2"
    using free_value_ok [OF a(1,2)] np unfolding D by blast
  have "state_used cr s2 = state_used cr s"
    using s2(4) a(3-5) by (auto simp: fun_eq_iff restrict_map_def)
  moreover have "same_blocks cr ({0, p} \<union> {0, i, ni, p}) s s2"
    by (rule same_blocks_trans [OF a(8) s2(5)]) (use a(5) in auto)
  then have "same_blocks cr {0, p} s s2" by (rule same_blocks_fresh) (use a(3,4) in auto)
  moreover have "child_count_moved p 0 s s2" using a(9) s2(6) by (auto simp: child_count_moved_def)
  moreover have "generation s2 = generation s + 4" using s2(3) a(10) by simp
  ultimately show ?thesis using s2(1,2) by blast
qed

lemma new_value_form:
  assumes prog: "(prog, T, w) \<in> {(create_node cr name p, NodeValue, 0), (create_int_metric cr name w p, IntValue, w),
      (create_uint_metric cr name w p, UintValue, w), (create_double_metric cr name w p, DoubleValue, w)}"
  obtains f where "prog = with_header_lock cr (bindP (allocate_reserved_value cr name p MIN_ORDER_SIZE) f)"
proof -
  from prog consider "prog = create_node cr name p" | become where "prog = create_metric become cr name w p"
    by (auto simp: create_int_metric_def create_uint_metric_def create_double_metric_def)
  then show thesis
  proof cases
    case 1
    show thesis by (rule that [OF trans [OF 1 create_node_def]])
  next
    case 2
    show thesis by (rule that [OF trans [OF 2 create_metric_def]])
  qed
qed

lemma create_bad_parent:
  assumes ok: "state_inv cr s" and p: "refused_parent cr s p E"
    and prog: "(prog, T, w) \<in> {(create_node cr name p, NodeValue, 0), (create_int_metric cr name w p, IntValue, w),
      (create_uint_metric cr name w p, UintValue, w), (create_double_metric cr name w p, DoubleValue, w)}"
  shows "\<exists>e s'. prog s = (Err e, s') \<and> e \<in> insert HeapAtMaximumSize (InvalidParentIndex p ` E)
    \<and> state_inv cr s' \<and> state_used cr s' = state_used cr s \<and> same_blocks cr {0} s s' \<and> generation s' = generation s + 2"
proof -
  let ?s = "bump s"
  have ok1: "state_ok cr True ?s" using bump_ok(1) [OF ok] by simp
  have sz: "8 < MIN_ORDER_SIZE" "MIN_ORDER_SIZE \<le> 2048" by code_simp+
  have u1: "state_used cr ?s = state_used cr s" by (rule bump_ok(3) [OF ok])
  obtain e s' where a: "allocate_reserved_value cr name p MIN_ORDER_SIZE ?s = (Err e, s')"
    "e \<in> insert HeapAtMaximumSize (InvalidParentIndex p ` E)" "state_ok cr True s'" "generation s' = generation ?s"
    "state_used cr s' = state_used cr ?s" "same_blocks cr {} ?s s'"
    using allocate_reserved_value_bad_parent [OF ok1 sz bump_refused [OF ok p], of name] by blast
  obtain f where prog_eq: "prog = with_header_lock cr (bindP (allocate_reserved_value cr name p MIN_ORDER_SIZE) f)"
    by (rule new_value_form [OF prog])
  let ?code = "bindP (allocate_reserved_value cr name p MIN_ORDER_SIZE) f"
  have "?code ?s = (Err e, s')" using a(1) by (simp add: bindP_step)
  note l = locked_step [where code = ?code, OF ok this _ _ a(3,4,6)]
  have "same_blocks cr {0} s (bump s')" by (rule l(5)) (simp_all add: a(5) u1)
  then show ?thesis using l(1-4) a(2,5) u1 unfolding prog_eq by (intro exI [of _ e] exI [of _ "bump s'"]) simp
qed

lemma new_value_view:
  assumes ok: "state_inv cr s" and p: "valid_parent cr s p"
    and prog: "(prog, T, w) \<in> {(create_node cr name p, NodeValue, 0), (create_int_metric cr name w p, IntValue, w),
      (create_uint_metric cr name w p, UintValue, w), (create_double_metric cr name w p, DoubleValue, w)}"
  shows "\<exists>s'. state_inv cr s' \<and> generation s' = generation s + 2
    \<and> ((\<exists>i ni kn. prog s = (Ok i, s') \<and> state_used cr s i = None \<and> state_used cr s ni = None
        \<and> state_used cr s' = (state_used cr s)(i \<mapsto> 0, ni \<mapsto> kn)
        \<and> type_at cr (state_bytes s') i = Some T \<and> pl_at (state_bytes s') i = w
        \<and> parent_index cr (Mapping (state_bytes s')) i = Ok p \<and> name_index cr (Mapping (state_bytes s')) i = Ok ni
        \<and> name_contents cr (Mapping (state_bytes s')) ni =
            (if utf8_valid (take 2040 name) then Ok (take 2040 name) else Panic)
        \<and> same_blocks cr {0, p} s s' \<and> child_count_moved p 1 s s')
      \<or> prog s = (Err HeapAtMaximumSize, s') \<and> state_used cr s' = state_used cr s \<and> same_blocks cr {0} s s')"
  using new_value_ok [OF ok p prog]
proof (elim exE conjE disjE)
  fix s' i ni kn h assume a: "state_inv cr s'" "generation s' = generation s + 2" "prog s = (Ok i, s')"
    "state_used cr s i = None" "state_used cr s ni = None" "ni \<noteq> i" "state_used cr s' = (state_used cr s)(i \<mapsto> 0, ni \<mapsto> kn)"
    "hdr_at (state_bytes s') i = value_hdr cr T ni p h" "pl_at (state_bytes s') i = w"
    "name_block cr (state_bytes s') ni kn (take 2040 name)" "same_blocks cr {0, p} s s'" "child_count_moved p 1 s s'"
  have u: "state_used cr s' i = Some 0" "state_used cr s' ni = Some kn" "p = 0 \<or> state_used cr s' p \<noteq> None"
    using a p by (auto simp: valid_parent_def)
  note r = new_value_reads [OF a(1) u a(8) new_value_kinds(1) [OF prog]]
    and n = name_block_contents [OF state_okD(1) [OF a(1)] u(2) a(10)]
  show ?thesis using a r n by blast
next
  fix s' s1 assume "state_inv cr s'" "generation s' = generation s + 2" "prog s = (Err HeapAtMaximumSize, s')"
    "state_used cr s' = state_used cr s" "same_blocks cr {0} s s'"
  then show ?thesis by blast
qed

lemma new_value_room:
  assumes ok: "state_inv cr s" and u: "state_used cr s = [0 \<mapsto> 0]" and n: "length name \<le> 8"
    and prog: "(prog, T, w) \<in> {(create_node cr name 0, NodeValue, 0), (create_int_metric cr name w 0, IntValue, w),
      (create_uint_metric cr name w 0, UintValue, w), (create_double_metric cr name w 0, DoubleValue, w)}"
  obtains i s1 where "prog s = (Ok i, s1)"
proof -
  have p: "valid_parent cr s 0" by (simp add: valid_parent_def)
  have "state_ok cr True (bump s)" "state_used cr (bump s) = [0 \<mapsto> 0]" using bump_ok(1,3) [OF ok] u by simp_all
  from allocate_reserved_value_room [OF this n] new_value_ok [OF ok p prog] that show thesis by blast
qed

end

section \<open>Properties\<close>

text \<open>
  C33. \<open>State::create\<close> on a fresh heap succeeds: the header becomes the one block in use, at index 0,
  with an even generation count, and the invariant of the state holds.
\<close>

theorem state_create_establishes:
  assumes "inspect_crates cr" and "4096 dvd length m" and "m \<noteq> []" and "length m \<le> 2 ^ 32" and "heap_new cr m = Ok h"
  shows "\<exists>s. state_create cr h = Ok s \<and> state_inv cr s \<and> state_used cr s = [0 \<mapsto> 0] \<and> generation s = 0
    \<and> length (state_bytes s) = length m"
  by (rule inspect_crates.state_create_ok [OF assms])

lemma example_state:
  "\<exists>h s. heap_new shift_mask_ops (replicate 8192 0) = Ok h \<and> state_create shift_mask_ops h = Ok s
    \<and> state_inv shift_mask_ops s \<and> state_used shift_mask_ops s = [0 \<mapsto> 0] \<and> generation s = 0"
  using heap_new_zeroed shift_mask.state_create_ok [of "replicate 8192 0"] by fastforce

theorem state_create_establishes_witness:
  "\<exists>h s. heap_new shift_mask_ops (replicate 8192 0) = Ok h \<and> state_create shift_mask_ops h = Ok s
    \<and> state_inv shift_mask_ops s \<and> length (state_bytes s) = 8192"
  using state_create_establishes [OF shift_mask.inspect_crates_axioms, of "replicate 8192 0"] heap_new_zeroed by fastforce

text \<open>
  C6. Creating a node or a metric under the header or under a node, in a state that satisfies the
  invariant: either the call returns a block that was not in use, of the type and with the payload
  asked for, whose parent index is the parent and whose name index is a second fresh block that
  holds the name (cut at 2040 bytes), the parent's child count has grown by one, and every other
  block in use has kept its bytes; or the heap is full, and the blocks in use are exactly what they
  were. In both cases the invariant holds again, with the generation count two higher.
\<close>

theorem create_value_correct:
  assumes "inspect_crates cr" and "state_inv cr s" and "valid_parent cr s p"
    and "(prog, T, w) \<in> {(create_node cr name p, NodeValue, 0), (create_int_metric cr name w p, IntValue, w),
      (create_uint_metric cr name w p, UintValue, w), (create_double_metric cr name w p, DoubleValue, w)}"
  shows "\<exists>s'. state_inv cr s' \<and> generation s' = generation s + 2
    \<and> ((\<exists>i ni kn. prog s = (Ok i, s') \<and> state_used cr s i = None \<and> state_used cr s ni = None
        \<and> state_used cr s' = (state_used cr s)(i \<mapsto> 0, ni \<mapsto> kn)
        \<and> type_at cr (state_bytes s') i = Some T \<and> pl_at (state_bytes s') i = w
        \<and> parent_index cr (Mapping (state_bytes s')) i = Ok p \<and> name_index cr (Mapping (state_bytes s')) i = Ok ni
        \<and> name_contents cr (Mapping (state_bytes s')) ni =
            (if utf8_valid (take 2040 name) then Ok (take 2040 name) else Panic)
        \<and> same_blocks cr {0, p} s s' \<and> child_count_moved p 1 s s')
      \<or> prog s = (Err HeapAtMaximumSize, s') \<and> state_used cr s' = state_used cr s \<and> same_blocks cr {0} s s')"
  using inspect_crates.new_value_view [OF assms] .

lemma example_create:
  "\<exists>s i s1. state_inv shift_mask_ops s \<and> state_used shift_mask_ops s = [0 \<mapsto> 0]
    \<and> create_int_metric shift_mask_ops [97, 98] 7 0 s = (Ok i, s1)"
proof -
  obtain s where s: "state_inv shift_mask_ops s" "state_used shift_mask_ops s = [0 \<mapsto> 0]" using example_state by blast
  obtain i s1 where "create_int_metric shift_mask_ops [97, 98] 7 0 s = (Ok i, s1)"
    by (rule shift_mask.new_value_room [OF s, of "[97, 98]" _ IntValue 7]) simp_all
  with s show ?thesis by blast
qed

theorem create_value_correct_witness:
  "\<exists>s i s1. state_inv shift_mask_ops s \<and> create_int_metric shift_mask_ops [97, 98] 7 0 s = (Ok i, s1)
    \<and> state_inv shift_mask_ops s1 \<and> parent_index shift_mask_ops (Mapping (state_bytes s1)) i = Ok 0
    \<and> type_at shift_mask_ops (state_bytes s1) i = Some IntValue \<and> pl_at (state_bytes s1) i = 7"
proof -
  obtain s i s1 where s: "state_inv shift_mask_ops s" "create_int_metric shift_mask_ops [97, 98] 7 0 s = (Ok i, s1)"
    using example_create by blast
  have "valid_parent shift_mask_ops s 0" by (simp add: valid_parent_def)
  from create_value_correct [OF shift_mask.inspect_crates_axioms s(1) this,
      of "create_int_metric shift_mask_ops [97, 98] 7 0" IntValue 7 "[97, 98]"] s
  show ?thesis by auto
qed

text \<open>
  C32. A parent that is refused: a block in use that is neither the header nor a node nor a
  tombstone, a free block, or an index beyond the end of the VMO, where \<open>get_block\<close> itself fails.
  The creation fails, with the index in the error unless the heap is full; the two blocks it had taken
  are given back, and every block in use has kept its bytes.
\<close>

theorem create_value_rolls_back:
  assumes "inspect_crates cr" and "state_inv cr s" and "refused_parent cr s p E"
    and "(prog, T, w) \<in> {(create_node cr name p, NodeValue, 0), (create_int_metric cr name w p, IntValue, w),
      (create_uint_metric cr name w p, UintValue, w), (create_double_metric cr name w p, DoubleValue, w)}"
  shows "\<exists>e s'. prog s = (Err e, s') \<and> e \<in> insert HeapAtMaximumSize (InvalidParentIndex p ` E)
    \<and> state_inv cr s' \<and> state_used cr s' = state_used cr s \<and> same_blocks cr {0} s s' \<and> generation s' = generation s + 2"
  by (rule inspect_crates.create_bad_parent [OF assms])

lemma example_metric:
  "\<exists>s i ni. state_inv shift_mask_ops s \<and> deletable shift_mask_ops s i ni 0 \<and> state_used shift_mask_ops s i = Some 0
    \<and> type_at shift_mask_ops (state_bytes s) i = Some IntValue \<and> dom (state_used shift_mask_ops s) = {0, i, ni}"
proof -
  obtain s0 i s where s: "state_inv shift_mask_ops s0" "state_used shift_mask_ops s0 = [0 \<mapsto> 0]"
    "create_int_metric shift_mask_ops [97, 98] 7 0 s0 = (Ok i, s)"
    using example_create by blast
  have "valid_parent shift_mask_ops s0 0" by (simp add: valid_parent_def)
  from shift_mask.new_value_deletable [where prog = "create_int_metric shift_mask_ops [97, 98] 7 0" and T = IntValue and w = 7
      and name = "[97, 98]", OF s(1) this _ s(3)]
  obtain ni kn where n: "state_inv shift_mask_ops s" "deletable shift_mask_ops s i ni 0"
    "state_used shift_mask_ops s = (state_used shift_mask_ops s0)(i \<mapsto> 0, ni \<mapsto> kn)"
    "type_at shift_mask_ops (state_bytes s) i = Some IntValue" by auto
  moreover have "ni \<noteq> i" using n(2) by (simp add: deletable_def)
  ultimately show ?thesis using s(2) by (intro exI [of _ s] exI [of _ i] exI [of _ ni]) auto
qed

theorem create_value_rolls_back_witness:
  "\<exists>s i e s' e2 s2. state_inv shift_mask_ops s \<and> type_at shift_mask_ops (state_bytes s) i = Some IntValue
    \<and> create_node shift_mask_ops [97] i s = (Err e, s') \<and> state_used shift_mask_ops s' = state_used shift_mask_ops s
    \<and> create_node shift_mask_ops [97] (length (state_bytes s)) s = (Err e2, s2)
    \<and> e2 \<in> {HeapAtMaximumSize, InvalidParentIndex (length (state_bytes s)) InvalidIndex}
    \<and> state_used shift_mask_ops s2 = state_used shift_mask_ops s"
proof -
  obtain s i where s: "state_inv shift_mask_ops s" "state_used shift_mask_ops s i = Some 0"
    "type_at shift_mask_ops (state_bytes s) i = Some IntValue" using example_metric by blast
  have refused: "refused_parent shift_mask_ops s i {InvalidBlockType IntValue}"
    "refused_parent shift_mask_ops s (length (state_bytes s)) {InvalidIndex}"
    using s by (simp_all add: refused_parent_def)
  note rolls_back = create_value_rolls_back [OF shift_mask.inspect_crates_axioms s(1)]
  obtain e s' where 1: "create_node shift_mask_ops [97] i s = (Err e, s')" "state_used shift_mask_ops s' = state_used shift_mask_ops s"
    using rolls_back [OF refused(1), of "create_node shift_mask_ops [97] i" NodeValue 0 "[97]"] by auto
  obtain e2 s2 where 2: "create_node shift_mask_ops [97] (length (state_bytes s)) s = (Err e2, s2)"
    "e2 \<in> {HeapAtMaximumSize, InvalidParentIndex (length (state_bytes s)) InvalidIndex}"
    "state_used shift_mask_ops s2 = state_used shift_mask_ops s"
    using rolls_back [OF refused(2), of "create_node shift_mask_ops [97] (length (state_bytes s))" NodeValue 0 "[97]"] by auto
  show ?thesis using s 1 2 by blast
qed

text \<open>
  C7. \<open>free_value\<close> of a value whose name block and parent are in place: the name block is given
  back, the value too unless it is a node with children, which stays as a tombstone; a parent that
  is a tombstone and loses its last child is given back, any other parent counts one child less;
  every other block in use keeps its bytes, and the invariant holds again.
\<close>

theorem free_value_correct:
  assumes "inspect_crates cr" and "state_inv cr s" and "deletable cr s i ni p"
  shows "\<exists>s'. free_value cr i s = (Ok (), s') \<and> state_inv cr s' \<and> generation s' = generation s + 2
    \<and> state_used cr s' = state_used cr s |` (- deleted_blocks cr s i ni p)
    \<and> same_blocks cr {0, i, ni, p} s s'
    \<and> (p \<notin> deleted_blocks cr s i ni p \<longrightarrow> child_count_moved p (- 1) s s')
    \<and> (i \<notin> deleted_blocks cr s i ni p \<longrightarrow> type_at cr (state_bytes s') i = Some Tombstone
         \<and> pl_at (state_bytes s') i = pl_at (state_bytes s) i)"
  by (rule inspect_crates.free_value_ok [OF assms])

theorem free_value_correct_witness:
  "\<exists>s i ni s'. state_inv shift_mask_ops s \<and> dom (state_used shift_mask_ops s) = {0, i, ni}
    \<and> free_value shift_mask_ops i s = (Ok (), s') \<and> dom (state_used shift_mask_ops s') = {0}"
proof -
  obtain s i ni where s: "state_inv shift_mask_ops s" "deletable shift_mask_ops s i ni 0"
    "type_at shift_mask_ops (state_bytes s) i = Some IntValue" "dom (state_used shift_mask_ops s) = {0, i, ni}"
    using example_metric by blast
  then have D: "deleted_blocks shift_mask_ops s i ni 0 = {i, ni}" by (auto simp: deleted_blocks_def)
  have e: "{0, i, ni} \<inter> - {i, ni} = {0}" using s(2) by (auto simp: deletable_def)
  obtain s' where "free_value shift_mask_ops i s = (Ok (), s')"
    "state_used shift_mask_ops s' = state_used shift_mask_ops s |` (- {i, ni})"
    using free_value_correct [OF shift_mask.inspect_crates_axioms s(1,2)] unfolding D by blast
  moreover from this(2) have "dom (state_used shift_mask_ops s') = {0}" using s(4) e by simp
  ultimately show ?thesis using s(1,4) by blast
qed

text \<open>
  C8. A value created under the header or under a node and freed again leaves exactly the blocks in
  use that there were, with the parent's words and the bytes of all the others as before.
\<close>

theorem create_then_free:
  assumes "inspect_crates cr" and "state_inv cr s" and "valid_parent cr s p"
    and "p = 0 \<or> type_at cr (state_bytes s) p = Some NodeValue"
    and "(prog, T, w) \<in> {(create_node cr name p, NodeValue, 0), (create_int_metric cr name w p, IntValue, w),
      (create_uint_metric cr name w p, UintValue, w), (create_double_metric cr name w p, DoubleValue, w)}"
    and "prog s = (Ok i, s1)"
  shows "\<exists>s2. free_value cr i s1 = (Ok (), s2) \<and> state_inv cr s2 \<and> state_used cr s2 = state_used cr s
    \<and> same_blocks cr {0, p} s s2 \<and> child_count_moved p 0 s s2 \<and> generation s2 = generation s + 4"
  by (rule inspect_crates.new_value_free_again [OF assms])

theorem create_then_free_witness:
  "\<exists>s i s1 s2. state_inv shift_mask_ops s \<and> create_int_metric shift_mask_ops [97, 98] 7 0 s = (Ok i, s1)
    \<and> free_value shift_mask_ops i s1 = (Ok (), s2) \<and> state_used shift_mask_ops s2 = state_used shift_mask_ops s"
proof -
  obtain s i s1 where s: "state_inv shift_mask_ops s" "create_int_metric shift_mask_ops [97, 98] 7 0 s = (Ok i, s1)"
    using example_create by blast
  have "valid_parent shift_mask_ops s 0" by (simp add: valid_parent_def)
  from create_then_free [where prog = "create_int_metric shift_mask_ops [97, 98] 7 0" and T = IntValue and w = 7
      and name = "[97, 98]", OF shift_mask.inspect_crates_axioms s(1) this _ _ s(2)] s
  show ?thesis by auto
qed

text \<open>
  Setting an integer, unsigned or double metric: the metric reads back the value set, every
  other block in use keeps its bytes, the invariant holds again and the generation count is two
  higher.
\<close>

theorem set_metric_reads_back:
  assumes "inspect_crates cr" and "state_inv cr s" and "state_used cr s i = Some k"
    and "type_at cr (state_bytes s) i = Some t"
    and "(setm, getm, t) \<in> {(set_int_metric, get_int_metric, IntValue), (set_uint_metric, get_uint_metric, UintValue),
      (set_double_metric, get_double_metric, DoubleValue)}"
  shows "\<exists>s'. setm cr i v s = (Ok (), s') \<and> state_inv cr s' \<and> fst (getm cr i s') = Ok v
    \<and> state_used cr s' = state_used cr s \<and> generation s' = generation s + 2
    \<and> (\<forall>j q. j \<noteq> 0 \<and> j \<noteq> i \<and> state_used cr s j = Some q \<longrightarrow>
         block_bytes (state_heap s') j q = block_bytes (state_heap s) j q)"
  using inspect_crates.set_metric_ok [OF assms(1-4)] assms(5)
  by (auto simp: metric_kinds_def set_int_metric_def get_int_metric_def set_uint_metric_def get_uint_metric_def
      set_double_metric_def get_double_metric_def)

theorem set_metric_reads_back_witness:
  "\<exists>s i s'. state_inv shift_mask_ops s \<and> set_int_metric shift_mask_ops i 5 s = (Ok (), s')
    \<and> fst (get_int_metric shift_mask_ops i s') = Ok 5"
proof -
  obtain s i where s: "state_inv shift_mask_ops s" "state_used shift_mask_ops s i = Some 0"
    "type_at shift_mask_ops (state_bytes s) i = Some IntValue" using example_metric by blast
  from set_metric_reads_back [OF shift_mask.inspect_crates_axioms s, of set_int_metric get_int_metric 5] s(1)
  show ?thesis by auto
qed

end
