(* ===== verification/Char_Collection.thy ===== *)
theory Char_Collection
  imports Garnet_Prelude
begin

text \<open>
  The model of \<^verbatim>\<open>src/lib/rust/intl/unicode_utils/char_collection\<close>: a set of characters kept as a
  vector of disjoint ranges. The type of ranges and its constructors come from the crate
  \<^verbatim>\<open>unic_char_range\<close>; they are a parameter, \<open>unic_ops\<close>, with the documented behaviour as the laws of
  the locale \<open>unic_crate\<close>.
\<close>

section \<open>Characters and ranges\<close>

text \<open>A Rust \<open>char\<close> is a Unicode scalar value: a code point that is no surrogate.\<close>

type_synonym rust_char = nat

definition char_ok :: "rust_char \<Rightarrow> bool" where
  "char_ok c \<longleftrightarrow> c < 0xD800 \<or> 0xE000 \<le> c \<and> c \<le> 0x10FFFF"

abbreviation CHAR_MAX :: rust_char where "CHAR_MAX \<equiv> 0x10FFFF"

text \<open>A range has two public fields, its lowest and its highest character, both inclusive.\<close>

record char_range =
  low :: rust_char
  high :: rust_char

definition range_chars :: "char_range \<Rightarrow> rust_char set" where
  "range_chars r = {c. char_ok c \<and> low r \<le> c \<and> c \<le> high r}"

datatype ordering = Less | Equal | Greater

type_synonym 'a cc = "(unit, 'a) outcome"

record unic_ops =
  op_closed :: "rust_char \<Rightarrow> rust_char \<Rightarrow> char_range"
  op_open :: "rust_char \<Rightarrow> rust_char \<Rightarrow> char_range"
  op_open_left :: "rust_char \<Rightarrow> rust_char \<Rightarrow> char_range"
  op_open_right :: "rust_char \<Rightarrow> rust_char \<Rightarrow> char_range"
  op_all :: char_range
  op_is_empty :: "char_range \<Rightarrow> bool"
  op_cmp_char :: "char_range \<Rightarrow> rust_char \<Rightarrow> ordering cc"
  op_iter :: "char_range \<Rightarrow> rust_char list"
  op_eq :: "char_range \<Rightarrow> char_range \<Rightarrow> bool"

section \<open>The standard library\<close>

text \<open>
  \<open>slice::binary_search_by\<close>, on the comparison of the element at an index: \<open>Inr\<close> is the index of
  a match, \<open>Inl\<close> the index where an element could be inserted.
\<close>

fun binary_search_loop :: "(nat \<Rightarrow> ordering cc) \<Rightarrow> nat \<Rightarrow> nat \<Rightarrow> nat cc" where
  "binary_search_loop f base size' =
     (if size' \<le> 1 then Ok base
      else let half = size' div 2; mid = base + half in
        bindO (f mid) (\<lambda>cmp. binary_search_loop f (if cmp = Greater then base else mid) (size' - half)))"

definition binary_search_by :: "nat \<Rightarrow> (nat \<Rightarrow> ordering cc) \<Rightarrow> (nat + nat) cc" where
  "binary_search_by n f =
     (if n = 0 then Ok (Inl 0)
      else bindO (binary_search_loop f 0 n) (\<lambda>base.
           bindO (f base) (\<lambda>cmp.
             Ok (if cmp = Equal then Inr base else Inl (base + (if cmp = Less then 1 else 0))))))"

text \<open>\<open>Vec::splice\<close> replaces the elements of an index range, which has to lie in the vector.\<close>

definition vec_splice :: "'a list \<Rightarrow> nat \<Rightarrow> nat \<Rightarrow> 'a list \<Rightarrow> 'a list cc" where
  "vec_splice xs from to replacement =
     (if from \<le> to \<and> to \<le> length xs then Ok (take from xs @ replacement @ drop to xs) else Panic)"

section \<open>Collections\<close>

type_synonym char_collection = "char_range list"

text \<open>The trait \<open>MultiCharRange\<close>: the ranges of an object, in ascending order, and their number.\<close>

record multi_char_range =
  iter_ranges :: "char_range list"
  range_count :: nat

definition collection_ranges :: "char_collection \<Rightarrow> multi_char_range" where
  "collection_ranges rs = \<lparr>iter_ranges = rs, range_count = length rs\<rparr>"

definition char_ranges :: "unic_ops \<Rightarrow> rust_char \<Rightarrow> multi_char_range" where
  "char_ranges u c = \<lparr>iter_ranges = [op_closed u c c], range_count = 1\<rparr>"

definition char_range_ranges :: "char_range \<Rightarrow> multi_char_range" where
  "char_range_ranges r = \<lparr>iter_ranges = [r], range_count = 1\<rparr>"

definition range_inclusive_ranges :: "unic_ops \<Rightarrow> rust_char \<Rightarrow> rust_char \<Rightarrow> multi_char_range" where
  "range_inclusive_ranges u a b = \<lparr>iter_ranges = [op_closed u a b], range_count = 1\<rparr>"

text \<open>The ranges of integers are cast to \<open>u32\<close>; an end that is no character panics.\<close>

definition to_char :: "nat \<Rightarrow> rust_char cc" where
  "to_char n = (if char_ok n then Ok n else Panic)"

definition int_range_ranges :: "unic_ops \<Rightarrow> u32 \<Rightarrow> u32 \<Rightarrow> multi_char_range cc" where
  "int_range_ranges u a b =
     bindO (to_char (unat a)) (\<lambda>a'. bindO (to_char (unat b)) (\<lambda>b'.
       Ok \<lparr>iter_ranges = [op_closed u a' b'], range_count = 1\<rparr>))"

definition collection_new :: char_collection where
  "collection_new = []"

definition collection_iter :: "unic_ops \<Rightarrow> char_collection \<Rightarrow> rust_char list" where
  "collection_iter u rs = concat (map (op_iter u) rs)"

definition are_chars_adjacent :: "unic_ops \<Rightarrow> rust_char \<Rightarrow> rust_char \<Rightarrow> bool" where
  "are_chars_adjacent u left right =
     (case rev (op_iter u (op_open_right u left right)) of
        [] \<Rightarrow> False
      | next_right # _ \<Rightarrow> left = next_right)"

definition find_containing_range :: "unic_ops \<Rightarrow> char_collection \<Rightarrow> rust_char \<Rightarrow> (nat + nat \<times> char_range) cc" where
  "find_containing_range u rs query =
     bindO (binary_search_by (length rs) (\<lambda>i. op_cmp_char u (rs ! i) query)) (\<lambda>result.
       Ok (case result of
             Inr index \<Rightarrow> Inr (index, rs ! index)
           | Inl index \<Rightarrow> Inl index))"

text \<open>\<open>lower == upper \&\& lower.is_ok()\<close> on two results of the search.\<close>

definition same_range :: "unic_ops \<Rightarrow> nat + nat \<times> char_range \<Rightarrow> nat + nat \<times> char_range \<Rightarrow> bool" where
  "same_range u a b = (case (a, b) of
      (Inr (i, r), Inr (j, s)) \<Rightarrow> i = j \<and> op_eq u r s
    | _ \<Rightarrow> False)"

definition cc_contains :: "unic_ops \<Rightarrow> char_collection \<Rightarrow> rust_char \<Rightarrow> bool cc" where
  "cc_contains u rs ch = bindO (find_containing_range u rs ch) (\<lambda>r. Ok (\<not> isl r))"

definition contains_range :: "unic_ops \<Rightarrow> char_collection \<Rightarrow> char_range \<Rightarrow> bool cc" where
  "contains_range u rs query =
     (if op_is_empty u query then Ok False
      else bindO (find_containing_range u rs (low query)) (\<lambda>lower_existing_range.
           bindO (find_containing_range u rs (high query)) (\<lambda>upper_existing_range.
             Ok (same_range u lower_existing_range upper_existing_range))))"

definition replace_ranges :: "unic_ops \<Rightarrow> char_range \<Rightarrow> nat \<Rightarrow> nat \<Rightarrow> char_collection \<Rightarrow> char_collection cc" where
  "replace_ranges u char_range_to_insert from to rs =
     bindO
       (if from > 0 then
          if from - 1 < length rs then
            let prev_char_range = rs ! (from - 1) in
            Ok (if are_chars_adjacent u (high prev_char_range) (low char_range_to_insert)
                then (char_range_to_insert\<lparr>low := low prev_char_range\<rparr>, from - 1)
                else (char_range_to_insert, from))
          else Panic
        else Ok (char_range_to_insert, from)) (\<lambda>(range1, from1).
     let (range2, to2) =
       (if to < length rs then
          let next_char_range = rs ! to in
          if are_chars_adjacent u (high range1) (low next_char_range)
          then (range1\<lparr>high := high next_char_range\<rparr>, to + 1)
          else (range1, to)
        else (range1, to))
     in vec_splice rs from1 to2 [range2])"

definition insert_char_range :: "unic_ops \<Rightarrow> char_range \<Rightarrow> char_collection \<Rightarrow> char_collection cc" where
  "insert_char_range u new_range rs =
     (if op_is_empty u new_range then Ok rs
      else bindO (find_containing_range u rs (low new_range)) (\<lambda>lower_existing_range.
           bindO (find_containing_range u rs (high new_range)) (\<lambda>upper_existing_range.
             if same_range u lower_existing_range upper_existing_range then Ok rs
             else
               let (new_low, remove_from_idx) = (case lower_existing_range of
                       Inr (idx, r) \<Rightarrow> (low r, idx) | Inl idx \<Rightarrow> (low new_range, idx));
                   (new_high, remove_to_idx) = (case upper_existing_range of
                       Inr (idx, r) \<Rightarrow> (high r, idx + 1) | Inl idx \<Rightarrow> (high new_range, idx))
               in replace_ranges u (op_closed u new_low new_high) remove_from_idx remove_to_idx rs)))"

definition remove_char_range :: "unic_ops \<Rightarrow> char_range \<Rightarrow> char_collection \<Rightarrow> char_collection cc" where
  "remove_char_range u range_to_remove rs =
     (if op_is_empty u range_to_remove then Ok rs
      else bindO (find_containing_range u rs (low range_to_remove)) (\<lambda>lower_existing_range.
           bindO (find_containing_range u rs (high range_to_remove)) (\<lambda>upper_existing_range.
             let (left_part, remove_from_idx) = (case lower_existing_range of
                     Inr (idx, r) \<Rightarrow>
                       (if low r < low range_to_remove
                        then [op_open_right u (low r) (low range_to_remove)] else [], idx)
                   | Inl idx \<Rightarrow> ([], idx));
                 (right_part, remove_to_idx) = (case upper_existing_range of
                     Inr (idx, r) \<Rightarrow>
                       (if high range_to_remove < high r
                        then [op_open_left u (high range_to_remove) (high r)] else [], idx + 1)
                   | Inl idx \<Rightarrow> ([], idx))
             in vec_splice rs remove_from_idx remove_to_idx (left_part @ right_part))))"

text \<open>\<open>for_each\<close> over the ranges to add or to remove.\<close>

fun for_each_range :: "(char_range \<Rightarrow> char_collection \<Rightarrow> char_collection cc) \<Rightarrow> char_range list \<Rightarrow>
    char_collection \<Rightarrow> char_collection cc" where
  "for_each_range f [] rs = Ok rs"
| "for_each_range f (r # others) rs = bindO (f r rs) (for_each_range f others)"

definition cc_insert :: "unic_ops \<Rightarrow> multi_char_range \<Rightarrow> char_collection \<Rightarrow> char_collection cc" where
  "cc_insert u to_add = for_each_range (insert_char_range u) (iter_ranges to_add)"

definition cc_remove :: "unic_ops \<Rightarrow> multi_char_range \<Rightarrow> char_collection \<Rightarrow> char_collection cc" where
  "cc_remove u to_remove = for_each_range (remove_char_range u) (iter_ranges to_remove)"

definition collection_clear :: "char_collection \<Rightarrow> char_collection" where
  "collection_clear rs = []"

text \<open>\<open>From\<close> for every \<open>MultiCharRange\<close>.\<close>

definition collection_from :: "unic_ops \<Rightarrow> multi_char_range \<Rightarrow> char_collection cc" where
  "collection_from u source = cc_insert u source collection_new"

definition cc_union :: "unic_ops \<Rightarrow> char_collection \<Rightarrow> multi_char_range \<Rightarrow> char_collection cc" where
  "cc_union u rs rhs =
     (if length rs > range_count rhs then cc_insert u rhs rs
      else bindO (collection_from u rhs) (cc_insert u (collection_ranges rs)))"

fun gaps :: "unic_ops \<Rightarrow> rust_char \<Rightarrow> char_range list \<Rightarrow> char_range list \<times> rust_char" where
  "gaps u prev_high [] = ([], prev_high)"
| "gaps u prev_high (r # others) =
     (case gaps u (high r) others of (result, last_high) \<Rightarrow> (op_open u prev_high (low r) # result, last_high))"

definition cc_complement :: "unic_ops \<Rightarrow> char_collection \<Rightarrow> char_collection cc" where
  "cc_complement u rs = (case rs of
      [] \<Rightarrow> collection_from u (char_range_ranges (op_all u))
    | first # others \<Rightarrow>
        (case gaps u (high first) others of (between, prev_high) \<Rightarrow>
           Ok ((if low first \<noteq> 0 then [op_open_right u 0 (low first)] else []) @ between
             @ (if prev_high \<noteq> CHAR_MAX then [op_open_left u prev_high CHAR_MAX] else []))))"

definition cc_intersection :: "unic_ops \<Rightarrow> char_collection \<Rightarrow> multi_char_range \<Rightarrow> char_collection cc" where
  "cc_intersection u rs rhs =
     (if length rs > range_count rhs then
        bindO (collection_from u rhs) (\<lambda>rhs'.
        bindO (cc_complement u rhs') (\<lambda>c. cc_remove u (collection_ranges c) rs))
      else
        bindO (collection_from u rhs) (\<lambda>result.
        bindO (cc_complement u rs) (\<lambda>c. cc_remove u (collection_ranges c) result)))"

definition cc_difference :: "unic_ops \<Rightarrow> char_collection \<Rightarrow> multi_char_range \<Rightarrow> char_collection cc" where
  "cc_difference u rs rhs = cc_remove u rhs rs"

text \<open>The operators of \<^verbatim>\<open>operators.rs\<close> and the list form of the macro \<open>char_collect!\<close>.\<close>

definition cc_bitor where "cc_bitor u rs rhs = cc_union u rs rhs"
definition cc_add where "cc_add u rs rhs = cc_union u rs rhs"
definition cc_bitor_assign where "cc_bitor_assign u rs rhs = cc_insert u rhs rs"
definition cc_add_assign where "cc_add_assign u rs rhs = cc_insert u rhs rs"
definition cc_sub where "cc_sub u rs rhs = cc_difference u rs rhs"
definition cc_sub_assign where "cc_sub_assign u rs rhs = cc_remove u rhs rs"
definition cc_bitand where "cc_bitand u rs rhs = cc_intersection u rs rhs"
definition cc_bitand_assign where "cc_bitand_assign u rs rhs = cc_intersection u rs rhs"
definition cc_not where "cc_not u rs = cc_complement u rs"

fun char_collect :: "unic_ops \<Rightarrow> multi_char_range list \<Rightarrow> char_collection \<Rightarrow> char_collection cc" where
  "char_collect u [] col = Ok col"
| "char_collect u (x # xs) col = bindO (cc_insert u x col) (char_collect u xs)"

section \<open>The crate\<close>

text \<open>
  What the crate documents: the ends of a closed range; which characters the open and half-open
  ranges hold, with ends that are characters when there are any; that a range is empty when its
  low end is above its high end; how a range compares with a character (a call that panics on an
  empty range); the iteration in ascending order; and an equality that is reflexive.
\<close>

locale unic_crate =
  fixes u :: unic_ops
  assumes closed: "op_closed u a b = \<lparr>low = a, high = b\<rparr>"
    and open_chars: "char_ok a \<Longrightarrow> char_ok b \<Longrightarrow> range_chars (op_open u a b) = {c. char_ok c \<and> a < c \<and> c < b}"
    and open_left_chars: "char_ok a \<Longrightarrow> char_ok b \<Longrightarrow> range_chars (op_open_left u a b) = {c. char_ok c \<and> a < c \<and> c \<le> b}"
    and open_right_chars: "char_ok a \<Longrightarrow> char_ok b \<Longrightarrow> range_chars (op_open_right u a b) = {c. char_ok c \<and> a \<le> c \<and> c < b}"
    and open_ends: "char_ok a \<Longrightarrow> char_ok b \<Longrightarrow> r \<in> {op_open u a b, op_open_left u a b, op_open_right u a b} \<Longrightarrow>
      char_ok (low r) \<and> char_ok (high r)"
    and all: "op_all u = \<lparr>low = 0, high = CHAR_MAX\<rparr>"
    and is_empty: "op_is_empty u r \<longleftrightarrow> high r < low r"
    and cmp_char: "low r \<le> high r \<Longrightarrow>
      op_cmp_char u r c = Ok (if high r < c then Less else if c < low r then Greater else Equal)"
    and iter: "set (op_iter u r) = range_chars r" "sorted (op_iter u r)" "distinct (op_iter u r)"
    and eq_refl: "op_eq u r r"

text \<open>An implementation of the crate that steps over the surrogates.\<close>

definition char_succ :: "rust_char \<Rightarrow> rust_char" where
  "char_succ c = (if c = 0xD7FF then 0xE000 else Suc c)"

definition char_pred :: "rust_char \<Rightarrow> rust_char" where
  "char_pred c = (if c = 0xE000 then 0xD7FF else c - 1)"

definition empty_range :: char_range where
  "empty_range = \<lparr>low = 1, high = 0\<rparr>"

definition scalar_ops :: unic_ops where
  "scalar_ops = \<lparr>
     op_closed = (\<lambda>a b. \<lparr>low = a, high = b\<rparr>),
     op_open = (\<lambda>a b. if char_succ a < b then \<lparr>low = char_succ a, high = char_pred b\<rparr> else empty_range),
     op_open_left = (\<lambda>a b. if a < b then \<lparr>low = char_succ a, high = b\<rparr> else empty_range),
     op_open_right = (\<lambda>a b. if a < b then \<lparr>low = a, high = char_pred b\<rparr> else empty_range),
     op_all = \<lparr>low = 0, high = CHAR_MAX\<rparr>,
     op_is_empty = (\<lambda>r. high r < low r),
     op_cmp_char = (\<lambda>r c. if high r < low r then Panic
        else Ok (if high r < c then Less else if c < low r then Greater else Equal)),
     op_iter = (\<lambda>r. filter char_ok [low r..<Suc (high r)]),
     op_eq = (\<lambda>r s. r = s)\<rparr>"

interpretation scalar: unic_crate scalar_ops
proof unfold_locales
  fix a b r
  assume ab: "char_ok a" "char_ok b"
  show "range_chars (op_open scalar_ops a b) = {c. char_ok c \<and> a < c \<and> c < b}"
    using ab by (auto simp: scalar_ops_def range_chars_def char_succ_def char_pred_def empty_range_def char_ok_def)
  show "range_chars (op_open_left scalar_ops a b) = {c. char_ok c \<and> a < c \<and> c \<le> b}"
    using ab by (auto simp: scalar_ops_def range_chars_def char_succ_def empty_range_def char_ok_def)
  show "range_chars (op_open_right scalar_ops a b) = {c. char_ok c \<and> a \<le> c \<and> c < b}"
    using ab by (auto simp: scalar_ops_def range_chars_def char_pred_def empty_range_def char_ok_def)
  assume "r \<in> {op_open scalar_ops a b, op_open_left scalar_ops a b, op_open_right scalar_ops a b}"
  then show "char_ok (low r) \<and> char_ok (high r)"
    using ab by (auto simp: scalar_ops_def char_succ_def char_pred_def empty_range_def char_ok_def split: if_splits)
qed (auto simp: scalar_ops_def range_chars_def sorted_wrt_filter simp del: upt_Suc)

end
