(* ===== verification/Char_Collection_Correct.thy ===== *)
theory Char_Collection_Correct
  imports Char_Collection
begin

text \<open>
  The correctness of character collections: the ranges of a collection stay sorted, non-empty and
  apart from each other, and every operation is the set operation it stands for.
\<close>

section \<open>The invariant and the set of a collection\<close>

definition range_ok :: "char_range \<Rightarrow> bool" where
  "range_ok r \<longleftrightarrow> char_ok (low r) \<and> char_ok (high r) \<and> low r \<le> high r"

text \<open>Some character lies strictly between two ranges, so they cannot be joined.\<close>

definition gap :: "char_range \<Rightarrow> char_range \<Rightarrow> bool" where
  "gap r s \<longleftrightarrow> (\<exists>c. char_ok c \<and> high r < c \<and> c < low s)"

definition cc_wf :: "char_collection \<Rightarrow> bool" where
  "cc_wf rs \<longleftrightarrow> (\<forall>r\<in>set rs. range_ok r) \<and> sorted_wrt gap rs"

definition cc_chars :: "char_collection \<Rightarrow> rust_char set" where
  "cc_chars rs = (\<Union>r\<in>set rs. range_chars r)"

text \<open>The characters of anything that has ranges.\<close>

definition multi_ok :: "multi_char_range \<Rightarrow> bool" where
  "multi_ok m \<longleftrightarrow> (\<forall>r\<in>set (iter_ranges m). char_ok (low r) \<and> char_ok (high r))"

definition multi_chars :: "multi_char_range \<Rightarrow> rust_char set" where
  "multi_chars m = cc_chars (iter_ranges m)"

lemma cc_chars_simps [simp]:
  "cc_chars [] = {}" "cc_chars (r # rs) = range_chars r \<union> cc_chars rs"
  "cc_chars (rs @ ss) = cc_chars rs \<union> cc_chars ss"
  by (auto simp: cc_chars_def)

lemma gap_less: "gap r s \<Longrightarrow> high r < low s"
  by (auto simp: gap_def)

lemma gap_via: "gap r s \<Longrightarrow> high s \<le> high t \<or> low s \<le> low t \<Longrightarrow> low s \<le> low t \<Longrightarrow> gap r t"
  by (auto simp: gap_def)

lemma cc_wf_Nil [simp]: "cc_wf []"
  by (simp add: cc_wf_def)

lemma cc_wf_Cons: "cc_wf (r # rs) \<longleftrightarrow> range_ok r \<and> (\<forall>s\<in>set rs. gap r s) \<and> cc_wf rs"
  by (auto simp: cc_wf_def)

lemma cc_wf_append:
  "cc_wf (rs @ ss) \<longleftrightarrow> cc_wf rs \<and> cc_wf ss \<and> (\<forall>r\<in>set rs. \<forall>s\<in>set ss. gap r s)"
  by (auto simp: cc_wf_def sorted_wrt_append)

lemma range_chars_iff: "c \<in> range_chars r \<longleftrightarrow> char_ok c \<and> low r \<le> c \<and> c \<le> high r"
  by (simp add: range_chars_def)

lemma cc_wf_nth:
  assumes "cc_wf rs"
  shows "i < length rs \<Longrightarrow> range_ok (rs ! i)" and "i < j \<Longrightarrow> j < length rs \<Longrightarrow> gap (rs ! i) (rs ! j)"
  using assms by (auto simp: cc_wf_def sorted_wrt_iff_nth_less)

lemma in_set_takeE:
  assumes "a \<in> set (take i xs)"
  obtains k where "k < i" and "k < length xs" and "a = xs ! k"
  using assms by (metis in_set_conv_nth length_take min_less_iff_conj nth_take)

lemma in_set_dropE:
  assumes "a \<in> set (drop i xs)"
  obtains k where "i \<le> k" and "k < length xs" and "a = xs ! k"
proof -
  obtain l where "l < length (drop i xs)" "a = drop i xs ! l" using assms by (metis in_set_conv_nth)
  then show thesis by (intro that [of "i + l"]) auto
qed

section \<open>Binary search\<close>

declare binary_search_loop.simps [simp del]

lemma binary_search_loop_ok:
  assumes "\<And>i. i < n \<Longrightarrow> f i = Ok (g i)"
    and "\<And>i j. i < j \<Longrightarrow> j < n \<Longrightarrow> g i = Greater \<Longrightarrow> g j = Greater"
    and "0 < size'" and "base + size' \<le> n" and "base = 0 \<or> g base \<noteq> Greater"
    and "\<And>j. base + size' \<le> j \<Longrightarrow> j < n \<Longrightarrow> g j = Greater"
  shows "\<exists>b<n. binary_search_loop f base size' = Ok b \<and> (b = 0 \<or> g b \<noteq> Greater)
    \<and> (\<forall>j. b < j \<and> j < n \<longrightarrow> g j = Greater)"
  using assms(3-6)
proof (induction size' arbitrary: base rule: less_induct)
  case (less size')
  note prems = less.prems
  show ?case
  proof (cases "size' \<le> 1")
    case True
    then have "size' = 1" using prems(1) by simp
    then show ?thesis using prems by (auto simp: binary_search_loop.simps)
  next
    case False
    let ?half = "size' div 2" let ?mid = "base + ?half"
    have h: "0 < ?half" "?half < size'" "?mid < n" using False prems(2) by auto
    have step: "binary_search_loop f base size' =
        binary_search_loop f (if g ?mid = Greater then base else ?mid) (size' - ?half)"
      using False assms(1) [OF h(3)] by (subst binary_search_loop.simps) (simp add: Let_def)
    show ?thesis
    proof (cases "g ?mid = Greater")
      case True
      have "\<exists>b<n. binary_search_loop f base (size' - ?half) = Ok b \<and> (b = 0 \<or> g b \<noteq> Greater)
          \<and> (\<forall>j. b < j \<and> j < n \<longrightarrow> g j = Greater)"
      proof (rule less.IH)
        show "size' - ?half < size'" "base + (size' - ?half) \<le> n" "0 < size' - ?half" "base = 0 \<or> g base \<noteq> Greater"
          using h prems by auto
        show "g j = Greater" if "base + (size' - ?half) \<le> j" "j < n" for j
          using True assms(2) [of ?mid j] that h by (cases "j = ?mid") auto
      qed
      then show ?thesis using step True by simp
    next
      case nG: False
      have "\<exists>b<n. binary_search_loop f ?mid (size' - ?half) = Ok b \<and> (b = 0 \<or> g b \<noteq> Greater)
          \<and> (\<forall>j. b < j \<and> j < n \<longrightarrow> g j = Greater)"
      proof (rule less.IH)
        show "size' - ?half < size'" "?mid + (size' - ?half) \<le> n" "0 < size' - ?half" using h prems by auto
        show "?mid = 0 \<or> g ?mid \<noteq> Greater" using nG by simp
        show "g j = Greater" if "?mid + (size' - ?half) \<le> j" "j < n" for j
          using prems(4) that h by simp
      qed
      then show ?thesis using step nG by simp
    qed
  qed
qed

lemma binary_search_by_ok:
  assumes f: "\<And>i. i < n \<Longrightarrow> f i = Ok (g i)"
    and up: "\<And>i j. i < j \<Longrightarrow> j < n \<Longrightarrow> g i = Greater \<Longrightarrow> g j = Greater"
    and down: "\<And>i j. i < j \<Longrightarrow> j < n \<Longrightarrow> g j = Less \<Longrightarrow> g i = Less"
  shows "(\<exists>i<n. binary_search_by n f = Ok (Inr i) \<and> g i = Equal)
    \<or> (\<exists>i\<le>n. binary_search_by n f = Ok (Inl i) \<and> (\<forall>j<i. g j = Less) \<and> (\<forall>j. i \<le> j \<and> j < n \<longrightarrow> g j = Greater))"
proof (cases "n = 0")
  case False
  then have "\<exists>b<n. binary_search_loop f 0 n = Ok b \<and> (b = 0 \<or> g b \<noteq> Greater)
    \<and> (\<forall>j. b < j \<and> j < n \<longrightarrow> g j = Greater)"
    by (intro binary_search_loop_ok [OF f up]) auto
  then obtain b where b: "b < n" "binary_search_loop f 0 n = Ok b" "b = 0 \<or> g b \<noteq> Greater"
    "\<And>j. b < j \<Longrightarrow> j < n \<Longrightarrow> g j = Greater" by blast
  have r: "binary_search_by n f = Ok (if g b = Equal then Inr b else Inl (b + (if g b = Less then 1 else 0)))"
    using False b f by (simp add: binary_search_by_def)
  show ?thesis
  proof (cases "g b")
    case Less
    then have "g j = Less" if "j < Suc b" for j using that down [of j b] b(1) by (cases "j = b") auto
    then show ?thesis using r b Less by (intro disjI2 exI [of _ "Suc b"]) auto
  next
    case Equal
    then show ?thesis using r b by auto
  next
    case Greater
    then have "b = 0" using b(3) by simp
    moreover have "g j = Greater" if "j < n" for j using b(4) [of j] Greater \<open>b = 0\<close> that by (cases "j = 0") auto
    ultimately show ?thesis using r Greater by auto
  qed
qed (simp add: binary_search_by_def)

section \<open>Looking up a character\<close>

context unic_crate
begin

lemma find_cases:
  assumes wf: "cc_wf rs"
  shows "(\<exists>i<length rs. find_containing_range u rs q = Ok (Inr (i, rs ! i)) \<and> low (rs ! i) \<le> q \<and> q \<le> high (rs ! i))
    \<or> (\<exists>i\<le>length rs. find_containing_range u rs q = Ok (Inl i) \<and> (\<forall>j<i. high (rs ! j) < q)
        \<and> (\<forall>j. i \<le> j \<and> j < length rs \<longrightarrow> q < low (rs ! j)))"
proof -
  let ?g = "\<lambda>i. if high (rs ! i) < q then Less else if q < low (rs ! i) then Greater else Equal"
  have ok: "low (rs ! i) \<le> high (rs ! i)" if "i < length rs" for i
    using cc_wf_nth(1) [OF wf that] by (simp add: range_ok_def)
  have lt: "high (rs ! i) < low (rs ! j)" if "i < j" "j < length rs" for i j
    by (rule gap_less [OF cc_wf_nth(2) [OF wf that]])
  have "(\<exists>i<length rs. binary_search_by (length rs) (\<lambda>i. op_cmp_char u (rs ! i) q) = Ok (Inr i) \<and> ?g i = Equal)
    \<or> (\<exists>i\<le>length rs. binary_search_by (length rs) (\<lambda>i. op_cmp_char u (rs ! i) q) = Ok (Inl i)
        \<and> (\<forall>j<i. ?g j = Less) \<and> (\<forall>j. i \<le> j \<and> j < length rs \<longrightarrow> ?g j = Greater))"
  proof (rule binary_search_by_ok)
    show "op_cmp_char u (rs ! i) q = Ok (?g i)" if "i < length rs" for i using cmp_char [OF ok [OF that]] .
    show "?g j = Greater" if "i < j" "j < length rs" "?g i = Greater" for i j
      using lt [OF that(1,2)] ok [of i] ok [of j] that by (auto split: if_splits)
    show "?g i = Less" if "i < j" "j < length rs" "?g j = Less" for i j
      using lt [OF that(1,2)] ok [of i] ok [of j] that by (auto split: if_splits)
  qed
  then show ?thesis
    by (elim disjE exE conjE) (fastforce simp: find_containing_range_def split: if_splits)+
qed

lemma cc_chars_nth: "i < length rs \<Longrightarrow> c \<in> range_chars (rs ! i) \<Longrightarrow> c \<in> cc_chars rs"
  by (auto simp: cc_chars_def)

lemma cc_chars_obtain:
  assumes "c \<in> cc_chars rs"
  obtains i where "i < length rs" and "c \<in> range_chars (rs ! i)"
  using assms by (auto simp: cc_chars_def in_set_conv_nth)

lemma cc_contains_ok:
  assumes wf: "cc_wf rs" and c: "char_ok c"
  shows "cc_contains u rs c = Ok (c \<in> cc_chars rs)"
  using find_cases [OF wf, of c]
proof (elim disjE exE conjE)
  fix i assume "i < length rs" "find_containing_range u rs c = Ok (Inr (i, rs ! i))" "low (rs ! i) \<le> c" "c \<le> high (rs ! i)"
  then show ?thesis
    using c cc_chars_nth [of i rs c] by (simp add: cc_contains_def range_chars_iff)
next
  fix i assume f: "find_containing_range u rs c = Ok (Inl i)" and lo: "\<forall>j<i. high (rs ! j) < c"
    and hi: "\<forall>j. i \<le> j \<and> j < length rs \<longrightarrow> c < low (rs ! j)"
  have "c \<notin> cc_chars rs"
  proof
    assume "c \<in> cc_chars rs"
    then obtain j where "j < length rs" "c \<in> range_chars (rs ! j)" by (rule cc_chars_obtain)
    with lo hi have "high (rs ! j) < c \<or> c < low (rs ! j)" by (metis not_less)
    with \<open>c \<in> range_chars (rs ! j)\<close> show False by (auto simp: range_chars_iff)
  qed
  then show ?thesis using f by (simp add: cc_contains_def)
qed

section \<open>Adjacent characters\<close>

lemma are_chars_adjacent_ok:
  assumes l: "char_ok l" and r: "char_ok r"
  shows "are_chars_adjacent u l r \<longleftrightarrow> l < r \<and> (\<forall>c. char_ok c \<longrightarrow> \<not> (l < c \<and> c < r))"
proof -
  let ?xs = "op_iter u (op_open_right u l r)"
  have set: "set ?xs = {c. char_ok c \<and> l \<le> c \<and> c < r}" using iter(1) open_right_chars [OF l r] by simp
  show ?thesis
  proof (cases "?xs" rule: rev_cases)
    case Nil
    then have "\<not> l < r" using set l by auto
    then show ?thesis using Nil by (simp add: are_chars_adjacent_def)
  next
    case (snoc ys y)
    have y: "char_ok y" "l \<le> y" "y < r" using set unfolding snoc by auto
    have top: "c \<le> y" if "char_ok c" "l \<le> c" "c < r" for c
    proof -
      have "c \<in> set (ys @ [y])" using set that unfolding snoc by auto
      then show ?thesis using iter(2) [of "op_open_right u l r"] unfolding snoc by (auto simp: sorted_append)
    qed
    have "are_chars_adjacent u l r \<longleftrightarrow> l = y" by (simp add: are_chars_adjacent_def snoc)
    also have "\<dots> \<longleftrightarrow> l < r \<and> (\<forall>c. char_ok c \<longrightarrow> \<not> (l < c \<and> c < r))"
      using y top l by (metis le_less_trans less_imp_le_nat nat_less_le not_le)
    finally show ?thesis .
  qed
qed

section \<open>Joining a range with its neighbours\<close>

lemma join_adjacent:
  assumes "range_ok r" and "range_ok s" and "high r < low s" and "\<forall>c. char_ok c \<longrightarrow> \<not> (high r < c \<and> c < low s)"
  shows "range_chars \<lparr>low = low r, high = high s\<rparr> = range_chars r \<union> range_chars s"
  using assms by (auto simp: range_chars_iff range_ok_def)

lemma not_adjacent_gap:
  "range_ok r \<Longrightarrow> range_ok s \<Longrightarrow> high r < low s \<Longrightarrow> \<not> are_chars_adjacent u (high r) (low s) \<Longrightarrow> gap r s"
  using are_chars_adjacent_ok by (auto simp: range_ok_def gap_def)

text \<open>The range \<open>N\<close> after a collection \<open>A\<close> below it, and a collection \<open>B\<close> above it.\<close>

lemma merge_left:
  assumes A: "cc_wf A" and N: "range_ok N" and lt: "\<And>a. a \<in> set A \<Longrightarrow> high a < low N"
  defines "adj \<equiv> A \<noteq> [] \<and> are_chars_adjacent u (high (last A)) (low N)"
  shows "cc_wf ((if adj then butlast A else A) @ [if adj then N\<lparr>low := low (last A)\<rparr> else N])"
    and "cc_chars ((if adj then butlast A else A) @ [if adj then N\<lparr>low := low (last A)\<rparr> else N]) = cc_chars A \<union> range_chars N"
proof -
  have "cc_wf ((if adj then butlast A else A) @ [if adj then N\<lparr>low := low (last A)\<rparr> else N])
    \<and> cc_chars ((if adj then butlast A else A) @ [if adj then N\<lparr>low := low (last A)\<rparr> else N]) = cc_chars A \<union> range_chars N"
  proof (cases "A" rule: rev_cases)
    case Nil
    then show ?thesis using N by (simp add: adj_def cc_wf_Cons)
  next
    case (snoc A' p)
    have p: "range_ok p" "high p < low N" "cc_wf A'" "\<And>a. a \<in> set A' \<Longrightarrow> gap a p"
      using A lt snoc by (auto simp: cc_wf_append cc_wf_Cons)
    show ?thesis
    proof (cases "are_chars_adjacent u (high p) (low N)")
      case True
      let ?N = "N\<lparr>low := low p\<rparr>"
      have e: "?N = \<lparr>low = low p, high = high N\<rparr>" by simp
      have "range_chars ?N = range_chars p \<union> range_chars N"
        unfolding e using True are_chars_adjacent_ok N p by (intro join_adjacent) (auto simp: range_ok_def)
      moreover have "range_ok ?N" using p N by (auto simp: range_ok_def)
      moreover have "gap a ?N" if "a \<in> set A'" for a using p(4) [OF that] by (simp add: gap_def)
      ultimately show ?thesis using True p snoc by (auto simp: adj_def cc_wf_append cc_wf_Cons)
    next
      case False
      then have pN: "gap p N" by (rule not_adjacent_gap [OF p(1) N p(2)])
      moreover have "gap a N" if "a \<in> set A'" for a
        using p(4) [OF that] p(1,2) by (auto simp: gap_def range_ok_def intro: exI)
      ultimately show ?thesis using False p N snoc by (auto simp: adj_def cc_wf_append cc_wf_Cons)
    qed
  qed
  then show "cc_wf ((if adj then butlast A else A) @ [if adj then N\<lparr>low := low (last A)\<rparr> else N])"
    and "cc_chars ((if adj then butlast A else A) @ [if adj then N\<lparr>low := low (last A)\<rparr> else N]) = cc_chars A \<union> range_chars N"
    by blast+
qed

lemma merge_right:
  assumes A: "cc_wf (A @ [N])" and B: "cc_wf B" and lt: "\<And>b. b \<in> set B \<Longrightarrow> high N < low b"
  defines "adj \<equiv> B \<noteq> [] \<and> are_chars_adjacent u (high N) (low (hd B))"
  shows "cc_wf (A @ (if adj then N\<lparr>high := high (hd B)\<rparr> else N) # (if adj then tl B else B))"
    and "cc_chars (A @ (if adj then N\<lparr>high := high (hd B)\<rparr> else N) # (if adj then tl B else B)) = cc_chars (A @ [N]) \<union> cc_chars B"
proof -
  have N: "range_ok N" "cc_wf A" "\<And>a. a \<in> set A \<Longrightarrow> gap a N" using A by (auto simp: cc_wf_append cc_wf_Cons)
  have AB: "gap a b" if "a \<in> set A" "b \<in> set B" for a b
    using N(1) N(3) [OF that(1)] lt [OF that(2)] by (auto simp: gap_def range_ok_def intro: exI)
  have "cc_wf (A @ (if adj then N\<lparr>high := high (hd B)\<rparr> else N) # (if adj then tl B else B))
    \<and> cc_chars (A @ (if adj then N\<lparr>high := high (hd B)\<rparr> else N) # (if adj then tl B else B)) = cc_chars (A @ [N]) \<union> cc_chars B"
  proof (cases B)
    case Nil
    then show ?thesis using A by (simp add: adj_def)
  next
    case (Cons b B')
    have b: "range_ok b" "high N < low b" "cc_wf B'" "\<And>x. x \<in> set B' \<Longrightarrow> gap b x"
      using B lt Cons by (auto simp: cc_wf_Cons)
    show ?thesis
    proof (cases "are_chars_adjacent u (high N) (low b)")
      case True
      let ?N = "N\<lparr>high := high b\<rparr>"
      have e: "?N = \<lparr>low = low N, high = high b\<rparr>" by simp
      have "range_chars ?N = range_chars N \<union> range_chars b"
        unfolding e using True are_chars_adjacent_ok N b by (intro join_adjacent) (auto simp: range_ok_def)
      moreover have "range_ok ?N" using b N by (auto simp: range_ok_def)
      moreover have "gap a ?N" if "a \<in> set A" for a using N(3) [OF that] by (simp add: gap_def)
      moreover have "gap ?N x" if "x \<in> set B'" for x using b(4) [OF that] by (simp add: gap_def)
      ultimately show ?thesis using True b N AB Cons by (auto simp: adj_def cc_wf_append cc_wf_Cons)
    next
      case False
      then have Nb: "gap N b" by (rule not_adjacent_gap [OF N(1) b(1,2)])
      moreover have "gap N x" if "x \<in> set B'" for x
        using b(4) [OF that] b(1,2) by (auto simp: gap_def range_ok_def intro: exI)
      ultimately show ?thesis using False b N AB Cons by (auto simp: adj_def cc_wf_append cc_wf_Cons)
    qed
  qed
  then show "cc_wf (A @ (if adj then N\<lparr>high := high (hd B)\<rparr> else N) # (if adj then tl B else B))"
    and "cc_chars (A @ (if adj then N\<lparr>high := high (hd B)\<rparr> else N) # (if adj then tl B else B)) = cc_chars (A @ [N]) \<union> cc_chars B"
    by blast+
qed

lemma replace_ranges_ok:
  assumes A: "cc_wf A" and B: "cc_wf B" and N: "range_ok N"
    and lo: "\<And>a. a \<in> set A \<Longrightarrow> high a < low N" and hi: "\<And>b. b \<in> set B \<Longrightarrow> high N < low b"
  shows "\<exists>rs'. replace_ranges u N (length A) (length A + length M) (A @ M @ B) = Ok rs'
    \<and> cc_wf rs' \<and> cc_chars rs' = cc_chars A \<union> range_chars N \<union> cc_chars B"
proof -
  define adjl where "adjl \<longleftrightarrow> A \<noteq> [] \<and> are_chars_adjacent u (high (last A)) (low N)"
  define A1 where "A1 = (if adjl then butlast A else A)"
  define N1 where "N1 = (if adjl then N\<lparr>low := low (last A)\<rparr> else N)"
  define adjr where "adjr \<longleftrightarrow> B \<noteq> [] \<and> are_chars_adjacent u (high N1) (low (hd B))"
  define N2 where "N2 = (if adjr then N1\<lparr>high := high (hd B)\<rparr> else N1)"
  define B1 where "B1 = (if adjr then tl B else B)"
  have h1: "high N1 = high N" by (simp add: N1_def)
  have w1: "cc_wf (A1 @ [N1])" "cc_chars (A1 @ [N1]) = cc_chars A \<union> range_chars N"
    using merge_left [OF A N lo] unfolding A1_def N1_def adjl_def by simp_all
  have w2: "cc_wf (A1 @ N2 # B1)" "cc_chars (A1 @ N2 # B1) = cc_chars A \<union> range_chars N \<union> cc_chars B"
    using merge_right [OF w1(1) B] hi w1(2) unfolding N2_def B1_def adjr_def h1 by simp_all
  have left: "(if length A > 0 then
          if length A - 1 < length (A @ M @ B) then
            let prev_char_range = (A @ M @ B) ! (length A - 1) in
            Ok (if are_chars_adjacent u (high prev_char_range) (low N)
                then (N\<lparr>low := low prev_char_range\<rparr>, length A - 1) else (N, length A))
          else Panic
        else Ok (N, length A)) = (Ok (N1, length A1) :: _ cc)"
  proof (cases A rule: rev_cases)
    case (snoc A' p)
    then show ?thesis by (simp add: N1_def A1_def adjl_def nth_append)
  qed (simp add: N1_def A1_def adjl_def)
  have right: "(if length A + length M < length (A @ M @ B) then
          let next_char_range = (A @ M @ B) ! (length A + length M) in
          if are_chars_adjacent u (high N1) (low next_char_range)
          then (N1\<lparr>high := high next_char_range\<rparr>, length A + length M + 1)
          else (N1, length A + length M)
        else (N1, length A + length M)) = (N2, length A + length M + (if adjr then 1 else 0))"
    by (cases B) (simp_all add: N2_def adjr_def nth_append)
  have t: "take (length A1) (A @ M @ B) = A1"
    by (cases A rule: rev_cases) (auto simp: A1_def adjl_def)
  have d: "drop (length A + length M + (if adjr then 1 else 0)) (A @ M @ B) = B1"
    by (cases B) (auto simp: B1_def adjr_def)
  have le: "length A1 \<le> length A" "(if adjr then 1 else 0) \<le> length B"
    by (simp add: A1_def) (cases B; simp add: adjr_def)
  have "replace_ranges u N (length A) (length A + length M) (A @ M @ B)
      = vec_splice (A @ M @ B) (length A1) (length A + length M + (if adjr then 1 else 0)) [N2]"
    unfolding replace_ranges_def Let_def left [unfolded Let_def] bindO.simps prod.case right [unfolded Let_def] ..
  also have "\<dots> = Ok (A1 @ N2 # B1)"
    unfolding vec_splice_def t d using le by simp
  finally show ?thesis using w2 by blast
qed

section \<open>The two ends of a range in a collection\<close>

text \<open>
  Where a new range starts: the index of the first range it can touch, and the low end the joined
  range has. The upper end is the mirror image.
\<close>

lemma lower_end:
  assumes wf: "cc_wf rs" and q: "char_ok q"
  obtains fr i nl where "find_containing_range u rs q = Ok fr"
    and "fr = Inr (i, rs ! i) \<and> i < length rs \<and> nl = low (rs ! i) \<and> q \<le> high (rs ! i) \<or> fr = Inl i \<and> nl = q"
    and "i \<le> length rs" and "char_ok nl" and "nl \<le> q"
    and "\<And>a. a \<in> set (take i rs) \<Longrightarrow> high a < nl" and "\<And>b. b \<in> set (drop i rs) \<Longrightarrow> nl \<le> low b"
    and "\<And>c. char_ok c \<Longrightarrow> nl \<le> c \<Longrightarrow> c < q \<Longrightarrow> c \<in> cc_chars rs"
proof -
  note ok = cc_wf_nth(1) [OF wf] and lt = gap_less [OF cc_wf_nth(2) [OF wf]]
  from find_cases [OF wf, of q] show thesis
  proof (elim disjE exE conjE)
    fix i assume i: "i < length rs" "find_containing_range u rs q = Ok (Inr (i, rs ! i))" "low (rs ! i) \<le> q" "q \<le> high (rs ! i)"
    show thesis
    proof (rule that [OF i(2), of i "low (rs ! i)"])
      show "high a < low (rs ! i)" if "a \<in> set (take i rs)" for a
        using that by (rule in_set_takeE) (use lt i(1) in simp)
      show "low (rs ! i) \<le> low b" if b: "b \<in> set (drop i rs)" for b
      proof -
        obtain k where k: "i \<le> k" "k < length rs" "b = rs ! k" by (rule in_set_dropE [OF b])
        then show ?thesis using lt [of i k] ok [of i] by (cases "k = i") (simp_all add: range_ok_def)
      qed
      show "c \<in> cc_chars rs" if "char_ok c" "low (rs ! i) \<le> c" "c < q" for c
        using cc_chars_nth [OF i(1), of c] that i(4) by (simp add: range_chars_iff)
    qed (use i ok [of i] in \<open>simp_all add: range_ok_def\<close>)
  next
    fix i assume i: "i \<le> length rs" "find_containing_range u rs q = Ok (Inl i)" "\<forall>j<i. high (rs ! j) < q"
      "\<forall>j. i \<le> j \<and> j < length rs \<longrightarrow> q < low (rs ! j)"
    show thesis
    proof (rule that [OF i(2), of i q])
      show "high a < q" if "a \<in> set (take i rs)" for a using that by (rule in_set_takeE) (simp add: i(3))
      show "q \<le> low b" if "b \<in> set (drop i rs)" for b using that by (rule in_set_dropE) (simp add: i(4) less_imp_le)
    qed (simp_all add: i(1) q)
  qed
qed

lemma upper_end:
  assumes wf: "cc_wf rs" and q: "char_ok q"
  obtains fr j nh where "find_containing_range u rs q = Ok fr"
    and "(\<exists>k. fr = Inr (k, rs ! k) \<and> k < length rs \<and> j = Suc k \<and> nh = high (rs ! k) \<and> low (rs ! k) \<le> q) \<or> fr = Inl j \<and> nh = q"
    and "j \<le> length rs" and "char_ok nh" and "q \<le> nh"
    and "\<And>a. a \<in> set (take j rs) \<Longrightarrow> high a \<le> nh" and "\<And>b. b \<in> set (drop j rs) \<Longrightarrow> nh < low b"
    and "\<And>c. char_ok c \<Longrightarrow> q < c \<Longrightarrow> c \<le> nh \<Longrightarrow> c \<in> cc_chars rs"
proof -
  note ok = cc_wf_nth(1) [OF wf] and lt = gap_less [OF cc_wf_nth(2) [OF wf]]
  from find_cases [OF wf, of q] show thesis
  proof (elim disjE exE conjE)
    fix k assume k: "k < length rs" "find_containing_range u rs q = Ok (Inr (k, rs ! k))" "low (rs ! k) \<le> q" "q \<le> high (rs ! k)"
    show thesis
    proof (rule that [OF k(2), of "Suc k" "high (rs ! k)"])
      show "high a \<le> high (rs ! k)" if a: "a \<in> set (take (Suc k) rs)" for a
      proof -
        obtain l where l: "l < Suc k" "a = rs ! l" by (rule in_set_takeE [OF a])
        then show ?thesis using lt [of l k] ok [of k] k(1) by (cases "l = k") (simp_all add: range_ok_def)
      qed
      show "high (rs ! k) < low b" if "b \<in> set (drop (Suc k) rs)" for b
        using that by (rule in_set_dropE) (use lt in simp)
      show "c \<in> cc_chars rs" if "char_ok c" "q < c" "c \<le> high (rs ! k)" for c
        using cc_chars_nth [OF k(1), of c] that k(3) by (simp add: range_chars_iff)
    qed (use k ok [of k] in \<open>simp_all add: range_ok_def\<close>)
  next
    fix i assume i: "i \<le> length rs" "find_containing_range u rs q = Ok (Inl i)" "\<forall>j<i. high (rs ! j) < q"
      "\<forall>j. i \<le> j \<and> j < length rs \<longrightarrow> q < low (rs ! j)"
    show thesis
    proof (rule that [OF i(2), of i q])
      show "high a \<le> q" if "a \<in> set (take i rs)" for a using that by (rule in_set_takeE) (simp add: i(3) less_imp_le)
      show "q < low b" if "b \<in> set (drop i rs)" for b using that by (rule in_set_dropE) (simp add: i(4))
    qed (simp_all add: i(1) q)
  qed
qed

lemma cc_wf_take_drop:
  assumes "cc_wf rs"
  shows "cc_wf (take i rs)" and "cc_wf (drop i rs)"
  using assms cc_wf_append [of "take i rs" "drop i rs"] by simp_all

lemma ends_ordered:
  assumes wf: "cc_wf rs" and ij: "i \<le> length rs"
    and lo: "\<And>a. a \<in> set (take i rs) \<Longrightarrow> high a < nl" and hi: "\<And>b. b \<in> set (drop j rs) \<Longrightarrow> nh < low b" and le: "nl \<le> nh"
  shows "i \<le> j"
proof (rule ccontr)
  assume "\<not> i \<le> j"
  then have j: "j < i" "j < length rs" using ij by auto
  have "rs ! j \<in> set (take i rs)" using j by (auto simp: in_set_conv_nth intro!: exI [of _ j])
  moreover have "rs ! j \<in> set (drop j rs)" using j(2) by (simp add: Cons_nth_drop_Suc [symmetric])
  ultimately show False
    using lo hi le cc_wf_nth(1) [OF wf j(2)] by (fastforce simp: range_ok_def)
qed

section \<open>Insertion\<close>

lemma insert_char_range_ok:
  assumes wf: "cc_wf rs" and r: "char_ok (low r)" "char_ok (high r)"
  shows "\<exists>rs'. insert_char_range u r rs = Ok rs' \<and> cc_wf rs' \<and> cc_chars rs' = cc_chars rs \<union> range_chars r"
proof (cases "high r < low r")
  case True
  then have "range_chars r = {}" by (auto simp: range_chars_iff)
  then show ?thesis using True wf is_empty by (simp add: insert_char_range_def)
next
  case False
  obtain fl i nl where l: "find_containing_range u rs (low r) = Ok fl"
    "fl = Inr (i, rs ! i) \<and> i < length rs \<and> nl = low (rs ! i) \<and> low r \<le> high (rs ! i) \<or> fl = Inl i \<and> nl = low r"
    "i \<le> length rs" "char_ok nl" "nl \<le> low r"
    "\<And>a. a \<in> set (take i rs) \<Longrightarrow> high a < nl" "\<And>b. b \<in> set (drop i rs) \<Longrightarrow> nl \<le> low b"
    "\<And>c. char_ok c \<Longrightarrow> nl \<le> c \<Longrightarrow> c < low r \<Longrightarrow> c \<in> cc_chars rs"
    by (rule lower_end [OF wf r(1)]) blast
  obtain fu j nh where h: "find_containing_range u rs (high r) = Ok fu"
    "(\<exists>k. fu = Inr (k, rs ! k) \<and> k < length rs \<and> j = Suc k \<and> nh = high (rs ! k) \<and> low (rs ! k) \<le> high r) \<or> fu = Inl j \<and> nh = high r"
    "j \<le> length rs" "char_ok nh" "high r \<le> nh"
    "\<And>a. a \<in> set (take j rs) \<Longrightarrow> high a \<le> nh" "\<And>b. b \<in> set (drop j rs) \<Longrightarrow> nh < low b"
    "\<And>c. char_ok c \<Longrightarrow> high r < c \<Longrightarrow> c \<le> nh \<Longrightarrow> c \<in> cc_chars rs"
    by (rule upper_end [OF wf r(2)]) blast
  show ?thesis
  proof (cases "same_range u fl fu")
    case True
    then have i: "i < length rs" "fu = Inr (i, rs ! i)" "fl = Inr (i, rs ! i)"
      using l(2) h(2) by (auto simp: same_range_def)
    then have "range_chars r \<subseteq> cc_chars rs"
      using l(2,5) h(2,5) cc_chars_nth [OF i(1)] by (auto simp: range_chars_iff)
    then show ?thesis
      using True l(1) h(1) wf False is_empty by (auto simp: insert_char_range_def)
  next
    case ns: False
    let ?N = "\<lparr>low = nl, high = nh\<rparr>" let ?A = "take i rs" let ?M = "drop i (take j rs)" let ?B = "drop j rs"
    have le: "nl \<le> nh" using l(5) h(5) False by simp
    have ij: "i \<le> j" by (rule ends_ordered [OF wf l(3,6) h(7) le])
    have "?A @ ?M = take j rs" using ij by (metis append_take_drop_id min.absorb1 take_take)
    then have rs: "rs = ?A @ ?M @ ?B" by (metis append_assoc append_take_drop_id)
    have len: "length ?A = i" "i + length ?M = j" using ij l(3) h(3) by simp_all
    have pair: "(case fl of Inr (idx, r') \<Rightarrow> (low r', idx) | Inl idx \<Rightarrow> (low r, idx)) = (nl, i)"
      "(case fu of Inr (idx, r') \<Rightarrow> (high r', idx + 1) | Inl idx \<Rightarrow> (high r, idx)) = (nh, j)"
      using l(2) h(2) by auto
    have ins: "insert_char_range u r rs = replace_ranges u ?N (length ?A) (length ?A + length ?M) (?A @ ?M @ ?B)"
      unfolding len rs [symmetric] using l(1) h(1) ns False is_empty pair closed by (simp add: insert_char_range_def)
    have mid: "range_chars x \<subseteq> range_chars ?N" if "x \<in> set ?M" for x
    proof -
      have "x \<in> set (take j rs)" using that by (rule in_set_dropD)
      moreover have "x \<in> set (drop i rs)" using that unfolding drop_take by (rule in_set_takeD)
      ultimately show ?thesis using l(7) [of x] h(6) [of x] by (auto simp: range_chars_iff)
    qed
    have "cc_chars rs = cc_chars ?A \<union> cc_chars ?M \<union> cc_chars ?B" using rs by (metis cc_chars_simps(3) sup_assoc)
    moreover have "cc_chars ?M \<subseteq> range_chars ?N" using mid by (auto simp: cc_chars_def)
    moreover have "range_chars ?N \<subseteq> cc_chars rs \<union> range_chars r"
    proof
      fix c assume "c \<in> range_chars ?N"
      then show "c \<in> cc_chars rs \<union> range_chars r"
        using l(8) [of c] h(8) [of c] by (cases "c < low r"; cases "high r < c") (auto simp: range_chars_iff)
    qed
    moreover have "range_chars r \<subseteq> range_chars ?N" using l(5) h(5) by (auto simp: range_chars_iff)
    ultimately have "cc_chars ?A \<union> range_chars ?N \<union> cc_chars ?B = cc_chars rs \<union> range_chars r" by blast
    moreover have "\<exists>rs'. replace_ranges u ?N (length ?A) (length ?A + length ?M) (?A @ ?M @ ?B) = Ok rs'
        \<and> cc_wf rs' \<and> cc_chars rs' = cc_chars ?A \<union> range_chars ?N \<union> cc_chars ?B"
      by (rule replace_ranges_ok) (use cc_wf_take_drop [OF wf] l(4,6) h(4,7) le in \<open>auto simp: range_ok_def\<close>)
    ultimately show ?thesis unfolding ins by simp
  qed
qed

section \<open>Removal\<close>

lemma range_ok_of_chars:
  assumes "char_ok (low r)" and "char_ok (high r)" and "c \<in> range_chars r"
  shows "range_ok r" and "low r \<in> range_chars r" and "high r \<in> range_chars r"
  using assms by (auto simp: range_ok_def range_chars_iff)

text \<open>What is left of a range below \<open>q\<close>, and above it.\<close>

lemma rest_below:
  assumes x: "range_ok x" and q: "char_ok q" "low x < q" "q \<le> high x"
  defines "R \<equiv> op_open_right u (low x) q"
  shows "range_ok R" and "low x \<le> low R" and "high R < q" and "range_chars R = {c \<in> range_chars x. c < q}"
proof -
  have xl: "char_ok (low x)" using x by (simp add: range_ok_def)
  have R: "range_chars R = {c. char_ok c \<and> low x \<le> c \<and> c < q}" unfolding R_def by (rule open_right_chars [OF xl q(1)])
  have "char_ok (low R) \<and> char_ok (high R)" by (rule open_ends [OF xl q(1)]) (simp add: R_def)
  then have ends: "char_ok (low R)" "char_ok (high R)" by simp_all
  have "low x \<in> range_chars R" using xl q(2) R by simp
  note n = range_ok_of_chars [OF ends this]
  show "range_ok R" by (rule n(1))
  show "low x \<le> low R" "high R < q" using n(2,3) unfolding R by simp_all
  show "range_chars R = {c \<in> range_chars x. c < q}" unfolding R using q(3) by (auto simp: range_chars_iff)
qed

lemma rest_above:
  assumes x: "range_ok x" and q: "char_ok q" "low x \<le> q" "q < high x"
  defines "R \<equiv> op_open_left u q (high x)"
  shows "range_ok R" and "q < low R" and "high R \<le> high x" and "range_chars R = {c \<in> range_chars x. q < c}"
proof -
  have xl: "char_ok (high x)" using x by (simp add: range_ok_def)
  have R: "range_chars R = {c. char_ok c \<and> q < c \<and> c \<le> high x}" unfolding R_def by (rule open_left_chars [OF q(1) xl])
  have "char_ok (low R) \<and> char_ok (high R)" by (rule open_ends [OF q(1) xl]) (simp add: R_def)
  then have ends: "char_ok (low R)" "char_ok (high R)" by simp_all
  have "high x \<in> range_chars R" using xl q(3) R by simp
  note n = range_ok_of_chars [OF ends this]
  show "range_ok R" by (rule n(1))
  show "q < low R" "high R \<le> high x" using n(2,3) unfolding R by simp_all
  show "range_chars R = {c \<in> range_chars x. q < c}" unfolding R using q(2) by (auto simp: range_chars_iff)
qed

lemma chars_bounds:
  assumes "c \<in> cc_chars A"
  obtains a where "a \<in> set A" and "low a \<le> c" and "c \<le> high a"
  using assms by (auto simp: cc_chars_def range_chars_iff)

lemma below_chars:
  assumes "\<And>a. a \<in> set A \<Longrightarrow> high a < q"
  shows "{c \<in> cc_chars A. c < q} = cc_chars A"
proof -
  have "c < q" if c: "c \<in> cc_chars A" for c
    by (rule chars_bounds [OF c]) (erule le_less_trans, rule assms)
  then show ?thesis by auto
qed

lemma above_none:
  assumes "\<And>b. b \<in> set B \<Longrightarrow> q \<le> low b"
  shows "{c \<in> cc_chars B. c < q} = {}"
proof -
  have "q \<le> c" if c: "c \<in> cc_chars B" for c
    by (rule chars_bounds [OF c]) (rule order_trans [OF assms])
  then show ?thesis by (simp add: not_less)
qed

lemma above_chars:
  assumes "\<And>b. b \<in> set B \<Longrightarrow> q < low b"
  shows "{c \<in> cc_chars B. q < c} = cc_chars B"
proof -
  have "q < c" if c: "c \<in> cc_chars B" for c
    by (rule chars_bounds [OF c]) (rule less_le_trans [OF assms])
  then show ?thesis by auto
qed

lemma below_none:
  assumes "\<And>a. a \<in> set A \<Longrightarrow> high a \<le> q"
  shows "{c \<in> cc_chars A. q < c} = {}"
proof -
  have "c \<le> q" if c: "c \<in> cc_chars A" for c
    by (rule chars_bounds [OF c]) (erule order_trans, rule assms)
  then show ?thesis by (simp add: not_less)
qed

lemma remove_left:
  assumes wf: "cc_wf rs" and q: "char_ok q"
  obtains fr L i where "find_containing_range u rs q = Ok fr"
    and "(case fr of Inr (idx, r) \<Rightarrow> (if low r < q then [op_open_right u (low r) q] else [], idx) | Inl idx \<Rightarrow> ([], idx)) = (L, i)"
    and "i \<le> length rs" and "cc_wf (take i rs @ L)" and "\<And>a. a \<in> set (take i rs @ L) \<Longrightarrow> high a < q"
    and "cc_chars (take i rs @ L) = {c \<in> cc_chars rs. c < q}"
proof -
  obtain fr i nl where l: "find_containing_range u rs q = Ok fr"
    "fr = Inr (i, rs ! i) \<and> i < length rs \<and> nl = low (rs ! i) \<and> q \<le> high (rs ! i) \<or> fr = Inl i \<and> nl = q"
    "i \<le> length rs" "char_ok nl" "nl \<le> q"
    "\<And>a. a \<in> set (take i rs) \<Longrightarrow> high a < nl" "\<And>b. b \<in> set (drop i rs) \<Longrightarrow> nl \<le> low b"
    by (rule lower_end [OF wf q]) blast
  have A: "\<And>a. a \<in> set (take i rs) \<Longrightarrow> high a < q" using l(5,6) by fastforce
  have td: "cc_chars rs = cc_chars (take i rs) \<union> cc_chars (drop i rs)" by (metis append_take_drop_id cc_chars_simps(3))
  show thesis
  proof (cases "fr = Inl i \<and> nl = q")
    case True
    have "{c \<in> cc_chars rs. c < q} = cc_chars (take i rs)"
      using below_chars [OF A] above_none [of "drop i rs" q] l(7) True by (auto simp: td)
    then show thesis
      using True l(1,3) A cc_wf_take_drop(1) [OF wf] by (intro that [of fr "[]" i]) auto
  next
    case False
    let ?x = "rs ! i"
    have i: "fr = Inr (i, ?x)" "i < length rs" "nl = low ?x" "q \<le> high ?x" using l(2) False by auto
    have rs: "rs = take i rs @ ?x # drop (Suc i) rs" using i(2) by (rule id_take_nth_drop)
    have "cc_wf (take i rs @ ?x # drop (Suc i) rs)" using wf unfolding rs [symmetric] .
    then have x: "range_ok ?x" "\<And>b. b \<in> set (drop (Suc i) rs) \<Longrightarrow> gap ?x b" "\<And>a. a \<in> set (take i rs) \<Longrightarrow> gap a ?x"
      by (simp_all add: cc_wf_append cc_wf_Cons)
    have B: "q \<le> low b" if "b \<in> set (drop (Suc i) rs)" for b using gap_less [OF x(2) [OF that]] i(4) by simp
    have td: "cc_chars rs = cc_chars (take i rs) \<union> range_chars ?x \<union> cc_chars (drop (Suc i) rs)"
      by (subst rs) (simp add: Un_assoc)
    have chars: "{c \<in> cc_chars rs. c < q} = cc_chars (take i rs) \<union> {c \<in> range_chars ?x. c < q}"
      using below_chars [OF A] above_none [OF B] unfolding td by auto
    show thesis
    proof (cases "low ?x < q")
      case True
      let ?R = "op_open_right u (low ?x) q"
      note R = rest_below [OF x(1) q True i(4)]
      have "gap a ?R" if "a \<in> set (take i rs)" for a
        using x(3) [OF that] R(2) by (meson gap_def order_less_le_trans)
      then show thesis
        using i l(1,3) True R A chars cc_wf_take_drop(1) [OF wf]
        by (intro that [of fr "[?R]" i]) (auto simp: cc_wf_append cc_wf_Cons)
    next
      case nl: False
      then have "{c \<in> range_chars ?x. c < q} = {}" by (auto simp: range_chars_iff)
      then show thesis
        using i l(1,3) nl A chars cc_wf_take_drop(1) [OF wf] by (intro that [of fr "[]" i]) auto
    qed
  qed
qed

lemma remove_right:
  assumes wf: "cc_wf rs" and q: "char_ok q"
  obtains fr R j where "find_containing_range u rs q = Ok fr"
    and "(case fr of Inr (idx, r) \<Rightarrow> (if q < high r then [op_open_left u q (high r)] else [], idx + 1) | Inl idx \<Rightarrow> ([], idx)) = (R, j)"
    and "j \<le> length rs" and "cc_wf (R @ drop j rs)" and "\<And>b. b \<in> set (R @ drop j rs) \<Longrightarrow> q < low b"
    and "cc_chars (R @ drop j rs) = {c \<in> cc_chars rs. q < c}"
proof -
  obtain fr j nh where l: "find_containing_range u rs q = Ok fr"
    "(\<exists>k. fr = Inr (k, rs ! k) \<and> k < length rs \<and> j = Suc k \<and> nh = high (rs ! k) \<and> low (rs ! k) \<le> q) \<or> fr = Inl j \<and> nh = q"
    "j \<le> length rs" "char_ok nh" "q \<le> nh"
    "\<And>a. a \<in> set (take j rs) \<Longrightarrow> high a \<le> nh" "\<And>b. b \<in> set (drop j rs) \<Longrightarrow> nh < low b"
    by (rule upper_end [OF wf q]) blast
  have B: "\<And>b. b \<in> set (drop j rs) \<Longrightarrow> q < low b" using l(5,7) by fastforce
  have td: "cc_chars rs = cc_chars (take j rs) \<union> cc_chars (drop j rs)" by (metis append_take_drop_id cc_chars_simps(3))
  show thesis
  proof (cases "fr = Inl j \<and> nh = q")
    case True
    have "{c \<in> cc_chars rs. q < c} = cc_chars (drop j rs)"
      using above_chars [OF B] below_none [of "take j rs" q] l(6) True by (auto simp: td)
    then show thesis
      using True l(1,3) B cc_wf_take_drop(2) [OF wf] by (intro that [of fr "[]" j]) auto
  next
    case False
    then obtain k where k: "fr = Inr (k, rs ! k)" "k < length rs" "j = Suc k" "nh = high (rs ! k)" "low (rs ! k) \<le> q"
      using l(2) by blast
    let ?x = "rs ! k"
    have rs: "rs = take k rs @ ?x # drop j rs" using id_take_nth_drop [OF k(2)] k(3) by simp
    have "cc_wf (take k rs @ ?x # drop j rs)" using wf unfolding rs [symmetric] .
    then have x: "range_ok ?x" "\<And>b. b \<in> set (drop j rs) \<Longrightarrow> gap ?x b" "\<And>a. a \<in> set (take k rs) \<Longrightarrow> gap a ?x"
      by (simp_all add: cc_wf_append cc_wf_Cons)
    have A: "high a \<le> q" if "a \<in> set (take k rs)" for a using gap_less [OF x(3) [OF that]] k(5) by simp
    have td: "cc_chars rs = cc_chars (take k rs) \<union> range_chars ?x \<union> cc_chars (drop j rs)"
      by (subst rs) (simp add: Un_assoc)
    have chars: "{c \<in> cc_chars rs. q < c} = {c \<in> range_chars ?x. q < c} \<union> cc_chars (drop j rs)"
      using below_none [OF A] above_chars [OF B] unfolding td by auto
    show thesis
    proof (cases "q < high ?x")
      case True
      let ?R = "op_open_left u q (high ?x)"
      note R = rest_above [OF x(1) q k(5) True]
      have "gap ?R b" if "b \<in> set (drop j rs)" for b
        using x(2) [OF that] R(3) by (meson gap_def order_le_less_trans)
      then show thesis
        using k l(1,3) True R B chars cc_wf_take_drop(2) [OF wf]
        by (intro that [of fr "[?R]" j]) (auto simp: cc_wf_Cons)
    next
      case nl: False
      then have "{c \<in> range_chars ?x. q < c} = {}" by (auto simp: range_chars_iff)
      then show thesis
        using k l(1,3) nl B chars cc_wf_take_drop(2) [OF wf] by (intro that [of fr "[]" j]) auto
    qed
  qed
qed

lemma remove_char_range_ok:
  assumes wf: "cc_wf rs" and r: "char_ok (low r)" "char_ok (high r)"
  shows "\<exists>rs'. remove_char_range u r rs = Ok rs' \<and> cc_wf rs' \<and> cc_chars rs' = cc_chars rs - range_chars r"
proof (cases "high r < low r")
  case True
  then have "range_chars r = {}" by (auto simp: range_chars_iff)
  then show ?thesis using True wf is_empty by (simp add: remove_char_range_def)
next
  case False
  obtain fl L i where l: "find_containing_range u rs (low r) = Ok fl"
    "(case fl of Inr (idx, x) \<Rightarrow> (if low x < low r then [op_open_right u (low x) (low r)] else [], idx) | Inl idx \<Rightarrow> ([], idx)) = (L, i)"
    "i \<le> length rs" "cc_wf (take i rs @ L)" "\<And>a. a \<in> set (take i rs @ L) \<Longrightarrow> high a < low r"
    "cc_chars (take i rs @ L) = {c \<in> cc_chars rs. c < low r}"
    by (rule remove_left [OF wf r(1)]) blast
  obtain fu R j where h: "find_containing_range u rs (high r) = Ok fu"
    "(case fu of Inr (idx, x) \<Rightarrow> (if high r < high x then [op_open_left u (high r) (high x)] else [], idx + 1) | Inl idx \<Rightarrow> ([], idx)) = (R, j)"
    "j \<le> length rs" "cc_wf (R @ drop j rs)" "\<And>b. b \<in> set (R @ drop j rs) \<Longrightarrow> high r < low b"
    "cc_chars (R @ drop j rs) = {c \<in> cc_chars rs. high r < c}"
    by (rule remove_right [OF wf r(2)]) blast
  let ?rs = "(take i rs @ L) @ (R @ drop j rs)"
  have "i \<le> j" by (rule ends_ordered [OF wf l(3), of "low r" j "high r"]) (use l(5) h(5) False in auto)
  then have "remove_char_range u r rs = Ok ?rs"
    using l(1) h(1,3) False is_empty by (simp add: remove_char_range_def l(2) h(2) vec_splice_def)
  moreover have "cc_wf ?rs"
    unfolding cc_wf_append [of "take i rs @ L"] using l(4,5) h(4,5) r(1) False by (fastforce simp: gap_def)
  moreover have "cc_chars ?rs = cc_chars rs - range_chars r"
    unfolding cc_chars_simps(3) [of "take i rs @ L"] l(6) h(6)
    by (auto simp: range_chars_iff) (auto simp: cc_chars_def range_chars_iff)
  ultimately show ?thesis by blast
qed

section \<open>Collections of ranges\<close>

lemma for_each_insert_ok:
  assumes "cc_wf rs" and "\<forall>r\<in>set xs. char_ok (low r) \<and> char_ok (high r)"
  shows "\<exists>rs'. for_each_range (insert_char_range u) xs rs = Ok rs' \<and> cc_wf rs' \<and> cc_chars rs' = cc_chars rs \<union> cc_chars xs"
  using assms
proof (induction xs arbitrary: rs)
  case (Cons x xs)
  obtain rs1 where rs1: "insert_char_range u x rs = Ok rs1" "cc_wf rs1" "cc_chars rs1 = cc_chars rs \<union> range_chars x"
    using insert_char_range_ok [OF Cons.prems(1), of x] Cons.prems(2) by auto
  from Cons.IH [OF rs1(2)] Cons.prems(2) rs1 show ?case by (auto simp: Un_assoc)
qed simp

lemma for_each_remove_ok:
  assumes "cc_wf rs" and "\<forall>r\<in>set xs. char_ok (low r) \<and> char_ok (high r)"
  shows "\<exists>rs'. for_each_range (remove_char_range u) xs rs = Ok rs' \<and> cc_wf rs' \<and> cc_chars rs' = cc_chars rs - cc_chars xs"
  using assms
proof (induction xs arbitrary: rs)
  case (Cons x xs)
  obtain rs1 where rs1: "remove_char_range u x rs = Ok rs1" "cc_wf rs1" "cc_chars rs1 = cc_chars rs - range_chars x"
    using remove_char_range_ok [OF Cons.prems(1), of x] Cons.prems(2) by auto
  from Cons.IH [OF rs1(2)] Cons.prems(2) rs1 show ?case by (auto simp: Diff_eq)
qed simp

lemma cc_insert_ok:
  "cc_wf rs \<Longrightarrow> multi_ok m \<Longrightarrow>
    \<exists>rs'. cc_insert u m rs = Ok rs' \<and> cc_wf rs' \<and> cc_chars rs' = cc_chars rs \<union> multi_chars m"
  unfolding cc_insert_def multi_ok_def multi_chars_def by (rule for_each_insert_ok)

lemma cc_remove_ok:
  "cc_wf rs \<Longrightarrow> multi_ok m \<Longrightarrow>
    \<exists>rs'. cc_remove u m rs = Ok rs' \<and> cc_wf rs' \<and> cc_chars rs' = cc_chars rs - multi_chars m"
  unfolding cc_remove_def multi_ok_def multi_chars_def by (rule for_each_remove_ok)

lemma collection_from_ok:
  "multi_ok m \<Longrightarrow> \<exists>rs'. collection_from u m = Ok rs' \<and> cc_wf rs' \<and> cc_chars rs' = multi_chars m"
  using cc_insert_ok [of "[]" m] by (simp add: collection_from_def collection_new_def)

lemma collection_ranges_ok:
  "cc_wf rs \<Longrightarrow> multi_ok (collection_ranges rs)" "multi_chars (collection_ranges rs) = cc_chars rs"
  by (auto simp: multi_ok_def multi_chars_def collection_ranges_def cc_wf_def range_ok_def)

lemma cc_union_ok:
  assumes "cc_wf rs" and "multi_ok m"
  shows "\<exists>rs'. cc_union u rs m = Ok rs' \<and> cc_wf rs' \<and> cc_chars rs' = cc_chars rs \<union> multi_chars m"
proof (cases "length rs > range_count m")
  case True
  then show ?thesis using cc_insert_ok [OF assms] by (simp add: cc_union_def)
next
  case False
  obtain rs1 where rs1: "collection_from u m = Ok rs1" "cc_wf rs1" "cc_chars rs1 = multi_chars m"
    using collection_from_ok [OF assms(2)] by blast
  show ?thesis
    using cc_insert_ok [OF rs1(2) collection_ranges_ok(1) [OF assms(1)]] False rs1 collection_ranges_ok(2) [of rs]
    by (auto simp: cc_union_def)
qed

section \<open>The complement\<close>

lemma open_ok:
  assumes "char_ok a" and "char_ok b" and "char_ok c" "a < c" "c < b"
  shows "range_ok (op_open u a b)" and "a < low (op_open u a b)" and "high (op_open u a b) < b"
proof -
  let ?R = "op_open u a b"
  have R: "range_chars ?R = {c. char_ok c \<and> a < c \<and> c < b}" by (rule open_chars [OF assms(1,2)])
  have "char_ok (low ?R) \<and> char_ok (high ?R)" by (rule open_ends [OF assms(1,2)]) simp
  then have ends: "char_ok (low ?R)" "char_ok (high ?R)" by simp_all
  have "c \<in> range_chars ?R" using assms R by simp
  note n = range_ok_of_chars [OF ends this]
  show "range_ok ?R" by (rule n(1))
  show "a < low ?R" "high ?R < b" using n(2,3) unfolding R by simp_all
qed

lemma gaps_ok:
  assumes "cc_wf (r # rs)"
  shows "\<exists>G h. gaps u (high r) rs = (G, h) \<and> char_ok h \<and> high r \<le> h \<and> cc_wf G
    \<and> (\<forall>x\<in>set G. high r < low x \<and> high x < h)
    \<and> (\<forall>c\<in>cc_chars (r # rs). c \<le> h) \<and> h \<in> cc_chars (r # rs)
    \<and> cc_chars G = {c. char_ok c \<and> high r < c \<and> c < h} - cc_chars rs"
  using assms
proof (induction rs arbitrary: r)
  case Nil
  then show ?case by (auto simp: cc_wf_Cons range_ok_def range_chars_iff)
next
  case (Cons s rs)
  have wf: "range_ok r" "range_ok s" "gap r s" "cc_wf (s # rs)" using Cons.prems by (auto simp: cc_wf_Cons)
  obtain G h where G: "gaps u (high s) rs = (G, h)" "char_ok h" "high s \<le> h" "cc_wf G"
    "\<And>x. x \<in> set G \<Longrightarrow> high s < low x \<and> high x < h" "\<And>c. c \<in> cc_chars (s # rs) \<Longrightarrow> c \<le> h" "h \<in> cc_chars (s # rs)"
    "cc_chars G = {c. char_ok c \<and> high s < c \<and> c < h} - cc_chars rs"
    using Cons.IH [OF wf(4)] by blast
  have ends: "char_ok (high r)" "char_ok (low s)" "low s \<le> high s" "low r \<le> high r" "high r < low s" "char_ok (high s)"
    using wf(1,2) gap_less [OF wf(3)] by (auto simp: range_ok_def)
  obtain c where c: "char_ok c" "high r < c" "c < low s" using wf(3) by (auto simp: gap_def)
  let ?O = "op_open u (high r) (low s)"
  note O = open_ok [OF ends(1,2) c] and Oc = open_chars [OF ends(1,2)]
  have "gap ?O x" if "x \<in> set G" for x
    using O(3) ends(2,3) G(5) [OF that] unfolding gap_def by (intro exI [of _ "low s"]) auto
  then have w: "cc_wf (?O # G)" using O(1) G(4) by (simp add: cc_wf_Cons)
  have later: "high s < c" if cs: "c \<in> cc_chars rs" for c
  proof -
    obtain x where x: "x \<in> set rs" "low x \<le> c" by (rule chars_bounds [OF cs])
    then have "gap s x" using wf(4) by (simp add: cc_wf_Cons)
    then show ?thesis using gap_less x(2) by fastforce
  qed
  have chars: "cc_chars (?O # G) = {c. char_ok c \<and> high r < c \<and> c < h} - cc_chars (s # rs)"
  proof (rule set_eqI)
    fix c
    show "c \<in> cc_chars (?O # G) \<longleftrightarrow> c \<in> {c. char_ok c \<and> high r < c \<and> c < h} - cc_chars (s # rs)"
      using later [of c] ends G(3) by (auto simp: Oc G(8) range_chars_iff)
  qed
  have "high r < low x \<and> high x < h" if "x \<in> set (?O # G)" for x
    using that O G(3,5) ends by fastforce
  moreover have "c \<le> h" if "c \<in> range_chars r" for c using that ends G(3) by (auto simp: range_chars_iff)
  ultimately show ?case
    using G w chars ends by auto
qed

lemma cc_complement_ok:
  assumes wf: "cc_wf rs"
  shows "\<exists>rs'. cc_complement u rs = Ok rs' \<and> cc_wf rs' \<and> cc_chars rs' = {c. char_ok c} - cc_chars rs"
proof (cases rs)
  case Nil
  have "multi_ok (char_range_ranges (op_all u))"
    by (simp add: multi_ok_def char_range_ranges_def all char_ok_def)
  moreover have "multi_chars (char_range_ranges (op_all u)) = {c. char_ok c}"
    by (auto simp: multi_chars_def char_range_ranges_def all range_chars_iff char_ok_def)
  ultimately show ?thesis
    using collection_from_ok [of "char_range_ranges (op_all u)"] Nil by (simp add: cc_complement_def)
next
  case (Cons r others)
  obtain G h where G: "gaps u (high r) others = (G, h)" "char_ok h" "high r \<le> h" "cc_wf G"
    "\<And>x. x \<in> set G \<Longrightarrow> high r < low x \<and> high x < h" "\<And>c. c \<in> cc_chars rs \<Longrightarrow> c \<le> h" "h \<in> cc_chars rs"
    "cc_chars G = {c. char_ok c \<and> high r < c \<and> c < h} - cc_chars others"
    using gaps_ok [of r others] wf Cons by blast
  have r: "range_ok r" "char_ok (low r)" "char_ok (high r)" "low r \<le> high r" using wf Cons by (auto simp: cc_wf_Cons range_ok_def)
  have first: "low r \<le> c" if c: "c \<in> cc_chars rs" for c
  proof (rule chars_bounds [OF c])
    fix x assume x: "x \<in> set rs" "low x \<le> c"
    show "low r \<le> c"
    proof (cases "x = r")
      case False
      then have "gap r x" using wf x(1) Cons by (simp add: cc_wf_Cons)
      then show ?thesis using gap_less [of r x] x(2) r(4) by linarith
    qed (use x in simp)
  qed
  define L where "L = (if low r \<noteq> 0 then [op_open_right u 0 (low r)] else [])"
  define R where "R = (if h \<noteq> CHAR_MAX then [op_open_left u h CHAR_MAX] else [])"
  have ok0: "char_ok 0" "char_ok CHAR_MAX" "h \<le> CHAR_MAX" using G(2) by (auto simp: char_ok_def)
  have L: "cc_wf L" "\<And>x. x \<in> set L \<Longrightarrow> high x < low r" "cc_chars L = {c. char_ok c \<and> c < low r}"
  proof -
    have z: "range_ok \<lparr>low = 0, high = low r\<rparr>" using ok0 r by (simp add: range_ok_def)
    show "cc_wf L" "\<And>x. x \<in> set L \<Longrightarrow> high x < low r" "cc_chars L = {c. char_ok c \<and> c < low r}"
      using rest_below(1-3) [OF z r(2)] open_right_chars [OF ok0(1) r(2)] by (auto simp: L_def cc_wf_Cons split: if_splits)
  qed
  have R: "cc_wf R" "\<And>x. x \<in> set R \<Longrightarrow> h < low x" "cc_chars R = {c. char_ok c \<and> h < c}"
  proof -
    have z: "range_ok \<lparr>low = h, high = CHAR_MAX\<rparr>" using ok0 G(2) by (simp add: range_ok_def)
    have "c \<le> CHAR_MAX" if "char_ok c" for c using that by (auto simp: char_ok_def)
    then show "cc_wf R" "\<And>x. x \<in> set R \<Longrightarrow> h < low x" "cc_chars R = {c. char_ok c \<and> h < c}"
      using rest_above(1-3) [OF z G(2)] open_left_chars [OF G(2) ok0(2)] ok0(3)
      by (auto simp: R_def cc_wf_Cons split: if_splits)
  qed
  have "cc_complement u rs = Ok (L @ G @ R)"
    using G(1) Cons by (simp add: cc_complement_def L_def R_def)
  moreover have "gap x y" if "x \<in> set L" "y \<in> set G \<union> set R" for x y
    using L(2) [OF that(1)] G(3) G(5) [of y] R(2) [of y] r that(2) unfolding gap_def by (intro exI [of _ "low r"]) auto
  moreover have "gap x y" if "x \<in> set G" "y \<in> set R" for x y
    using G(2) G(5) [of x] R(2) [of y] that unfolding gap_def by (intro exI [of _ h]) auto
  ultimately have "cc_complement u rs = Ok (L @ G @ R) \<and> cc_wf (L @ G @ R)"
    using L(1) G(4) R(1) by (auto simp: cc_wf_append)
  moreover have "cc_chars (L @ G @ R) = {c. char_ok c} - cc_chars rs"
  proof (rule set_eqI)
    fix c
    show "c \<in> cc_chars (L @ G @ R) \<longleftrightarrow> c \<in> {c. char_ok c} - cc_chars rs"
      using first [of c] G(6) [of c] G(7) r
      by (cases "c = h") (auto simp: L(3) R(3) G(8) Cons range_chars_iff)
  qed
  ultimately show ?thesis by blast
qed

lemma cc_chars_ok: "c \<in> cc_chars rs \<Longrightarrow> char_ok c"
  by (auto simp: cc_chars_def range_chars_iff)

lemma remove_complement_ok:
  assumes "cc_wf rs" and "cc_wf ss"
  shows "\<exists>rs'. bindO (cc_complement u ss) (\<lambda>c. cc_remove u (collection_ranges c) rs) = Ok rs'
    \<and> cc_wf rs' \<and> cc_chars rs' = cc_chars rs \<inter> cc_chars ss"
proof -
  obtain cs where cs: "cc_complement u ss = Ok cs" "cc_wf cs" "cc_chars cs = {c. char_ok c} - cc_chars ss"
    using cc_complement_ok [OF assms(2)] by blast
  obtain rs' where "cc_remove u (collection_ranges cs) rs = Ok rs'" "cc_wf rs'" "cc_chars rs' = cc_chars rs - cc_chars cs"
    using cc_remove_ok [OF assms(1) collection_ranges_ok(1) [OF cs(2)]] collection_ranges_ok(2) by auto
  then show ?thesis using cs cc_chars_ok [of _ rs] by auto
qed

lemma cc_intersection_ok:
  assumes "cc_wf rs" and "multi_ok m"
  shows "\<exists>rs'. cc_intersection u rs m = Ok rs' \<and> cc_wf rs' \<and> cc_chars rs' = cc_chars rs \<inter> multi_chars m"
proof -
  obtain ms where ms: "collection_from u m = Ok ms" "cc_wf ms" "cc_chars ms = multi_chars m"
    using collection_from_ok [OF assms(2)] by blast
  show ?thesis
    using remove_complement_ok [OF assms(1) ms(2)] remove_complement_ok [OF ms(2) assms(1)] ms
    by (auto simp: cc_intersection_def Int_commute)
qed

lemma contains_range_ok:
  assumes wf: "cc_wf rs" and r: "range_ok r"
  shows "contains_range u rs r = Ok (range_chars r \<subseteq> cc_chars rs)"
proof -
  have ends: "char_ok (low r)" "char_ok (high r)" "low r \<le> high r" using r by (auto simp: range_ok_def)
  obtain fl i nl where l: "find_containing_range u rs (low r) = Ok fl"
    "fl = Inr (i, rs ! i) \<and> i < length rs \<and> nl = low (rs ! i) \<and> low r \<le> high (rs ! i) \<or> fl = Inl i \<and> nl = low r"
    "nl \<le> low r" "\<And>a. a \<in> set (take i rs) \<Longrightarrow> high a < nl" "\<And>b. b \<in> set (drop i rs) \<Longrightarrow> nl \<le> low b"
    by (rule lower_end [OF wf ends(1)]) blast
  obtain fu j nh where h: "find_containing_range u rs (high r) = Ok fu"
    "(\<exists>k. fu = Inr (k, rs ! k) \<and> k < length rs \<and> j = Suc k \<and> nh = high (rs ! k) \<and> low (rs ! k) \<le> high r) \<or> fu = Inl j \<and> nh = high r"
    "high r \<le> nh" by (rule upper_end [OF wf ends(2)]) blast
  have run: "contains_range u rs r = Ok (same_range u fl fu)"
    using l(1) h(1) ends(3) is_empty by (simp add: contains_range_def)
  have "same_range u fl fu \<longleftrightarrow> range_chars r \<subseteq> cc_chars rs"
  proof
    assume "same_range u fl fu"
    then show "range_chars r \<subseteq> cc_chars rs"
      using l(2,3) h(2,3) cc_chars_nth [of i rs] by (auto simp: same_range_def range_chars_iff)
  next
    assume sub: "range_chars r \<subseteq> cc_chars rs"
    have "low r \<in> cc_chars rs" "high r \<in> cc_chars rs" using sub ends by (auto simp: range_chars_iff)
    then have c: "cc_contains u rs (low r) = Ok True" "cc_contains u rs (high r) = Ok True"
      using cc_contains_ok [OF wf] ends by auto
    then obtain k where i: "fl = Inr (i, rs ! i)" "i < length rs" "nl = low (rs ! i)" "low r \<le> high (rs ! i)"
      and k: "fu = Inr (k, rs ! k)" "k < length rs" "nh = high (rs ! k)" "low (rs ! k) \<le> high r"
      using l(1,2) h(1,2) by (auto simp: cc_contains_def)
    have "i = k"
    proof (rule ccontr)
      assume "i \<noteq> k"
      moreover have "\<not> k < i"
        using gap_less [OF cc_wf_nth(2) [OF wf, of k i]] i l(3) h(3) k ends(3) by linarith
      ultimately have ik: "Suc i < length rs" "Suc i \<le> k" using k(2) by auto
      obtain c where c: "char_ok c" "high (rs ! i) < c" "c < low (rs ! Suc i)"
        using cc_wf_nth(2) [OF wf, of i "Suc i"] ik(1) by (auto simp: gap_def)
      have "low (rs ! Suc i) \<le> low (rs ! k)"
        using gap_less [OF cc_wf_nth(2) [OF wf, of "Suc i" k]] cc_wf_nth(1) [OF wf, of "Suc i"] ik k(2)
        by (cases "Suc i = k") (auto simp: range_ok_def)
      then have "c \<in> range_chars r" using c i(4) k(4) by (simp add: range_chars_iff)
      then obtain l where l: "l < length rs" "c \<in> range_chars (rs ! l)" using sub cc_chars_obtain by blast
      consider "l < i" | "l = i" | "l = Suc i" | "Suc i < l" by linarith
      then show False
        using c l gap_less [OF cc_wf_nth(2) [OF wf, of l i]] gap_less [OF cc_wf_nth(2) [OF wf, of "Suc i" l]]
          cc_wf_nth(1) [OF wf, of i] cc_wf_nth(1) [OF wf, of "Suc i"] i(2) ik(1)
        by cases (auto simp: range_chars_iff range_ok_def)
    qed
    then show "same_range u fl fu" using i k eq_refl by (simp add: same_range_def)
  qed
  then show ?thesis using run by simp
qed

lemma collection_iter_ok: "set (collection_iter u rs) = cc_chars rs"
  by (simp add: collection_iter_def cc_chars_def iter(1))

lemma collection_iter_ascending: "cc_wf rs \<Longrightarrow> sorted_wrt (<) (collection_iter u rs)"
proof (induction rs)
  case Nil
  then show ?case by (simp add: collection_iter_def)
next
  case (Cons r rs)
  have r: "sorted_wrt (<) (op_iter u r)" using iter(2,3) [of r] by (simp add: strict_sorted_iff)
  have rs: "sorted_wrt (<) (collection_iter u rs)" using Cons by (simp add: cc_wf_Cons)
  have "c < d" if cd: "c \<in> range_chars r" "d \<in> cc_chars rs" for c d
  proof -
    obtain s where "s \<in> set rs" "d \<in> range_chars s" using cd(2) by (auto simp: cc_chars_def)
    then show ?thesis using cd(1) Cons.prems by (fastforce simp: cc_wf_Cons gap_def range_chars_iff)
  qed
  then show ?case
    using r rs collection_iter_ok [of rs] by (simp add: collection_iter_def sorted_wrt_append iter(1))
qed

lemma char_collect_ok:
  "cc_wf rs \<Longrightarrow> list_all multi_ok ms \<Longrightarrow>
    \<exists>rs'. char_collect u ms rs = Ok rs' \<and> cc_wf rs' \<and> cc_chars rs' = cc_chars rs \<union> \<Union> (multi_chars ` set ms)"
proof (induction ms arbitrary: rs)
  case Nil
  then show ?case by simp
next
  case (Cons m ms)
  obtain rs1 where rs1: "cc_insert u m rs = Ok rs1" "cc_wf rs1" "cc_chars rs1 = cc_chars rs \<union> multi_chars m"
    using cc_insert_ok [of rs m] Cons.prems by auto
  then show ?case using Cons.IH [of rs1] Cons.prems(2) by (auto simp: Un_assoc)
qed

end

section \<open>One collection per set\<close>

lemma first_range:
  assumes wf: "cc_wf (r # rs)" and c: "c \<in> cc_chars (r # rs)"
  shows "low r \<le> c" and "c \<in> cc_chars rs \<Longrightarrow> high r < c"
    and "high r < c \<Longrightarrow> \<exists>d. char_ok d \<and> high r < d \<and> d < c \<and> d \<notin> cc_chars (r # rs)"
proof -
  have r: "range_ok r" "cc_wf rs" using wf by (auto simp: cc_wf_Cons)
  have later: "high r < d" if "d \<in> cc_chars rs" for d
    using that wf gap_less by (fastforce simp: cc_wf_Cons cc_chars_def range_chars_iff)
  then show "c \<in> cc_chars rs \<Longrightarrow> high r < c" .
  show "low r \<le> c"
    using c later [of c] r(1) by (cases "c \<in> cc_chars rs") (auto simp: range_chars_iff range_ok_def)
  assume hc: "high r < c"
  then have "c \<in> cc_chars rs" using c by (auto simp: range_chars_iff)
  then obtain x rs' where rs: "rs = x # rs'" by (cases rs) auto
  obtain d where d: "char_ok d" "high r < d" "d < low x" using wf by (auto simp: rs cc_wf_Cons gap_def)
  have ge: "low x \<le> e" if e: "e \<in> cc_chars rs" for e
  proof -
    obtain y where y: "y \<in> set rs" "low y \<le> e" using e by (auto simp: cc_chars_def range_chars_iff)
    show ?thesis
    proof (cases "y = x")
      case False
      then have "gap x y" "range_ok x" using y(1) r(2) by (auto simp: rs cc_wf_Cons)
      then show ?thesis using gap_less [of x y] y(2) by (auto simp: range_ok_def)
    qed (use y in simp)
  qed
  have "d \<notin> cc_chars (r # rs)" using d ge [of d] by (auto simp: range_chars_iff)
  moreover have "d < c" using d(3) ge [OF \<open>c \<in> cc_chars rs\<close>] by simp
  ultimately show "\<exists>d. char_ok d \<and> high r < d \<and> d < c \<and> d \<notin> cc_chars (r # rs)" using d by blast
qed

lemma first_range_le:
  assumes wf: "cc_wf (r # rs)" "cc_wf (s # ss)" and eq: "cc_chars (r # rs) = cc_chars (s # ss)"
  shows "low s \<le> low r" and "high s \<le> high r"
proof -
  have ok: "range_ok r" "range_ok s" using wf by (auto simp: cc_wf_Cons)
  have mem: "low r \<in> cc_chars (r # rs)" "low s \<in> cc_chars (r # rs)" "high s \<in> cc_chars (r # rs)"
    using ok eq by (auto simp: range_chars_iff range_ok_def)
  show lo: "low s \<le> low r" by (rule first_range(1) [OF wf(2) mem(1) [unfolded eq]])
  show "high s \<le> high r"
  proof (rule ccontr)
    assume "\<not> high s \<le> high r"
    then obtain d where d: "char_ok d" "high r < d" "d < high s" "d \<notin> cc_chars (r # rs)"
      using first_range(3) [OF wf(1) mem(3)] by auto
    then have "d \<in> range_chars s" using lo ok by (auto simp: range_chars_iff range_ok_def)
    then show False using d(4) unfolding eq by simp
  qed
qed

lemma collection_unique:
  assumes "cc_wf rs" and "cc_wf ss" and "cc_chars rs = cc_chars ss"
  shows "rs = ss"
  using assms
proof (induction rs arbitrary: ss)
  case Nil
  then show ?case by (cases ss) (auto simp: cc_wf_Cons range_ok_def range_chars_def)
next
  case (Cons r rs)
  have "range_chars r \<noteq> {}" using Cons.prems(1) by (auto simp: cc_wf_Cons range_ok_def range_chars_def)
  then obtain s ss' where ss: "ss = s # ss'" using Cons.prems(3) by (cases ss) auto
  note wf = Cons.prems(1) Cons.prems(2) [unfolded ss] and eq = Cons.prems(3) [unfolded ss]
  have "r = s" using first_range_le [OF wf eq] first_range_le [OF wf(2,1) eq [symmetric]] by simp
  moreover have "cc_chars rs = cc_chars (r # rs) - range_chars r" "cc_chars ss' = cc_chars (s # ss') - range_chars s"
    using first_range(2) [OF wf(1)] first_range(2) [OF wf(2)] by (fastforce simp: range_chars_iff)+
  ultimately have "cc_chars rs = cc_chars ss'" using eq by simp
  then have "rs = ss'" using Cons.IH [of ss'] wf by (auto simp: cc_wf_Cons)
  then show ?case using \<open>r = s\<close> ss by simp
qed

text \<open>
  Whatever sequence of operations returns it, a collection of given characters is one vector: two
  runs that implement the same set return equal results.
\<close>

definition implements :: "char_collection cc \<Rightarrow> rust_char set \<Rightarrow> bool" where
  "implements run S \<longleftrightarrow> (\<exists>rs. run = Ok rs \<and> cc_wf rs \<and> cc_chars rs = S)"

lemma implements_unique: "implements run S \<Longrightarrow> implements run' S \<Longrightarrow> run = run'"
  unfolding implements_def using collection_unique by blast

lemma implements_Ok: "cc_wf rs \<Longrightarrow> implements (Ok rs) (cc_chars rs)"
  by (simp add: implements_def)

lemma implements_bind:
  assumes "implements run S" and "\<And>rs. cc_wf rs \<Longrightarrow> cc_chars rs = S \<Longrightarrow> implements (f rs) T"
  shows "implements (bindO run f) T"
  using assms unfolding implements_def by fastforce

context unic_crate
begin

lemma operators_implement:
  assumes "cc_wf rs" and "cc_wf ss"
  shows "implements (cc_bitor u rs (collection_ranges ss)) (cc_chars rs \<union> cc_chars ss)"
    and "implements (cc_bitand u rs (collection_ranges ss)) (cc_chars rs \<inter> cc_chars ss)"
    and "implements (cc_sub u rs (collection_ranges ss)) (cc_chars rs - cc_chars ss)"
    and "implements (cc_not u rs) ({c. char_ok c} - cc_chars rs)"
    and "implements (collection_from u (collection_ranges rs)) (cc_chars rs)"
  using cc_union_ok [OF assms(1) collection_ranges_ok(1) [OF assms(2)]]
    cc_intersection_ok [OF assms(1) collection_ranges_ok(1) [OF assms(2)]]
    cc_remove_ok [OF assms(1) collection_ranges_ok(1) [OF assms(2)]] cc_complement_ok [OF assms(1)]
    collection_from_ok [OF collection_ranges_ok(1) [OF assms(1)]]
  by (simp_all add: implements_def cc_bitor_def cc_bitand_def cc_sub_def cc_difference_def cc_not_def collection_ranges_ok(2))

lemma not_not:
  assumes "cc_wf rs"
  shows "bindO (cc_not u rs) (cc_not u) = Ok rs"
proof (rule implements_unique [of _ "cc_chars rs"])
  have "{c. char_ok c} - ({c. char_ok c} - cc_chars rs) = cc_chars rs" using cc_chars_ok [of _ rs] by blast
  then show "implements (bindO (cc_not u rs) (cc_not u)) (cc_chars rs)"
    using operators_implement(4) by (intro implements_bind [OF operators_implement(4) [OF assms assms]]) metis
qed (use assms in \<open>rule implements_Ok\<close>)

lemma de_morgan:
  assumes "cc_wf rs" and "cc_wf ss"
  shows "bindO (cc_bitor u rs (collection_ranges ss)) (cc_not u)
    = bindO (cc_not u rs) (\<lambda>a. bindO (cc_not u ss) (\<lambda>b. cc_bitand u a (collection_ranges b)))"
proof (rule implements_unique [of _ "{c. char_ok c} - (cc_chars rs \<union> cc_chars ss)"])
  show "implements (bindO (cc_bitor u rs (collection_ranges ss)) (cc_not u)) ({c. char_ok c} - (cc_chars rs \<union> cc_chars ss))"
    using operators_implement(4) by (intro implements_bind [OF operators_implement(1) [OF assms]]) metis
  have e: "({c. char_ok c} - cc_chars rs) \<inter> ({c. char_ok c} - cc_chars ss) = {c. char_ok c} - (cc_chars rs \<union> cc_chars ss)"
    by blast
  show "implements (bindO (cc_not u rs) (\<lambda>a. bindO (cc_not u ss) (\<lambda>b. cc_bitand u a (collection_ranges b))))
      ({c. char_ok c} - (cc_chars rs \<union> cc_chars ss))"
    using operators_implement(2) unfolding e [symmetric]
    by (intro implements_bind [OF operators_implement(4) [OF assms(1) assms(1)]]
      implements_bind [OF operators_implement(4) [OF assms(2) assms(2)]]) metis
qed

lemma sub_is_and_not:
  assumes "cc_wf rs" and "cc_wf ss"
  shows "cc_sub u rs (collection_ranges ss) = bindO (cc_not u ss) (\<lambda>b. cc_bitand u rs (collection_ranges b))"
proof (rule implements_unique [OF operators_implement(3) [OF assms]])
  have "cc_chars rs \<inter> ({c. char_ok c} - cc_chars ss) = cc_chars rs - cc_chars ss" using cc_chars_ok [of _ rs] by blast
  then show "implements (bindO (cc_not u ss) (\<lambda>b. cc_bitand u rs (collection_ranges b))) (cc_chars rs - cc_chars ss)"
    using operators_implement(2) [OF assms(1)]
    by (intro implements_bind [OF operators_implement(4) [OF assms(2) assms(2)]]) metis
qed

lemma or_assoc:
  assumes "cc_wf rs" and "cc_wf ss" and "cc_wf ts"
  shows "bindO (cc_bitor u rs (collection_ranges ss)) (\<lambda>a. cc_bitor u a (collection_ranges ts))
    = bindO (cc_bitor u ss (collection_ranges ts)) (\<lambda>b. cc_bitor u rs (collection_ranges b))"
proof (rule implements_unique [of _ "cc_chars rs \<union> cc_chars ss \<union> cc_chars ts"])
  show "implements (bindO (cc_bitor u rs (collection_ranges ss)) (\<lambda>a. cc_bitor u a (collection_ranges ts)))
      (cc_chars rs \<union> cc_chars ss \<union> cc_chars ts)"
    using operators_implement(1) [OF _ assms(3)] by (intro implements_bind [OF operators_implement(1) [OF assms(1,2)]]) metis
  show "implements (bindO (cc_bitor u ss (collection_ranges ts)) (\<lambda>b. cc_bitor u rs (collection_ranges b)))
      (cc_chars rs \<union> cc_chars ss \<union> cc_chars ts)"
    using operators_implement(1) [OF assms(1)] unfolding Un_assoc
    by (intro implements_bind [OF operators_implement(1) [OF assms(2,3)]]) metis
qed

lemma equal_iff_iter: "cc_wf rs \<Longrightarrow> cc_wf ss \<Longrightarrow> rs = ss \<longleftrightarrow> collection_iter u rs = collection_iter u ss"
  using collection_unique collection_iter_ok by metis

end

section \<open>Properties\<close>

text \<open>
  C11. A collection implements a set of characters. Each operation that returns or changes a
  collection does so without a panic, keeps the invariant, and leaves exactly the characters of one
  set operation: \<open>insert\<close>, \<open>union\<close> and the operators \<^verbatim>\<open>|\<close>, \<^verbatim>\<open>+\<close>, \<^verbatim>\<open>|=\<close>, \<^verbatim>\<open>+=\<close> the union;
  \<open>remove\<close>, \<open>difference\<close>, \<^verbatim>\<open>-\<close>, \<^verbatim>\<open>-=\<close> the difference; \<open>intersection\<close>, \<^verbatim>\<open>&\<close>, \<^verbatim>\<open>&=\<close> the
  intersection; \<open>complement\<close> and \<^verbatim>\<open>!\<close> the complement over all characters; \<open>new\<close> and \<open>clear\<close> the
  empty set; \<open>from\<close> the characters of its source; and the list form of \<^verbatim>\<open>char_collect!\<close> the
  union of those of its arguments.
\<close>

theorem collection_refines_set:
  assumes "unic_crate u" and "cc_wf rs" and "multi_ok m" and "list_all multi_ok ms"
    and "(run, S) \<in> {(cc_insert u m rs, cc_chars rs \<union> multi_chars m), (cc_remove u m rs, cc_chars rs - multi_chars m),
      (cc_union u rs m, cc_chars rs \<union> multi_chars m), (cc_intersection u rs m, cc_chars rs \<inter> multi_chars m),
      (cc_difference u rs m, cc_chars rs - multi_chars m), (cc_complement u rs, {c. char_ok c} - cc_chars rs),
      (cc_bitor u rs m, cc_chars rs \<union> multi_chars m), (cc_add u rs m, cc_chars rs \<union> multi_chars m),
      (cc_bitor_assign u rs m, cc_chars rs \<union> multi_chars m), (cc_add_assign u rs m, cc_chars rs \<union> multi_chars m),
      (cc_sub u rs m, cc_chars rs - multi_chars m), (cc_sub_assign u rs m, cc_chars rs - multi_chars m),
      (cc_bitand u rs m, cc_chars rs \<inter> multi_chars m), (cc_bitand_assign u rs m, cc_chars rs \<inter> multi_chars m),
      (cc_not u rs, {c. char_ok c} - cc_chars rs), (Ok collection_new, {}), (Ok (collection_clear rs), {}),
      (collection_from u m, multi_chars m), (char_collect u ms collection_new, \<Union> (multi_chars ` set ms))}"
  shows "\<exists>rs'. run = Ok rs' \<and> cc_wf rs' \<and> cc_chars rs' = S"
proof -
  have empty: "cc_wf []" "cc_chars [] = {}" by (simp_all add: cc_wf_def)
  note ok = unic_crate.cc_insert_ok [OF assms(1-3)] unic_crate.cc_remove_ok [OF assms(1-3)]
    unic_crate.cc_union_ok [OF assms(1-3)] unic_crate.cc_intersection_ok [OF assms(1-3)]
    unic_crate.cc_complement_ok [OF assms(1,2)] unic_crate.collection_from_ok [OF assms(1,3)]
    unic_crate.char_collect_ok [OF assms(1) empty(1) assms(4)]
  show ?thesis using assms(5)
    unfolding cc_difference_def cc_bitor_def cc_add_def cc_bitor_assign_def cc_add_assign_def cc_sub_def cc_sub_assign_def
      cc_bitand_def cc_bitand_assign_def cc_not_def collection_new_def collection_clear_def
    by (elim insertE emptyE) (use ok empty in auto)
qed

lemma example_collection:
  "cc_wf [\<lparr>low = 97, high = 101\<rparr>, \<lparr>low = 112, high = 116\<rparr>]"
  by (auto simp: cc_wf_Cons range_ok_def char_ok_def gap_def intro!: exI [of _ 105])

theorem collection_refines_set_witness:
  "\<exists>rs'. cc_remove scalar_ops (char_range_ranges \<lparr>low = 99, high = 114\<rparr>)
      [\<lparr>low = 97, high = 101\<rparr>, \<lparr>low = 112, high = 116\<rparr>] = Ok rs' \<and> cc_wf rs'
    \<and> cc_chars rs' = cc_chars [\<lparr>low = 97, high = 101\<rparr>, \<lparr>low = 112, high = 116\<rparr>]
        - multi_chars (char_range_ranges \<lparr>low = 99, high = 114\<rparr>)"
proof -
  have "multi_ok (char_range_ranges \<lparr>low = 99, high = 114\<rparr>)"
    by (simp add: multi_ok_def char_range_ranges_def char_ok_def)
  from collection_refines_set [OF scalar.unic_crate_axioms example_collection this, of "[]"] show ?thesis by simp
qed

text \<open>
  C34. \<open>contains\<close> decides membership of a character and \<open>contains_range\<close> decides whether a non-empty
  range lies in the collection as a whole, both by binary search and without a panic; \<open>iter\<close> lists
  the characters of the collection in strictly ascending order, so each of them once.
\<close>

theorem collection_lookups:
  assumes "unic_crate u" and "cc_wf rs" and "char_ok c" and "range_ok r"
  shows "cc_contains u rs c = Ok (c \<in> cc_chars rs) \<and> contains_range u rs r = Ok (range_chars r \<subseteq> cc_chars rs)
    \<and> set (collection_iter u rs) = cc_chars rs \<and> sorted_wrt (<) (collection_iter u rs)"
  using unic_crate.cc_contains_ok [OF assms(1-3)] unic_crate.contains_range_ok [OF assms(1,2,4)]
    unic_crate.collection_iter_ok [OF assms(1)] unic_crate.collection_iter_ascending [OF assms(1,2)] by blast

theorem collection_lookups_witness:
  "cc_contains scalar_ops [\<lparr>low = 97, high = 101\<rparr>, \<lparr>low = 112, high = 116\<rparr>] 99 = Ok True
    \<and> contains_range scalar_ops [\<lparr>low = 97, high = 101\<rparr>, \<lparr>low = 112, high = 116\<rparr>] \<lparr>low = 98, high = 113\<rparr> = Ok False"
proof -
  let ?rs = "[\<lparr>low = 97, high = 101\<rparr>, \<lparr>low = 112, high = 116\<rparr>]" let ?r = "\<lparr>low = 98, high = 113\<rparr>"
  have "char_ok 99" "range_ok ?r" by (simp_all add: char_ok_def range_ok_def)
  note l = collection_lookups [OF scalar.unic_crate_axioms example_collection this]
  have "99 \<in> cc_chars ?rs" by (simp add: range_chars_iff char_ok_def)
  moreover have "105 \<in> range_chars ?r" "105 \<notin> cc_chars ?rs" by (simp_all add: range_chars_iff char_ok_def)
  ultimately show ?thesis using l by auto
qed

text \<open>
  C35. The operators satisfy the laws of sets as equalities of the vectors they return, although
  \<open>union\<close> and \<open>intersection\<close> take different paths depending on which side has more ranges: \<^verbatim>\<open>|\<close>
  and \<^verbatim>\<open>&\<close> commute, \<^verbatim>\<open>|\<close> associates, \<^verbatim>\<open>!\<close> undoes itself, De Morgan's law holds, \<^verbatim>\<open>a - b\<close> is
  \<^verbatim>\<open>a & !b\<close>, and rebuilding a collection from its own ranges returns it. Two collections are equal
  exactly when \<open>iter\<close> lists the same characters.
\<close>

theorem collection_laws:
  assumes "unic_crate u" and "cc_wf rs" and "cc_wf ss" and "cc_wf ts"
  shows "cc_bitor u rs (collection_ranges ss) = cc_bitor u ss (collection_ranges rs)
    \<and> cc_bitand u rs (collection_ranges ss) = cc_bitand u ss (collection_ranges rs)
    \<and> bindO (cc_bitor u rs (collection_ranges ss)) (\<lambda>a. cc_bitor u a (collection_ranges ts))
        = bindO (cc_bitor u ss (collection_ranges ts)) (\<lambda>b. cc_bitor u rs (collection_ranges b))
    \<and> bindO (cc_not u rs) (cc_not u) = Ok rs
    \<and> bindO (cc_bitor u rs (collection_ranges ss)) (cc_not u)
        = bindO (cc_not u rs) (\<lambda>a. bindO (cc_not u ss) (\<lambda>b. cc_bitand u a (collection_ranges b)))
    \<and> cc_sub u rs (collection_ranges ss) = bindO (cc_not u ss) (\<lambda>b. cc_bitand u rs (collection_ranges b))
    \<and> collection_from u (collection_ranges rs) = Ok rs
    \<and> (rs = ss \<longleftrightarrow> collection_iter u rs = collection_iter u ss)"
proof (intro conjI)
  note impl = unic_crate.operators_implement [OF assms(1)]
  show "cc_bitor u rs (collection_ranges ss) = cc_bitor u ss (collection_ranges rs)"
    using implements_unique [OF impl(1) [OF assms(2,3)]] impl(1) [OF assms(3,2)] by (simp add: Un_commute)
  show "cc_bitand u rs (collection_ranges ss) = cc_bitand u ss (collection_ranges rs)"
    using implements_unique [OF impl(2) [OF assms(2,3)]] impl(2) [OF assms(3,2)] by (simp add: Int_commute)
  show "collection_from u (collection_ranges rs) = Ok rs"
    by (rule implements_unique [OF impl(5) [OF assms(2,2)] implements_Ok [OF assms(2)]])
qed (rule unic_crate.or_assoc [OF assms] unic_crate.not_not [OF assms(1,2)] unic_crate.de_morgan [OF assms(1-3)]
  unic_crate.sub_is_and_not [OF assms(1-3)] unic_crate.equal_iff_iter [OF assms(1-3)])+

theorem collection_laws_witness:
  "bindO (cc_not scalar_ops [\<lparr>low = 97, high = 101\<rparr>, \<lparr>low = 112, high = 116\<rparr>]) (cc_not scalar_ops)
      = Ok [\<lparr>low = 97, high = 101\<rparr>, \<lparr>low = 112, high = 116\<rparr>]
    \<and> cc_bitor scalar_ops [\<lparr>low = 97, high = 101\<rparr>, \<lparr>low = 112, high = 116\<rparr>] (collection_ranges [\<lparr>low = 100, high = 113\<rparr>])
      = cc_bitor scalar_ops [\<lparr>low = 100, high = 113\<rparr>] (collection_ranges [\<lparr>low = 97, high = 101\<rparr>, \<lparr>low = 112, high = 116\<rparr>])"
proof -
  have "cc_wf [\<lparr>low = 100, high = 113\<rparr>]" by (simp add: cc_wf_Cons range_ok_def char_ok_def)
  from collection_laws [OF scalar.unic_crate_axioms example_collection this this] show ?thesis by blast
qed

end
