(* ===== verification/Far_Archive.thy ===== *)
theory Far_Archive
  imports Ordered_Map "HOL-Library.List_Lexorder"
begin

text \<open>
  The model of \<^verbatim>\<open>src/public/rust/fuchsia-archive/src/lib.rs\<close>: writing and reading Fuchsia archives.
  The encoding of the headers by the crate \<^verbatim>\<open>bincode\<close> is a parameter, \<open>bincode_ops\<close>, with the laws of
  the locale \<open>bincode\<close>. The target of \<open>write\<close> is a byte vector that grows; the source of a \<open>Reader\<close>
  is a byte string with a position, as a \<open>Cursor\<close> or a file has it.
\<close>

section \<open>Headers\<close>

type_synonym path = "u8 list"

datatype far_error =
    NameTooLong
  | SizeMismatch path nat nat
  | MissingDirectoryIndex
  | MissingDirectoryNameIndex
  | BadMagic
  | BadIndexLength
  | InvalidIndexEntryOrder
  | ShortOffset
  | InvalidChunkType
  | PathNotFound path
  | OffsetExceedsLength
  | DecodeError
  | UnexpectedEof
  | NotUtf8

definition MAGIC_INDEX_VALUE :: "u8 list" where
  "MAGIC_INDEX_VALUE = [0xc8, 0xbf, 0x0b, 0x48, 0xad, 0xab, 0xc5, 0x11]"

definition DIR_HASH_CHUNK :: nat where "DIR_HASH_CHUNK = 0x2d48534148524944"
definition DIR_CHUNK :: nat where "DIR_CHUNK = 0x2d2d2d2d2d524944"
definition DIR_NAMES_CHUNK :: nat where "DIR_NAMES_CHUNK = 0x53454d414e524944"

record far_index =
  magic :: "u8 list"
  index_length :: nat

definition INDEX_LEN :: nat where "INDEX_LEN = 16"

record index_entry =
  chunk_type :: nat
  chunk_offset :: nat
  chunk_length :: nat

definition INDEX_ENTRY_LEN :: nat where "INDEX_ENTRY_LEN = 24"

record directory_entry =
  name_offset :: nat
  dir_name_length :: nat
  reserved :: nat
  data_offset :: nat
  data_length :: nat
  reserved2 :: nat

definition DIRECTORY_ENTRY_LEN :: nat where "DIRECTORY_ENTRY_LEN = 32"
definition CONTENT_ALIGNMENT :: nat where "CONTENT_ALIGNMENT = 4096"

text \<open>Decoding yields the value and the number of bytes it took, or nothing when it fails.\<close>

record bincode_ops =
  put_index :: "far_index \<Rightarrow> u8 list"
  get_index :: "u8 list \<Rightarrow> (far_index \<times> nat) option"
  put_entry :: "index_entry \<Rightarrow> u8 list"
  get_entry :: "u8 list \<Rightarrow> (index_entry \<times> nat) option"
  put_dir :: "directory_entry \<Rightarrow> u8 list"
  get_dir :: "u8 list \<Rightarrow> (directory_entry \<times> nat) option"

section \<open>Writing\<close>

text \<open>
  Sizes and offsets are \<open>u64\<close>: an addition that leaves the type panics, a cast to a smaller type cuts
  the value off. \<open>align\<close> rounds up; a remainder by zero panics.
\<close>

abbreviation add64 :: "nat \<Rightarrow> nat \<Rightarrow> ('e, nat) outcome" where
  "add64 \<equiv> checked_add USIZE_LIMIT"

definition align :: "nat \<Rightarrow> nat \<Rightarrow> ('e, nat) outcome" where
  "align unrounded_value multiple =
     (if multiple = 0 then Panic
      else let rem = unrounded_value mod multiple in
        if rem > 0 then add64 (unrounded_value - rem) multiple else Ok unrounded_value)"

type_synonym 'a wprog = "(u8 list, far_error, 'a) prog"

definition write_all :: "u8 list \<Rightarrow> unit wprog" where
  "write_all bs = modifyP (\<lambda>target. target @ bs)"

definition write_zeros :: "nat \<Rightarrow> unit wprog" where
  "write_zeros count = write_all (replicate count 0)"

text \<open>A map from paths to the size announced and the bytes the reader supplies.\<close>

type_synonym path_content_map = "(path \<times> nat \<times> u8 list) list"

fun make_entries :: "path_content_map \<Rightarrow> u8 list \<Rightarrow> (far_error, directory_entry list \<times> u8 list) outcome" where
  "make_entries [] path_data = Ok ([], path_data)"
| "make_entries ((destination_name, size', _) # m) path_data =
     (if length destination_name > U16_MAX then Err NameTooLong
      else bindO (make_entries m (path_data @ destination_name)) (\<lambda>(entries, path_data').
        Ok (\<lparr>name_offset = length path_data mod 2 ^ 32, dir_name_length = length destination_name mod 2 ^ 16,
             reserved = 0, data_offset = 0, data_length = size', reserved2 = 0\<rparr> # entries, path_data')))"

fun place_entries :: "bincode_ops \<Rightarrow> directory_entry list \<Rightarrow> nat \<Rightarrow> directory_entry list wprog" where
  "place_entries bc [] content_offset = returnP []"
| "place_entries bc (entry # entries) content_offset =
     (let entry' = entry\<lparr>data_offset := content_offset\<rparr> in
      bindP (readP (\<lambda>_. bindO (add64 content_offset (data_length entry)) (\<lambda>n. align n CONTENT_ALIGNMENT))) (\<lambda>content_offset'.
      bindP (write_all (put_dir bc entry')) (\<lambda>_.
      bindP (place_entries bc entries content_offset') (\<lambda>placed.
        returnP (entry' # placed)))))"

text \<open>The number of bytes from a position to the next multiple of the alignment.\<close>

definition padding :: "nat \<Rightarrow> ('e, nat) outcome" where
  "padding pos = bindO (align pos CONTENT_ALIGNMENT) (\<lambda>n. Ok (n - pos))"

fun write_contents :: "path_content_map \<Rightarrow> directory_entry list \<Rightarrow> unit wprog" where
  "write_contents ((archive_path, _, contents) # m) (entry # entries) =
     bindP (write_all contents) (\<lambda>_.
       if length contents \<noteq> data_length entry
       then throwP (SizeMismatch archive_path (data_length entry) (length contents))
       else bindP (readP (\<lambda>_. bindO (add64 (data_offset entry) (data_length entry)) padding)) (\<lambda>padding_count.
            bindP (write_zeros padding_count) (\<lambda>_.
              write_contents m entries)))"
| "write_contents _ _ = returnP ()"

definition far_write :: "bincode_ops \<Rightarrow> path_content_map \<Rightarrow> unit wprog" where
  "far_write bc path_content_map =
     bindP (readP (\<lambda>_. make_entries path_content_map [])) (\<lambda>(directory_entries, path_data).
     bindP (readP (\<lambda>_. add64 0 (length directory_entries * DIRECTORY_ENTRY_LEN))) (\<lambda>dir_length.
     let index = \<lparr>magic = MAGIC_INDEX_VALUE, index_length = 2 * INDEX_ENTRY_LEN\<rparr>;
         dir_index = \<lparr>chunk_type = DIR_CHUNK, chunk_offset = INDEX_LEN + INDEX_ENTRY_LEN * 2, chunk_length = dir_length\<rparr>
     in
     bindP (readP (\<lambda>_. add64 (chunk_offset dir_index) (chunk_length dir_index))) (\<lambda>name_index_offset.
     bindP (readP (\<lambda>_. align (length path_data) 8)) (\<lambda>name_index_length.
     let name_index = \<lparr>chunk_type = DIR_NAMES_CHUNK, chunk_offset = name_index_offset, chunk_length = name_index_length\<rparr>
     in
     bindP (write_all (put_index bc index)) (\<lambda>_.
     bindP (write_all (put_entry bc dir_index)) (\<lambda>_.
     bindP (write_all (put_entry bc name_index)) (\<lambda>_.
     bindP (readP (\<lambda>_. add64 (chunk_offset name_index) (chunk_length name_index))) (\<lambda>pos.
     bindP (readP (\<lambda>_. align pos CONTENT_ALIGNMENT)) (\<lambda>content_offset.
     bindP (place_entries bc directory_entries content_offset) (\<lambda>placed_entries.
     bindP (write_all path_data) (\<lambda>_.
     bindP (write_zeros (chunk_length name_index - length path_data)) (\<lambda>_.
     bindP (readP (\<lambda>_. padding pos)) (\<lambda>padding_count.
     bindP (write_zeros padding_count) (\<lambda>_.
       write_contents path_content_map placed_entries))))))))))))))"

section \<open>Reading\<close>

record far_source =
  src_bytes :: "u8 list"
  src_pos :: nat

type_synonym 'a rdprog = "(far_source, far_error, 'a) prog"

definition seek_start :: "nat \<Rightarrow> unit rdprog" where
  "seek_start n = modifyP (\<lambda>s. s\<lparr>src_pos := n\<rparr>)"

definition deserialize_from :: "(u8 list \<Rightarrow> ('a \<times> nat) option) \<Rightarrow> 'a rdprog" where
  "deserialize_from get s = (case get (drop (src_pos s) (src_bytes s)) of
      None \<Rightarrow> (Err DecodeError, s)
    | Some (x, n) \<Rightarrow> (Ok x, s\<lparr>src_pos := src_pos s + n\<rparr>))"

text \<open>\<open>vec![0; n]\<close> panics when the size does not fit \<open>isize\<close>; \<open>read_exact\<close> fills it or fails.\<close>

definition read_vec :: "nat \<Rightarrow> u8 list rdprog" where
  "read_vec n s =
     (if n \<ge> 2 ^ 63 then (Panic, s)
      else if src_pos s + n \<le> length (src_bytes s)
      then (Ok (window (src_bytes s) (src_pos s) n), s\<lparr>src_pos := src_pos s + n\<rparr>)
      else (Err UnexpectedEof, s))"

definition read_index :: "bincode_ops \<Rightarrow> far_index rdprog" where
  "read_index bc =
     bindP (deserialize_from (get_index bc)) (\<lambda>decoded_index.
       if magic decoded_index \<noteq> MAGIC_INDEX_VALUE then throwP BadMagic
       else if index_length decoded_index mod INDEX_ENTRY_LEN \<noteq> 0 then throwP BadIndexLength
       else returnP decoded_index)"

fun read_index_entries :: "bincode_ops \<Rightarrow> nat \<Rightarrow> far_index \<Rightarrow> nat option \<Rightarrow> index_entry option \<Rightarrow> index_entry option \<Rightarrow>
    (index_entry option \<times> index_entry option) rdprog" where
  "read_index_entries bc 0 index last_chunk_type dir_index dir_name_index = returnP (dir_index, dir_name_index)"
| "read_index_entries bc (Suc count) index last_chunk_type dir_index dir_name_index =
     bindP (deserialize_from (get_entry bc)) (\<lambda>entry.
       if (case last_chunk_type of None \<Rightarrow> False | Some t \<Rightarrow> t > chunk_type entry) then throwP InvalidIndexEntryOrder
       else if chunk_offset entry < index_length index then throwP ShortOffset
       else if chunk_type entry = DIR_HASH_CHUNK
         then read_index_entries bc count index (Some (chunk_type entry)) dir_index dir_name_index
       else if chunk_type entry = DIR_NAMES_CHUNK
         then read_index_entries bc count index (Some (chunk_type entry)) dir_index (Some entry)
       else if chunk_type entry = DIR_CHUNK
         then read_index_entries bc count index (Some (chunk_type entry)) (Some entry) dir_name_index
       else throwP InvalidChunkType)"

type_synonym directory = "(path \<times> directory_entry) list"

text \<open>A name outside the path data panics: the slice is taken without a check.\<close>

definition entry_name :: "u8 list \<Rightarrow> directory_entry \<Rightarrow> (far_error, path) outcome" where
  "entry_name path_data entry =
     (let name_start = name_offset entry; after_name_end = name_start + dir_name_length entry in
      if after_name_end > length path_data then Panic
      else let file_name = window path_data name_start (dir_name_length entry) in
        if utf8_valid file_name then Ok file_name else Err NotUtf8)"

fun read_directory :: "bincode_ops \<Rightarrow> nat \<Rightarrow> u8 list \<Rightarrow> directory \<Rightarrow> directory rdprog" where
  "read_directory bc 0 path_data directory_entries = returnP directory_entries"
| "read_directory bc (Suc count) path_data directory_entries =
     bindP (deserialize_from (get_dir bc)) (\<lambda>entry.
     bindP (readP (\<lambda>_. entry_name path_data entry)) (\<lambda>file_name.
       read_directory bc count path_data (om_insert file_name entry directory_entries)))"

definition reader_new :: "bincode_ops \<Rightarrow> directory rdprog" where
  "reader_new bc =
     bindP (read_index bc) (\<lambda>index.
     bindP (read_index_entries bc (index_length index div INDEX_ENTRY_LEN) index None None None) (\<lambda>(dir_index, dir_name_index).
     case dir_index of None \<Rightarrow> throwP MissingDirectoryIndex | Some dir_index' \<Rightarrow>
     case dir_name_index of None \<Rightarrow> throwP MissingDirectoryNameIndex | Some dir_name_index' \<Rightarrow>
     bindP (seek_start (chunk_offset dir_name_index')) (\<lambda>_.
     bindP (read_vec (chunk_length dir_name_index')) (\<lambda>path_data.
     bindP (seek_start (chunk_offset dir_index')) (\<lambda>_.
       read_directory bc (chunk_length dir_index' div DIRECTORY_ENTRY_LEN) path_data [])))))"

definition far_list :: "directory \<Rightarrow> path list" where
  "far_list directory_entries = map fst directory_entries"

definition find_directory_entry :: "directory \<Rightarrow> path \<Rightarrow> (far_error, directory_entry) outcome" where
  "find_directory_entry directory_entries archive_path =
     (case om_get directory_entries archive_path of Some e \<Rightarrow> Ok e | None \<Rightarrow> Err (PathNotFound archive_path))"

record entry_reader =
  er_offset :: nat
  er_length :: nat

definition far_open :: "directory \<Rightarrow> path \<Rightarrow> (far_error, entry_reader) outcome" where
  "far_open directory_entries archive_path =
     bindO (find_directory_entry directory_entries archive_path) (\<lambda>e.
       Ok \<lparr>er_offset = data_offset e, er_length = data_length e\<rparr>)"

definition far_read_at :: "entry_reader \<Rightarrow> nat \<Rightarrow> u8 list rdprog" where
  "far_read_at r offset =
     (if offset > er_length r then throwP OffsetExceedsLength
      else bindP (readP (\<lambda>_. add64 (er_offset r) offset)) (\<lambda>n.
           bindP (seek_start n) (\<lambda>_.
             read_vec (er_length r - offset))))"

definition far_read_file :: "directory \<Rightarrow> path \<Rightarrow> u8 list rdprog" where
  "far_read_file directory_entries archive_path =
     bindP (readP (\<lambda>_. far_open directory_entries archive_path)) (\<lambda>r. far_read_at r 0)"

definition far_get_size :: "directory \<Rightarrow> path \<Rightarrow> (far_error, nat) outcome" where
  "far_get_size directory_entries archive_path =
     bindO (find_directory_entry directory_entries archive_path) (\<lambda>e. Ok (data_length e))"

section \<open>The encoding\<close>

definition index_ok :: "far_index \<Rightarrow> bool" where
  "index_ok x \<longleftrightarrow> length (magic x) = 8 \<and> index_length x < 2 ^ 64"

definition entry_ok :: "index_entry \<Rightarrow> bool" where
  "entry_ok x \<longleftrightarrow> chunk_type x < 2 ^ 64 \<and> chunk_offset x < 2 ^ 64 \<and> chunk_length x < 2 ^ 64"

definition dir_ok :: "directory_entry \<Rightarrow> bool" where
  "dir_ok x \<longleftrightarrow> name_offset x < 2 ^ 32 \<and> dir_name_length x < 2 ^ 16 \<and> reserved x < 2 ^ 16
     \<and> data_offset x < 2 ^ 64 \<and> data_length x < 2 ^ 64 \<and> reserved2 x < 2 ^ 64"

text \<open>
  What the crate documents of its default encoding: structs are their fields in order, at the fixed
  width of their types, and decoding is the inverse, which takes exactly the bytes of the value.
\<close>

locale bincode =
  fixes bc :: bincode_ops
  assumes length_put: "index_ok x \<Longrightarrow> length (put_index bc x) = 16"
      "entry_ok y \<Longrightarrow> length (put_entry bc y) = 24" "dir_ok z \<Longrightarrow> length (put_dir bc z) = 32"
    and get_put: "index_ok x \<Longrightarrow> get_index bc (put_index bc x @ bs) = Some (x, 16)"
      "entry_ok y \<Longrightarrow> get_entry bc (put_entry bc y @ bs) = Some (y, 24)"
      "dir_ok z \<Longrightarrow> get_dir bc (put_dir bc z @ bs) = Some (z, 32)"

text \<open>An implementation: little-endian integers of fixed width.\<close>

definition le64 :: "nat \<Rightarrow> u8 list" where "le64 n = to_le 8 (of_nat n :: u64)"
definition le32 :: "nat \<Rightarrow> u8 list" where "le32 n = to_le 4 (of_nat n :: u32)"
definition le16 :: "nat \<Rightarrow> u8 list" where "le16 n = to_le 2 (of_nat n :: u16)"

definition nat_at :: "u8 list \<Rightarrow> nat \<Rightarrow> nat \<Rightarrow> nat" where
  "nat_at bs off n = unat (from_le (window bs off n) :: u64)"

definition le_ops :: bincode_ops where
  "le_ops = \<lparr>
     put_index = (\<lambda>x. magic x @ le64 (index_length x)),
     get_index = (\<lambda>bs. if length bs < 16 then None
       else Some (\<lparr>magic = window bs 0 8, index_length = nat_at bs 8 8\<rparr>, 16)),
     put_entry = (\<lambda>x. le64 (chunk_type x) @ le64 (chunk_offset x) @ le64 (chunk_length x)),
     get_entry = (\<lambda>bs. if length bs < 24 then None
       else Some (\<lparr>chunk_type = nat_at bs 0 8, chunk_offset = nat_at bs 8 8, chunk_length = nat_at bs 16 8\<rparr>, 24)),
     put_dir = (\<lambda>x. le32 (name_offset x) @ le16 (dir_name_length x) @ le16 (reserved x)
       @ le64 (data_offset x) @ le64 (data_length x) @ le64 (reserved2 x)),
     get_dir = (\<lambda>bs. if length bs < 32 then None
       else Some (\<lparr>name_offset = nat_at bs 0 4, dir_name_length = nat_at bs 4 2, reserved = nat_at bs 6 2,
         data_offset = nat_at bs 8 8, data_length = nat_at bs 16 8, reserved2 = nat_at bs 24 8\<rparr>, 32))\<rparr>"

lemma length_le [simp]: "length (le64 n) = 8" "length (le32 n) = 4" "length (le16 n) = 2"
  by (simp_all add: le64_def le32_def le16_def)

lemma window_append_left: "length xs = n \<Longrightarrow> window (xs @ ys) 0 n = xs"
  by (simp add: window_def)

lemma window_append_right: "length xs \<le> off \<Longrightarrow> window (xs @ ys) off n = window ys (off - length xs) n"
  by (simp add: window_def)

lemma from_le_wide:
  fixes w :: "'a::len word"
  assumes "8 * n = LENGTH('a)" and "LENGTH('a) \<le> 64"
  shows "(from_le (to_le n w) :: u64) = ucast w"
proof -
  have *: "(from_le (to_le k v) :: u64) = take_bit (8 * k) (ucast v)" if "8 * k \<le> 64" for k and v :: "'a word"
    using that
  proof (induction k arbitrary: v)
    case (Suc k)
    show ?case
      using Suc.prems by (intro bit_word_eqI)
        (auto simp: Suc.IH bit_simps dest: bit_imp_le_length)
  qed simp
  show ?thesis
    using *[of n w] assms by (auto intro!: bit_word_eqI simp: bit_simps dest: bit_imp_le_length)
qed

lemma nat_at_le64: "n < 2 ^ 64 \<Longrightarrow> window bs off 8 = le64 n \<Longrightarrow> nat_at bs off 8 = n"
  by (simp add: nat_at_def le64_def unat_of_nat)

lemma nat_at_le32: "n < 2 ^ 32 \<Longrightarrow> window bs off 4 = le32 n \<Longrightarrow> nat_at bs off 4 = n"
  by (simp add: nat_at_def le32_def from_le_wide unsigned_ucast_eq unat_of_nat take_bit_eq_mod)

lemma nat_at_le16: "n < 2 ^ 16 \<Longrightarrow> window bs off 2 = le16 n \<Longrightarrow> nat_at bs off 2 = n"
  by (simp add: nat_at_def le16_def from_le_wide unsigned_ucast_eq unat_of_nat take_bit_eq_mod)

interpretation le: bincode le_ops
proof unfold_locales
  fix x y z bs
  show "length (put_index le_ops x) = 16" if "index_ok x" using that by (simp add: le_ops_def index_ok_def)
  show "length (put_entry le_ops y) = 24" by (simp add: le_ops_def)
  show "length (put_dir le_ops z) = 32" by (simp add: le_ops_def)
  show "get_index le_ops (put_index le_ops x @ bs) = Some (x, 16)" if "index_ok x"
    using that nat_at_le64 [of "index_length x" "magic x @ le64 (index_length x) @ bs" 8]
    by (simp add: le_ops_def index_ok_def window_append_left window_append_right)
  show "get_entry le_ops (put_entry le_ops y @ bs) = Some (y, 24)" if "entry_ok y"
    using that by (auto simp: le_ops_def entry_ok_def window_append_left window_append_right
        intro!: nat_at_le64 index_entry.equality)
  show "get_dir le_ops (put_dir le_ops z @ bs) = Some (z, 32)" if "dir_ok z"
    using that by (auto simp: le_ops_def dir_ok_def window_append_left window_append_right
        intro!: nat_at_le64 nat_at_le32 nat_at_le16 directory_entry.equality)
qed

end
