(* ===== verification/Far_Archive_Correct.thy ===== *)
theory Far_Archive_Correct
  imports Far_Archive
begin

text \<open>
  The correctness of Fuchsia archives: the layout \<open>write\<close> produces, and that a \<open>Reader\<close> on it finds
  every path with its contents.
\<close>

section \<open>The layout\<close>

definition up :: "nat \<Rightarrow> nat" where
  "up x = (if x mod 4096 = 0 then x else x - x mod 4096 + 4096)"

definition up8 :: "nat \<Rightarrow> nat" where
  "up8 x = (if x mod 8 = 0 then x else x - x mod 8 + 8)"

text \<open>The concatenated names, the directory entries before and after the offsets are known, the contents.\<close>

definition names :: "path_content_map \<Rightarrow> u8 list" where
  "names m = concat (map fst m)"

fun dirs :: "path_content_map \<Rightarrow> nat \<Rightarrow> directory_entry list" where
  "dirs [] k = []"
| "dirs ((p, n, c) # m) k = \<lparr>name_offset = k mod 2 ^ 32, dir_name_length = length p mod 2 ^ 16, reserved = 0,
     data_offset = 0, data_length = n, reserved2 = 0\<rparr> # dirs m (k + length p)"

fun placed :: "directory_entry list \<Rightarrow> nat \<Rightarrow> directory_entry list" where
  "placed [] off = []"
| "placed (e # es) off = e\<lparr>data_offset := off\<rparr> # placed es (up (off + data_length e))"

fun content_end :: "path_content_map \<Rightarrow> nat \<Rightarrow> nat" where
  "content_end [] off = off"
| "content_end ((p, n, c) # m) off = content_end m (up (off + n))"

fun body :: "path_content_map \<Rightarrow> nat \<Rightarrow> u8 list" where
  "body [] off = []"
| "body ((p, n, c) # m) off = c @ replicate (up (off + n) - (off + n)) 0 @ body m (up (off + n))"

definition names_end :: "path_content_map \<Rightarrow> nat" where
  "names_end m = 64 + 32 * length m + up8 (length (names m))"

definition archive_size :: "path_content_map \<Rightarrow> nat" where
  "archive_size m = content_end m (up (names_end m))"

text \<open>
  The maps \<open>write\<close> is meant for: distinct paths in order (a \<open>BTreeMap\<close> of strings), names that fit
  their length field, together less than four gigabytes of names, readers that supply the size
  announced, and a total size a vector can have.
\<close>

definition far_map_ok :: "path_content_map \<Rightarrow> bool" where
  "far_map_ok m \<longleftrightarrow> om_wf m \<and> (\<forall>(p, n, c)\<in>set m. length p \<le> 65535 \<and> utf8_valid p \<and> n = length c)
     \<and> length (names m) < 2 ^ 32 \<and> archive_size m < 2 ^ 63"

lemma up_ge: "x \<le> up x" and up_dvd: "4096 dvd up x" and up_less: "up x < x + 4096"
proof -
  have m: "x mod 4096 \<le> x" "x mod 4096 < 4096" by simp_all
  then show "x \<le> up x" "up x < x + 4096" by (auto simp: up_def)
  have d: "4096 dvd x - x mod 4096" by (simp add: minus_mod_eq_mult_div)
  show "4096 dvd up x"
  proof (cases "x mod 4096 = 0")
    case True
    then show ?thesis by (simp add: up_def mod_eq_0_iff_dvd)
  next
    case False
    then have "up x = (x - x mod 4096) + 4096" by (simp only: up_def if_False)
    then show ?thesis using d by (simp only: dvd_add_triv_right_iff)
  qed
qed

lemma up8_ge: "x \<le> up8 x" and up8_less: "up8 x < x + 8"
proof -
  have m: "x mod 8 \<le> x" "x mod 8 < 8" by simp_all
  then show "x \<le> up8 x" "up8 x < x + 8" by (auto simp: up8_def)
qed

lemma align_up: "up x < 2 ^ 64 \<Longrightarrow> align x CONTENT_ALIGNMENT = Ok (up x)"
  by (auto simp: align_def up_def CONTENT_ALIGNMENT_def Let_def)

lemma align_up8: "up8 x < 2 ^ 64 \<Longrightarrow> align x 8 = Ok (up8 x)"
  by (auto simp: align_def up8_def Let_def)

lemma padding_up: "up x < 2 ^ 64 \<Longrightarrow> padding x = Ok (up x - x)"
  by (simp add: padding_def align_up)

lemma content_end_ge: "off \<le> content_end m off"
proof (induction m arbitrary: off)
  case (Cons x m)
  obtain p n c where "x = (p, n, c)" by (cases x)
  with Cons.IH [of "up (off + n)"] up_ge [of "off + n"] show ?case by simp
qed simp

lemma length_dirs [simp]: "length (dirs m k) = length m"
  by (induction m k rule: dirs.induct) auto

lemma length_placed [simp]: "length (placed es off) = length es"
  by (induction es off rule: placed.induct) auto

section \<open>Writing\<close>

lemma write_all_step [simp]: "write_all bs t = (Ok (), t @ bs)"
  by (simp add: write_all_def)

lemma write_zeros_step [simp]: "write_zeros n t = (Ok (), t @ replicate n 0)"
  by (simp add: write_zeros_def)

lemma make_entries_ok:
  "\<forall>(p, n, c)\<in>set m. length p \<le> 65535 \<Longrightarrow> make_entries m pd = Ok (dirs m (length pd), pd @ names m)"
proof (induction m arbitrary: pd)
  case (Cons x m)
  obtain p n c where "x = (p, n, c)" by (cases x)
  with Cons show ?case by (simp add: names_def)
qed (simp add: names_def)

lemma place_entries_ok:
  assumes "content_end m off < 2 ^ 64"
  shows "place_entries bc (dirs m k) off t
    = (Ok (placed (dirs m k) off), t @ concat (map (put_dir bc) (placed (dirs m k) off)))"
  using assms
proof (induction m arbitrary: off k t)
  case (Cons x m)
  obtain p n c where x: "x = (p, n, c)" by (cases x)
  have "up (off + n) < 2 ^ 64"
    using Cons.prems content_end_ge [of "up (off + n)" m] by (simp add: x)
  moreover from this have "off + n < 2 ^ 64" using up_ge [of "off + n"] by simp
  moreover have "content_end m (up (off + n)) < 2 ^ 64" using Cons.prems by (simp add: x)
  ultimately show ?case
    by (simp add: x Let_def align_up Cons.IH bindP_step)
qed simp

lemma write_contents_ok:
  assumes "content_end m off < 2 ^ 64" and "\<forall>(p, n, c)\<in>set m. n = length c"
  shows "write_contents m (placed (dirs m k) off) t = (Ok (), t @ body m off)"
  using assms
proof (induction m arbitrary: off k t)
  case (Cons x m)
  obtain p n c where x: "x = (p, n, c)" by (cases x)
  have "up (off + n) < 2 ^ 64"
    using Cons.prems(1) content_end_ge [of "up (off + n)" m] by (simp add: x)
  moreover from this have "off + n < 2 ^ 64" using up_ge [of "off + n"] by simp
  moreover have "content_end m (up (off + n)) < 2 ^ 64" "\<forall>(p, n, c)\<in>set m. n = length c" "n = length c"
    using Cons.prems by (auto simp: x)
  ultimately show ?case by (simp add: x Cons.IH bindP_step padding_up)
qed simp

definition archive_index :: far_index where
  "archive_index = \<lparr>magic = MAGIC_INDEX_VALUE, index_length = 48\<rparr>"

definition archive_dir_index :: "path_content_map \<Rightarrow> index_entry" where
  "archive_dir_index m = \<lparr>chunk_type = DIR_CHUNK, chunk_offset = 64, chunk_length = 32 * length m\<rparr>"

definition archive_name_index :: "path_content_map \<Rightarrow> index_entry" where
  "archive_name_index m = \<lparr>chunk_type = DIR_NAMES_CHUNK, chunk_offset = 64 + 32 * length m,
     chunk_length = up8 (length (names m))\<rparr>"

definition archive_entries :: "path_content_map \<Rightarrow> directory_entry list" where
  "archive_entries m = placed (dirs m 0) (up (names_end m))"

definition archive_head :: "bincode_ops \<Rightarrow> path_content_map \<Rightarrow> u8 list" where
  "archive_head bc m = put_index bc archive_index @ put_entry bc (archive_dir_index m) @ put_entry bc (archive_name_index m)"

definition archive_names :: "path_content_map \<Rightarrow> u8 list" where
  "archive_names m = names m @ replicate (up8 (length (names m)) - length (names m)) 0"

definition archive :: "bincode_ops \<Rightarrow> path_content_map \<Rightarrow> u8 list" where
  "archive bc m = archive_head bc m @ concat (map (put_dir bc) (archive_entries m)) @ archive_names m
     @ replicate (up (names_end m) - names_end m) 0 @ body m (up (names_end m))"

definition archive_prefix :: "bincode_ops \<Rightarrow> path_content_map \<Rightarrow> u8 list" where
  "archive_prefix bc m = archive_head bc m @ concat (map (put_dir bc) (archive_entries m)) @ archive_names m
     @ replicate (up (names_end m) - names_end m) 0"

text \<open>Room for an archive: names that fit their length field and a size a vector can have.\<close>

definition far_fits :: "path_content_map \<Rightarrow> bool" where
  "far_fits m \<longleftrightarrow> (\<forall>(p, n, c)\<in>set m. length p \<le> 65535) \<and> archive_size m < 2 ^ 63"

lemma far_map_fits: "far_map_ok m \<Longrightarrow> far_fits m"
  by (auto simp: far_map_ok_def far_fits_def)

lemma fits_bounds:
  assumes "far_fits m"
  shows "content_end m (up (names_end m)) < 2 ^ 63" and "up (names_end m) < 2 ^ 63" and "names_end m < 2 ^ 63"
    and "up8 (length (names m)) < 2 ^ 63" and "32 * length m < 2 ^ 63"
proof -
  show e: "content_end m (up (names_end m)) < 2 ^ 63" using assms by (simp add: far_fits_def archive_size_def)
  then show u: "up (names_end m) < 2 ^ 63" using content_end_ge [of "up (names_end m)" m] by simp
  then show "names_end m < 2 ^ 63" using up_ge [of "names_end m"] by simp
  then show "up8 (length (names m)) < 2 ^ 63" "32 * length m < 2 ^ 63" by (simp_all add: names_end_def)
qed

lemmas archive_bounds = fits_bounds [OF far_map_fits]

lemma far_write_head:
  assumes ok: "far_fits m"
  shows "far_write bc m t = write_contents m (archive_entries m) (t @ archive_prefix bc m)"
proof -
  note b = fits_bounds [OF ok]
  have e: "\<forall>(p, n, c)\<in>set m. length p \<le> 65535" using ok by (auto simp: far_fits_def)
  have c: "content_end m (up (names_end m)) < 2 ^ 64" using b(1) by simp
  have l: "length m * DIRECTORY_ENTRY_LEN = 32 * length m" by (simp add: DIRECTORY_ENTRY_LEN_def)
  have a: "add64 0 (32 * length m) = (Ok (32 * length m) :: (far_error, nat) outcome)"
    "add64 64 (32 * length m) = (Ok (64 + 32 * length m) :: (far_error, nat) outcome)"
    "add64 (64 + 32 * length m) (up8 (length (names m))) = (Ok (names_end m) :: (far_error, nat) outcome)"
    using b by (simp_all add: names_end_def)
  have r: "align (length (names m)) 8 = (Ok (up8 (length (names m))) :: (far_error, nat) outcome)"
    "align (names_end m) CONTENT_ALIGNMENT = (Ok (up (names_end m)) :: (far_error, nat) outcome)"
    "padding (names_end m) = (Ok (up (names_end m) - names_end m) :: (far_error, nat) outcome)"
    using b by (auto intro!: align_up8 align_up padding_up)
  show ?thesis
    by (simp add: far_write_def make_entries_ok [OF e(1)] l a r Let_def INDEX_LEN_def INDEX_ENTRY_LEN_def
        place_entries_ok [OF c] bindP_step archive_prefix_def archive_head_def
        archive_index_def archive_dir_index_def archive_name_index_def archive_entries_def archive_names_def)
qed

lemma far_write_ok:
  assumes ok: "far_map_ok m"
  shows "far_write bc m [] = (Ok (), archive bc m)"
proof -
  have c: "content_end m (up (names_end m)) < 2 ^ 64" using archive_bounds(1) [OF ok] by simp
  have "\<forall>(p, n, c)\<in>set m. n = length c" using ok by (auto simp: far_map_ok_def)
  then show ?thesis
    by (simp add: far_write_head [OF far_map_fits [OF ok]] archive_entries_def write_contents_ok [OF c]
        archive_def archive_prefix_def)
qed

lemma make_entries_long:
  "\<exists>(p, n, c)\<in>set m. 65535 < length p \<Longrightarrow> make_entries m pd = Err NameTooLong"
proof (induction m arbitrary: pd)
  case (Cons x m)
  obtain p n c where x: "x = (p, n, c)" by (cases x)
  show ?case
  proof (cases "65535 < length p")
    case False
    then have "\<exists>(p, n, c)\<in>set m. 65535 < length p" using Cons.prems x by auto
    from Cons.IH [OF this] show ?thesis using False by (simp add: x)
  qed (simp add: x)
qed simp

lemma write_contents_mismatch:
  assumes "content_end (m1 @ (p, n, c) # m2) off < 2 ^ 64" and "\<forall>(p, n, c)\<in>set m1. n = length c" and "n \<noteq> length c"
  shows "fst (write_contents (m1 @ (p, n, c) # m2) (placed (dirs (m1 @ (p, n, c) # m2) k) off) t) = Err (SizeMismatch p n (length c))"
  using assms(1,2)
proof (induction m1 arbitrary: off k t)
  case Nil
  then show ?case using assms(3) by (simp add: bindP_step throwP_def)
next
  case (Cons x m)
  obtain q l d where x: "x = (q, l, d)" by (cases x)
  have "up (off + l) < 2 ^ 64"
    using Cons.prems(1) content_end_ge [of "up (off + l)" "m @ (p, n, c) # m2"] by (simp add: x)
  moreover from this have "off + l < 2 ^ 64" using up_ge [of "off + l"] by simp
  moreover have "content_end (m @ (p, n, c) # m2) (up (off + l)) < 2 ^ 64" "\<forall>(p, n, c)\<in>set m. n = length c" "l = length d"
    using Cons.prems by (auto simp: x)
  ultimately show ?case by (simp add: x Cons.IH bindP_step padding_up)
qed

section \<open>Reading the headers\<close>

definition at :: "u8 list \<Rightarrow> nat \<Rightarrow> far_source" where
  "at bs pos = \<lparr>src_bytes = bs, src_pos = pos\<rparr>"

lemma at_simps [simp]: "src_bytes (at bs pos) = bs" "src_pos (at bs pos) = pos" "(at bs pos)\<lparr>src_pos := q\<rparr> = at bs q"
  by (simp_all add: at_def)

lemma deserialize_at:
  "get (drop pos bs) = Some (x, n) \<Longrightarrow> deserialize_from get (at bs pos) = (Ok x, at bs (pos + n))"
  by (simp add: deserialize_from_def)

lemma seek_at [simp]: "seek_start n (at bs pos) = (Ok (), at bs n)"
  by (simp add: seek_start_def)

lemma read_vec_at:
  "n < 2 ^ 63 \<Longrightarrow> pos + n \<le> length bs \<Longrightarrow> read_vec n (at bs pos) = (Ok (window bs pos n), at bs (pos + n))"
  by (simp add: read_vec_def)

context bincode
begin

lemma archive_headers_ok:
  assumes "far_map_ok m"
  shows "index_ok archive_index" and "entry_ok (archive_dir_index m)" and "entry_ok (archive_name_index m)"
  using archive_bounds [OF assms]
  by (simp_all add: index_ok_def archive_index_def MAGIC_INDEX_VALUE_def entry_ok_def archive_dir_index_def
      archive_name_index_def DIR_CHUNK_def DIR_NAMES_CHUNK_def names_end_def)

lemma length_archive_head: "far_map_ok m \<Longrightarrow> length (archive_head bc m) = 64"
  using archive_headers_ok [of m] by (simp add: archive_head_def length_put)

lemma read_head:
  assumes ok: "far_map_ok m"
  shows "read_index bc (at (archive_head bc m @ rest) 0) = (Ok archive_index, at (archive_head bc m @ rest) 16)"
    and "read_index_entries bc 2 archive_index None None None (at (archive_head bc m @ rest) 16)
      = (Ok (Some (archive_dir_index m), Some (archive_name_index m)), at (archive_head bc m @ rest) 64)"
proof -
  note h = archive_headers_ok [OF ok]
  have d: "deserialize_from (get_index bc) (at (archive_head bc m @ rest) 0) = (Ok archive_index, at (archive_head bc m @ rest) 16)"
    using get_put(1) [OF h(1)] deserialize_at [of "get_index bc" 0] by (simp add: archive_head_def)
  have d1: "deserialize_from (get_entry bc) (at (archive_head bc m @ rest) 16)
      = (Ok (archive_dir_index m), at (archive_head bc m @ rest) 40)"
    using get_put(2) [OF h(2)] deserialize_at [of "get_entry bc" 16] length_put(1) [OF h(1)] by (simp add: archive_head_def)
  have d2: "deserialize_from (get_entry bc) (at (archive_head bc m @ rest) 40)
      = (Ok (archive_name_index m), at (archive_head bc m @ rest) 64)"
    using get_put(2) [OF h(3)] deserialize_at [of "get_entry bc" 40] length_put(1) [OF h(1)] length_put(2) [OF h(2)]
    by (simp add: archive_head_def)
  show "read_index bc (at (archive_head bc m @ rest) 0) = (Ok archive_index, at (archive_head bc m @ rest) 16)"
    by (simp add: read_index_def d bindP_step) (simp add: archive_index_def INDEX_ENTRY_LEN_def)
  show "read_index_entries bc 2 archive_index None None None (at (archive_head bc m @ rest) 16)
      = (Ok (Some (archive_dir_index m), Some (archive_name_index m)), at (archive_head bc m @ rest) 64)"
    by (simp add: numeral_2_eq_2 d1 d2 bindP_step archive_index_def
        archive_dir_index_def archive_name_index_def DIR_CHUNK_def DIR_NAMES_CHUNK_def DIR_HASH_CHUNK_def)
qed

section \<open>Reading the directory\<close>

lemma om_insert_last:
  "\<forall>k'\<in>fst ` set m. k' < k \<Longrightarrow> om_insert k v m = m @ [(k, v)]"
  by (induction k v m rule: om_insert.induct) auto

lemma read_directory_ok:
  assumes "\<forall>e\<in>set es. dir_ok e" and "length ps = length es"
    and "\<forall>i<length es. entry_name pd (es ! i) = Ok (ps ! i)"
    and "sorted_wrt (<) (map fst acc @ ps)"
    and "drop pos bs = concat (map (put_dir bc) es) @ rest"
  shows "\<exists>pos'. read_directory bc (length es) pd acc (at bs pos) = (Ok (acc @ zip ps es), at bs pos')"
  using assms
proof (induction es arbitrary: ps acc pos)
  case (Cons e es)
  obtain p ps' where ps: "ps = p # ps'" using Cons.prems(2) by (cases ps) auto
  have e: "dir_ok e" "entry_name pd e = Ok p" using Cons.prems(1,3) ps by auto
  have l: "length (put_dir bc e) = 32" by (rule length_put(3) [OF e(1)])
  have "deserialize_from (get_dir bc) (at bs pos) = (Ok e, at bs (pos + 32))"
    using Cons.prems(5) get_put(3) [OF e(1)] by (intro deserialize_at) simp
  moreover have "om_insert p e acc = acc @ [(p, e)]"
    using Cons.prems(4) by (intro om_insert_last) (auto simp: ps sorted_wrt_append)
  ultimately have step: "read_directory bc (length (e # es)) pd acc (at bs pos)
      = read_directory bc (length es) pd (acc @ [(p, e)]) (at bs (pos + 32))"
    using e(2) by (simp add: bindP_step)
  have "drop (pos + 32) bs = drop 32 (drop pos bs)" by (simp add: add.commute)
  also have "\<dots> = concat (map (put_dir bc) es) @ rest" unfolding Cons.prems(5) using l by simp
  finally have d: "drop (pos + 32) bs = concat (map (put_dir bc) es) @ rest" .
  have "entry_name pd (es ! i) = Ok (ps' ! i)" if "i < length es" for i
    using Cons.prems(3) [rule_format, of "Suc i"] that ps by simp
  then have "\<exists>pos'. read_directory bc (length es) pd (acc @ [(p, e)]) (at bs (pos + 32)) = (Ok ((acc @ [(p, e)]) @ zip ps' es), at bs pos')"
    using Cons.prems ps by (intro Cons.IH [OF _ _ _ _ d]) auto
  then show ?case using step ps by simp
qed auto

text \<open>The entries of an archive have their names in the path data.\<close>

lemma dirs_names:
  assumes "\<forall>(p, n, c)\<in>set m. length p \<le> 65535 \<and> utf8_valid p" and "length pre + length (names m) < 2 ^ 32" and "i < length m"
  shows "entry_name (pre @ names m @ post) (placed (dirs m (length pre)) off ! i) = Ok (fst (m ! i))"
  using assms
proof (induction m arbitrary: pre i off)
  case (Cons x m)
  obtain p n c where x: "x = (p, n, c)" by (cases x)
  have p: "length p \<le> 65535" "utf8_valid p" using Cons.prems(1) by (auto simp: x)
  show ?case
  proof (cases i)
    case 0
    have "length pre mod 4294967296 = length pre" "length p mod 65536 = length p" using Cons.prems(2) p(1) by simp_all
    then show ?thesis
      using p by (simp add: 0 x entry_name_def names_def window_append_right window_append_left Let_def)
  next
    case (Suc j)
    have "length (pre @ p) + length (names m) < 2 ^ 32" "j < length m" using Cons.prems(2,3) Suc by (simp_all add: x names_def)
    with Cons.IH [of "pre @ p" j "up (off + n)"] Cons.prems(1) show ?thesis by (simp add: x Suc names_def)
  qed
qed simp

lemma dirs_ok:
  assumes "content_end m off < 2 ^ 64"
  shows "\<forall>e\<in>set (placed (dirs m k) off). dir_ok e"
  using assms
proof (induction m arbitrary: off k)
  case (Cons x m)
  obtain p n c where x: "x = (p, n, c)" by (cases x)
  have e: "content_end m (up (off + n)) < 2 ^ 64" using Cons.prems by (simp add: x)
  moreover have "off + n < 2 ^ 64" using e content_end_ge [of "up (off + n)" m] up_ge [of "off + n"] by simp
  ultimately show ?case using Cons.IH by (auto simp: x dir_ok_def)
qed simp

section \<open>Reading the contents\<close>

lemma body_ok:
  assumes "\<forall>(p, n, c)\<in>set m. n = length c" and "length pre = off" and "4096 dvd off" and "i < length m"
  shows "data_length (placed (dirs m k) off ! i) = fst (snd (m ! i))
    \<and> 4096 dvd data_offset (placed (dirs m k) off ! i)
    \<and> data_offset (placed (dirs m k) off ! i) + fst (snd (m ! i)) \<le> length (pre @ body m off)
    \<and> window (pre @ body m off) (data_offset (placed (dirs m k) off ! i)) (fst (snd (m ! i))) = snd (snd (m ! i))"
  using assms
proof (induction m arbitrary: pre off i k)
  case (Cons x m)
  obtain p n c where x: "x = (p, n, c)" by (cases x)
  have c: "n = length c" "\<forall>(p, n, c)\<in>set m. n = length c" using Cons.prems(1) by (auto simp: x)
  show ?case
  proof (cases i)
    case 0
    then show ?thesis
      using Cons.prems(2,3) c by (simp add: x window_append_right window_append_left)
  next
    case (Suc j)
    let ?pre = "pre @ c @ replicate (up (off + n) - (off + n)) 0"
    have len: "length ?pre = up (off + n)" using up_ge [of "off + n"] Cons.prems(2) c by simp
    have "j < length m" using Cons.prems(4) Suc by simp
    from Cons.IH [OF c(2) len up_dvd this, of "k + length p"] show ?thesis by (simp add: x Suc)
  qed
qed simp

section \<open>The archive as a whole\<close>

lemma length_archive_entries [simp]: "length (archive_entries m) = length m"
  by (simp add: archive_entries_def)

lemma archive_parts:
  assumes ok: "far_map_ok m"
  shows "length (concat (map (put_dir bc) (archive_entries m))) = 32 * length m"
    and "length (archive_names m) = up8 (length (names m))" and "length (archive_prefix bc m) = up (names_end m)"
    and "archive bc m = archive_prefix bc m @ body m (up (names_end m))"
    and "\<forall>e\<in>set (archive_entries m). dir_ok e"
proof -
  have "content_end m (up (names_end m)) < 2 ^ 64" using archive_bounds(1) [OF ok] by simp
  then show d: "\<forall>e\<in>set (archive_entries m). dir_ok e" unfolding archive_entries_def by (rule dirs_ok)
  have "length (concat (map (put_dir bc) es)) = 32 * length es" if "\<forall>e\<in>set es. dir_ok e" for es
    using that by (induction es) (auto simp: length_put)
  from this [OF d] show l: "length (concat (map (put_dir bc) (archive_entries m))) = 32 * length m" by simp
  show n: "length (archive_names m) = up8 (length (names m))"
    using up8_ge [of "length (names m)"] by (simp add: archive_names_def)
  show "length (archive_prefix bc m) = up (names_end m)"
    using length_archive_head [OF ok] l n up_ge [of "names_end m"] by (simp add: archive_prefix_def names_end_def)
  show "archive bc m = archive_prefix bc m @ body m (up (names_end m))" by (simp add: archive_def archive_prefix_def)
qed

lemma reader_new_ok:
  assumes ok: "far_map_ok m"
  shows "\<exists>pos. reader_new bc (at (archive bc m) 0) = (Ok (zip (map fst m) (archive_entries m)), at (archive bc m) pos)"
proof -
  note p = archive_parts [OF ok] and b = archive_bounds [OF ok] and h = length_archive_head [OF ok]
  let ?D = "concat (map (put_dir bc) (archive_entries m))"
  let ?rest = "archive_names m @ replicate (up (names_end m) - names_end m) 0 @ body m (up (names_end m))"
  have a: "archive bc m = archive_head bc m @ ?D @ ?rest" by (simp add: archive_def)
  note rh = read_head [OF ok, of "?D @ ?rest", folded a]
  have len: "64 + 32 * length m + up8 (length (names m)) \<le> length (archive bc m)"
    using h p(1,2) by (simp add: a)
  have w: "window (archive bc m) (64 + 32 * length m) (up8 (length (names m))) = archive_names m"
    using h p(1,2) by (simp add: a window_append_right window_append_left)
  have "read_vec (up8 (length (names m))) (at (archive bc m) (64 + 32 * length m))
      = (Ok (archive_names m), at (archive bc m) (64 + 32 * length m + up8 (length (names m))))"
    using read_vec_at [OF b(4) len] w by simp
  note rv = this
  have n: "\<forall>(p, n, c)\<in>set m. length p \<le> 65535 \<and> utf8_valid p" "length ([] :: u8 list) + length (names m) < 2 ^ 32"
    using ok by (auto simp: far_map_ok_def)
  have "\<exists>pos'. read_directory bc (length (archive_entries m)) (archive_names m) [] (at (archive bc m) 64)
      = (Ok ([] @ zip (map fst m) (archive_entries m)), at (archive bc m) pos')"
  proof (rule read_directory_ok [OF p(5)])
    show "\<forall>i<length (archive_entries m). entry_name (archive_names m) (archive_entries m ! i) = Ok (map fst m ! i)"
      using dirs_names [OF n] by (auto simp: archive_names_def archive_entries_def)
    show "sorted_wrt (<) (map fst ([] :: directory) @ map fst m)" using ok by (simp add: far_map_ok_def om_wf_def)
    show "drop 64 (archive bc m) = ?D @ ?rest" using h by (simp add: a)
  qed simp
  then obtain pos' where rd: "read_directory bc (length m) (archive_names m) [] (at (archive bc m) 64)
      = (Ok (zip (map fst m) (archive_entries m)), at (archive bc m) pos')" by auto
  have i: "index_length archive_index div INDEX_ENTRY_LEN = 2" by (simp add: archive_index_def INDEX_ENTRY_LEN_def)
  have "reader_new bc (at (archive bc m) 0) = (Ok (zip (map fst m) (archive_entries m)), at (archive bc m) pos')"
    by (simp add: reader_new_def bindP_step rh i)
      (simp add: archive_dir_index_def archive_name_index_def bindP_step rv rd DIRECTORY_ENTRY_LEN_def)
  then show ?thesis by blast
qed

lemma read_back:
  assumes ok: "far_map_ok m" and x: "(p, n, c) \<in> set m"
  shows "far_get_size (zip (map fst m) (archive_entries m)) p = Ok n"
    and "fst (far_read_file (zip (map fst m) (archive_entries m)) p (at (archive bc m) pos)) = Ok c"
    and "\<exists>e. om_get (zip (map fst m) (archive_entries m)) p = Some e \<and> 4096 dvd data_offset e"
proof -
  let ?dir = "zip (map fst m) (archive_entries m)"
  note pt = archive_parts [OF ok]
  obtain i where i: "i < length m" "m ! i = (p, n, c)" using x by (metis in_set_conv_nth)
  have "distinct (map fst m)" using ok by (auto simp: far_map_ok_def om_wf_def dest: strict_sorted_imp_sorted intro: strict_sorted_iff [THEN iffD1, THEN conjunct2])
  then have e: "om_get ?dir p = Some (archive_entries m ! i)"
    using map_of_zip_nth [of "map fst m" "archive_entries m" i] i by simp
  have "\<forall>(p, n, c)\<in>set m. n = length c" using ok by (auto simp: far_map_ok_def)
  from body_ok [OF this pt(3) up_dvd i(1), of 0]
  have c: "data_length (archive_entries m ! i) = n" "4096 dvd data_offset (archive_entries m ! i)"
    "data_offset (archive_entries m ! i) + n \<le> length (archive bc m)"
    "window (archive bc m) (data_offset (archive_entries m ! i)) n = c"
    using i(2) by (simp_all add: archive_entries_def pt(4))
  show "far_get_size ?dir p = Ok n" by (simp add: far_get_size_def find_directory_entry_def e c(1))
  show "\<exists>e. om_get ?dir p = Some e \<and> 4096 dvd data_offset e" using e c(2) by blast
  have ok1: "dir_ok (archive_entries m ! i)" using pt(5) i(1) by simp
  have l: "length (archive bc m) < 2 ^ 63"
  proof -
    have "length (body m off) = content_end m off - off" if "\<forall>(p, n, c)\<in>set m. n = length c" for off
      using that
    proof (induction m arbitrary: off)
      case (Cons y m)
      obtain q k d where y: "y = (q, k, d)" by (cases y)
      show ?case
        using Cons up_ge [of "off + k"] content_end_ge [of "up (off + k)" m] by (auto simp: y)
    qed simp
    then show ?thesis
      using \<open>\<forall>(p, n, c)\<in>set m. n = length c\<close> pt(3,4) archive_bounds(1) [OF ok] content_end_ge [of "up (names_end m)" m] by simp
  qed
  show "fst (far_read_file ?dir p (at (archive bc m) pos)) = Ok c"
    using c(1,3,4) ok1 l
    by (simp add: far_read_file_def far_open_def find_directory_entry_def e far_read_at_def dir_ok_def bindP_step read_vec_def)
qed

lemma bad_name_panics:
  assumes ok: "far_map_ok [(p, n, c)]" and e: "dir_ok e" and bad: "up8 (length p) < name_offset e + dir_name_length e"
  shows "fst (reader_new bc (at (archive_head bc [(p, n, c)] @ put_dir bc e @ archive_names [(p, n, c)] @ rest) 0)) = Panic"
proof -
  let ?m = "[(p, n, c)]" let ?N = "archive_names ?m" let ?bs = "archive_head bc ?m @ put_dir bc e @ ?N @ rest"
  note h = length_archive_head [OF ok] and rh = read_head [OF ok, of "put_dir bc e @ ?N @ rest"]
  have l: "length (put_dir bc e) = 32" "length ?N = up8 (length p)"
    using length_put(3) [OF e] up8_ge [of "length p"] by (simp_all add: archive_names_def names_def)
  have "read_vec (up8 (length p)) (at ?bs 96) = (Ok (window ?bs 96 (up8 (length p))), at ?bs (96 + up8 (length p)))"
    using archive_bounds(4) [OF ok] h l by (intro read_vec_at) (simp_all add: names_def)
  moreover have "window ?bs 96 (up8 (length p)) = ?N"
    using h l by (simp add: window_append_right window_append_left)
  ultimately have rv: "read_vec (up8 (length p)) (at ?bs 96) = (Ok ?N, at ?bs (96 + up8 (length p)))" by simp
  have g: "deserialize_from (get_dir bc) (at ?bs 64) = (Ok e, at ?bs 96)"
    using get_put(3) [OF e] h deserialize_at [of "get_dir bc" 64] by simp
  have "entry_name ?N e = Panic" using bad l(2) by (simp add: entry_name_def)
  then have rd: "fst (read_directory bc (Suc 0) ?N [] (at ?bs 64)) = Panic" by (simp add: bindP_step g)
  have i: "index_length archive_index div INDEX_ENTRY_LEN = 2" by (simp add: archive_index_def INDEX_ENTRY_LEN_def)
  show ?thesis
    by (simp add: reader_new_def bindP_step rh i)
      (simp add: archive_dir_index_def archive_name_index_def names_def bindP_step rv rd DIRECTORY_ENTRY_LEN_def del: read_directory.simps)
qed

end

section \<open>Properties\<close>

text \<open>
  C12. Archives round trip: for a map of paths to contents, \<open>write\<close> succeeds and a reader opened on
  the bytes it wrote lists exactly the paths, in order; each path has the size announced and reads
  back as its contents, wherever the source stands; any other path is reported as not found. The
  contents of every path start at a multiple of 4096.
\<close>

theorem far_round_trip:
  assumes "bincode bc" and "far_map_ok m"
  shows "\<exists>bs dir. far_write bc m [] = (Ok (), bs) \<and> fst (reader_new bc (at bs 0)) = Ok dir
    \<and> far_list dir = map fst m
    \<and> (\<forall>(p, n, c)\<in>set m. far_get_size dir p = Ok n \<and> (\<forall>pos. fst (far_read_file dir p (at bs pos)) = Ok c)
         \<and> (\<exists>r. far_open dir p = Ok r \<and> 4096 dvd er_offset r \<and> er_length r = n))
    \<and> (\<forall>p. p \<notin> fst ` set m \<longrightarrow> far_open dir p = Err (PathNotFound p))"
proof -
  let ?dir = "zip (map fst m) (archive_entries m)"
  obtain pos where n: "reader_new bc (at (archive bc m) 0) = (Ok ?dir, at (archive bc m) pos)"
    using bincode.reader_new_ok [OF assms] by blast
  have l: "far_list ?dir = map fst m" by (simp add: far_list_def archive_entries_def)
  have g: "far_get_size ?dir p = Ok n \<and> (\<forall>pos. fst (far_read_file ?dir p (at (archive bc m) pos)) = Ok c)
      \<and> (\<exists>r. far_open ?dir p = Ok r \<and> 4096 dvd er_offset r \<and> er_length r = n)" if "(p, n, c) \<in> set m" for p n c
  proof (intro conjI allI)
    note r = bincode.read_back [OF assms that]
    show "far_get_size ?dir p = Ok n" by (rule r(1))
    show "fst (far_read_file ?dir p (at (archive bc m) pos)) = Ok c" for pos by (rule r(2))
    obtain e where "om_get ?dir p = Some e" "4096 dvd data_offset e" using r(3) by blast
    then show "\<exists>r. far_open ?dir p = Ok r \<and> 4096 dvd er_offset r \<and> er_length r = n"
      using r(1) by (simp add: far_open_def find_directory_entry_def far_get_size_def)
  qed
  have u: "far_open ?dir p = Err (PathNotFound p)" if "p \<notin> fst ` set m" for p
  proof -
    have "om_get ?dir p = None"
      using that by (auto simp: map_of_eq_None_iff image_iff dest: set_zip_leftD)
    then show ?thesis unfolding far_open_def find_directory_entry_def by (simp only: option.case bindO.simps)
  qed
  show ?thesis
  proof (intro exI conjI)
    show "far_write bc m [] = (Ok (), archive bc m)" by (rule far_write_ok [OF assms(2)])
    show "fst (reader_new bc (at (archive bc m) 0)) = Ok ?dir" by (simp add: n)
    show "far_list ?dir = map fst m" by (rule l)
  qed (use g u in \<open>auto split: prod.split\<close>)
qed

text \<open>An archive of two files, the first of them empty.\<close>

definition example_map :: path_content_map where
  "example_map = [([97], 0, []), ([98, 47, 99], 3, [1, 2, 3])]"

lemma example_map_ok: "far_map_ok example_map"
  by (simp add: far_map_ok_def example_map_def om_wf_def archive_size_def names_end_def names_def up_def up8_def)

theorem far_round_trip_witness:
  "\<exists>bs dir. far_write le_ops example_map [] = (Ok (), bs) \<and> fst (reader_new le_ops (at bs 0)) = Ok dir
    \<and> far_list dir = [[97], [98, 47, 99]] \<and> fst (far_read_file dir [98, 47, 99] (at bs 0)) = Ok [1, 2, 3]"
proof -
  obtain bs dir where r: "far_write le_ops example_map [] = (Ok (), bs)" "fst (reader_new le_ops (at bs 0)) = Ok dir"
      "far_list dir = map fst example_map"
    and c: "\<forall>(p, n, c)\<in>set example_map. far_get_size dir p = Ok n \<and> (\<forall>pos. fst (far_read_file dir p (at bs pos)) = Ok c)
         \<and> (\<exists>r. far_open dir p = Ok r \<and> 4096 dvd er_offset r \<and> er_length r = n)"
    using far_round_trip [OF le.bincode_axioms example_map_ok] by blast
  have "([98, 47, 99], 3, [1, 2, 3]) \<in> set example_map" by (simp add: example_map_def)
  from bspec [OF c this] have "fst (far_read_file dir [98, 47, 99] (at bs 0)) = Ok [1, 2, 3]" by simp
  moreover have "far_list dir = [[97], [98, 47, 99]]" using r(3) by (simp add: example_map_def)
  ultimately show ?thesis using r(1,2) by blast
qed

text \<open>
  C36. What \<open>write\<close> refuses: a name longer than its length field, before anything is written; and
  contents whose reader supplies another number of bytes than announced, with the path, the size
  announced and the size supplied in the error.
\<close>

theorem far_write_refuses:
  "((\<exists>(p, n, c)\<in>set m. 65535 < length p) \<longrightarrow> far_write bc m t = (Err NameTooLong, t))
    \<and> (far_fits (m1 @ (p, n, c) # m2) \<and> (\<forall>(p, n, c)\<in>set m1. n = length c) \<and> n \<noteq> length c \<longrightarrow>
        fst (far_write bc (m1 @ (p, n, c) # m2) t) = Err (SizeMismatch p n (length c)))"
proof (intro conjI impI; (elim conjE)?)
  show "far_write bc m t = (Err NameTooLong, t)" if "\<exists>(p, n, c)\<in>set m. 65535 < length p"
    by (simp add: far_write_def make_entries_long [OF that] bindP_step)
  show "fst (far_write bc (m1 @ (p, n, c) # m2) t) = Err (SizeMismatch p n (length c))"
    if f: "far_fits (m1 @ (p, n, c) # m2)" and "\<forall>(p, n, c)\<in>set m1. n = length c" "n \<noteq> length c"
  proof -
    have "content_end (m1 @ (p, n, c) # m2) (up (names_end (m1 @ (p, n, c) # m2))) < 2 ^ 64"
      using fits_bounds(1) [OF f] by simp
    from write_contents_mismatch [OF this that(2,3)] show ?thesis
      unfolding far_write_head [OF f] archive_entries_def .
  qed
qed

theorem far_write_refuses_witness:
  "(\<exists>p. length p = 65536 \<and> far_write le_ops [(p, 0, [])] [] = (Err NameTooLong, []))
    \<and> fst (far_write le_ops [([97], 0, []), ([98], 2, [1])] []) = Err (SizeMismatch [98] 2 1)"
proof -
  have f: "far_fits ([([97], 0, [])] @ ([98], 2, [1]) # [])"
    by (simp add: far_fits_def archive_size_def names_end_def names_def up_def up8_def)
  obtain p :: "u8 list" where p: "length p = 65536" using Ex_list_of_length by blast
  then have l: "\<exists>(q, n :: nat, c :: u8 list)\<in>set [(p, 0, [])]. 65535 < length q" by simp
  note r = far_write_refuses [of "[(p, 0, [])]" le_ops "[]" "[([97], 0, [])]" "[98]" 2 "[1]" "[]"]
  from r [THEN conjunct1, THEN mp, OF l]
  have "\<exists>p. length p = 65536 \<and> far_write le_ops [(p, 0, [])] [] = (Err NameTooLong, [])" using p by blast
  moreover have "fst (far_write le_ops [([97], 0, []), ([98], 2, [1])] []) = Err (SizeMismatch [98] 2 1)"
    using r [THEN conjunct2] f by simp
  ultimately show ?thesis by (rule conjI)
qed

text \<open>
  C37. A damaged archive can bring a reader down: where a directory entry names bytes beyond the
  names chunk, opening the archive panics instead of returning an error, since the name is sliced out
  of the names without a check.
\<close>

theorem far_reader_panics:
  assumes "bincode bc" and "far_map_ok [(p, n, c)]" and "dir_ok e"
    and "up8 (length p) < name_offset e + dir_name_length e"
  shows "fst (reader_new bc (at (archive_head bc [(p, n, c)] @ put_dir bc e @ archive_names [(p, n, c)] @ rest) 0)) = Panic"
  by (rule bincode.bad_name_panics [OF assms])

theorem far_reader_panics_witness:
  "fst (reader_new le_ops (at (archive_head le_ops [([97], 0, [])]
     @ put_dir le_ops \<lparr>name_offset = 9, dir_name_length = 1, reserved = 0, data_offset = 4096, data_length = 0, reserved2 = 0\<rparr>
     @ archive_names [([97], 0, [])]) 0)) = Panic"
proof -
  have "far_map_ok [([97], 0, [])]"
    by (simp add: far_map_ok_def om_wf_def archive_size_def names_end_def names_def up_def up8_def)
  from far_reader_panics [OF le.bincode_axioms this,
      of "\<lparr>name_offset = 9, dir_name_length = 1, reserved = 0, data_offset = 4096, data_length = 0, reserved2 = 0\<rparr>" "[]"]
  show ?thesis by (simp add: dir_ok_def up8_def)
qed

end
