(* ===== verification/Cm_Fidl.thy ===== *)
theory Cm_Fidl
  imports Garnet_Prelude
begin

text \<open>
  The component declarations of \<^verbatim>\<open>fuchsia.sys2\<close> as the generated bindings have them: every field of
  a table is an \<open>Option\<close>, a union may hold a variant the bindings do not know. Only the fields that
  \<^verbatim>\<open>src/lib/rust/cm_fidl_validator\<close> and \<^verbatim>\<open>src/lib/rust/cm_rust\<close> read or build are here. A \<open>String\<close> is
  the list of its bytes, so that \<open>len\<close> is its length.
\<close>

datatype startup_mode = Lazy | Eager

datatype durability = Persistent | Transient

datatype storage_type = StorageData | StorageCache | StorageMeta

record child_ref =
  child_ref_name :: "string option"
  child_ref_collection :: "string option"

text \<open>\<open>Ref\<close>; a reference to a collection or to storage is the optional name in it.\<close>

datatype fsys_ref =
    RealmRef
  | SelfRef
  | FrameworkRef
  | ChildRef child_ref
  | CollectionRef "string option"
  | StorageRef "string option"
  | UnknownRef

text \<open>The tables for services and for directories have the same fields.\<close>

record fsys_use =
  fuse_source :: "fsys_ref option"
  fuse_source_path :: "string option"
  fuse_target_path :: "string option"

record fsys_use_storage =
  fuse_type :: "storage_type option"
  fuse_storage_path :: "string option"

datatype fsys_use_decl =
    FUseService fsys_use
  | FUseDirectory fsys_use
  | FUseStorage fsys_use_storage
  | FUseUnknown

record fsys_expose =
  fexpose_source :: "fsys_ref option"
  fexpose_source_path :: "string option"
  fexpose_target_path :: "string option"

datatype fsys_expose_decl =
    FExposeService fsys_expose
  | FExposeDirectory fsys_expose
  | FExposeUnknown

record fsys_offer =
  foffer_source :: "fsys_ref option"
  foffer_source_path :: "string option"
  foffer_target :: "fsys_ref option"
  foffer_target_path :: "string option"

record fsys_offer_storage =
  foffer_type :: "storage_type option"
  foffer_storage_source :: "fsys_ref option"
  foffer_storage_target :: "fsys_ref option"

datatype fsys_offer_decl =
    FOfferService fsys_offer
  | FOfferDirectory fsys_offer
  | FOfferStorage fsys_offer_storage
  | FOfferUnknown

record fsys_child =
  fchild_name :: "string option"
  fchild_url :: "string option"
  fchild_startup :: "startup_mode option"

record fsys_collection =
  fcollection_name :: "string option"
  fcollection_durability :: "durability option"

record fsys_storage =
  fstorage_name :: "string option"
  fstorage_source_path :: "string option"
  fstorage_source :: "fsys_ref option"

text \<open>The free-form dictionaries of \<^verbatim>\<open>fuchsia.data\<close>; \<open>f64\<close> values are their bits.\<close>

datatype fdata_value =
    FBit bool
  | FInum "64 word"
  | FFnum u64
  | FStr string
  | FVec "fdata_value option list"
  | FDict "(string \<times> fdata_value option) list"

type_synonym fdata_dictionary = "(string \<times> fdata_value option) list"

record fsys_component =
  fprogram :: "fdata_dictionary option"
  fuses :: "fsys_use_decl list option"
  fexposes :: "fsys_expose_decl list option"
  foffers :: "fsys_offer_decl list option"
  ffacets :: "fdata_dictionary option"
  fstorage :: "fsys_storage list option"
  fchildren :: "fsys_child list option"
  fcollections :: "fsys_collection list option"

end
