(* ===== verification/Cm_Fidl_Validator.thy ===== *)
theory Cm_Fidl_Validator
  imports Cm_Fidl
begin

text \<open>
  The model of \<^verbatim>\<open>src/lib/rust/cm_fidl_validator/src/lib.rs\<close>: the validation of component declarations.
  The crate \<^verbatim>\<open>regex\<close> is a parameter: \<open>rx p s\<close> says whether the expression compiled from \<open>p\<close> matches
  \<open>s\<close>. A method of the validation context is a program on it; an \<open>unwrap\<close> of \<open>None\<close> panics.
\<close>

section \<open>Errors\<close>

datatype cm_error =
    MissingField string string
  | EmptyField string string
  | ExtraneousField string string
  | DuplicateField string string string
  | InvalidField string string
  | FieldTooLong string string
  | OfferTargetEqualsSource string string
  | InvalidChild string string string
  | InvalidCollection string string string
  | InvalidStorage string string string

definition quoted :: "string \<Rightarrow> string" where
  "quoted s = [CHR 0x22] @ s @ [CHR 0x22]"

fun error_display :: "cm_error \<Rightarrow> string" where
  "error_display (MissingField d k) = d @ '' missing '' @ k"
| "error_display (EmptyField d k) = d @ '' has empty '' @ k"
| "error_display (ExtraneousField d k) = d @ '' has extraneous '' @ k"
| "error_display (DuplicateField d k v) = quoted v @ '' is a duplicate '' @ d @ '' '' @ k"
| "error_display (InvalidField d k) = d @ '' has invalid '' @ k"
| "error_display (FieldTooLong d k) = d @ [CHR 0x27] @ ''s '' @ k @ '' is too long''"
| "error_display (OfferTargetEqualsSource d t) = quoted d @ '' target '' @ quoted t @ '' is same as source''"
| "error_display (InvalidChild d k c) =
     quoted c @ '' is referenced in '' @ d @ ''.'' @ k @ '' but it does not appear in children''"
| "error_display (InvalidCollection d k c) =
     quoted c @ '' is referenced in '' @ d @ ''.'' @ k @ '' but it does not appear in collections''"
| "error_display (InvalidStorage d k s) =
     quoted s @ '' is referenced in '' @ d @ ''.'' @ k @ '' but it does not appear in storage''"

fun join :: "string \<Rightarrow> string list \<Rightarrow> string" where
  "join sep [] = []"
| "join sep [s] = s"
| "join sep (s # t # ss) = s @ sep @ join sep (t # ss)"

definition error_list_display :: "cm_error list \<Rightarrow> string" where
  "error_list_display errs = join '', '' (map error_display errs)"

section \<open>Identifiers\<close>

type_synonym regex = "string \<Rightarrow> string \<Rightarrow> bool"

record cm_identifier =
  re :: string
  max_len :: nat

definition PATH :: cm_identifier where
  "PATH = \<lparr>re = ''^(/[^/]+)+$'', max_len = 1024\<rparr>"

definition NAME :: cm_identifier where
  "NAME = \<lparr>re = ''^[0-9a-z_'' @ [CHR 0x5C] @ ''-'' @ [CHR 0x5C] @ ''.]+$'', max_len = 100\<rparr>"

definition URL :: cm_identifier where
  "URL = \<lparr>re = ''^[0-9a-z'' @ [CHR 0x5C] @ ''+'' @ [CHR 0x5C] @ ''-'' @ [CHR 0x5C] @ ''.]+://.+$'', max_len = 4096\<rparr>"

definition check :: "regex \<Rightarrow> cm_identifier \<Rightarrow> string option \<Rightarrow> string \<Rightarrow> string \<Rightarrow> cm_error list \<Rightarrow> bool \<times> cm_error list" where
  "check rx self prop decl_type keyword errors = (case prop of
      None \<Rightarrow> (False, errors @ [MissingField decl_type keyword])
    | Some p \<Rightarrow>
        let (valid, errors) =
          (if \<not> rx (re self) p then (False, errors @ [InvalidField decl_type keyword]) else (True, errors))
        in if length p > max_len self then (False, errors @ [FieldTooLong decl_type keyword]) else (valid, errors))"

section \<open>The validation context\<close>

record validation_context =
  all_children :: "string set"
  all_collections :: "string set"
  all_storage_and_sources :: "string \<rightharpoonup> string option"
  child_target_paths :: "string \<rightharpoonup> string set"
  collection_target_paths :: "string \<rightharpoonup> string set"
  errors :: "cm_error list"

type_synonym 'a vprog = "(validation_context, unit, 'a) prog"

definition push_error :: "cm_error \<Rightarrow> unit vprog" where
  "push_error e = modifyP (\<lambda>c. c\<lparr>errors := errors c @ [e]\<rparr>)"

definition check_field :: "regex \<Rightarrow> cm_identifier \<Rightarrow> string option \<Rightarrow> string \<Rightarrow> string \<Rightarrow> bool vprog" where
  "check_field rx self prop decl_type keyword c =
     (case check rx self prop decl_type keyword (errors c) of (valid, es) \<Rightarrow> (Ok valid, c\<lparr>errors := es\<rparr>))"

definition unwrap_option :: "'a option \<Rightarrow> 'a vprog" where
  "unwrap_option x = (case x of Some a \<Rightarrow> returnP a | None \<Rightarrow> readP (\<lambda>_. Panic))"

fun for_each :: "('a \<Rightarrow> unit vprog) \<Rightarrow> 'a list \<Rightarrow> unit vprog" where
  "for_each f [] = returnP ()"
| "for_each f (x # xs) = bindP (f x) (\<lambda>_. for_each f xs)"

text \<open>\<open>if let Some(items) = \<dots> { for item in items.iter() { \<dots> } }\<close>\<close>

definition for_each_in :: "('a \<Rightarrow> unit vprog) \<Rightarrow> 'a list option \<Rightarrow> unit vprog" where
  "for_each_in f items = (case items of Some xs \<Rightarrow> for_each f xs | None \<Rightarrow> returnP ())"

section \<open>Children and collections\<close>

definition validate_child :: "regex \<Rightarrow> fsys_child \<Rightarrow> (cm_error list, unit) outcome" where
  "validate_child rx child =
     (let errors = snd (check rx NAME (fchild_name child) ''ChildDecl'' ''name'' []);
          errors = snd (check rx URL (fchild_url child) ''ChildDecl'' ''url'' errors);
          errors = (if fchild_startup child = None then errors @ [MissingField ''ChildDecl'' ''startup''] else errors)
      in if errors = [] then Ok () else Err errors)"

definition validate_child_decl :: "regex \<Rightarrow> fsys_child \<Rightarrow> unit vprog" where
  "validate_child_decl rx child =
     bindP (case validate_child rx child of
         Err es \<Rightarrow> modifyP (\<lambda>c. c\<lparr>errors := errors c @ es\<rparr>)
       | _ \<Rightarrow> returnP ()) (\<lambda>_.
     case fchild_name child of
       None \<Rightarrow> returnP ()
     | Some name \<Rightarrow>
         bindP (getP (\<lambda>c. name \<in> all_children c)) (\<lambda>present.
         bindP (modifyP (\<lambda>c. c\<lparr>all_children := insert name (all_children c)\<rparr>)) (\<lambda>_.
           if present then push_error (DuplicateField ''ChildDecl'' ''name'' name) else returnP ())))"

definition validate_collection_decl :: "regex \<Rightarrow> fsys_collection \<Rightarrow> unit vprog" where
  "validate_collection_decl rx collection =
     bindP (check_field rx NAME (fcollection_name collection) ''CollectionDecl'' ''name'') (\<lambda>valid.
     bindP (if valid then
         bindP (unwrap_option (fcollection_name collection)) (\<lambda>name.
         bindP (getP (\<lambda>c. name \<in> all_collections c)) (\<lambda>present.
         bindP (modifyP (\<lambda>c. c\<lparr>all_collections := insert name (all_collections c)\<rparr>)) (\<lambda>_.
           if present then push_error (DuplicateField ''CollectionDecl'' ''name'' name) else returnP ())))
       else returnP ()) (\<lambda>_.
     if fcollection_durability collection = None
     then push_error (MissingField ''CollectionDecl'' ''durability'') else returnP ()))"

section \<open>Sources\<close>

definition validate_source_child :: "regex \<Rightarrow> child_ref \<Rightarrow> string \<Rightarrow> unit vprog" where
  "validate_source_child rx child decl_type =
     bindP (check_field rx NAME (child_ref_name child) decl_type ''source.child.name'') (\<lambda>valid1.
     bindP (if child_ref_collection child \<noteq> None
       then bindP (push_error (ExtraneousField decl_type ''source.child.collection'')) (\<lambda>_. returnP False)
       else returnP True) (\<lambda>valid2.
     if \<not> (valid1 \<and> valid2) then returnP ()
     else case child_ref_name child of
         Some child_name \<Rightarrow>
           bindP (getP (\<lambda>c. child_name \<in> all_children c)) (\<lambda>present.
             if present then returnP () else push_error (InvalidChild decl_type ''source'' child_name))
       | None \<Rightarrow> push_error (MissingField decl_type ''source.child.name'')))"

definition validate_storage_source :: "regex \<Rightarrow> string option \<Rightarrow> string \<Rightarrow> unit vprog" where
  "validate_storage_source rx source_name decl_type =
     bindP (check_field rx NAME source_name decl_type ''source.storage.name'') (\<lambda>valid.
     if \<not> valid then returnP ()
     else case source_name of
         Some storage_name \<Rightarrow>
           bindP (getP (\<lambda>c. all_storage_and_sources c storage_name \<noteq> None)) (\<lambda>present.
             if present then returnP () else push_error (InvalidStorage decl_type ''source'' storage_name))
       | None \<Rightarrow> push_error (MissingField decl_type ''source.storage.name''))"

definition validate_storage_decl :: "regex \<Rightarrow> fsys_storage \<Rightarrow> unit vprog" where
  "validate_storage_decl rx storage =
     bindP (check_field rx PATH (fstorage_source_path storage) ''StorageDecl'' ''source_path'') (\<lambda>_.
     bindP (case fstorage_source storage of
         Some RealmRef \<Rightarrow> returnP None
       | Some SelfRef \<Rightarrow> returnP None
       | Some (ChildRef child) \<Rightarrow>
           bindP (validate_source_child rx child ''StorageDecl'') (\<lambda>_. returnP (child_ref_name child))
       | Some _ \<Rightarrow> bindP (push_error (InvalidField ''StorageDecl'' ''source'')) (\<lambda>_. returnP None)
       | None \<Rightarrow> bindP (push_error (MissingField ''StorageDecl'' ''source'')) (\<lambda>_. returnP None)) (\<lambda>source_child_name.
     bindP (check_field rx NAME (fstorage_name storage) ''StorageDecl'' ''name'') (\<lambda>valid.
     if \<not> valid then returnP ()
     else bindP (unwrap_option (fstorage_name storage)) (\<lambda>name.
          bindP (getP (\<lambda>c. all_storage_and_sources c name \<noteq> None)) (\<lambda>present.
          bindP (modifyP (\<lambda>c. c\<lparr>all_storage_and_sources := (all_storage_and_sources c)(name \<mapsto> source_child_name)\<rparr>)) (\<lambda>_.
            if present then push_error (DuplicateField ''StorageDecl'' ''name'' name) else returnP ()))))))"

section \<open>Uses\<close>

definition validate_use_fields :: "regex \<Rightarrow> string \<Rightarrow> fsys_ref option \<Rightarrow> string option \<Rightarrow> string option \<Rightarrow> unit vprog" where
  "validate_use_fields rx decl source source_path target_path =
     bindP (case source of
         Some RealmRef \<Rightarrow> returnP ()
       | Some FrameworkRef \<Rightarrow> returnP ()
       | Some _ \<Rightarrow> push_error (InvalidField decl ''source'')
       | None \<Rightarrow> push_error (MissingField decl ''source'')) (\<lambda>_.
     bindP (check_field rx PATH source_path decl ''source_path'') (\<lambda>_.
     bindP (check_field rx PATH target_path decl ''target_path'') (\<lambda>_. returnP ())))"

definition validate_use_decl :: "regex \<Rightarrow> fsys_use_decl \<Rightarrow> unit vprog" where
  "validate_use_decl rx use = (case use of
      FUseService u \<Rightarrow>
        validate_use_fields rx ''UseServiceDecl'' (fuse_source u) (fuse_source_path u) (fuse_target_path u)
    | FUseDirectory u \<Rightarrow>
        validate_use_fields rx ''UseDirectoryDecl'' (fuse_source u) (fuse_source_path u) (fuse_target_path u)
    | FUseStorage u \<Rightarrow> (case fuse_type u of
          None \<Rightarrow> push_error (MissingField ''UseStorageDecl'' ''type'')
        | Some StorageMeta \<Rightarrow>
            if fuse_storage_path u \<noteq> None then push_error (InvalidField ''UseStorageDecl'' ''target_path'') else returnP ()
        | _ \<Rightarrow> bindP (check_field rx PATH (fuse_storage_path u) ''UseStorageDecl'' ''target_path'') (\<lambda>_. returnP ()))
    | FUseUnknown \<Rightarrow> push_error (InvalidField ''ComponentDecl'' ''use''))"

section \<open>Exposes\<close>

text \<open>The set of target paths of the exposes is a local variable of \<open>validate\<close>, passed along here.\<close>

definition validate_expose_fields :: "regex \<Rightarrow> string \<Rightarrow> fsys_ref option \<Rightarrow> string option \<Rightarrow> string option \<Rightarrow>
    string set \<Rightarrow> string set vprog" where
  "validate_expose_fields rx decl source source_path target_path prev_target_paths =
     bindP (case source of
         Some SelfRef \<Rightarrow> returnP ()
       | Some (ChildRef child) \<Rightarrow> validate_source_child rx child decl
       | Some _ \<Rightarrow> push_error (InvalidField decl ''source'')
       | None \<Rightarrow> push_error (MissingField decl ''source'')) (\<lambda>_.
     bindP (check_field rx PATH source_path decl ''source_path'') (\<lambda>_.
     bindP (check_field rx PATH target_path decl ''target_path'') (\<lambda>valid.
     if \<not> valid then returnP prev_target_paths
     else bindP (unwrap_option target_path) (\<lambda>path.
          bindP (if path \<in> prev_target_paths then push_error (DuplicateField decl ''target_path'' path) else returnP ()) (\<lambda>_.
            returnP (insert path prev_target_paths))))))"

definition validate_expose_decl :: "regex \<Rightarrow> fsys_expose_decl \<Rightarrow> string set \<Rightarrow> string set vprog" where
  "validate_expose_decl rx expose prev_target_paths = (case expose of
      FExposeService e \<Rightarrow> validate_expose_fields rx ''ExposeServiceDecl''
        (fexpose_source e) (fexpose_source_path e) (fexpose_target_path e) prev_target_paths
    | FExposeDirectory e \<Rightarrow> validate_expose_fields rx ''ExposeDirectoryDecl''
        (fexpose_source e) (fexpose_source_path e) (fexpose_target_path e) prev_target_paths
    | FExposeUnknown \<Rightarrow> bindP (push_error (InvalidField ''ComponentDecl'' ''expose'')) (\<lambda>_. returnP prev_target_paths))"

fun validate_exposes :: "regex \<Rightarrow> fsys_expose_decl list \<Rightarrow> string set \<Rightarrow> unit vprog" where
  "validate_exposes rx [] target_paths = returnP ()"
| "validate_exposes rx (expose # exposes) target_paths =
     bindP (validate_expose_decl rx expose target_paths) (validate_exposes rx exposes)"

section \<open>Offers\<close>

definition validate_target_child :: "regex \<Rightarrow> string \<Rightarrow> child_ref \<Rightarrow> fsys_ref option \<Rightarrow> string option \<Rightarrow> unit vprog" where
  "validate_target_child rx decl child source target_path =
     bindP (check_field rx NAME (child_ref_name child) decl ''target.child.name'') (\<lambda>valid1.
     bindP (if child_ref_collection child \<noteq> None
       then bindP (push_error (ExtraneousField decl ''target.child.collection'')) (\<lambda>_. returnP False)
       else returnP True) (\<lambda>valid2.
     if \<not> (valid1 \<and> valid2) then returnP ()
     else case target_path of
         None \<Rightarrow> returnP ()
       | Some path \<Rightarrow>
           bindP (unwrap_option (child_ref_name child)) (\<lambda>child_name.
           bindP (getP (\<lambda>c. child_name \<in> all_children c)) (\<lambda>present.
           bindP (if present then returnP () else push_error (InvalidChild decl ''target'' child_name)) (\<lambda>_.
           bindP (getP (\<lambda>c. case child_target_paths c child_name of Some ps \<Rightarrow> ps | None \<Rightarrow> {})) (\<lambda>paths_for_target.
           bindP (modifyP (\<lambda>c. c\<lparr>child_target_paths := (child_target_paths c)(child_name \<mapsto> insert path paths_for_target)\<rparr>)) (\<lambda>_.
           bindP (if path \<in> paths_for_target then push_error (DuplicateField decl ''target_path'' path) else returnP ()) (\<lambda>_.
           case source of
             Some (ChildRef source_child) \<Rightarrow>
               if child_ref_name source_child = Some child_name
               then push_error (OfferTargetEqualsSource decl child_name) else returnP ()
           | _ \<Rightarrow> returnP ()))))))))"

definition validate_target_collection :: "regex \<Rightarrow> string \<Rightarrow> string option \<Rightarrow> string option \<Rightarrow> unit vprog" where
  "validate_target_collection rx decl collection target_path =
     bindP (check_field rx NAME collection decl ''target.collection.name'') (\<lambda>valid.
     if \<not> valid then returnP ()
     else case target_path of
         None \<Rightarrow> returnP ()
       | Some path \<Rightarrow>
           bindP (unwrap_option collection) (\<lambda>collection_name.
           bindP (getP (\<lambda>c. collection_name \<in> all_collections c)) (\<lambda>present.
           bindP (if present then returnP () else push_error (InvalidCollection decl ''target'' collection_name)) (\<lambda>_.
           bindP (getP (\<lambda>c. case collection_target_paths c collection_name of Some ps \<Rightarrow> ps | None \<Rightarrow> {})) (\<lambda>paths_for_target.
           bindP (modifyP (\<lambda>c. c\<lparr>collection_target_paths :=
               (collection_target_paths c)(collection_name \<mapsto> insert path paths_for_target)\<rparr>)) (\<lambda>_.
             if path \<in> paths_for_target then push_error (DuplicateField decl ''target_path'' path) else returnP ()))))))"

definition validate_offers_fields :: "regex \<Rightarrow> string \<Rightarrow> fsys_ref option \<Rightarrow> string option \<Rightarrow> fsys_ref option \<Rightarrow>
    string option \<Rightarrow> unit vprog" where
  "validate_offers_fields rx decl source source_path target target_path =
     bindP (case source of
         Some RealmRef \<Rightarrow> returnP ()
       | Some SelfRef \<Rightarrow> returnP ()
       | Some (ChildRef child) \<Rightarrow> validate_source_child rx child decl
       | Some _ \<Rightarrow> push_error (InvalidField decl ''source'')
       | None \<Rightarrow> push_error (MissingField decl ''source'')) (\<lambda>_.
     bindP (check_field rx PATH source_path decl ''source_path'') (\<lambda>_.
     bindP (case target of
         Some (ChildRef c) \<Rightarrow> validate_target_child rx decl c source target_path
       | Some (CollectionRef c) \<Rightarrow> validate_target_collection rx decl c target_path
       | Some _ \<Rightarrow> push_error (InvalidField decl ''target'')
       | None \<Rightarrow> push_error (MissingField decl ''target'')) (\<lambda>_.
     bindP (check_field rx PATH target_path decl ''target_path'') (\<lambda>_. returnP ()))))"

definition validate_storage_target :: "regex \<Rightarrow> string \<Rightarrow> string option \<Rightarrow> fsys_ref option \<Rightarrow> unit vprog" where
  "validate_storage_target rx decl storage_source_name target = (case target of
      Some (ChildRef c) \<Rightarrow>
        bindP (check_field rx NAME (child_ref_name c) decl ''target.child.name'') (\<lambda>valid.
        if \<not> valid then returnP ()
        else if child_ref_collection c \<noteq> None then push_error (ExtraneousField decl ''target.child.collection'')
        else bindP (unwrap_option (child_ref_name c)) (\<lambda>name.
             bindP (getP (\<lambda>ctx. name \<in> all_children ctx)) (\<lambda>present.
             bindP (if present then returnP () else push_error (InvalidChild decl ''target'' name)) (\<lambda>_.
             case storage_source_name of
               Some source_name \<Rightarrow>
                 bindP (getP (\<lambda>ctx. all_storage_and_sources ctx source_name = Some (Some name))) (\<lambda>same.
                   if same then push_error (OfferTargetEqualsSource decl name) else returnP ())
             | None \<Rightarrow> returnP ()))))
    | Some (CollectionRef c) \<Rightarrow>
        bindP (check_field rx NAME c decl ''target.collection.name'') (\<lambda>valid.
        if \<not> valid then returnP ()
        else bindP (unwrap_option c) (\<lambda>name.
             bindP (getP (\<lambda>ctx. name \<in> all_collections ctx)) (\<lambda>present.
               if present then returnP () else push_error (InvalidCollection decl ''target'' name))))
    | Some _ \<Rightarrow> push_error (InvalidField decl ''target'')
    | None \<Rightarrow> push_error (MissingField decl ''target''))"

definition validate_storage_offer_fields :: "regex \<Rightarrow> string \<Rightarrow> storage_type option \<Rightarrow> fsys_ref option \<Rightarrow>
    fsys_ref option \<Rightarrow> unit vprog" where
  "validate_storage_offer_fields rx decl type source target =
     bindP (if type = None then push_error (MissingField decl ''type'') else returnP ()) (\<lambda>_.
     bindP (case source of
         Some RealmRef \<Rightarrow> returnP None
       | Some (StorageRef s) \<Rightarrow> bindP (validate_storage_source rx s decl) (\<lambda>_. returnP s)
       | Some _ \<Rightarrow> bindP (push_error (InvalidField decl ''source'')) (\<lambda>_. returnP None)
       | None \<Rightarrow> bindP (push_error (MissingField decl ''source'')) (\<lambda>_. returnP None)) (\<lambda>storage_source_name.
       validate_storage_target rx decl storage_source_name target))"

definition validate_offers_decl :: "regex \<Rightarrow> fsys_offer_decl \<Rightarrow> unit vprog" where
  "validate_offers_decl rx offer = (case offer of
      FOfferService o' \<Rightarrow> validate_offers_fields rx ''OfferServiceDecl''
        (foffer_source o') (foffer_source_path o') (foffer_target o') (foffer_target_path o')
    | FOfferDirectory o' \<Rightarrow> validate_offers_fields rx ''OfferDirectoryDecl''
        (foffer_source o') (foffer_source_path o') (foffer_target o') (foffer_target_path o')
    | FOfferStorage o' \<Rightarrow> validate_storage_offer_fields rx ''OfferStorageDecl''
        (foffer_type o') (foffer_storage_source o') (foffer_storage_target o')
    | FOfferUnknown \<Rightarrow> push_error (InvalidField ''ComponentDecl'' ''offer''))"

section \<open>Declarations\<close>

definition new_context :: validation_context where
  "new_context = \<lparr>all_children = {}, all_collections = {}, all_storage_and_sources = Map.empty,
     child_target_paths = Map.empty, collection_target_paths = Map.empty, errors = []\<rparr>"

definition validate_context :: "regex \<Rightarrow> fsys_component \<Rightarrow> unit vprog" where
  "validate_context rx decl =
     bindP (for_each_in (validate_child_decl rx) (fchildren decl)) (\<lambda>_.
     bindP (for_each_in (validate_collection_decl rx) (fcollections decl)) (\<lambda>_.
     bindP (for_each_in (validate_storage_decl rx) (fstorage decl)) (\<lambda>_.
     bindP (for_each_in (validate_use_decl rx) (fuses decl)) (\<lambda>_.
     bindP (case fexposes decl of Some exposes \<Rightarrow> validate_exposes rx exposes {} | None \<Rightarrow> returnP ()) (\<lambda>_.
       for_each_in (validate_offers_decl rx) (foffers decl))))))"

definition validate :: "regex \<Rightarrow> fsys_component \<Rightarrow> (cm_error list, unit) outcome" where
  "validate rx decl = (case validate_context rx decl new_context of
      (Ok _, c) \<Rightarrow> if errors c = [] then Ok () else Err (errors c)
    | (Err _, c) \<Rightarrow> Err (errors c)
    | (Panic, c) \<Rightarrow> Panic
    | (Diverge, c) \<Rightarrow> Diverge)"

end
