(* ===== verification/Cm_Validator_Correct.thy ===== *)
theory Cm_Validator_Correct
  imports Cm_Fidl_Validator
begin

text \<open>
  The correctness of the validator of component declarations: \<open>validate\<close> never panics, and it accepts
  exactly the declarations that satisfy a declarative specification.
\<close>

section \<open>The specification\<close>

definition ident_ok :: "regex \<Rightarrow> cm_identifier \<Rightarrow> string option \<Rightarrow> bool" where
  "ident_ok rx i p \<longleftrightarrow> (case p of None \<Rightarrow> False | Some s \<Rightarrow> rx (re i) s \<and> length s \<le> max_len i)"

definition child_ok :: "regex \<Rightarrow> fsys_child \<Rightarrow> bool" where
  "child_ok rx d \<longleftrightarrow> ident_ok rx NAME (fchild_name d) \<and> ident_ok rx URL (fchild_url d) \<and> fchild_startup d \<noteq> None"

definition collection_ok :: "regex \<Rightarrow> fsys_collection \<Rightarrow> bool" where
  "collection_ok rx d \<longleftrightarrow> ident_ok rx NAME (fcollection_name d) \<and> fcollection_durability d \<noteq> None"

text \<open>A reference to a child names a declared child and no collection.\<close>

definition child_ref_ok :: "regex \<Rightarrow> string set \<Rightarrow> child_ref \<Rightarrow> bool" where
  "child_ref_ok rx C r \<longleftrightarrow> ident_ok rx NAME (child_ref_name r) \<and> child_ref_collection r = None
     \<and> (\<exists>n\<in>C. child_ref_name r = Some n)"

definition storage_source_ok :: "regex \<Rightarrow> string set \<Rightarrow> fsys_ref option \<Rightarrow> bool" where
  "storage_source_ok rx C s \<longleftrightarrow> (case s of
     Some RealmRef \<Rightarrow> True | Some SelfRef \<Rightarrow> True | Some (ChildRef r) \<Rightarrow> child_ref_ok rx C r | _ \<Rightarrow> False)"

definition storage_ok :: "regex \<Rightarrow> string set \<Rightarrow> fsys_storage \<Rightarrow> bool" where
  "storage_ok rx C d \<longleftrightarrow> ident_ok rx PATH (fstorage_source_path d) \<and> storage_source_ok rx C (fstorage_source d)
     \<and> ident_ok rx NAME (fstorage_name d)"

definition storage_child :: "fsys_storage \<Rightarrow> string option" where
  "storage_child d = (case fstorage_source d of Some (ChildRef r) \<Rightarrow> child_ref_name r | _ \<Rightarrow> None)"

fun use_ok :: "regex \<Rightarrow> fsys_use_decl \<Rightarrow> bool" where
  "use_ok rx (FUseService u) \<longleftrightarrow> fuse_source u \<in> {Some RealmRef, Some FrameworkRef}
     \<and> ident_ok rx PATH (fuse_source_path u) \<and> ident_ok rx PATH (fuse_target_path u)"
| "use_ok rx (FUseDirectory u) \<longleftrightarrow> fuse_source u \<in> {Some RealmRef, Some FrameworkRef}
     \<and> ident_ok rx PATH (fuse_source_path u) \<and> ident_ok rx PATH (fuse_target_path u)"
| "use_ok rx (FUseStorage u) \<longleftrightarrow> (case fuse_type u of None \<Rightarrow> False
     | Some StorageMeta \<Rightarrow> fuse_storage_path u = None | Some _ \<Rightarrow> ident_ok rx PATH (fuse_storage_path u))"
| "use_ok rx FUseUnknown \<longleftrightarrow> False"

definition expose_fields_ok :: "regex \<Rightarrow> string set \<Rightarrow> fsys_expose \<Rightarrow> bool" where
  "expose_fields_ok rx C e \<longleftrightarrow> (case fexpose_source e of
       Some SelfRef \<Rightarrow> True | Some (ChildRef r) \<Rightarrow> child_ref_ok rx C r | _ \<Rightarrow> False)
     \<and> ident_ok rx PATH (fexpose_source_path e) \<and> ident_ok rx PATH (fexpose_target_path e)"

fun expose_ok :: "regex \<Rightarrow> string set \<Rightarrow> fsys_expose_decl \<Rightarrow> bool" where
  "expose_ok rx C (FExposeService e) \<longleftrightarrow> expose_fields_ok rx C e"
| "expose_ok rx C (FExposeDirectory e) \<longleftrightarrow> expose_fields_ok rx C e"
| "expose_ok rx C FExposeUnknown \<longleftrightarrow> False"

fun expose_path :: "fsys_expose_decl \<Rightarrow> string option" where
  "expose_path (FExposeService e) = fexpose_target_path e"
| "expose_path (FExposeDirectory e) = fexpose_target_path e"
| "expose_path FExposeUnknown = None"

text \<open>An offer goes to a declared child, other than its source, or to a declared collection.\<close>

definition offer_target_ok :: "regex \<Rightarrow> string set \<Rightarrow> string set \<Rightarrow> (string \<Rightarrow> bool) \<Rightarrow> fsys_ref option \<Rightarrow> bool" where
  "offer_target_ok rx C K forbidden t \<longleftrightarrow> (case t of
       Some (ChildRef r) \<Rightarrow> child_ref_ok rx C r \<and> \<not> forbidden (the (child_ref_name r))
     | Some (CollectionRef n) \<Rightarrow> ident_ok rx NAME n \<and> (\<exists>k\<in>K. n = Some k)
     | _ \<Rightarrow> False)"

definition offer_fields_ok :: "regex \<Rightarrow> string set \<Rightarrow> string set \<Rightarrow> fsys_offer \<Rightarrow> bool" where
  "offer_fields_ok rx C K d \<longleftrightarrow> storage_source_ok rx C (foffer_source d) \<and> ident_ok rx PATH (foffer_source_path d)
     \<and> offer_target_ok rx C K (\<lambda>n. \<exists>r. foffer_source d = Some (ChildRef r) \<and> child_ref_name r = Some n) (foffer_target d)
     \<and> ident_ok rx PATH (foffer_target_path d)"

fun offer_ok :: "regex \<Rightarrow> string set \<Rightarrow> string set \<Rightarrow> (string \<rightharpoonup> string option) \<Rightarrow> fsys_offer_decl \<Rightarrow> bool" where
  "offer_ok rx C K S (FOfferService d) \<longleftrightarrow> offer_fields_ok rx C K d"
| "offer_ok rx C K S (FOfferDirectory d) \<longleftrightarrow> offer_fields_ok rx C K d"
| "offer_ok rx C K S (FOfferStorage d) \<longleftrightarrow> foffer_type d \<noteq> None
     \<and> (case foffer_storage_source d of Some RealmRef \<Rightarrow> True
        | Some (StorageRef s) \<Rightarrow> ident_ok rx NAME s \<and> S (the s) \<noteq> None | _ \<Rightarrow> False)
     \<and> offer_target_ok rx C K (\<lambda>n. \<exists>s. foffer_storage_source d = Some (StorageRef (Some s)) \<and> S s = Some (Some n))
         (foffer_storage_target d)"
| "offer_ok rx C K S FOfferUnknown \<longleftrightarrow> False"

text \<open>The target and the path of an offer of a service or directory.\<close>

definition offer_fields_key :: "fsys_offer \<Rightarrow> fsys_ref option \<times> string option" where
  "offer_fields_key d = (foffer_target d, foffer_target_path d)"

fun offer_keys :: "fsys_offer_decl \<Rightarrow> (fsys_ref option \<times> string option) list" where
  "offer_keys (FOfferService d) = [offer_fields_key d]"
| "offer_keys (FOfferDirectory d) = [offer_fields_key d]"
| "offer_keys _ = []"

abbreviation items :: "'a list option \<Rightarrow> 'a list" where
  "items xs \<equiv> (case xs of None \<Rightarrow> [] | Some ys \<Rightarrow> ys)"

definition child_names :: "fsys_component \<Rightarrow> string set" where
  "child_names d = set (List.map_filter fchild_name (items (fchildren d)))"

definition collection_names :: "fsys_component \<Rightarrow> string set" where
  "collection_names d = set (List.map_filter fcollection_name (items (fcollections d)))"

definition storage_sources :: "fsys_component \<Rightarrow> string \<rightharpoonup> string option" where
  "storage_sources d = map_of (map (\<lambda>s. (the (fstorage_name s), storage_child s)) (items (fstorage d)))"

definition decl_valid :: "regex \<Rightarrow> fsys_component \<Rightarrow> bool" where
  "decl_valid rx d \<longleftrightarrow>
     (\<forall>x\<in>set (items (fchildren d)). child_ok rx x) \<and> distinct (map fchild_name (items (fchildren d)))
     \<and> (\<forall>x\<in>set (items (fcollections d)). collection_ok rx x) \<and> distinct (map fcollection_name (items (fcollections d)))
     \<and> (\<forall>x\<in>set (items (fstorage d)). storage_ok rx (child_names d) x) \<and> distinct (map fstorage_name (items (fstorage d)))
     \<and> (\<forall>x\<in>set (items (fuses d)). use_ok rx x)
     \<and> (\<forall>x\<in>set (items (fexposes d)). expose_ok rx (child_names d) x) \<and> distinct (map expose_path (items (fexposes d)))
     \<and> (\<forall>x\<in>set (items (foffers d)). offer_ok rx (child_names d) (collection_names d) (storage_sources d) x)
     \<and> distinct (concat (map offer_keys (items (foffers d))))"

section \<open>Validation steps\<close>

text \<open>
  What a step of the validation does: it returns, it only adds errors, it adds none exactly if the
  condition \<open>ok\<close> holds, and in that case it returns \<open>r\<close> in the context \<open>c'\<close>.
\<close>

definition vgrow :: "'a vprog \<Rightarrow> validation_context \<Rightarrow> bool" where
  "vgrow p c \<longleftrightarrow> (\<exists>r s es. p c = (Ok r, s) \<and> errors s = errors c @ es)"

definition vstep :: "'a vprog \<Rightarrow> validation_context \<Rightarrow> bool \<Rightarrow> 'a \<Rightarrow> validation_context \<Rightarrow> bool" where
  "vstep p c ok r' c' \<longleftrightarrow> (\<exists>r s es. p c = (Ok r, s) \<and> errors s = errors c @ es \<and> (es = [] \<longleftrightarrow> ok)
     \<and> (ok \<longrightarrow> r = r' \<and> s = c'))"

lemma vstep_vgrow: "vstep p c ok r c' \<Longrightarrow> vgrow p c"
  by (auto simp: vstep_def vgrow_def)

lemma vstep_cong: "vstep p c ok r c' \<Longrightarrow> ok = ok' \<Longrightarrow> (ok' \<Longrightarrow> r = r' \<and> c' = c'') \<Longrightarrow> vstep p c ok' r' c''"
  by (auto simp: vstep_def)

lemma vstep_return: "vstep (returnP r) c True r c"
  by (simp add: vstep_def)

lemma vstep_push: "vstep (push_error e) c False r c'"
  by (simp add: vstep_def push_error_def)

lemma vstep_get: "vstep (getP f) c True (f c) c"
  by (simp add: vstep_def)

lemma vstep_modify: "errors (f c) = errors c \<Longrightarrow> vstep (modifyP f) c True () (f c)"
  by (simp add: vstep_def)

lemma vstep_check: "vstep (check_field rx i p d k) c (ident_ok rx i p) True c"
  by (auto simp: vstep_def check_field_def check_def ident_ok_def Let_def split: option.splits)

lemma check_result: "check_field rx i p d k c = (Ok r, s) \<Longrightarrow> r = ident_ok rx i p"
  by (auto simp: check_field_def check_def ident_ok_def Let_def split: option.splits if_splits)

lemma vstep_unwrap: "x = Some a \<Longrightarrow> vstep (unwrap_option x) c True a c"
  by (simp add: vstep_def unwrap_option_def)

lemma vstep_bind:
  assumes "vstep p c ok1 r1 c1" and "\<And>r s. p c = (Ok r, s) \<Longrightarrow> vgrow (f r) s"
    and "ok1 \<Longrightarrow> vstep (f r1) c1 ok2 r2 c2"
  shows "vstep (bindP p f) c (ok1 \<and> ok2) r2 c2"
proof -
  obtain r s es where p: "p c = (Ok r, s)" "errors s = errors c @ es" "es = [] \<longleftrightarrow> ok1" "ok1 \<longrightarrow> r = r1 \<and> s = c1"
    using assms(1) by (auto simp: vstep_def)
  show ?thesis
  proof (cases ok1)
    case True
    then show ?thesis using p assms(3) by (auto simp: vstep_def bindP_def)
  next
    case False
    obtain r' s' es' where "f r s = (Ok r', s')" "errors s' = errors s @ es'"
      using assms(2) [OF p(1)] by (auto simp: vgrow_def)
    then show ?thesis using False p(2,3) by (auto simp: vstep_def bindP_def p(1))
  qed
qed

lemma vgrow_bind:
  assumes "vgrow p c" and "\<And>r s. p c = (Ok r, s) \<Longrightarrow> vgrow (f r) s"
  shows "vgrow (bindP p f) c"
proof -
  obtain r s es where "p c = (Ok r, s)" "errors s = errors c @ es" using assms(1) by (auto simp: vgrow_def)
  with assms(2) [OF this(1)] show ?thesis by (auto simp: vgrow_def bindP_step(1))
qed

lemma vgrow_Pair: "vgrow (Pair (Ok x)) c"
  by (simp add: vgrow_def)

lemmas vgrow_basic = vgrow_Pair vstep_vgrow [OF vstep_return] vstep_vgrow [OF vstep_push] vstep_vgrow [OF vstep_get]
  vstep_vgrow [OF vstep_check] vstep_vgrow [OF vstep_modify] vstep_vgrow [OF vstep_unwrap]

text \<open>An identifier that guards what follows.\<close>

lemma vstep_guard:
  assumes "ident_ok rx i p \<Longrightarrow> vstep f c ok r c'" and "\<And>s. ident_ok rx i p \<Longrightarrow> vgrow f s"
  shows "vstep (bindP (check_field rx i p d k) (\<lambda>valid. if \<not> valid then returnP x else f)) c (ident_ok rx i p \<and> ok) r c'"
  by (rule vstep_bind [OF vstep_check]) (auto dest!: check_result intro: vgrow_basic assms)

text \<open>A step that looks something up and reports it.\<close>

lemma vstep_if_push:
  "vstep (if b then push_error e else returnP ()) c (\<not> b) () c"
  "vstep (if b then returnP () else push_error e) c b () c"
  by (auto simp: vstep_def push_error_def)

lemmas vgrow_if_push = vstep_vgrow [OF vstep_if_push(1)] vstep_vgrow [OF vstep_if_push(2)]

section \<open>The operations\<close>

lemma ident_okE: "ident_ok rx i p \<Longrightarrow> (\<And>s. p = Some s \<Longrightarrow> thesis) \<Longrightarrow> thesis"
  by (auto simp: ident_ok_def split: option.splits)

lemma child_decl_step:
  "vstep (validate_child_decl rx d) c (child_ok rx d \<and> fchild_name d \<notin> Some ` all_children c) ()
     (c\<lparr>all_children := insert (the (fchild_name d)) (all_children c)\<rparr>)"
  by (auto simp: vstep_def validate_child_decl_def validate_child_def check_def child_ok_def ident_ok_def Let_def
      push_error_def bindP_def split: option.splits)

lemma collection_decl_step:
  "vstep (validate_collection_decl rx d) c (collection_ok rx d \<and> fcollection_name d \<notin> Some ` all_collections c) ()
     (c\<lparr>all_collections := insert (the (fcollection_name d)) (all_collections c)\<rparr>)"
  by (auto simp: vstep_def validate_collection_decl_def check_field_def check_def collection_ok_def ident_ok_def Let_def
      push_error_def bindP_def unwrap_option_def split: option.splits)

lemma source_child_step:
  "vstep (validate_source_child rx r d) c (child_ref_ok rx (all_children c) r) () c"
  by (auto simp: vstep_def validate_source_child_def check_field_def check_def child_ref_ok_def ident_ok_def Let_def
      push_error_def bindP_def split: option.splits)

lemma storage_source_step:
  "vstep (validate_storage_source rx s d) c (ident_ok rx NAME s \<and> all_storage_and_sources c (the s) \<noteq> None) () c"
  by (auto simp: vstep_def validate_storage_source_def check_field_def check_def ident_ok_def Let_def
      push_error_def bindP_def split: option.splits)

lemma target_child_step:
  "vstep (validate_target_child rx d r source path) c
     (ident_ok rx NAME (child_ref_name r) \<and> child_ref_collection r = None
      \<and> (\<forall>p n. path = Some p \<and> child_ref_name r = Some n \<longrightarrow> n \<in> all_children c
           \<and> p \<notin> (case child_target_paths c n of Some ps \<Rightarrow> ps | None \<Rightarrow> {})
           \<and> (\<forall>q. source = Some (ChildRef q) \<longrightarrow> child_ref_name q \<noteq> Some n))) ()
     (case path of None \<Rightarrow> c | Some p \<Rightarrow>
       c\<lparr>child_target_paths := (child_target_paths c)(the (child_ref_name r) \<mapsto>
         insert p (case child_target_paths c (the (child_ref_name r)) of Some ps \<Rightarrow> ps | None \<Rightarrow> {}))\<rparr>)"
  by (auto simp: vstep_def validate_target_child_def check_field_def check_def ident_ok_def Let_def
      push_error_def bindP_def unwrap_option_def split: option.splits fsys_ref.splits)

lemma target_collection_step:
  "vstep (validate_target_collection rx d m path) c
     (ident_ok rx NAME m
      \<and> (\<forall>p n. path = Some p \<and> m = Some n \<longrightarrow> n \<in> all_collections c
           \<and> p \<notin> (case collection_target_paths c n of Some ps \<Rightarrow> ps | None \<Rightarrow> {}))) ()
     (case path of None \<Rightarrow> c | Some p \<Rightarrow>
       c\<lparr>collection_target_paths := (collection_target_paths c)(the m \<mapsto>
         insert p (case collection_target_paths c (the m) of Some ps \<Rightarrow> ps | None \<Rightarrow> {}))\<rparr>)"
  by (auto simp: vstep_def validate_target_collection_def check_field_def check_def ident_ok_def Let_def
      push_error_def bindP_def unwrap_option_def split: option.splits)

lemma storage_target_step:
  "vstep (validate_storage_target rx d src t) c
     (offer_target_ok rx (all_children c) (all_collections c)
       (\<lambda>n. \<exists>s. src = Some s \<and> all_storage_and_sources c s = Some (Some n)) t) () c"
  by (auto simp: vstep_def validate_storage_target_def offer_target_ok_def child_ref_ok_def check_field_def check_def
      ident_ok_def Let_def push_error_def bindP_def unwrap_option_def split: option.splits fsys_ref.splits)

lemma vstep_source_case:
  "vstep (case source of
         Some RealmRef \<Rightarrow> returnP ()
       | Some SelfRef \<Rightarrow> returnP ()
       | Some (ChildRef child) \<Rightarrow> validate_source_child rx child decl
       | Some _ \<Rightarrow> push_error (InvalidField decl ''source'')
       | None \<Rightarrow> push_error (MissingField decl ''source'')) c (storage_source_ok rx (all_children c) source) () c"
  by (auto simp: storage_source_ok_def vstep_return vstep_push source_child_step split: option.splits fsys_ref.splits)

text \<open>The source of a storage declaration, with the name of the child in it.\<close>

lemma vstep_storage_case:
  "vstep (case source of
         Some RealmRef \<Rightarrow> returnP None
       | Some SelfRef \<Rightarrow> returnP None
       | Some (ChildRef child) \<Rightarrow> bindP (validate_source_child rx child ''StorageDecl'') (\<lambda>_. returnP (child_ref_name child))
       | Some _ \<Rightarrow> bindP (push_error (InvalidField ''StorageDecl'' ''source'')) (\<lambda>_. returnP None)
       | None \<Rightarrow> bindP (push_error (MissingField ''StorageDecl'' ''source'')) (\<lambda>_. returnP None)) c
     (storage_source_ok rx (all_children c) source)
     (case source of Some (ChildRef r) \<Rightarrow> child_ref_name r | _ \<Rightarrow> None) c"
proof -
  have p: "vstep (bindP (push_error e) (\<lambda>_. returnP x)) c False r c'" for e x r c'
    by (rule vstep_cong [OF vstep_bind [OF vstep_push]]) (auto intro: vgrow_basic)
  have s: "vstep (bindP (validate_source_child rx q d) (\<lambda>_. returnP x)) c (child_ref_ok rx (all_children c) q) x c" for q d x
    by (rule vstep_cong [OF vstep_bind [OF source_child_step _ vstep_return]]) (auto intro: vgrow_basic)
  show ?thesis
    by (auto simp: storage_source_ok_def vstep_return p s split: option.splits fsys_ref.splits)
qed

lemma storage_decl_step:
  "vstep (validate_storage_decl rx d) c
     (storage_ok rx (all_children c) d \<and> fstorage_name d \<notin> Some ` dom (all_storage_and_sources c)) ()
     (c\<lparr>all_storage_and_sources := (all_storage_and_sources c)(the (fstorage_name d) \<mapsto> storage_child d)\<rparr>)"
proof -
  let ?body = "\<lambda>src. bindP (check_field rx NAME (fstorage_name d) ''StorageDecl'' ''name'') (\<lambda>valid.
     if \<not> valid then returnP ()
     else bindP (unwrap_option (fstorage_name d)) (\<lambda>name.
          bindP (getP (\<lambda>c. all_storage_and_sources c name \<noteq> None)) (\<lambda>present.
          bindP (modifyP (\<lambda>c. c\<lparr>all_storage_and_sources := (all_storage_and_sources c)(name \<mapsto> src)\<rparr>)) (\<lambda>_.
            if present then push_error (DuplicateField ''StorageDecl'' ''name'' name) else returnP ()))))"
  have b: "vstep (?body src) c (ident_ok rx NAME (fstorage_name d) \<and> fstorage_name d \<notin> Some ` dom (all_storage_and_sources c)) ()
     (c\<lparr>all_storage_and_sources := (all_storage_and_sources c)(the (fstorage_name d) \<mapsto> src)\<rparr>)" for src c
    by (auto simp: vstep_def check_field_def check_def ident_ok_def Let_def push_error_def bindP_def unwrap_option_def
        dom_def split: option.splits)
  show ?thesis
    unfolding validate_storage_decl_def
    apply (rule vstep_cong)
      apply (rule vstep_bind, rule vstep_check)
       apply (rule vgrow_bind, rule vstep_vgrow [OF vstep_storage_case], rule vstep_vgrow [OF b])
      apply (rule vstep_bind, rule vstep_storage_case, rule vstep_vgrow [OF b], rule b)
     apply (auto simp: storage_ok_def storage_child_def)
    done
qed

lemma vstep_last_path: "vstep (bindP (check_field rx i q d k) (\<lambda>_. returnP ())) c (ident_ok rx i q) () c"
  by (rule vstep_cong [OF vstep_bind [OF vstep_check _ vstep_return]]) (auto intro: vgrow_basic)

lemma vstep_two_paths:
  "vstep (bindP (check_field rx i p d k) (\<lambda>_. bindP (check_field rx j q d l) (\<lambda>_. returnP ()))) c
     (ident_ok rx i p \<and> ident_ok rx j q) () c"
  by (rule vstep_bind [OF vstep_check _ vstep_last_path]) (rule vstep_vgrow [OF vstep_last_path])

lemma use_decl_step: "vstep (validate_use_decl rx u) c (use_ok rx u) () c"
proof -
  have v: "vstep (validate_use_fields rx d s p q) c (s \<in> {Some RealmRef, Some FrameworkRef} \<and> ident_ok rx PATH p \<and> ident_ok rx PATH q) () c"
    for d s p q
  proof -
    have "vstep (case s of Some RealmRef \<Rightarrow> returnP () | Some FrameworkRef \<Rightarrow> returnP ()
        | Some _ \<Rightarrow> push_error (InvalidField d ''source'') | None \<Rightarrow> push_error (MissingField d ''source'')) c
        (s \<in> {Some RealmRef, Some FrameworkRef}) () c"
      by (auto simp: vstep_return vstep_push split: option.splits fsys_ref.splits)
    then show ?thesis unfolding validate_use_fields_def
      by (rule vstep_bind) (rule vstep_vgrow [OF vstep_two_paths], rule vstep_two_paths)
  qed
  show ?thesis
    by (cases u) (auto simp: validate_use_decl_def v [simplified] vstep_last_path vstep_push vstep_return split: option.splits storage_type.splits)
qed

lemma expose_fields_step:
  "vstep (validate_expose_fields rx d (fexpose_source e) (fexpose_source_path e) (fexpose_target_path e) T) c
     (expose_fields_ok rx (all_children c) e \<and> fexpose_target_path e \<notin> Some ` T) (insert (the (fexpose_target_path e)) T) c"
proof -
  have s: "vstep (case source of
         Some SelfRef \<Rightarrow> returnP ()
       | Some (ChildRef child) \<Rightarrow> validate_source_child rx child d
       | Some _ \<Rightarrow> push_error (InvalidField d ''source'')
       | None \<Rightarrow> push_error (MissingField d ''source'')) c
      (case source of Some SelfRef \<Rightarrow> True | Some (ChildRef r) \<Rightarrow> child_ref_ok rx (all_children c) r | _ \<Rightarrow> False) () c" for source c
    by (auto simp: vstep_return vstep_push source_child_step split: option.splits fsys_ref.splits)
  have t: "vstep (bindP (check_field rx PATH p d ''target_path'') (\<lambda>valid.
     if \<not> valid then returnP T
     else bindP (unwrap_option p) (\<lambda>path.
          bindP (if path \<in> T then push_error (DuplicateField d ''target_path'' path) else returnP ()) (\<lambda>_.
            returnP (insert path T))))) c (ident_ok rx PATH p \<and> p \<notin> Some ` T) (insert (the p) T) c" for p c
    by (auto simp: vstep_def check_field_def check_def ident_ok_def Let_def push_error_def bindP_def unwrap_option_def
        split: option.splits)
  show ?thesis
    unfolding validate_expose_fields_def
    apply (rule vstep_cong)
      apply (rule vstep_bind, rule s)
       apply (rule vgrow_bind, rule vstep_vgrow [OF vstep_check], rule vstep_vgrow [OF t])
      apply (rule vstep_bind, rule vstep_check, rule vstep_vgrow [OF t], rule t)
     apply (auto simp: expose_fields_ok_def)
    done
qed

lemma expose_decl_step:
  "vstep (validate_expose_decl rx e T) c (expose_ok rx (all_children c) e \<and> expose_path e \<notin> Some ` T)
     (insert (the (expose_path e)) T) c"
proof (cases e)
  case FExposeUnknown
  then show ?thesis by (auto simp: validate_expose_decl_def vstep_def push_error_def)
qed (simp_all add: validate_expose_decl_def expose_fields_step)

text \<open>The paths already offered to a target, and the context after one more.\<close>

abbreviation paths_of :: "(string \<rightharpoonup> string set) \<Rightarrow> string \<Rightarrow> string set" where
  "paths_of m n \<equiv> (case m n of Some ps \<Rightarrow> ps | None \<Rightarrow> {})"

definition target_paths :: "validation_context \<Rightarrow> fsys_ref option \<Rightarrow> string set" where
  "target_paths c t = (case t of
      Some (ChildRef r) \<Rightarrow> paths_of (child_target_paths c) (the (child_ref_name r))
    | Some (CollectionRef n) \<Rightarrow> paths_of (collection_target_paths c) (the n)
    | _ \<Rightarrow> {})"

definition add_target :: "fsys_ref option \<Rightarrow> string \<Rightarrow> validation_context \<Rightarrow> validation_context" where
  "add_target t p c = (case t of
      Some (ChildRef r) \<Rightarrow> c\<lparr>child_target_paths := (child_target_paths c)(the (child_ref_name r) \<mapsto> insert p (target_paths c t))\<rparr>
    | Some (CollectionRef n) \<Rightarrow> c\<lparr>collection_target_paths := (collection_target_paths c)(the n \<mapsto> insert p (target_paths c t))\<rparr>
    | _ \<Rightarrow> c)"

lemma add_target_simps [simp]:
  "all_children (add_target t p c) = all_children c" "all_collections (add_target t p c) = all_collections c"
  "all_storage_and_sources (add_target t p c) = all_storage_and_sources c" "errors (add_target t p c) = errors c"
  by (auto simp: add_target_def split: option.splits fsys_ref.splits)

lemma target_paths_add:
  assumes "offer_target_ok rx C K f t" and "offer_target_ok rx C K g u"
  shows "target_paths (add_target t p c) u = (if u = t then insert p (target_paths c u) else target_paths c u)"
  using assms by (auto simp: offer_target_ok_def child_ref_ok_def target_paths_def add_target_def split: option.splits fsys_ref.splits)

text \<open>The target of an offer whose path is checked afterwards.\<close>

lemma target_case_step:
  "vstep (bindP (case t of
         Some (ChildRef r) \<Rightarrow> validate_target_child rx d r source path
       | Some (CollectionRef n) \<Rightarrow> validate_target_collection rx d n path
       | Some _ \<Rightarrow> push_error (InvalidField d ''target'')
       | None \<Rightarrow> push_error (MissingField d ''target'')) (\<lambda>_.
     bindP (check_field rx PATH path d ''target_path'') (\<lambda>_. returnP ()))) c
     (offer_target_ok rx (all_children c) (all_collections c) (\<lambda>n. \<exists>r. source = Some (ChildRef r) \<and> child_ref_name r = Some n) t
      \<and> ident_ok rx PATH path \<and> path \<notin> Some ` target_paths c t) () (add_target t (the path) c)"
proof -
  have push: "vstep (bindP (push_error e) (\<lambda>_. bindP (check_field rx PATH path d ''target_path'') (\<lambda>_. returnP ()))) c False r c'"
    for e r c'
    by (rule vstep_cong, rule vstep_bind, rule vstep_push, rule vstep_vgrow [OF vstep_last_path], rule vstep_last_path) auto
  consider r where "t = Some (ChildRef r)" | n where "t = Some (CollectionRef n)"
    | "t \<notin> Some ` range ChildRef" "t \<notin> Some ` range CollectionRef" by blast
  then show ?thesis
  proof cases
    case 1
    show ?thesis unfolding 1 option.case fsys_ref.case
      apply (rule vstep_cong)
        apply (rule vstep_bind, rule target_child_step, rule vstep_vgrow [OF vstep_last_path], rule vstep_last_path)
       apply (auto simp: offer_target_ok_def child_ref_ok_def target_paths_def add_target_def 1 ident_ok_def split: option.splits)
      done
  next
    case 2
    show ?thesis unfolding 2 option.case fsys_ref.case
      apply (rule vstep_cong)
        apply (rule vstep_bind, rule target_collection_step, rule vstep_vgrow [OF vstep_last_path], rule vstep_last_path)
       apply (auto simp: offer_target_ok_def target_paths_def add_target_def 2 ident_ok_def split: option.splits)
      done
  next
    case 3
    then have "\<not> offer_target_ok rx (all_children c) (all_collections c) f t" for f
      by (auto simp: offer_target_ok_def split: option.splits fsys_ref.splits)
    then show ?thesis using 3 by (auto simp: push split: option.splits fsys_ref.splits)
  qed
qed

lemma offers_fields_step:
  "vstep (validate_offers_fields rx d (foffer_source f) (foffer_source_path f) (foffer_target f) (foffer_target_path f)) c
     (offer_fields_ok rx (all_children c) (all_collections c) f \<and> foffer_target_path f \<notin> Some ` target_paths c (foffer_target f)) ()
     (add_target (foffer_target f) (the (foffer_target_path f)) c)"
  unfolding validate_offers_fields_def
  apply (rule vstep_cong)
    apply (rule vstep_bind, rule vstep_source_case)
     apply (rule vgrow_bind, rule vstep_vgrow [OF vstep_check], rule vstep_vgrow [OF target_case_step])
    apply (rule vstep_bind, rule vstep_check, rule vstep_vgrow [OF target_case_step], rule target_case_step)
   apply (auto simp: offer_fields_ok_def)
  done

lemma storage_offer_step:
  "vstep (validate_storage_offer_fields rx d (foffer_type f) (foffer_storage_source f) (foffer_storage_target f)) c
     (offer_ok rx (all_children c) (all_collections c) (all_storage_and_sources c) (FOfferStorage f)) () c"
proof -
  have p: "vstep (bindP (push_error e) (\<lambda>_. returnP x)) c False r c'" for e x r c c'
    by (simp add: vstep_def push_error_def)
  have s: "vstep (case src of
         Some RealmRef \<Rightarrow> returnP None
       | Some (StorageRef s) \<Rightarrow> bindP (validate_storage_source rx s d) (\<lambda>_. returnP s)
       | Some _ \<Rightarrow> bindP (push_error (InvalidField d ''source'')) (\<lambda>_. returnP None)
       | None \<Rightarrow> bindP (push_error (MissingField d ''source'')) (\<lambda>_. returnP None)) c
      (case src of Some RealmRef \<Rightarrow> True | Some (StorageRef s) \<Rightarrow> ident_ok rx NAME s \<and> all_storage_and_sources c (the s) \<noteq> None | _ \<Rightarrow> False)
      (case src of Some (StorageRef s) \<Rightarrow> s | _ \<Rightarrow> None) c" for src c
  proof -
    have "vstep (bindP (validate_storage_source rx s d) (\<lambda>_. returnP s)) c
        (ident_ok rx NAME s \<and> all_storage_and_sources c (the s) \<noteq> None) s c" for s
      by (rule vstep_cong, rule vstep_bind, rule storage_source_step, rule vgrow_basic, rule vstep_return) auto
    then show ?thesis by (auto simp: p vstep_return split: option.splits fsys_ref.splits)
  qed
  show ?thesis
    unfolding validate_storage_offer_fields_def
    apply (rule vstep_cong)
      apply (rule vstep_bind, rule vstep_if_push)
       apply (rule vgrow_bind, rule vstep_vgrow [OF s], rule vstep_vgrow [OF storage_target_step])
      apply (rule vstep_bind, rule s, rule vstep_vgrow [OF storage_target_step], rule storage_target_step)
     apply (auto simp: offer_target_ok_def split: option.splits fsys_ref.splits)
    done
qed

fun offer_next :: "fsys_offer_decl \<Rightarrow> validation_context \<Rightarrow> validation_context" where
  "offer_next (FOfferService f) c = add_target (foffer_target f) (the (foffer_target_path f)) c"
| "offer_next (FOfferDirectory f) c = add_target (foffer_target f) (the (foffer_target_path f)) c"
| "offer_next _ c = c"

lemma offers_decl_step:
  "vstep (validate_offers_decl rx x) c
     (offer_ok rx (all_children c) (all_collections c) (all_storage_and_sources c) x
      \<and> (\<forall>(t, p)\<in>set (offer_keys x). p \<notin> Some ` target_paths c t)) () (offer_next x c)"
proof (cases x)
  case (FOfferStorage f)
  then show ?thesis using storage_offer_step by (simp add: validate_offers_decl_def)
next
  case FOfferUnknown
  then show ?thesis by (simp add: validate_offers_decl_def vstep_push)
qed (simp_all add: validate_offers_decl_def offers_fields_step offer_fields_key_def)

section \<open>The loops\<close>

fun all_steps :: "('a \<Rightarrow> 'c \<Rightarrow> bool) \<Rightarrow> ('a \<Rightarrow> 'c \<Rightarrow> 'c) \<Rightarrow> 'a list \<Rightarrow> 'c \<Rightarrow> bool" where
  "all_steps ok nxt [] c \<longleftrightarrow> True"
| "all_steps ok nxt (x # xs) c \<longleftrightarrow> ok x c \<and> all_steps ok nxt xs (nxt x c)"

lemma for_each_step:
  assumes "\<And>x c. vstep (f x) c (ok x c) () (nxt x c)"
  shows "vstep (for_each f xs) c (all_steps ok nxt xs c) () (fold nxt xs c)"
proof (induction xs arbitrary: c)
  case Nil
  then show ?case by (simp add: vstep_def)
next
  case (Cons x xs)
  show ?case unfolding for_each.simps all_steps.simps fold.simps comp_apply
    by (rule vstep_bind, rule assms, rule vstep_vgrow [OF Cons.IH], rule Cons.IH)
qed

lemma for_each_in_step:
  assumes "\<And>x c. vstep (f x) c (ok x c) () (nxt x c)"
  shows "vstep (for_each_in f xs) c (all_steps ok nxt (items xs) c) () (fold nxt (items xs) c)"
  using for_each_step [of f ok nxt, OF assms] by (auto simp: for_each_in_def vstep_def split: option.splits)

lemma exposes_step:
  "vstep (validate_exposes rx es T) c
     ((\<forall>e\<in>set es. expose_ok rx (all_children c) e) \<and> distinct (map expose_path es) \<and> expose_path ` set es \<inter> Some ` T = {}) () c"
proof (induction es arbitrary: T)
  case Nil
  then show ?case by (simp add: vstep_def)
next
  case (Cons e es)
  have grow: "vgrow (validate_exposes rx es T') s" for T' s
  proof (induction es arbitrary: T' s)
    case Nil
    then show ?case by (simp add: vgrow_Pair)
  next
    case (Cons e es)
    show ?case unfolding validate_exposes.simps
      by (rule vgrow_bind, rule vstep_vgrow [OF expose_decl_step], rule Cons)
  qed
  have some: "expose_ok rx C e \<Longrightarrow> \<exists>p. expose_path e = Some p" for C
    by (cases e) (auto simp: expose_fields_ok_def ident_ok_def split: option.splits)
  show ?case unfolding validate_exposes.simps
    apply (rule vstep_cong)
      apply (rule vstep_bind, rule expose_decl_step, rule grow, rule Cons.IH)
     apply (use some in \<open>auto simp: image_iff\<close>)
    done
qed

abbreviation child_next :: "fsys_child \<Rightarrow> validation_context \<Rightarrow> validation_context" where
  "child_next d c \<equiv> c\<lparr>all_children := insert (the (fchild_name d)) (all_children c)\<rparr>"

abbreviation collection_next :: "fsys_collection \<Rightarrow> validation_context \<Rightarrow> validation_context" where
  "collection_next d c \<equiv> c\<lparr>all_collections := insert (the (fcollection_name d)) (all_collections c)\<rparr>"

definition storage_next :: "fsys_storage \<Rightarrow> validation_context \<Rightarrow> validation_context" where
  "storage_next d c = c\<lparr>all_storage_and_sources := (all_storage_and_sources c)(the (fstorage_name d) \<mapsto> storage_child d)\<rparr>"

lemma storage_next_simps [simp]:
  "all_children (storage_next d c) = all_children c"
  "dom (all_storage_and_sources (storage_next d c)) = insert (the (fstorage_name d)) (dom (all_storage_and_sources c))"
  by (simp_all add: storage_next_def)

lemma children_steps:
  "all_steps (\<lambda>d c. child_ok rx d \<and> fchild_name d \<notin> Some ` all_children c) child_next xs c \<longleftrightarrow>
     (\<forall>x\<in>set xs. child_ok rx x) \<and> distinct (map fchild_name xs) \<and> fchild_name ` set xs \<inter> Some ` all_children c = {}"
proof (induction xs arbitrary: c)
  case (Cons x xs)
  show ?case
  proof (cases "fchild_name x")
    case None
    then show ?thesis by (simp add: child_ok_def ident_ok_def)
  qed (auto simp: Cons)
qed simp

lemma children_fold:
  "\<forall>x\<in>set xs. child_ok rx x \<Longrightarrow>
    fold child_next xs c = c\<lparr>all_children := all_children c \<union> set (List.map_filter fchild_name xs)\<rparr>"
  by (induction xs arbitrary: c) (auto simp: child_ok_def ident_ok_def List.map_filter_def split: option.splits)

lemma collections_steps:
  "all_steps (\<lambda>d c. collection_ok rx d \<and> fcollection_name d \<notin> Some ` all_collections c) collection_next xs c \<longleftrightarrow>
     (\<forall>x\<in>set xs. collection_ok rx x) \<and> distinct (map fcollection_name xs) \<and> fcollection_name ` set xs \<inter> Some ` all_collections c = {}"
proof (induction xs arbitrary: c)
  case (Cons x xs)
  show ?case
  proof (cases "fcollection_name x")
    case None
    then show ?thesis by (simp add: collection_ok_def ident_ok_def)
  qed (auto simp: Cons)
qed simp

lemma collections_fold:
  "\<forall>x\<in>set xs. collection_ok rx x \<Longrightarrow>
    fold collection_next xs c = c\<lparr>all_collections := all_collections c \<union> set (List.map_filter fcollection_name xs)\<rparr>"
  by (induction xs arbitrary: c) (auto simp: collection_ok_def ident_ok_def List.map_filter_def split: option.splits)

lemma storage_steps:
  "all_steps (\<lambda>d c. storage_ok rx (all_children c) d \<and> fstorage_name d \<notin> Some ` dom (all_storage_and_sources c)) storage_next xs c \<longleftrightarrow>
     (\<forall>x\<in>set xs. storage_ok rx (all_children c) x) \<and> distinct (map fstorage_name xs)
     \<and> fstorage_name ` set xs \<inter> Some ` dom (all_storage_and_sources c) = {}"
proof (induction xs arbitrary: c)
  case (Cons x xs)
  show ?case
  proof (cases "fstorage_name x")
    case None
    then show ?thesis by (simp add: storage_ok_def ident_ok_def)
  qed (auto simp: Cons)
qed simp

lemma storage_fold:
  "\<forall>x\<in>set xs. storage_ok rx C x \<Longrightarrow> distinct (map fstorage_name xs) \<Longrightarrow>
    fold storage_next xs c = c\<lparr>all_storage_and_sources :=
      all_storage_and_sources c ++ map_of (map (\<lambda>s. (the (fstorage_name s), storage_child s)) xs)\<rparr>"
proof (induction xs arbitrary: c)
  case (Cons x xs)
  obtain n where n: "fstorage_name x = Some n" using Cons.prems(1) by (auto simp: storage_ok_def elim!: ident_okE)
  have "n \<notin> (\<lambda>s. the (fstorage_name s)) ` set xs"
  proof
    assume "n \<in> (\<lambda>s. the (fstorage_name s)) ` set xs"
    then obtain y where "y \<in> set xs" "the (fstorage_name y) = n" by auto
    moreover have "fstorage_name y \<noteq> None" using Cons.prems(1) calculation(1) by (auto simp: storage_ok_def elim!: ident_okE)
    ultimately show False using Cons.prems(2) n by force
  qed
  then have "map_of (map (\<lambda>s. (the (fstorage_name s), storage_child s)) xs) n = None"
    by (simp add: map_of_eq_None_iff image_comp)
  then show ?case using Cons n by (simp add: storage_next_def map_add_def fun_eq_iff split: option.splits)
qed simp

lemma offer_keys_ok:
  "offer_ok rx C K S y \<Longrightarrow> (t, p) \<in> set (offer_keys y) \<Longrightarrow> (\<exists>f. offer_target_ok rx C K f t) \<and> (\<exists>q. p = Some q)"
  by (cases y) (auto simp: offer_fields_key_def offer_fields_ok_def elim!: ident_okE)

lemma offers_steps:
  "all_steps (\<lambda>x c. offer_ok rx (all_children c) (all_collections c) (all_storage_and_sources c) x
      \<and> (\<forall>(t, p)\<in>set (offer_keys x). p \<notin> Some ` target_paths c t)) offer_next xs c \<longleftrightarrow>
    (\<forall>x\<in>set xs. offer_ok rx (all_children c) (all_collections c) (all_storage_and_sources c) x)
    \<and> distinct (concat (map offer_keys xs)) \<and> (\<forall>(t, p)\<in>set (concat (map offer_keys xs)). p \<notin> Some ` target_paths c t)"
proof (induction xs arbitrary: c)
  case (Cons x xs)
  let ?ok = "offer_ok rx (all_children c) (all_collections c) (all_storage_and_sources c)"
  let ?ks = "concat (map offer_keys xs)"
  have keep: "all_children (offer_next x c) = all_children c" "all_collections (offer_next x c) = all_collections c"
    "all_storage_and_sources (offer_next x c) = all_storage_and_sources c"
    by (cases x; simp)+
  have e: "(\<forall>(t, p)\<in>set ?ks. p \<notin> Some ` target_paths (offer_next x c) t)
      \<longleftrightarrow> set (offer_keys x) \<inter> set ?ks = {} \<and> (\<forall>(t, p)\<in>set ?ks. p \<notin> Some ` target_paths c t)"
    if x: "?ok x" and xs: "\<forall>y\<in>set xs. ?ok y"
  proof (cases "offer_keys x")
    case Nil
    then have "offer_next x c = c" by (cases x) auto
    then show ?thesis by (simp add: Nil)
  next
    case (Cons k ks)
    obtain t q where k: "k = (t, Some q)" "ks = []" "offer_next x c = add_target t q c"
      using Cons offer_keys_ok [OF x] by (cases x) (auto simp: offer_fields_key_def)
    obtain f where f: "offer_target_ok rx (all_children c) (all_collections c) f t"
      using offer_keys_ok [OF x, of t "Some q"] Cons k by auto
    have "p \<notin> Some ` target_paths (offer_next x c) u \<longleftrightarrow> (t, Some q) \<noteq> (u, p) \<and> p \<notin> Some ` target_paths c u"
      if up: "(u, p) \<in> set ?ks" for u p
    proof -
      obtain y where "y \<in> set xs" "(u, p) \<in> set (offer_keys y)" using up by auto
      then obtain g where "offer_target_ok rx (all_children c) (all_collections c) g u"
        using offer_keys_ok xs by blast
      from target_paths_add [OF f this, of q c] show ?thesis by (auto simp: k(3))
    qed
    then show ?thesis unfolding Cons k by fastforce
  qed
  have d: "distinct (offer_keys x)" by (cases x) auto
  show ?case
  proof (cases "?ok x \<and> (\<forall>y\<in>set xs. ?ok y)")
    case True
    then have ok: "?ok x" "\<forall>y\<in>set xs. ?ok y" by auto
    have split: "(\<forall>(t, p)\<in>set (offer_keys x @ ?ks). p \<notin> Some ` target_paths c t) \<longleftrightarrow>
        (\<forall>(t, p)\<in>set (offer_keys x). p \<notin> Some ` target_paths c t) \<and> (\<forall>(t, p)\<in>set ?ks. p \<notin> Some ` target_paths c t)"
      by (simp only: set_append ball_Un)
    show ?thesis
      unfolding all_steps.simps Cons.IH keep e [OF ok] list.map concat.simps split distinct_append using ok d by auto
  next
    case False
    then show ?thesis unfolding all_steps.simps Cons.IH keep by auto
  qed
qed simp

section \<open>Declarations\<close>

lemma validate_context_step:
  "\<exists>c'. vstep (validate_context rx d) new_context (decl_valid rx d) () c'"
proof -
  let ?cs = "items (fchildren d)" and ?ks = "items (fcollections d)" and ?ss = "items (fstorage d)"
  note st = storage_decl_step [folded storage_next_def]
  define c1 where "c1 = fold child_next ?cs new_context"
  define c2 where "c2 = fold collection_next ?ks c1"
  define c3 where "c3 = fold storage_next ?ss c2"
  define ok1 where "ok1 \<longleftrightarrow> (\<forall>x\<in>set ?cs. child_ok rx x) \<and> distinct (map fchild_name ?cs)"
  define ok2 where "ok2 \<longleftrightarrow> (\<forall>x\<in>set ?ks. collection_ok rx x) \<and> distinct (map fcollection_name ?ks)"
  define ok3 where "ok3 \<longleftrightarrow> (\<forall>x\<in>set ?ss. storage_ok rx (child_names d) x) \<and> distinct (map fstorage_name ?ss)"
  have v1: "vstep (for_each_in (validate_child_decl rx) (fchildren d)) new_context ok1 () c1"
    using for_each_in_step [of "validate_child_decl rx" "\<lambda>d c. child_ok rx d \<and> fchild_name d \<notin> Some ` all_children c" child_next "fchildren d" new_context, OF child_decl_step]
    by (simp add: children_steps ok1_def c1_def) (simp add: new_context_def)
  have c1: "c1 = new_context\<lparr>all_children := child_names d\<rparr>" if ok1
    using that children_fold [of ?cs rx new_context] by (simp add: ok1_def c1_def child_names_def new_context_def)
  have v2: "vstep (for_each_in (validate_collection_decl rx) (fcollections d)) c1 ok2 () c2" if ok1
    using for_each_in_step [of "validate_collection_decl rx" "\<lambda>d c. collection_ok rx d \<and> fcollection_name d \<notin> Some ` all_collections c" collection_next "fcollections d" c1, OF collection_decl_step] c1 [OF that]
    by (simp add: collections_steps ok2_def c2_def) (simp add: new_context_def)
  have c2: "c2 = new_context\<lparr>all_children := child_names d, all_collections := collection_names d\<rparr>" if ok1 ok2
    using that(2) collections_fold [of ?ks rx c1] c1 [OF that(1)]
    by (simp add: ok2_def c2_def collection_names_def new_context_def)
  have v3: "vstep (for_each_in (validate_storage_decl rx) (fstorage d)) c2 ok3 () c3" if ok1 ok2
    using for_each_in_step [of "validate_storage_decl rx" "\<lambda>d c. storage_ok rx (all_children c) d \<and> fstorage_name d \<notin> Some ` dom (all_storage_and_sources c)" storage_next "fstorage d" c2, OF st] c2 [OF that]
    by (simp add: storage_steps ok3_def c3_def) (simp add: new_context_def)
  have c3: "c3 = new_context\<lparr>all_children := child_names d, all_collections := collection_names d,
      all_storage_and_sources := storage_sources d\<rparr>" if ok1 ok2 ok3
    using that(3) storage_fold [of ?ss rx "child_names d" c2] c2 [OF that(1,2)]
    by (simp add: ok3_def c3_def storage_sources_def new_context_def)
  have v4: "vstep (for_each_in (validate_use_decl rx) (fuses d)) c (\<forall>x\<in>set (items (fuses d)). use_ok rx x) () c" for c
  proof -
    have a: "all_steps (\<lambda>x c. use_ok rx x) (\<lambda>x c. c) xs c = (\<forall>x\<in>set xs. use_ok rx x)" for xs
      by (induction xs) auto
    have b: "fold (\<lambda>x c. c) xs c = c" for xs :: "fsys_use_decl list" by (induction xs) auto
    show ?thesis
      using for_each_in_step [of "validate_use_decl rx" "\<lambda>x c. use_ok rx x" "\<lambda>x c. c" "fuses d" c, OF use_decl_step]
      unfolding a b .
  qed
  have v5: "vstep (case fexposes d of Some exposes \<Rightarrow> validate_exposes rx exposes {} | None \<Rightarrow> returnP ()) c
      ((\<forall>x\<in>set (items (fexposes d)). expose_ok rx (all_children c) x) \<and> distinct (map expose_path (items (fexposes d)))) () c" for c
    using exposes_step [of rx "items (fexposes d)" "{}" c] by (cases "fexposes d") (auto simp: vstep_def)
  have v6: "vstep (for_each_in (validate_offers_decl rx) (foffers d)) c
      ((\<forall>x\<in>set (items (foffers d)). offer_ok rx (all_children c) (all_collections c) (all_storage_and_sources c) x)
       \<and> distinct (concat (map offer_keys (items (foffers d))))
       \<and> (\<forall>(t, p)\<in>set (concat (map offer_keys (items (foffers d)))). p \<notin> Some ` target_paths c t)) ()
      (fold offer_next (items (foffers d)) c)" for c
    unfolding offers_steps [symmetric] by (rule for_each_in_step [OF offers_decl_step])
  have g6: "vgrow (for_each_in (validate_offers_decl rx) (foffers d)) s" for s by (rule vstep_vgrow [OF v6])
  have g5: "vgrow (bindP (case fexposes d of Some exposes \<Rightarrow> validate_exposes rx exposes {} | None \<Rightarrow> returnP ())
      (\<lambda>_. for_each_in (validate_offers_decl rx) (foffers d))) s" for s
    by (rule vgrow_bind [OF vstep_vgrow [OF v5] g6])
  have g4: "vgrow (bindP (for_each_in (validate_use_decl rx) (fuses d)) (\<lambda>_.
      bindP (case fexposes d of Some exposes \<Rightarrow> validate_exposes rx exposes {} | None \<Rightarrow> returnP ())
      (\<lambda>_. for_each_in (validate_offers_decl rx) (foffers d)))) s" for s
    by (rule vgrow_bind [OF vstep_vgrow [OF v4] g5])
  have eq: "(ok1 \<and> ok2 \<and> ok3 \<and> (\<forall>x\<in>set (items (fuses d)). use_ok rx x)
      \<and> ((\<forall>x\<in>set (items (fexposes d)). expose_ok rx (all_children c3) x) \<and> distinct (map expose_path (items (fexposes d))))
      \<and> (\<forall>x\<in>set (items (foffers d)). offer_ok rx (all_children c3) (all_collections c3) (all_storage_and_sources c3) x)
       \<and> distinct (concat (map offer_keys (items (foffers d))))
       \<and> (\<forall>(t, p)\<in>set (concat (map offer_keys (items (foffers d)))). p \<notin> Some ` target_paths c3 t)) = decl_valid rx d"
  proof (cases "ok1 \<and> ok2 \<and> ok3")
    case True
    then have c: "all_children c3 = child_names d" "all_collections c3 = collection_names d" "all_storage_and_sources c3 = storage_sources d"
      "target_paths c3 t = {}" for t
      using c3 by (auto simp: new_context_def target_paths_def split: option.splits fsys_ref.splits)
    show ?thesis
      unfolding c decl_valid_def using True unfolding ok1_def ok2_def ok3_def by (simp only: simp_thms image_empty empty_iff not_False_eq_True split_beta ball_triv) blast
  next
    case False
    then show ?thesis unfolding decl_valid_def ok1_def ok2_def ok3_def by blast
  qed
  note gs = vstep_vgrow [OF for_each_in_step [OF st]]
  note gc = vstep_vgrow [OF for_each_in_step [OF collection_decl_step]]
  show ?thesis
    unfolding validate_context_def
    apply (rule exI, rule vstep_cong)
      apply (rule vstep_bind, rule v1)
       apply (rule vgrow_bind, rule gc, rule vgrow_bind, rule gs, rule g4)
      apply (rule vstep_bind, rule v2, assumption)
       apply (rule vgrow_bind, rule gs, rule g4)
      apply (rule vstep_bind, rule v3, assumption, assumption, rule g4)
      apply (rule vstep_bind, rule v4, rule g5)
      apply (rule vstep_bind, rule v5, rule g6, rule v6)
     apply (rule eq)
    apply (rule conjI refl)+
    done
qed

section \<open>Properties\<close>

text \<open>
  C9. \<open>validate\<close> decides the specification: it accepts a declaration exactly if every identifier in it
  is well-formed, every required field is present, every reference names something declared, no
  offer goes back to its source, and no names or target paths clash. It never panics, and a
  rejection lists at least one error. No property of the regular expressions is used.
\<close>

theorem validate_decides:
  "(validate rx d = Ok () \<longleftrightarrow> decl_valid rx d) \<and> (validate rx d = Ok () \<or> (\<exists>es. validate rx d = Err es \<and> es \<noteq> []))"
proof -
  obtain c' where "vstep (validate_context rx d) new_context (decl_valid rx d) () c'"
    using validate_context_step by blast
  then show ?thesis by (auto simp: vstep_def validate_def new_context_def)
qed

text \<open>
  \<open>validate_child\<close> performs the same validation of a child as \<open>validate\<close>: on a declaration with
  nothing but that child both give the same result, with the same errors in the same order.
\<close>

theorem validate_child_agrees:
  "validate rx \<lparr>fprogram = None, fuses = None, fexposes = None, foffers = None, ffacets = None, fstorage = None,
      fchildren = Some [x], fcollections = None\<rparr> = validate_child rx x"
  by (auto simp: validate_def validate_context_def for_each_in_def validate_child_decl_def new_context_def bindP_def
      validate_child_def Let_def split: option.splits)

text \<open>
  C38. Uses are not checked against each other: a declaration that uses the same capability twice,
  with the same target path, is accepted.
\<close>

theorem duplicate_uses_accepted:
  assumes "use_ok rx u"
  shows "validate rx \<lparr>fprogram = None, fuses = Some [u, u], fexposes = None, foffers = None, ffacets = None, fstorage = None,
      fchildren = None, fcollections = None\<rparr> = Ok ()"
proof -
  let ?d = "\<lparr>fprogram = None, fuses = Some [u, u], fexposes = None, foffers = None, ffacets = None, fstorage = None,
      fchildren = None, fcollections = None\<rparr>"
  obtain c' where "vstep (validate_context rx ?d) new_context (decl_valid rx ?d) () c'"
    using validate_context_step by blast
  moreover have "decl_valid rx ?d" using assms by (simp add: decl_valid_def)
  ultimately show ?thesis by (auto simp: vstep_def validate_def new_context_def)
qed

theorem duplicate_uses_accepted_witness:
  "\<exists>u. fuse_target_path u = Some ''/svc/a'' \<and> validate (\<lambda>_ _. True)
     \<lparr>fprogram = None, fuses = Some [FUseService u, FUseService u], fexposes = None, foffers = None, ffacets = None,
      fstorage = None, fchildren = None, fcollections = None\<rparr> = Ok ()"
  using duplicate_uses_accepted [of "\<lambda>_ _. True"
      "FUseService \<lparr>fuse_source = Some RealmRef, fuse_source_path = Some ''/svc/b'', fuse_target_path = Some ''/svc/a''\<rparr>"]
  by (intro exI [of _ "\<lparr>fuse_source = Some RealmRef, fuse_source_path = Some ''/svc/b'', fuse_target_path = Some ''/svc/a''\<rparr>"])
    (simp add: ident_ok_def PATH_def)

end
