(* ===== verification/Cm_Rust.thy ===== *)
theory Cm_Rust
  imports Cm_Fidl_Validator
begin

text \<open>
  The model of \<^verbatim>\<open>src/lib/rust/cm_rust/src/lib.rs\<close> and \<^verbatim>\<open>data.rs\<close>: the native form of component
  declarations and the conversions between it and the FIDL form. The macros that generate a type
  and its two conversions appear as the instances they generate. A conversion from FIDL panics on a
  missing field or an unexpected variant.
\<close>

section \<open>Capability paths\<close>

record capability_path =
  dirname :: string
  basename :: string

datatype cm_rust_error = ValidateError "cm_error list" | InvalidCapabilityPath string

text \<open>\<open>str::split("/")\<close>\<close>

fun split_slash :: "string \<Rightarrow> string list" where
  "split_slash [] = [[]]"
| "split_slash (c # s) =
     (if c = CHR ''/'' then [] # split_slash s
      else (case split_slash s of [] \<Rightarrow> [[c]] | p # ps \<Rightarrow> (c # p) # ps))"

fun collect_parts :: "string list \<Rightarrow> string list option" where
  "collect_parts [] = Some []"
| "collect_parts (part # rest) =
     (if part = [] then None else map_option (Cons part) (collect_parts rest))"

definition path_try_from :: "string \<Rightarrow> (cm_rust_error, capability_path) outcome" where
  "path_try_from path =
     (if take 1 path \<noteq> ''/'' then Err (InvalidCapabilityPath path)
      else case collect_parts (tl (split_slash path)) of
          None \<Rightarrow> Err (InvalidCapabilityPath path)
        | Some parts \<Rightarrow>
            if parts = [] then Err (InvalidCapabilityPath path)
            else Ok \<lparr>dirname = ''/'' @ join ''/'' (butlast parts), basename = last parts\<rparr>)"

definition path_display :: "capability_path \<Rightarrow> string" where
  "path_display p = (if dirname p = ''/'' then ''/'' @ basename p else dirname p @ ''/'' @ basename p)"

definition path_to_string :: "capability_path \<Rightarrow> string" where
  "path_to_string p = path_display p"

definition path_split :: "capability_path \<Rightarrow> string list" where
  "path_split p = filter (\<lambda>s. s \<noteq> []) (split_slash (path_to_string p))"

section \<open>Sources and targets\<close>

definition unwrap_opt :: "'a option \<Rightarrow> ('e, 'a) outcome" where
  "unwrap_opt x = (case x of Some a \<Rightarrow> Ok a | None \<Rightarrow> Panic)"

datatype use_source = UseRealm | UseFramework

definition use_source_from_fidl :: "fsys_ref option \<Rightarrow> (cm_rust_error, use_source) outcome" where
  "use_source_from_fidl r = bindO (unwrap_opt r) (\<lambda>r. case r of
      RealmRef \<Rightarrow> Ok UseRealm
    | FrameworkRef \<Rightarrow> Ok UseFramework
    | _ \<Rightarrow> Panic)"

fun use_source_to_fidl :: "use_source \<Rightarrow> fsys_ref option" where
  "use_source_to_fidl UseRealm = Some RealmRef"
| "use_source_to_fidl UseFramework = Some FrameworkRef"

abbreviation child_ref_to :: "string \<Rightarrow> fsys_ref" where
  "child_ref_to child_name \<equiv> ChildRef \<lparr>child_ref_name = Some child_name, child_ref_collection = None\<rparr>"

datatype expose_source = ExposeSelf | ExposeChild string

definition expose_source_from_fidl :: "fsys_ref option \<Rightarrow> (cm_rust_error, expose_source) outcome" where
  "expose_source_from_fidl r = bindO (unwrap_opt r) (\<lambda>r. case r of
      SelfRef \<Rightarrow> Ok ExposeSelf
    | ChildRef c \<Rightarrow> bindO (unwrap_opt (child_ref_name c)) (\<lambda>n. Ok (ExposeChild n))
    | _ \<Rightarrow> Panic)"

fun expose_source_to_fidl :: "expose_source \<Rightarrow> fsys_ref option" where
  "expose_source_to_fidl ExposeSelf = Some SelfRef"
| "expose_source_to_fidl (ExposeChild child_name) = Some (child_ref_to child_name)"

datatype offer_service_source = ServiceRealm | ServiceSelf | ServiceChild string

definition service_source_from_fidl :: "fsys_ref option \<Rightarrow> (cm_rust_error, offer_service_source) outcome" where
  "service_source_from_fidl r = bindO (unwrap_opt r) (\<lambda>r. case r of
      RealmRef \<Rightarrow> Ok ServiceRealm
    | SelfRef \<Rightarrow> Ok ServiceSelf
    | ChildRef c \<Rightarrow> bindO (unwrap_opt (child_ref_name c)) (\<lambda>n. Ok (ServiceChild n))
    | _ \<Rightarrow> Panic)"

fun service_source_to_fidl :: "offer_service_source \<Rightarrow> fsys_ref option" where
  "service_source_to_fidl ServiceRealm = Some RealmRef"
| "service_source_to_fidl ServiceSelf = Some SelfRef"
| "service_source_to_fidl (ServiceChild child_name) = Some (child_ref_to child_name)"

datatype offer_directory_source = DirectoryRealm | DirectorySelf | DirectoryChild string

definition directory_source_from_fidl :: "fsys_ref option \<Rightarrow> (cm_rust_error, offer_directory_source) outcome" where
  "directory_source_from_fidl r = bindO (unwrap_opt r) (\<lambda>r. case r of
      RealmRef \<Rightarrow> Ok DirectoryRealm
    | SelfRef \<Rightarrow> Ok DirectorySelf
    | ChildRef c \<Rightarrow> bindO (unwrap_opt (child_ref_name c)) (\<lambda>n. Ok (DirectoryChild n))
    | _ \<Rightarrow> Panic)"

fun directory_source_to_fidl :: "offer_directory_source \<Rightarrow> fsys_ref option" where
  "directory_source_to_fidl DirectoryRealm = Some RealmRef"
| "directory_source_to_fidl DirectorySelf = Some SelfRef"
| "directory_source_to_fidl (DirectoryChild child_name) = Some (child_ref_to child_name)"

datatype offer_storage_source = StorageRealm | StorageNamed string

definition storage_source_from_fidl :: "fsys_ref option \<Rightarrow> (cm_rust_error, offer_storage_source) outcome" where
  "storage_source_from_fidl r = bindO (unwrap_opt r) (\<lambda>r. case r of
      RealmRef \<Rightarrow> Ok StorageRealm
    | StorageRef c \<Rightarrow> bindO (unwrap_opt c) (\<lambda>n. Ok (StorageNamed n))
    | _ \<Rightarrow> Panic)"

fun storage_source_to_fidl :: "offer_storage_source \<Rightarrow> fsys_ref option" where
  "storage_source_to_fidl StorageRealm = Some RealmRef"
| "storage_source_to_fidl (StorageNamed name) = Some (StorageRef (Some name))"

datatype offer_target = TargetChild string | TargetCollection string

definition target_ref_from_fidl :: "fsys_ref \<Rightarrow> (cm_rust_error, offer_target) outcome" where
  "target_ref_from_fidl r = (case r of
      ChildRef c \<Rightarrow> bindO (unwrap_opt (child_ref_name c)) (\<lambda>n. Ok (TargetChild n))
    | CollectionRef c \<Rightarrow> bindO (unwrap_opt c) (\<lambda>n. Ok (TargetCollection n))
    | _ \<Rightarrow> Panic)"

fun target_ref_to_fidl :: "offer_target \<Rightarrow> fsys_ref" where
  "target_ref_to_fidl (TargetChild child_name) = child_ref_to child_name"
| "target_ref_to_fidl (TargetCollection collection_name) = CollectionRef (Some collection_name)"

definition target_from_fidl :: "fsys_ref option \<Rightarrow> (cm_rust_error, offer_target) outcome" where
  "target_from_fidl r = bindO (unwrap_opt r) target_ref_from_fidl"

definition target_to_fidl :: "offer_target \<Rightarrow> fsys_ref option" where
  "target_to_fidl t = Some (target_ref_to_fidl t)"

definition path_from_fidl :: "string option \<Rightarrow> (cm_rust_error, capability_path) outcome" where
  "path_from_fidl p = bindO (unwrap_opt p) (\<lambda>s. unwrapO (path_try_from s))"

definition path_to_fidl :: "capability_path \<Rightarrow> string option" where
  "path_to_fidl p = Some (path_to_string p)"

section \<open>Declarations\<close>

text \<open>Each structure with the conversion of its fields, in the order of the fields.\<close>

record native_use =
  nuse_source :: use_source
  nuse_source_path :: capability_path
  nuse_target_path :: capability_path

definition use_from_fidl :: "fsys_use \<Rightarrow> (cm_rust_error, native_use) outcome" where
  "use_from_fidl d =
     bindO (use_source_from_fidl (fuse_source d)) (\<lambda>s.
     bindO (path_from_fidl (fuse_source_path d)) (\<lambda>p.
     bindO (path_from_fidl (fuse_target_path d)) (\<lambda>q.
       Ok \<lparr>nuse_source = s, nuse_source_path = p, nuse_target_path = q\<rparr>)))"

definition use_to_fidl :: "native_use \<Rightarrow> fsys_use" where
  "use_to_fidl d = \<lparr>fuse_source = use_source_to_fidl (nuse_source d),
     fuse_source_path = path_to_fidl (nuse_source_path d), fuse_target_path = path_to_fidl (nuse_target_path d)\<rparr>"

datatype use_storage_decl = UseData capability_path | UseCache capability_path | UseMeta

definition use_storage_from_fidl :: "fsys_use_storage \<Rightarrow> (cm_rust_error, use_storage_decl) outcome" where
  "use_storage_from_fidl d = bindO (unwrap_opt (fuse_type d)) (\<lambda>t. case t of
      StorageData \<Rightarrow> bindO (unwrap_opt (fuse_storage_path d)) (\<lambda>s. bindO (unwrapO (path_try_from s)) (\<lambda>p. Ok (UseData p)))
    | StorageCache \<Rightarrow> bindO (unwrap_opt (fuse_storage_path d)) (\<lambda>s. bindO (unwrapO (path_try_from s)) (\<lambda>p. Ok (UseCache p)))
    | StorageMeta \<Rightarrow> Ok UseMeta)"

fun use_storage_to_fidl :: "use_storage_decl \<Rightarrow> fsys_use_storage" where
  "use_storage_to_fidl (UseData p) = \<lparr>fuse_type = Some StorageData, fuse_storage_path = path_to_fidl p\<rparr>"
| "use_storage_to_fidl (UseCache p) = \<lparr>fuse_type = Some StorageCache, fuse_storage_path = path_to_fidl p\<rparr>"
| "use_storage_to_fidl UseMeta = \<lparr>fuse_type = Some StorageMeta, fuse_storage_path = None\<rparr>"

fun use_storage_type :: "use_storage_decl \<Rightarrow> storage_type" where
  "use_storage_type (UseData _) = StorageData"
| "use_storage_type (UseCache _) = StorageCache"
| "use_storage_type UseMeta = StorageMeta"

datatype use_decl = UseService native_use | UseDirectory native_use | UseStorage use_storage_decl

fun use_decl_from_fidl :: "fsys_use_decl \<Rightarrow> (cm_rust_error, use_decl) outcome" where
  "use_decl_from_fidl (FUseService e) = bindO (use_from_fidl e) (\<lambda>d. Ok (UseService d))"
| "use_decl_from_fidl (FUseDirectory e) = bindO (use_from_fidl e) (\<lambda>d. Ok (UseDirectory d))"
| "use_decl_from_fidl (FUseStorage e) = bindO (use_storage_from_fidl e) (\<lambda>d. Ok (UseStorage d))"
| "use_decl_from_fidl FUseUnknown = Panic"

fun use_decl_to_fidl :: "use_decl \<Rightarrow> fsys_use_decl" where
  "use_decl_to_fidl (UseService e) = FUseService (use_to_fidl e)"
| "use_decl_to_fidl (UseDirectory e) = FUseDirectory (use_to_fidl e)"
| "use_decl_to_fidl (UseStorage e) = FUseStorage (use_storage_to_fidl e)"

record native_expose =
  nexpose_source :: expose_source
  nexpose_source_path :: capability_path
  nexpose_target_path :: capability_path

definition expose_from_fidl :: "fsys_expose \<Rightarrow> (cm_rust_error, native_expose) outcome" where
  "expose_from_fidl d =
     bindO (expose_source_from_fidl (fexpose_source d)) (\<lambda>s.
     bindO (path_from_fidl (fexpose_source_path d)) (\<lambda>p.
     bindO (path_from_fidl (fexpose_target_path d)) (\<lambda>q.
       Ok \<lparr>nexpose_source = s, nexpose_source_path = p, nexpose_target_path = q\<rparr>)))"

definition expose_to_fidl :: "native_expose \<Rightarrow> fsys_expose" where
  "expose_to_fidl d = \<lparr>fexpose_source = expose_source_to_fidl (nexpose_source d),
     fexpose_source_path = path_to_fidl (nexpose_source_path d), fexpose_target_path = path_to_fidl (nexpose_target_path d)\<rparr>"

datatype expose_decl = ExposeService native_expose | ExposeDirectory native_expose

fun expose_decl_from_fidl :: "fsys_expose_decl \<Rightarrow> (cm_rust_error, expose_decl) outcome" where
  "expose_decl_from_fidl (FExposeService e) = bindO (expose_from_fidl e) (\<lambda>d. Ok (ExposeService d))"
| "expose_decl_from_fidl (FExposeDirectory e) = bindO (expose_from_fidl e) (\<lambda>d. Ok (ExposeDirectory d))"
| "expose_decl_from_fidl FExposeUnknown = Panic"

fun expose_decl_to_fidl :: "expose_decl \<Rightarrow> fsys_expose_decl" where
  "expose_decl_to_fidl (ExposeService e) = FExposeService (expose_to_fidl e)"
| "expose_decl_to_fidl (ExposeDirectory e) = FExposeDirectory (expose_to_fidl e)"

record native_offer_service =
  nservice_source :: offer_service_source
  nservice_source_path :: capability_path
  nservice_target :: offer_target
  nservice_target_path :: capability_path

definition offer_service_from_fidl :: "fsys_offer \<Rightarrow> (cm_rust_error, native_offer_service) outcome" where
  "offer_service_from_fidl d =
     bindO (service_source_from_fidl (foffer_source d)) (\<lambda>s.
     bindO (path_from_fidl (foffer_source_path d)) (\<lambda>p.
     bindO (target_from_fidl (foffer_target d)) (\<lambda>t.
     bindO (path_from_fidl (foffer_target_path d)) (\<lambda>q.
       Ok \<lparr>nservice_source = s, nservice_source_path = p, nservice_target = t, nservice_target_path = q\<rparr>))))"

definition offer_service_to_fidl :: "native_offer_service \<Rightarrow> fsys_offer" where
  "offer_service_to_fidl d = \<lparr>foffer_source = service_source_to_fidl (nservice_source d),
     foffer_source_path = path_to_fidl (nservice_source_path d), foffer_target = target_to_fidl (nservice_target d),
     foffer_target_path = path_to_fidl (nservice_target_path d)\<rparr>"

record native_offer_directory =
  ndirectory_source :: offer_directory_source
  ndirectory_source_path :: capability_path
  ndirectory_target :: offer_target
  ndirectory_target_path :: capability_path

definition offer_directory_from_fidl :: "fsys_offer \<Rightarrow> (cm_rust_error, native_offer_directory) outcome" where
  "offer_directory_from_fidl d =
     bindO (directory_source_from_fidl (foffer_source d)) (\<lambda>s.
     bindO (path_from_fidl (foffer_source_path d)) (\<lambda>p.
     bindO (target_from_fidl (foffer_target d)) (\<lambda>t.
     bindO (path_from_fidl (foffer_target_path d)) (\<lambda>q.
       Ok \<lparr>ndirectory_source = s, ndirectory_source_path = p, ndirectory_target = t, ndirectory_target_path = q\<rparr>))))"

definition offer_directory_to_fidl :: "native_offer_directory \<Rightarrow> fsys_offer" where
  "offer_directory_to_fidl d = \<lparr>foffer_source = directory_source_to_fidl (ndirectory_source d),
     foffer_source_path = path_to_fidl (ndirectory_source_path d), foffer_target = target_to_fidl (ndirectory_target d),
     foffer_target_path = path_to_fidl (ndirectory_target_path d)\<rparr>"

record offer_storage =
  ostorage_source :: offer_storage_source
  ostorage_target :: offer_target

datatype offer_storage_decl = OfferData offer_storage | OfferCache offer_storage | OfferMeta offer_storage

definition offer_storage_from_fidl :: "fsys_offer_storage \<Rightarrow> (cm_rust_error, offer_storage_decl) outcome" where
  "offer_storage_from_fidl d = bindO (unwrap_opt (foffer_type d)) (\<lambda>type.
     bindO (storage_source_from_fidl (foffer_storage_source d)) (\<lambda>s.
     bindO (target_from_fidl (foffer_storage_target d)) (\<lambda>t.
       Ok (case type of
           StorageData \<Rightarrow> OfferData \<lparr>ostorage_source = s, ostorage_target = t\<rparr>
         | StorageCache \<Rightarrow> OfferCache \<lparr>ostorage_source = s, ostorage_target = t\<rparr>
         | StorageMeta \<Rightarrow> OfferMeta \<lparr>ostorage_source = s, ostorage_target = t\<rparr>))))"

fun offer_storage_type :: "offer_storage_decl \<Rightarrow> storage_type" where
  "offer_storage_type (OfferData _) = StorageData"
| "offer_storage_type (OfferCache _) = StorageCache"
| "offer_storage_type (OfferMeta _) = StorageMeta"

fun offer_source_of :: "offer_storage_decl \<Rightarrow> offer_storage_source" where
  "offer_source_of (OfferData s) = ostorage_source s"
| "offer_source_of (OfferCache s) = ostorage_source s"
| "offer_source_of (OfferMeta s) = ostorage_source s"

fun offer_target_of :: "offer_storage_decl \<Rightarrow> offer_target" where
  "offer_target_of (OfferData s) = ostorage_target s"
| "offer_target_of (OfferCache s) = ostorage_target s"
| "offer_target_of (OfferMeta s) = ostorage_target s"

definition offer_storage_to_fidl :: "offer_storage_decl \<Rightarrow> fsys_offer_storage" where
  "offer_storage_to_fidl d =
     (let (source, target) = (case d of
          OfferData s \<Rightarrow> (ostorage_source s, ostorage_target s)
        | OfferCache s \<Rightarrow> (ostorage_source s, ostorage_target s)
        | OfferMeta s \<Rightarrow> (ostorage_source s, ostorage_target s))
      in \<lparr>foffer_type = Some (offer_storage_type d), foffer_storage_source = storage_source_to_fidl source,
          foffer_storage_target = target_to_fidl target\<rparr>)"

datatype offer_decl =
    OfferService native_offer_service
  | OfferDirectory native_offer_directory
  | OfferStorage offer_storage_decl

fun offer_decl_from_fidl :: "fsys_offer_decl \<Rightarrow> (cm_rust_error, offer_decl) outcome" where
  "offer_decl_from_fidl (FOfferService e) = bindO (offer_service_from_fidl e) (\<lambda>d. Ok (OfferService d))"
| "offer_decl_from_fidl (FOfferDirectory e) = bindO (offer_directory_from_fidl e) (\<lambda>d. Ok (OfferDirectory d))"
| "offer_decl_from_fidl (FOfferStorage e) = bindO (offer_storage_from_fidl e) (\<lambda>d. Ok (OfferStorage d))"
| "offer_decl_from_fidl FOfferUnknown = Panic"

fun offer_decl_to_fidl :: "offer_decl \<Rightarrow> fsys_offer_decl" where
  "offer_decl_to_fidl (OfferService e) = FOfferService (offer_service_to_fidl e)"
| "offer_decl_to_fidl (OfferDirectory e) = FOfferDirectory (offer_directory_to_fidl e)"
| "offer_decl_to_fidl (OfferStorage e) = FOfferStorage (offer_storage_to_fidl e)"

record child_decl =
  child_name :: string
  child_url :: string
  child_startup :: startup_mode

definition child_from_fidl :: "fsys_child \<Rightarrow> (cm_rust_error, child_decl) outcome" where
  "child_from_fidl d =
     bindO (unwrap_opt (fchild_name d)) (\<lambda>n.
     bindO (unwrap_opt (fchild_url d)) (\<lambda>u.
     bindO (unwrap_opt (fchild_startup d)) (\<lambda>s.
       Ok \<lparr>child_name = n, child_url = u, child_startup = s\<rparr>)))"

definition child_to_fidl :: "child_decl \<Rightarrow> fsys_child" where
  "child_to_fidl d = \<lparr>fchild_name = Some (child_name d), fchild_url = Some (child_url d), fchild_startup = Some (child_startup d)\<rparr>"

record collection_decl =
  collection_name :: string
  collection_durability :: durability

definition collection_from_fidl :: "fsys_collection \<Rightarrow> (cm_rust_error, collection_decl) outcome" where
  "collection_from_fidl d =
     bindO (unwrap_opt (fcollection_name d)) (\<lambda>n.
     bindO (unwrap_opt (fcollection_durability d)) (\<lambda>u.
       Ok \<lparr>collection_name = n, collection_durability = u\<rparr>))"

definition collection_to_fidl :: "collection_decl \<Rightarrow> fsys_collection" where
  "collection_to_fidl d = \<lparr>fcollection_name = Some (collection_name d), fcollection_durability = Some (collection_durability d)\<rparr>"

record storage_decl =
  storage_name :: string
  storage_source_path :: capability_path
  storage_source :: offer_directory_source

definition storage_from_fidl :: "fsys_storage \<Rightarrow> (cm_rust_error, storage_decl) outcome" where
  "storage_from_fidl d =
     bindO (unwrap_opt (fstorage_name d)) (\<lambda>n.
     bindO (path_from_fidl (fstorage_source_path d)) (\<lambda>p.
     bindO (directory_source_from_fidl (fstorage_source d)) (\<lambda>s.
       Ok \<lparr>storage_name = n, storage_source_path = p, storage_source = s\<rparr>)))"

definition storage_to_fidl :: "storage_decl \<Rightarrow> fsys_storage" where
  "storage_to_fidl d = \<lparr>fstorage_name = Some (storage_name d), fstorage_source_path = path_to_fidl (storage_source_path d),
     fstorage_source = directory_source_to_fidl (storage_source d)\<rparr>"

section \<open>Vectors and component declarations\<close>

fun mapO :: "('a \<Rightarrow> ('e, 'b) outcome) \<Rightarrow> 'a list \<Rightarrow> ('e, 'b list) outcome" where
  "mapO f [] = Ok []"
| "mapO f (x # xs) = bindO (f x) (\<lambda>y. bindO (mapO f xs) (\<lambda>ys. Ok (y # ys)))"

definition vec_from_fidl :: "('a \<Rightarrow> ('e, 'b) outcome) \<Rightarrow> 'a list option \<Rightarrow> ('e, 'b list) outcome" where
  "vec_from_fidl f xs = (case xs of Some from \<Rightarrow> mapO f from | None \<Rightarrow> Ok [])"

definition vec_to_fidl :: "('b \<Rightarrow> 'a) \<Rightarrow> 'b list \<Rightarrow> 'a list option" where
  "vec_to_fidl f xs = (if xs = [] then None else Some (map f xs))"

record component_decl =
  program :: "fdata_dictionary option"
  uses :: "use_decl list"
  exposes :: "expose_decl list"
  offers :: "offer_decl list"
  children :: "child_decl list"
  collections :: "collection_decl list"
  storage :: "storage_decl list"
  facets :: "fdata_dictionary option"

definition component_from_fidl :: "fsys_component \<Rightarrow> (cm_rust_error, component_decl) outcome" where
  "component_from_fidl d =
     bindO (vec_from_fidl use_decl_from_fidl (fuses d)) (\<lambda>us.
     bindO (vec_from_fidl expose_decl_from_fidl (fexposes d)) (\<lambda>es.
     bindO (vec_from_fidl offer_decl_from_fidl (foffers d)) (\<lambda>os.
     bindO (vec_from_fidl child_from_fidl (fchildren d)) (\<lambda>cs.
     bindO (vec_from_fidl collection_from_fidl (fcollections d)) (\<lambda>ks.
     bindO (vec_from_fidl storage_from_fidl (fstorage d)) (\<lambda>ss.
       Ok \<lparr>program = fprogram d, uses = us, exposes = es, offers = os, children = cs, collections = ks,
           storage = ss, facets = ffacets d\<rparr>))))))"

definition component_to_fidl :: "component_decl \<Rightarrow> fsys_component" where
  "component_to_fidl d = \<lparr>fprogram = program d, fuses = vec_to_fidl use_decl_to_fidl (uses d),
     fexposes = vec_to_fidl expose_decl_to_fidl (exposes d), foffers = vec_to_fidl offer_decl_to_fidl (offers d),
     ffacets = facets d, fstorage = vec_to_fidl storage_to_fidl (storage d),
     fchildren = vec_to_fidl child_to_fidl (children d), fcollections = vec_to_fidl collection_to_fidl (collections d)\<rparr>"

definition component_try_from :: "regex \<Rightarrow> fsys_component \<Rightarrow> (cm_rust_error, component_decl) outcome" where
  "component_try_from rx decl = (case validate rx decl of
      Ok _ \<Rightarrow> component_from_fidl decl
    | Err err \<Rightarrow> Err (ValidateError err)
    | Panic \<Rightarrow> Panic
    | Diverge \<Rightarrow> Diverge)"

section \<open>Capabilities\<close>

datatype capability = CapService capability_path | CapDirectory capability_path | CapStorage storage_type

fun capability_path_of :: "capability \<Rightarrow> capability_path option" where
  "capability_path_of (CapService s) = Some s"
| "capability_path_of (CapDirectory d) = Some d"
| "capability_path_of (CapStorage _) = None"

fun capability_display :: "capability \<Rightarrow> string" where
  "capability_display (CapService s) = ''service at '' @ path_display s"
| "capability_display (CapDirectory d) = ''directory at '' @ path_display d"
| "capability_display (CapStorage StorageData) = ''data storage''"
| "capability_display (CapStorage StorageCache) = ''cache storage''"
| "capability_display (CapStorage StorageMeta) = ''meta storage''"

fun capability_of_use :: "use_decl \<Rightarrow> capability" where
  "capability_of_use (UseService d) = CapService (nuse_source_path d)"
| "capability_of_use (UseDirectory d) = CapDirectory (nuse_source_path d)"
| "capability_of_use (UseStorage s) = CapStorage (use_storage_type s)"

fun capability_of_expose :: "expose_decl \<Rightarrow> capability" where
  "capability_of_expose (ExposeService d) = CapService (nexpose_source_path d)"
| "capability_of_expose (ExposeDirectory d) = CapDirectory (nexpose_source_path d)"

fun capability_of_offer :: "offer_decl \<Rightarrow> capability" where
  "capability_of_offer (OfferService d) = CapService (nservice_source_path d)"
| "capability_of_offer (OfferDirectory d) = CapDirectory (ndirectory_source_path d)"
| "capability_of_offer (OfferStorage d) = CapStorage (offer_storage_type d)"

section \<open>Searching a declaration\<close>

fun is_expose_match :: "capability \<Rightarrow> expose_decl \<Rightarrow> bool" where
  "is_expose_match (CapService p) (ExposeService d) = (nexpose_target_path d = p)"
| "is_expose_match (CapDirectory p) (ExposeDirectory d) = (nexpose_target_path d = p)"
| "is_expose_match _ _ = False"

definition find_expose_source :: "component_decl \<Rightarrow> capability \<Rightarrow> expose_decl option" where
  "find_expose_source self capability = List.find (is_expose_match capability) (exposes self)"

definition is_capability_match :: "string \<Rightarrow> string option \<Rightarrow> capability_path \<Rightarrow> offer_target \<Rightarrow> capability_path \<Rightarrow> bool" where
  "is_capability_match child collection path target target_path = (case target of
      TargetChild target_child_name \<Rightarrow> (case collection of
          Some _ \<Rightarrow> False
        | None \<Rightarrow> target_path = path \<and> target_child_name = child)
    | TargetCollection target_collection_name \<Rightarrow> (case collection of
          Some c \<Rightarrow> target_path = path \<and> target_collection_name = c
        | None \<Rightarrow> False))"

fun is_offer_match :: "capability \<Rightarrow> string \<Rightarrow> string option \<Rightarrow> offer_decl \<Rightarrow> bool" where
  "is_offer_match (CapService p) child collection (OfferService d) =
     is_capability_match child collection p (nservice_target d) (nservice_target_path d)"
| "is_offer_match (CapDirectory p) child collection (OfferDirectory d) =
     is_capability_match child collection p (ndirectory_target d) (ndirectory_target_path d)"
| "is_offer_match (CapStorage type) child collection (OfferStorage s) =
     (offer_storage_type s = type \<and> (case (offer_target_of s, collection) of
        (TargetChild target_child_name, None) \<Rightarrow> target_child_name = child
      | (TargetCollection target_collection_name, Some c) \<Rightarrow> target_collection_name = c
      | _ \<Rightarrow> False))"
| "is_offer_match _ _ _ _ = False"

definition find_offer_source :: "component_decl \<Rightarrow> capability \<Rightarrow> string \<Rightarrow> string option \<Rightarrow> offer_decl option" where
  "find_offer_source self capability child collection =
     List.find (is_offer_match capability child collection) (offers self)"

definition find_storage_source :: "component_decl \<Rightarrow> string \<Rightarrow> storage_decl option" where
  "find_storage_source self name = List.find (\<lambda>s. storage_name s = name) (storage self)"

section \<open>Dictionaries\<close>

datatype cm_value =
    Bit bool
  | Inum "64 word"
  | Fnum u64
  | Str string
  | Vec "cm_value list"
  | Dict "string \<Rightarrow> cm_value option"
  | Null

fun value_from_fidl :: "fdata_value \<Rightarrow> cm_value" where
  "value_from_fidl (FBit b) = Bit b"
| "value_from_fidl (FInum i) = Inum i"
| "value_from_fidl (FFnum f) = Fnum f"
| "value_from_fidl (FStr s) = Str s"
| "value_from_fidl (FVec vs) = Vec (map (\<lambda>v. case v of None \<Rightarrow> Null | Some x \<Rightarrow> value_from_fidl x) vs)"
| "value_from_fidl (FDict es) =
     Dict (map_of (rev (map (\<lambda>e. (fst e, case snd e of None \<Rightarrow> Null | Some x \<Rightarrow> value_from_fidl x)) es)))"

definition from_fidl_vec :: "fdata_value option list \<Rightarrow> cm_value list" where
  "from_fidl_vec vs = map (\<lambda>v. case v of None \<Rightarrow> Null | Some x \<Rightarrow> value_from_fidl x) vs"

text \<open>Collecting into a \<open>HashMap\<close>: a later entry for a key replaces an earlier one.\<close>

definition from_fidl_dict :: "fdata_dictionary \<Rightarrow> string \<rightharpoonup> cm_value" where
  "from_fidl_dict es = map_of (rev (map (\<lambda>e. (fst e, case snd e of None \<Rightarrow> Null | Some x \<Rightarrow> value_from_fidl x)) es))"

fun dictionary_find :: "fdata_dictionary \<Rightarrow> string \<Rightarrow> fdata_value option" where
  "dictionary_find [] key = None"
| "dictionary_find ((k, v) # entries) key = (if k = key then v else dictionary_find entries key)"

fun clone_value :: "fdata_value \<Rightarrow> fdata_value" where
  "clone_value (FBit x) = FBit x"
| "clone_value (FInum x) = FInum x"
| "clone_value (FFnum x) = FFnum x"
| "clone_value (FStr x) = FStr x"
| "clone_value (FVec x) = FVec (map (\<lambda>v. case v of None \<Rightarrow> None | Some y \<Rightarrow> Some (clone_value y)) x)"
| "clone_value (FDict x) = FDict (map (\<lambda>e. (fst e, case snd e of None \<Rightarrow> None | Some y \<Rightarrow> Some (clone_value y))) x)"

definition clone_dictionary :: "fdata_dictionary \<Rightarrow> fdata_dictionary" where
  "clone_dictionary v = map (\<lambda>e. (fst e, map_option clone_value (snd e))) v"

definition clone_option_dictionary :: "fdata_dictionary option \<Rightarrow> fdata_dictionary option" where
  "clone_option_dictionary v = map_option clone_dictionary v"

definition component_clone :: "component_decl \<Rightarrow> component_decl" where
  "component_clone d = d\<lparr>program := clone_option_dictionary (program d), facets := clone_option_dictionary (facets d)\<rparr>"

end
