(* ===== verification/Cm_Rust_Correct.thy ===== *)
theory Cm_Rust_Correct
  imports Cm_Rust Cm_Validator_Correct
begin

text \<open>
  The correctness of the conversions of component declarations: capability paths, the conversion of
  validated declarations, which never panics and loses nothing, and the searches in them.
\<close>

section \<open>Capability paths\<close>

text \<open>Paths are made of parts; the parts give the text of the path and its native form.\<close>

definition good_parts :: "string list \<Rightarrow> bool" where
  "good_parts parts \<longleftrightarrow> parts \<noteq> [] \<and> (\<forall>p\<in>set parts. p \<noteq> [] \<and> CHR ''/'' \<notin> set p)"

definition path_text :: "string list \<Rightarrow> string" where
  "path_text parts = concat (map (Cons (CHR ''/'')) parts)"

definition make_path :: "string list \<Rightarrow> capability_path" where
  "make_path parts = \<lparr>dirname = ''/'' @ join ''/'' (butlast parts), basename = last parts\<rparr>"

definition path_wf :: "capability_path \<Rightarrow> bool" where
  "path_wf p \<longleftrightarrow> (\<exists>parts. good_parts parts \<and> p = make_path parts)"

lemma split_slash_Nil [simp]: "split_slash s \<noteq> []"
  by (induction s) (auto split: list.splits)

lemma split_slash_append:
  "CHR ''/'' \<notin> set p \<Longrightarrow> split_slash (p @ r) = (p @ hd (split_slash r)) # tl (split_slash r)"
proof (induction p)
  case Nil
  then show ?case by (cases "split_slash r") simp_all
qed auto

lemma split_slash_text: "\<forall>p\<in>set parts. CHR ''/'' \<notin> set p \<Longrightarrow> split_slash (path_text parts) = [] # parts"
  by (induction parts) (simp_all add: path_text_def split_slash_append)

lemma split_slash_parts: "p \<in> set (split_slash s) \<Longrightarrow> CHR ''/'' \<notin> set p"
  by (induction s arbitrary: p) (auto split: if_splits list.splits)

lemma text_split_slash: "path_text (split_slash s) = CHR ''/'' # s"
proof (induction s)
  case (Cons c s)
  then show ?case by (cases "split_slash s") (auto simp: path_text_def)
qed (simp add: path_text_def)

lemma join_text: "parts \<noteq> [] \<Longrightarrow> CHR ''/'' # join ''/'' parts = path_text parts"
  by (induction "''/''" parts rule: join.induct) (simp_all add: path_text_def)

lemma collect_parts_eq: "collect_parts ps = (if [] \<in> set ps then None else Some ps)"
  by (induction ps) auto

lemma path_try_from_iff: "path_try_from s = Ok p \<longleftrightarrow> (\<exists>parts. good_parts parts \<and> s = path_text parts \<and> p = make_path parts)"
proof
  assume ok: "path_try_from s = Ok p"
  then obtain rest where s: "s = CHR ''/'' # rest" by (cases s) (auto simp: path_try_from_def split: if_splits)
  have "[] \<notin> set (split_slash rest)" "p = make_path (split_slash rest)"
    using ok by (auto simp: path_try_from_def s collect_parts_eq make_path_def split: if_splits option.splits)
  moreover have "good_parts (split_slash rest)"
    using calculation(1) split_slash_parts by (auto simp: good_parts_def)
  ultimately show "\<exists>parts. good_parts parts \<and> s = path_text parts \<and> p = make_path parts"
    using text_split_slash [of rest] s by metis
next
  assume "\<exists>parts. good_parts parts \<and> s = path_text parts \<and> p = make_path parts"
  then obtain parts where g: "good_parts parts" and s: "s = path_text parts" "p = make_path parts" by blast
  then have "split_slash s = [] # parts" using split_slash_text by (auto simp: good_parts_def)
  moreover have "\<exists>rest. s = CHR ''/'' # rest" using g by (cases parts) (auto simp: s path_text_def good_parts_def)
  ultimately show "path_try_from s = Ok p"
    using g by (auto simp: path_try_from_def collect_parts_eq s(2) make_path_def good_parts_def)
qed

lemma path_try_from_cases: "(\<exists>p. path_try_from s = Ok p) \<or> path_try_from s = Err (InvalidCapabilityPath s)"
  by (auto simp: path_try_from_def split: option.splits)

lemma path_to_string_make: "good_parts parts \<Longrightarrow> path_to_string (make_path parts) = path_text parts"
proof -
  assume g: "good_parts parts"
  then have ne: "parts \<noteq> []" by (simp add: good_parts_def)
  then have split: "path_text parts = path_text (butlast parts) @ CHR ''/'' # last parts"
    by (subst append_butlast_last_id [of parts, symmetric]) (simp_all add: path_text_def del: append_butlast_last_id)
  show ?thesis
  proof (cases "butlast parts = []")
    case True
    then show ?thesis using split by (simp add: path_to_string_def path_display_def make_path_def path_text_def)
  next
    case False
    have "join ''/'' (butlast parts) \<noteq> []"
    proof -
      obtain q qs where "butlast parts = q # qs" using False by (cases "butlast parts") auto
      moreover have "q \<noteq> []" using g in_set_butlastD [of q parts] calculation by (auto simp: good_parts_def)
      ultimately show ?thesis by (cases qs) auto
    qed
    then show ?thesis
      using split by (simp add: path_to_string_def path_display_def make_path_def flip: join_text [OF False])
  qed
qed

lemma path_try_from_to_string: "path_wf p \<Longrightarrow> path_try_from (path_to_string p) = Ok p"
  using path_to_string_make path_try_from_iff by (auto simp: path_wf_def)

section \<open>Regular expressions\<close>

text \<open>
  What the code relies on of the crate \<^verbatim>\<open>regex\<close>: the expression for paths matches a text, anchored at
  both ends, exactly if it is a sequence of one or more parts, each a slash followed by one or more
  characters that are no slash.
\<close>

locale regex_crate =
  fixes rx :: regex
  assumes path_language: "rx (re PATH) s \<longleftrightarrow> (\<exists>parts. good_parts parts \<and> s = path_text parts)"

text \<open>A matcher for the three expressions of the validator.\<close>

definition name_chars :: string where
  "name_chars = ''0123456789abcdefghijklmnopqrstuvwxyz-.''"

definition match_path :: "string \<Rightarrow> bool" where
  "match_path s \<longleftrightarrow> (case split_slash s of [] \<Rightarrow> False | p # ps \<Rightarrow> p = [] \<and> ps \<noteq> [] \<and> [] \<notin> set ps)"

definition match_name :: "string \<Rightarrow> bool" where
  "match_name s \<longleftrightarrow> s \<noteq> [] \<and> list_all (\<lambda>c. c \<in> set (CHR ''_'' # name_chars)) s"

definition match_url :: "string \<Rightarrow> bool" where
  "match_url s \<longleftrightarrow> (let scheme = takeWhile (\<lambda>c. c \<in> set (CHR ''+'' # name_chars)) s; rest = drop (length scheme) s in
     scheme \<noteq> [] \<and> take 3 rest = ''://'' \<and> drop 3 rest \<noteq> [] \<and> CHR 0x0A \<notin> set (drop 3 rest))"

definition matcher :: regex where
  "matcher pattern = (if pattern = re PATH then match_path else if pattern = re NAME then match_name
     else if pattern = re URL then match_url else (\<lambda>_. False))"

lemma match_path_iff: "match_path s \<longleftrightarrow> (\<exists>parts. good_parts parts \<and> s = path_text parts)"
proof
  assume "match_path s"
  then obtain ps where ps: "split_slash s = [] # ps" "ps \<noteq> []" "[] \<notin> set ps"
    by (auto simp: match_path_def split: list.splits)
  then have "path_text ps = s" using text_split_slash [of s] by (simp add: path_text_def)
  moreover have "good_parts ps" using ps split_slash_parts [of _ s] by (auto simp: good_parts_def)
  ultimately show "\<exists>parts. good_parts parts \<and> s = path_text parts" by metis
next
  assume "\<exists>parts. good_parts parts \<and> s = path_text parts"
  then show "match_path s" using split_slash_text by (auto simp: match_path_def good_parts_def)
qed

interpretation matcher: regex_crate matcher
  by unfold_locales (simp add: matcher_def match_path_iff)

section \<open>Conversions of validated declarations\<close>

text \<open>A conversion that succeeds on \<open>x\<close> and can be undone.\<close>

definition converts :: "('a \<Rightarrow> ('e, 'b) outcome) \<Rightarrow> ('b \<Rightarrow> 'a) \<Rightarrow> 'a \<Rightarrow> bool" where
  "converts from to x \<longleftrightarrow> (\<exists>y. from x = Ok y \<and> to y = x)"

lemma mapO_converts: "\<forall>x\<in>set xs. converts f g x \<Longrightarrow> \<exists>ys. mapO f xs = Ok ys \<and> map g ys = xs"
  by (induction xs) (auto simp: converts_def)

definition norm_vec :: "'a list option \<Rightarrow> 'a list option" where
  "norm_vec xs = (if xs = Some [] then None else xs)"

lemma vec_converts:
  "\<forall>x\<in>set (items xs). converts f g x \<Longrightarrow> \<exists>ys. vec_from_fidl f xs = Ok ys \<and> vec_to_fidl g ys = norm_vec xs \<and> map g ys = items xs"
  using mapO_converts [of "items xs" f g]
  by (cases xs) (auto simp: vec_from_fidl_def vec_to_fidl_def norm_vec_def)

lemma unwrap_opt_simps [simp]: "unwrap_opt (Some a) = Ok a" "unwrap_opt None = Panic"
  by (simp_all add: unwrap_opt_def)

lemma child_ref_eq:
  "child_ref_ok rx C r \<Longrightarrow> \<exists>n\<in>C. r = \<lparr>child_ref_name = Some n, child_ref_collection = None\<rparr>"
  by (cases r) (auto simp: child_ref_ok_def)

lemma sources_convert:
  "storage_source_ok rx C s \<Longrightarrow> converts service_source_from_fidl service_source_to_fidl s"
  "storage_source_ok rx C s \<Longrightarrow> converts directory_source_from_fidl directory_source_to_fidl s"
  by (auto simp: storage_source_ok_def converts_def service_source_from_fidl_def directory_source_from_fidl_def
      split: option.splits fsys_ref.splits dest!: child_ref_eq)

lemma target_converts: "offer_target_ok rx C K f t \<Longrightarrow> converts target_from_fidl target_to_fidl t"
  by (auto simp: offer_target_ok_def converts_def target_from_fidl_def target_ref_from_fidl_def target_to_fidl_def ident_ok_def
      split: option.splits fsys_ref.splits dest!: child_ref_eq)

lemma child_converts: "child_ok rx x \<Longrightarrow> converts child_from_fidl child_to_fidl x"
  by (cases x) (auto simp: child_ok_def converts_def child_from_fidl_def child_to_fidl_def elim!: ident_okE)

lemma collection_converts: "collection_ok rx x \<Longrightarrow> converts collection_from_fidl collection_to_fidl x"
  by (cases x) (auto simp: collection_ok_def converts_def collection_from_fidl_def collection_to_fidl_def elim!: ident_okE)

definition norm_component :: "fsys_component \<Rightarrow> fsys_component" where
  "norm_component d = d\<lparr>fuses := norm_vec (fuses d), fexposes := norm_vec (fexposes d), foffers := norm_vec (foffers d),
     fstorage := norm_vec (fstorage d), fchildren := norm_vec (fchildren d), fcollections := norm_vec (fcollections d)\<rparr>"

lemma converts_lift:
  "converts use_from_fidl use_to_fidl d \<Longrightarrow> converts use_decl_from_fidl use_decl_to_fidl (FUseService d)"
  "converts use_from_fidl use_to_fidl d \<Longrightarrow> converts use_decl_from_fidl use_decl_to_fidl (FUseDirectory d)"
  "converts use_storage_from_fidl use_storage_to_fidl e \<Longrightarrow> converts use_decl_from_fidl use_decl_to_fidl (FUseStorage e)"
  "converts expose_from_fidl expose_to_fidl f \<Longrightarrow> converts expose_decl_from_fidl expose_decl_to_fidl (FExposeService f)"
  "converts expose_from_fidl expose_to_fidl f \<Longrightarrow> converts expose_decl_from_fidl expose_decl_to_fidl (FExposeDirectory f)"
  "converts offer_service_from_fidl offer_service_to_fidl g \<Longrightarrow> converts offer_decl_from_fidl offer_decl_to_fidl (FOfferService g)"
  "converts offer_directory_from_fidl offer_directory_to_fidl g \<Longrightarrow> converts offer_decl_from_fidl offer_decl_to_fidl (FOfferDirectory g)"
  "converts offer_storage_from_fidl offer_storage_to_fidl h \<Longrightarrow> converts offer_decl_from_fidl offer_decl_to_fidl (FOfferStorage h)"
  by (auto simp: converts_def)

context regex_crate
begin

lemma path_ex:
  assumes "ident_ok rx PATH p"
  shows "\<exists>s q. p = Some s \<and> path_try_from s = Ok q \<and> path_from_fidl p = Ok q \<and> path_to_fidl q = p"
proof -
  obtain s parts where p: "p = Some s" "good_parts parts" "s = path_text parts"
    using assms path_language by (auto simp: ident_ok_def split: option.splits)
  then have "path_try_from s = Ok (make_path parts)" using path_try_from_iff by blast
  then show ?thesis using p path_to_string_make [OF p(2)] by (simp add: path_from_fidl_def path_to_fidl_def)
qed

lemma path_ok:
  assumes "ident_ok rx PATH p"
  obtains q where "path_from_fidl p = Ok q" "path_to_fidl q = p"
  using path_ex [OF assms] by blast

lemma storage_converts: "storage_ok rx C x \<Longrightarrow> converts storage_from_fidl storage_to_fidl x"
  using sources_convert(2) [of rx C "fstorage_source x"]
  by (cases x) (auto simp: storage_ok_def converts_def storage_from_fidl_def storage_to_fidl_def elim!: ident_okE [where i = NAME] path_ok)

lemma use_converts: "use_ok rx u \<Longrightarrow> converts use_decl_from_fidl use_decl_to_fidl u"
proof -
  have f: "converts use_from_fidl use_to_fidl d"
    if src: "fuse_source d \<in> {Some RealmRef, Some FrameworkRef}"
      and i: "ident_ok rx PATH (fuse_source_path d)" "ident_ok rx PATH (fuse_target_path d)" for d
  proof -
    obtain p where p: "path_from_fidl (fuse_source_path d) = Ok p" "path_to_fidl p = fuse_source_path d" using i(1) by (rule path_ok)
    obtain q where q: "path_from_fidl (fuse_target_path d) = Ok q" "path_to_fidl q = fuse_target_path d" using i(2) by (rule path_ok)
    show ?thesis using src p q
      by (cases d) (auto simp: converts_def use_from_fidl_def use_to_fidl_def use_source_from_fidl_def)
  qed
  have g: "converts use_storage_from_fidl use_storage_to_fidl d" if "use_ok rx (FUseStorage d)" for d
  proof -
    show ?thesis
    proof (cases "fuse_type d = Some StorageMeta")
      case True
      then show ?thesis using that by (cases d) (simp add: converts_def use_storage_from_fidl_def)
    next
      case False
      then have "ident_ok rx PATH (fuse_storage_path d)" "fuse_type d \<noteq> None" using that by (auto split: option.splits storage_type.splits)
      then show ?thesis using path_ex [of "fuse_storage_path d"] False
        by (cases d) (auto simp: converts_def use_storage_from_fidl_def split: storage_type.splits)
    qed
  qed
  assume "use_ok rx u"
  then show ?thesis
  proof (cases u)
    case (FUseStorage d)
    then show ?thesis using g \<open>use_ok rx u\<close> by (auto intro: converts_lift simp del: use_ok.simps)
  qed (auto intro!: converts_lift f)
qed

lemma expose_converts: "expose_ok rx C x \<Longrightarrow> converts expose_decl_from_fidl expose_decl_to_fidl x"
proof -
  have f: "converts expose_from_fidl expose_to_fidl d" if "expose_fields_ok rx C d" for d
  proof -
    have i: "ident_ok rx PATH (fexpose_source_path d)" "ident_ok rx PATH (fexpose_target_path d)"
      and s: "converts expose_source_from_fidl expose_source_to_fidl (fexpose_source d)"
      using that by (auto simp: expose_fields_ok_def converts_def expose_source_from_fidl_def
          split: option.splits fsys_ref.splits dest!: child_ref_eq)
    obtain p where p: "path_from_fidl (fexpose_source_path d) = Ok p" "path_to_fidl p = fexpose_source_path d" using i(1) by (rule path_ok)
    obtain q where q: "path_from_fidl (fexpose_target_path d) = Ok q" "path_to_fidl q = fexpose_target_path d" using i(2) by (rule path_ok)
    show ?thesis using s p q by (cases d) (auto simp: converts_def expose_from_fidl_def expose_to_fidl_def)
  qed
  assume "expose_ok rx C x"
  then show ?thesis by (cases x) (auto intro!: converts_lift f)
qed

lemma offer_converts: "offer_ok rx C K S x \<Longrightarrow> converts offer_decl_from_fidl offer_decl_to_fidl x"
proof -
  have f: "converts offer_service_from_fidl offer_service_to_fidl d \<and> converts offer_directory_from_fidl offer_directory_to_fidl d"
    if "offer_fields_ok rx C K d" for d
  proof -
    have i: "ident_ok rx PATH (foffer_source_path d)" "ident_ok rx PATH (foffer_target_path d)"
      and s: "storage_source_ok rx C (foffer_source d)"
      and t: "converts target_from_fidl target_to_fidl (foffer_target d)"
      using that target_converts by (auto simp: offer_fields_ok_def)
    obtain p where p: "path_from_fidl (foffer_source_path d) = Ok p" "path_to_fidl p = foffer_source_path d" using i(1) by (rule path_ok)
    obtain q where q: "path_from_fidl (foffer_target_path d) = Ok q" "path_to_fidl q = foffer_target_path d" using i(2) by (rule path_ok)
    show ?thesis using sources_convert [OF s] t p q
      by (cases d) (auto simp: converts_def offer_service_from_fidl_def offer_service_to_fidl_def
          offer_directory_from_fidl_def offer_directory_to_fidl_def)
  qed
  have g: "converts offer_storage_from_fidl offer_storage_to_fidl d" if "offer_ok rx C K S (FOfferStorage d)" for d
  proof -
    have s: "converts storage_source_from_fidl storage_source_to_fidl (foffer_storage_source d)"
      and t: "converts target_from_fidl target_to_fidl (foffer_storage_target d)"
      using that target_converts
      by (auto simp: converts_def storage_source_from_fidl_def ident_ok_def split: option.splits fsys_ref.splits)
    then show ?thesis using that
      by (cases d) (auto simp: converts_def offer_storage_from_fidl_def offer_storage_to_fidl_def Let_def
          split: storage_type.splits)
  qed
  assume "offer_ok rx C K S x"
  then show ?thesis
  proof (cases x)
    case (FOfferStorage d)
    then show ?thesis using g \<open>offer_ok rx C K S x\<close> by (auto intro: converts_lift simp del: offer_ok.simps)
  qed (use f in \<open>auto intro!: converts_lift\<close>)
qed

lemma component_converts:
  assumes v: "decl_valid rx d"
  shows "\<exists>n. component_from_fidl d = Ok n \<and> component_to_fidl n = norm_component d
    \<and> map expose_decl_to_fidl (exposes n) = items (fexposes d) \<and> map offer_decl_to_fidl (offers n) = items (foffers d)
    \<and> map storage_to_fidl (storage n) = items (fstorage d)"
proof -
  obtain us where us: "vec_from_fidl use_decl_from_fidl (fuses d) = Ok us" "vec_to_fidl use_decl_to_fidl us = norm_vec (fuses d)"
    using vec_converts [of "fuses d" use_decl_from_fidl use_decl_to_fidl] use_converts v unfolding decl_valid_def by blast
  obtain es where es: "vec_from_fidl expose_decl_from_fidl (fexposes d) = Ok es" "vec_to_fidl expose_decl_to_fidl es = norm_vec (fexposes d)"
    "map expose_decl_to_fidl es = items (fexposes d)"
    using vec_converts [of "fexposes d" expose_decl_from_fidl expose_decl_to_fidl] expose_converts v unfolding decl_valid_def by blast
  obtain os where os: "vec_from_fidl offer_decl_from_fidl (foffers d) = Ok os" "vec_to_fidl offer_decl_to_fidl os = norm_vec (foffers d)"
    "map offer_decl_to_fidl os = items (foffers d)"
    using vec_converts [of "foffers d" offer_decl_from_fidl offer_decl_to_fidl] offer_converts v unfolding decl_valid_def by blast
  obtain cs where cs: "vec_from_fidl child_from_fidl (fchildren d) = Ok cs" "vec_to_fidl child_to_fidl cs = norm_vec (fchildren d)"
    using vec_converts [of "fchildren d" child_from_fidl child_to_fidl] child_converts v unfolding decl_valid_def by blast
  obtain ks where ks: "vec_from_fidl collection_from_fidl (fcollections d) = Ok ks"
    "vec_to_fidl collection_to_fidl ks = norm_vec (fcollections d)"
    using vec_converts [of "fcollections d" collection_from_fidl collection_to_fidl] collection_converts v unfolding decl_valid_def by blast
  obtain ss where ss: "vec_from_fidl storage_from_fidl (fstorage d) = Ok ss" "vec_to_fidl storage_to_fidl ss = norm_vec (fstorage d)"
    "map storage_to_fidl ss = items (fstorage d)"
    using vec_converts [of "fstorage d" storage_from_fidl storage_to_fidl] storage_converts v unfolding decl_valid_def by blast
  show ?thesis
    by (simp add: component_from_fidl_def component_to_fidl_def norm_component_def us es os cs ks ss)
qed

lemma try_from_ok:
  assumes "component_try_from rx d = Ok n"
  shows "decl_valid rx d" and "component_from_fidl d = Ok n"
proof -
  obtain c' where "vstep (validate_context rx d) new_context (decl_valid rx d) () c'"
    using validate_context_step by blast
  then show "decl_valid rx d" "component_from_fidl d = Ok n"
    using assms by (auto simp: component_try_from_def vstep_def validate_def new_context_def split: if_splits)
qed

end

section \<open>Converting back and forth\<close>

text \<open>Native declarations whose paths are what the parser produces.\<close>

fun use_wf :: "use_decl \<Rightarrow> bool" where
  "use_wf (UseService d) \<longleftrightarrow> path_wf (nuse_source_path d) \<and> path_wf (nuse_target_path d)"
| "use_wf (UseDirectory d) \<longleftrightarrow> path_wf (nuse_source_path d) \<and> path_wf (nuse_target_path d)"
| "use_wf (UseStorage (UseData p)) \<longleftrightarrow> path_wf p"
| "use_wf (UseStorage (UseCache p)) \<longleftrightarrow> path_wf p"
| "use_wf (UseStorage UseMeta) \<longleftrightarrow> True"

fun expose_wf :: "expose_decl \<Rightarrow> bool" where
  "expose_wf (ExposeService d) \<longleftrightarrow> path_wf (nexpose_source_path d) \<and> path_wf (nexpose_target_path d)"
| "expose_wf (ExposeDirectory d) \<longleftrightarrow> path_wf (nexpose_source_path d) \<and> path_wf (nexpose_target_path d)"

fun offer_wf :: "offer_decl \<Rightarrow> bool" where
  "offer_wf (OfferService d) \<longleftrightarrow> path_wf (nservice_source_path d) \<and> path_wf (nservice_target_path d)"
| "offer_wf (OfferDirectory d) \<longleftrightarrow> path_wf (ndirectory_source_path d) \<and> path_wf (ndirectory_target_path d)"
| "offer_wf (OfferStorage d) \<longleftrightarrow> True"

definition component_wf :: "component_decl \<Rightarrow> bool" where
  "component_wf n \<longleftrightarrow> (\<forall>x\<in>set (uses n). use_wf x) \<and> (\<forall>x\<in>set (exposes n). expose_wf x) \<and> (\<forall>x\<in>set (offers n). offer_wf x)
     \<and> (\<forall>x\<in>set (storage n). path_wf (storage_source_path x))"

lemma path_back: "path_wf p \<Longrightarrow> path_from_fidl (path_to_fidl p) = Ok p"
  by (simp add: path_from_fidl_def path_to_fidl_def path_try_from_to_string)

lemma sources_back:
  "use_source_from_fidl (use_source_to_fidl a) = Ok a" "expose_source_from_fidl (expose_source_to_fidl b) = Ok b"
  "service_source_from_fidl (service_source_to_fidl c) = Ok c" "directory_source_from_fidl (directory_source_to_fidl d) = Ok d"
  "storage_source_from_fidl (storage_source_to_fidl e) = Ok e" "target_from_fidl (target_to_fidl t) = Ok t"
proof -
  show "use_source_from_fidl (use_source_to_fidl a) = Ok a" by (cases a) (simp_all add: use_source_from_fidl_def)
  show "expose_source_from_fidl (expose_source_to_fidl b) = Ok b" by (cases b) (simp_all add: expose_source_from_fidl_def)
  show "service_source_from_fidl (service_source_to_fidl c) = Ok c" by (cases c) (simp_all add: service_source_from_fidl_def)
  show "directory_source_from_fidl (directory_source_to_fidl d) = Ok d" by (cases d) (simp_all add: directory_source_from_fidl_def)
  show "storage_source_from_fidl (storage_source_to_fidl e) = Ok e" by (cases e) (simp_all add: storage_source_from_fidl_def)
  show "target_from_fidl (target_to_fidl t) = Ok t"
    by (cases t) (simp_all add: target_from_fidl_def target_to_fidl_def target_ref_from_fidl_def)
qed

lemma use_back: "use_wf x \<Longrightarrow> use_decl_from_fidl (use_decl_to_fidl x) = Ok x"
  by (induction x rule: use_wf.induct)
    (simp_all add: use_from_fidl_def use_to_fidl_def path_from_fidl_def sources_back use_storage_from_fidl_def path_to_fidl_def path_try_from_to_string)

lemma expose_back: "expose_wf x \<Longrightarrow> expose_decl_from_fidl (expose_decl_to_fidl x) = Ok x"
  by (cases x) (simp_all add: expose_from_fidl_def expose_to_fidl_def path_back sources_back)

lemma offer_back: "offer_wf x \<Longrightarrow> offer_decl_from_fidl (offer_decl_to_fidl x) = Ok x"
proof (cases x)
  case (OfferStorage d)
  then show ?thesis
    by (cases d) (simp_all add: offer_storage_from_fidl_def offer_storage_to_fidl_def sources_back)
qed (simp_all add: offer_service_from_fidl_def offer_service_to_fidl_def offer_directory_from_fidl_def
    offer_directory_to_fidl_def path_back sources_back)

lemma vec_back: "\<forall>x\<in>set xs. f (g x) = Ok x \<Longrightarrow> vec_from_fidl f (vec_to_fidl g xs) = Ok xs"
proof -
  assume "\<forall>x\<in>set xs. f (g x) = Ok x"
  then have "mapO f (map g xs) = Ok xs" by (induction xs) auto
  then show ?thesis by (simp add: vec_from_fidl_def vec_to_fidl_def)
qed

lemma component_back: "component_wf n \<Longrightarrow> component_from_fidl (component_to_fidl n) = Ok n"
  unfolding component_wf_def
  by (simp add: component_from_fidl_def component_to_fidl_def vec_back use_back expose_back offer_back
      child_from_fidl_def child_to_fidl_def collection_from_fidl_def collection_to_fidl_def
      storage_from_fidl_def storage_to_fidl_def path_back sources_back)

section \<open>Searching\<close>

lemma find_unique:
  assumes "distinct (concat (map k xs))" and "\<And>x. x \<in> set xs \<Longrightarrow> P x \<Longrightarrow> key \<in> set (k x)"
  shows "List.find P xs = Some x \<longleftrightarrow> x \<in> set xs \<and> P x"
  using assms
proof (induction xs)
  case (Cons y ys)
  show ?case
  proof (cases "P y")
    case True
    then have "\<not> P z" if "z \<in> set ys" for z using Cons.prems(1) Cons.prems(2) [of y] Cons.prems(2) [of z] that by fastforce
    then show ?thesis using True by auto
  next
    case False
    have "List.find P ys = Some x \<longleftrightarrow> x \<in> set ys \<and> P x" using Cons by simp
    then show ?thesis using False by auto
  qed
qed simp

context regex_crate
begin

lemma find_expose_unique:
  assumes "component_try_from rx d = Ok n"
  shows "find_expose_source n cap = Some x \<longleftrightarrow> x \<in> set (exposes n) \<and> is_expose_match cap x"
proof -
  have v: "decl_valid rx d" "component_from_fidl d = Ok n" using try_from_ok [OF assms] .
  have "map expose_decl_to_fidl (exposes n) = items (fexposes d)" using component_converts [OF v(1)] v(2) by auto
  then have "distinct (map expose_path (map expose_decl_to_fidl (exposes n)))" using v(1) unfolding decl_valid_def by metis
  then have "distinct (concat (map (\<lambda>x. [expose_path (expose_decl_to_fidl x)]) (exposes n)))" by (simp add: comp_def)
  moreover have "map_option path_to_string (capability_path_of cap) \<in> set [expose_path (expose_decl_to_fidl y)]"
    if "is_expose_match cap y" for y
    using that by (cases "(cap, y)" rule: is_expose_match.cases) (auto simp: expose_to_fidl_def path_to_fidl_def)
  ultimately show ?thesis unfolding find_expose_source_def by (rule find_unique)
qed

lemma find_storage_unique:
  assumes "component_try_from rx d = Ok n"
  shows "find_storage_source n name = Some x \<longleftrightarrow> x \<in> set (storage n) \<and> storage_name x = name"
proof -
  have v: "decl_valid rx d" "component_from_fidl d = Ok n" using try_from_ok [OF assms] .
  have "map storage_to_fidl (storage n) = items (fstorage d)" using component_converts [OF v(1)] v(2) by auto
  then have "distinct (map fstorage_name (map storage_to_fidl (storage n)))" using v(1) unfolding decl_valid_def by metis
  then have "distinct (concat (map (\<lambda>x. [fstorage_name (storage_to_fidl x)]) (storage n)))" by (simp add: comp_def)
  moreover have "Some name \<in> set [fstorage_name (storage_to_fidl y)]" if "storage_name y = name" for y
    using that by (simp add: storage_to_fidl_def)
  ultimately show ?thesis unfolding find_storage_source_def by (rule find_unique)
qed

lemma find_offer_unique:
  assumes "component_try_from rx d = Ok n" and "capability_path_of cap = Some path"
  shows "find_offer_source n cap child coll = Some x \<longleftrightarrow> x \<in> set (offers n) \<and> is_offer_match cap child coll x"
proof -
  have v: "decl_valid rx d" "component_from_fidl d = Ok n" using try_from_ok [OF assms(1)] .
  have "map offer_decl_to_fidl (offers n) = items (foffers d)" using component_converts [OF v(1)] v(2) by auto
  then have "distinct (concat (map offer_keys (map offer_decl_to_fidl (offers n))))" using v(1) unfolding decl_valid_def by metis
  then have "distinct (concat (map (\<lambda>x. offer_keys (offer_decl_to_fidl x)) (offers n)))" by (simp add: comp_def)
  moreover have "(Some (case coll of None \<Rightarrow> child_ref_to child | Some c \<Rightarrow> CollectionRef (Some c)), path_to_fidl path)
      \<in> set (offer_keys (offer_decl_to_fidl y))" if "is_offer_match cap child coll y" for y
    using that assms(2)
    by (cases "(cap, child, coll, y)" rule: is_offer_match.cases)
      (auto simp: is_capability_match_def offer_fields_key_def offer_service_to_fidl_def offer_directory_to_fidl_def target_to_fidl_def
        split: offer_target.splits option.splits)
  ultimately show ?thesis unfolding find_offer_source_def by (rule find_unique)
qed

end

section \<open>Dictionaries\<close>

abbreviation entry_value :: "fdata_value option \<Rightarrow> cm_value" where
  "entry_value v \<equiv> (case v of None \<Rightarrow> Null | Some x \<Rightarrow> value_from_fidl x)"

lemma dictionary_find_first: "dictionary_find es k = (case map_of es k of None \<Rightarrow> None | Some v \<Rightarrow> v)"
  by (induction es k rule: dictionary_find.induct) auto

lemma from_fidl_dict_last: "from_fidl_dict es k = map_option entry_value (map_of (rev es) k)"
proof -
  have "map_of (map (\<lambda>e. (fst e, entry_value (snd e))) xs) k = map_option entry_value (map_of xs k)" for xs
    by (induction xs) auto
  then show ?thesis by (simp add: from_fidl_dict_def rev_map)
qed

lemma clone_value_id: "clone_value v = v"
proof (induction v rule: clone_value.induct)
  case (5 x)
  then have "map (\<lambda>v. case v of None \<Rightarrow> None | Some y \<Rightarrow> Some (clone_value y)) x = map id x"
    by (intro map_cong) (auto split: option.splits)
  then show ?case by simp
next
  case (6 x)
  then have "map (\<lambda>e. (fst e, case snd e of None \<Rightarrow> None | Some y \<Rightarrow> Some (clone_value y))) x = map id x"
    by (intro map_cong) (auto split: option.splits)
  then show ?case by simp
qed simp_all

lemma component_clone_id: "component_clone d = d"
proof -
  have "clone_value = id" by (rule ext) (simp add: clone_value_id)
  then have "clone_dictionary = id" by (rule_tac ext) (simp add: clone_dictionary_def option.map_id)
  then show ?thesis by (simp add: component_clone_def clone_option_dictionary_def option.map_id)
qed

section \<open>Properties\<close>

text \<open>
  C10. Converting a declaration never panics: a declaration the validator accepts is converted, and
  converting the result back gives the declaration, apart from empty vectors, which become absent
  fields; a declaration the validator rejects is rejected with the validator's errors.
\<close>

theorem try_from_total:
  assumes "regex_crate rx"
  shows "(\<exists>n. validate rx d = Ok () \<and> component_try_from rx d = Ok n \<and> component_to_fidl n = norm_component d)
    \<or> (\<exists>es. validate rx d = Err es \<and> component_try_from rx d = Err (ValidateError es))"
proof -
  obtain c' where "vstep (validate_context rx d) new_context (decl_valid rx d) () c'"
    using validate_context_step by blast
  then have v: "validate rx d = Ok () \<and> decl_valid rx d \<or> (\<exists>es. validate rx d = Err es)"
    by (auto simp: vstep_def validate_def new_context_def)
  show ?thesis
  proof (cases "validate rx d = Ok ()")
    case True
    then have "decl_valid rx d" using v by auto
    then obtain n where "component_from_fidl d = Ok n" "component_to_fidl n = norm_component d"
      using regex_crate.component_converts [OF assms] by blast
    then show ?thesis using True by (simp add: component_try_from_def)
  next
    case False
    then show ?thesis using v by (auto simp: component_try_from_def)
  qed
qed

definition example_offer :: fsys_offer where
  "example_offer = \<lparr>foffer_source = Some RealmRef, foffer_source_path = Some ''/svc/a'',
     foffer_target = Some (child_ref_to ''logger''), foffer_target_path = Some ''/svc/b''\<rparr>"

definition example_decl :: fsys_component where
  "example_decl = \<lparr>fprogram = None, fuses = Some [], fexposes = None, foffers = Some [FOfferService example_offer], ffacets = None,
     fstorage = None, fchildren = Some [\<lparr>fchild_name = Some ''logger'', fchild_url = Some ''fuchsia-pkg://l'', fchild_startup = Some Lazy\<rparr>],
     fcollections = None\<rparr>"

lemma example_accepted: "validate matcher example_decl = Ok ()"
  by code_simp

theorem try_from_total_witness:
  "\<exists>n. component_try_from matcher example_decl = Ok n \<and> fuses (component_to_fidl n) = None
    \<and> foffers (component_to_fidl n) = Some [FOfferService example_offer]"
  using try_from_total [OF matcher.regex_crate_axioms, of example_decl] example_accepted
  by (auto simp: norm_component_def norm_vec_def example_decl_def)

text \<open>
  C39. The other way around: a native declaration, converted to FIDL and back, is what it was, as
  long as its paths are paths that the parser could have produced.
\<close>

theorem native_round_trip:
  assumes "component_wf n"
  shows "component_from_fidl (component_to_fidl n) = Ok n"
  by (rule component_back [OF assms])

theorem native_round_trip_witness:
  "\<exists>n. uses n = [UseStorage (UseData \<lparr>dirname = ''/data'', basename = ''x''\<rparr>)] \<and> component_from_fidl (component_to_fidl n) = Ok n"
proof -
  let ?n = "\<lparr>program = None, uses = [UseStorage (UseData \<lparr>dirname = ''/data'', basename = ''x''\<rparr>)], exposes = [], offers = [],
    children = [], collections = [], storage = [], facets = None\<rparr>"
  have "path_wf \<lparr>dirname = ''/data'', basename = ''x''\<rparr>"
    unfolding path_wf_def by (intro exI [of _ "[''data'', ''x'']"]) (simp add: good_parts_def make_path_def)
  then have "component_wf ?n" by (simp add: component_wf_def)
  from native_round_trip [OF this] show ?thesis by force
qed

text \<open>
  C40. Parsing a capability path succeeds exactly on the texts made of one or more non-empty parts,
  each after a slash; printing the result gives the text back, and splitting it gives the parts. On
  any other text parsing returns the error with the text in it.
\<close>

theorem capability_path_parses:
  "case path_try_from s of
      Ok p \<Rightarrow> path_to_string p = s \<and> good_parts (path_split p) \<and> s = path_text (path_split p)
    | Err e \<Rightarrow> e = InvalidCapabilityPath s \<and> (\<nexists>parts. good_parts parts \<and> s = path_text parts)
    | _ \<Rightarrow> False"
proof (cases "\<exists>p. path_try_from s = Ok p")
  case True
  then obtain p parts where ok: "path_try_from s = Ok p" and g: "good_parts parts" "s = path_text parts" "p = make_path parts"
    using path_try_from_iff by blast
  have t: "path_to_string p = s" using path_to_string_make [OF g(1)] g by simp
  have "split_slash s = [] # parts" using split_slash_text g by (auto simp: good_parts_def)
  then have "path_split p = filter (\<lambda>s. s \<noteq> []) parts" by (simp add: path_split_def t)
  also have "\<dots> = parts" using g(1) by (auto simp: good_parts_def intro: filter_True)
  finally show ?thesis using ok t g by simp
next
  case False
  then have "path_try_from s = Err (InvalidCapabilityPath s)" using path_try_from_cases by blast
  moreover have "\<nexists>parts. good_parts parts \<and> s = path_text parts" using False path_try_from_iff by blast
  ultimately show ?thesis by simp
qed

text \<open>
  The searches in a declaration that was converted from FIDL, and so validated, are not
  ambiguous: the expose found for a capability, the offer found for a service or directory and a
  target, and the storage found for a name are the only ones there are, and they are found if
  there are any.
\<close>

theorem searches_unique:
  assumes "regex_crate rx" and "component_try_from rx d = Ok n"
  shows "(find_expose_source n cap = Some e \<longleftrightarrow> e \<in> set (exposes n) \<and> is_expose_match cap e)
    \<and> (find_storage_source n name = Some s \<longleftrightarrow> s \<in> set (storage n) \<and> storage_name s = name)
    \<and> (capability_path_of cap \<noteq> None \<longrightarrow>
        (find_offer_source n cap child coll = Some x \<longleftrightarrow> x \<in> set (offers n) \<and> is_offer_match cap child coll x))"
  using regex_crate.find_expose_unique [OF assms] regex_crate.find_storage_unique [OF assms] regex_crate.find_offer_unique [OF assms]
  by blast

theorem searches_unique_witness:
  "\<exists>n x. component_try_from matcher example_decl = Ok n \<and> offers n = [x]
    \<and> find_offer_source n (CapService \<lparr>dirname = ''/svc'', basename = ''b''\<rparr>) ''logger'' None = Some x"
proof -
  have "\<exists>n x. component_try_from matcher example_decl = Ok n \<and> offers n = [x]
      \<and> is_offer_match (CapService \<lparr>dirname = ''/svc'', basename = ''b''\<rparr>) ''logger'' None x"
    by (simp add: component_try_from_def example_accepted, simp add: example_decl_def example_offer_def component_from_fidl_def
        vec_from_fidl_def offer_service_from_fidl_def service_source_from_fidl_def path_from_fidl_def path_try_from_def
        target_from_fidl_def target_ref_from_fidl_def child_from_fidl_def is_capability_match_def)
  then obtain n x where n: "component_try_from matcher example_decl = Ok n" "offers n = [x]"
      "is_offer_match (CapService \<lparr>dirname = ''/svc'', basename = ''b''\<rparr>) ''logger'' None x" by blast
  from searches_unique [OF matcher.regex_crate_axioms n(1), of "CapService \<lparr>dirname = ''/svc'', basename = ''b''\<rparr>"
      undefined undefined undefined "''logger''" None x] n
  show ?thesis by auto
qed

text \<open>
  The two readings of a dictionary agree where no key is repeated: what \<open>find\<close> returns for a
  key is the entry of the map for it, an absent value being null. Where a key is repeated, \<open>find\<close>
  returns the first entry and the map holds the last.
\<close>

theorem dictionary_readings:
  "(distinct (map fst es) \<longrightarrow> from_fidl_dict es k = (if k \<in> fst ` set es then Some (entry_value (dictionary_find es k)) else None))
    \<and> (from_fidl_dict [(k, Some (FBit a)), (k, Some (FBit b))] k = Some (Bit b)
       \<and> dictionary_find [(k, Some (FBit a)), (k, Some (FBit b))] k = Some (FBit a))"
proof (intro conjI impI)
  assume d: "distinct (map fst es)"
  show "from_fidl_dict es k = (if k \<in> fst ` set es then Some (entry_value (dictionary_find es k)) else None)"
  proof (cases "map_of es k")
    case None
    then show ?thesis by (simp add: from_fidl_dict_last map_of_eq_None_iff)
  next
    case (Some v)
    then have "(k, v) \<in> set (rev es)" by (simp add: map_of_SomeD)
    then have "map_of (rev es) k = Some v" using d by (intro map_of_is_SomeI) (simp_all flip: rev_map)
    moreover have "k \<in> fst ` set es" using \<open>(k, v) \<in> set (rev es)\<close> by force
    ultimately show ?thesis by (simp add: from_fidl_dict_last dictionary_find_first Some)
  qed
qed (simp_all add: from_fidl_dict_last)

theorem dictionary_readings_witness:
  "from_fidl_dict [(''a'', Some (FBit True)), (''b'', None)] ''b'' = Some Null"
  using dictionary_readings [of "[(''a'', Some (FBit True)), (''b'', None)]" "''b''"] by simp

end
