(* ===== verification/Merkle.thy ===== *)
theory Merkle
  imports Garnet_Prelude
begin

text \<open>
  The model of \<^verbatim>\<open>src/public/rust/fuchsia-merkle\<close>: Merkle trees over blocks of 8192 bytes. The hash
  function (SHA-256 of the crate \<^verbatim>\<open>mundane\<close>, which calls into BoringSSL) is a parameter \<open>sha\<close> on byte
  strings: updating a hasher several times and finishing it hashes the concatenation. The writers
  and readers of the trait \<open>io::Write\<close> and \<open>io::Read\<close> are parameters too.
\<close>

section \<open>Hashes of blocks\<close>

type_synonym merkle_hash = "u8 list"
type_synonym sha = "u8 list \<Rightarrow> merkle_hash"

definition BLOCK_SIZE :: nat where "BLOCK_SIZE = 8192"
definition HASH_SIZE :: nat where "HASH_SIZE = 32"
definition HASHES_PER_BLOCK :: nat where "HASHES_PER_BLOCK = BLOCK_SIZE div HASH_SIZE"

definition make_identity :: "nat \<Rightarrow> nat \<Rightarrow> nat \<Rightarrow> u8 list" where
  "make_identity len level offset =
     to_le 8 (of_nat offset OR of_nat level :: u64) @ to_le 4 (of_nat len :: u32)"

definition hash_block :: "sha \<Rightarrow> u8 list \<Rightarrow> nat \<Rightarrow> (unit, merkle_hash) outcome" where
  "hash_block sha block offset =
     (if \<not> length block \<le> BLOCK_SIZE \<or> offset mod BLOCK_SIZE \<noteq> 0 then Panic
      else Ok (sha (make_identity (length block) 0 offset @ block
        @ (if length block \<noteq> BLOCK_SIZE \<and> \<not> (length block = 0 \<and> offset = 0)
           then replicate (BLOCK_SIZE - length block) 0 else []))))"

definition hash_hashes :: "sha \<Rightarrow> merkle_hash list \<Rightarrow> nat \<Rightarrow> nat \<Rightarrow> (unit, merkle_hash) outcome" where
  "hash_hashes sha hashes level offset =
     (if length hashes = 0 \<or> \<not> length hashes \<le> HASHES_PER_BLOCK \<or> \<not> level > 0 \<or> offset mod BLOCK_SIZE \<noteq> 0 then Panic
      else Ok (sha (make_identity BLOCK_SIZE level offset @ concat hashes
        @ concat (replicate (HASHES_PER_BLOCK - length hashes) (replicate HASH_SIZE 0)))))"

section \<open>Building a tree\<close>

record merkle_builder =
  bld_block :: "u8 list"
  bld_levels :: "merkle_hash list list"

type_synonym 'a bprog = "(merkle_builder, unit, 'a) prog"

definition builder_new :: merkle_builder where
  "builder_new = \<lparr>bld_block = [], bld_levels = [[]]\<rparr>"

text \<open>Indexing out of range panics, and so does a product beyond \<open>usize\<close>.\<close>

definition level_at :: "merkle_builder \<Rightarrow> nat \<Rightarrow> (unit, merkle_hash list) outcome" where
  "level_at b k = (if k < length (bld_levels b) then Ok (bld_levels b ! k) else Panic)"

definition push_hash :: "nat \<Rightarrow> merkle_hash \<Rightarrow> unit bprog" where
  "push_hash k h b = (if k < length (bld_levels b)
     then (Ok (), b\<lparr>bld_levels := (bld_levels b)[k := bld_levels b ! k @ [h]]\<rparr>) else (Panic, b))"

definition block_offset :: "nat \<Rightarrow> (unit, nat) outcome" where
  "block_offset n = (if n * BLOCK_SIZE < USIZE_LIMIT then Ok (n * BLOCK_SIZE) else Panic)"

text \<open>The recursive call of \<open>commit_tail_block\<close> is its last action.\<close>

definition commit_step :: "sha \<Rightarrow> nat \<Rightarrow> (merkle_builder, unit, nat + unit) prog" where
  "commit_step sha level =
     bindP (readP (\<lambda>b. level_at b level)) (\<lambda>hashes.
     let len = length hashes; next_level = level + 1 in
     bindP (getP (\<lambda>b. length (bld_levels b))) (\<lambda>n.
     bindP (if next_level \<ge> n then modifyP (\<lambda>b. b\<lparr>bld_levels := bld_levels b @ [[]]\<rparr>) else returnP ()) (\<lambda>_.
     bindP (readP (\<lambda>_. if len mod HASHES_PER_BLOCK = 0 then checked_sub len HASHES_PER_BLOCK
                       else Ok (len - len mod HASHES_PER_BLOCK))) (\<lambda>first_hash.
     bindP (readP (\<lambda>b. level_at b next_level)) (\<lambda>next_hashes.
     bindP (readP (\<lambda>_. block_offset (length next_hashes))) (\<lambda>offset.
     bindP (readP (\<lambda>_. hash_hashes sha (drop first_hash hashes) next_level offset)) (\<lambda>hash.
     bindP (push_hash next_level hash) (\<lambda>_.
       returnP (if (length next_hashes + 1) mod HASHES_PER_BLOCK = 0 then Inl next_level else Inr ())))))))))"

definition commit_tail_block :: "sha \<Rightarrow> nat \<Rightarrow> unit bprog" where
  "commit_tail_block sha level = loopP (commit_step sha) level"

definition push_data_hash :: "sha \<Rightarrow> merkle_hash \<Rightarrow> unit bprog" where
  "push_data_hash sha hash =
     bindP (modifyP (\<lambda>b. b\<lparr>bld_block := []\<rparr>)) (\<lambda>_.
     bindP (push_hash 0 hash) (\<lambda>_.
     bindP (readP (\<lambda>b. level_at b 0)) (\<lambda>hashes.
       if length hashes mod HASHES_PER_BLOCK = 0 then commit_tail_block sha 0 else returnP ())))"

definition builder_hash_block :: "sha \<Rightarrow> u8 list \<Rightarrow> merkle_builder \<Rightarrow> (unit, merkle_hash) outcome" where
  "builder_hash_block sha block b =
     bindO (level_at b 0) (\<lambda>hashes. bindO (block_offset (length hashes)) (hash_block sha block))"

text \<open>\<open>slice::chunks\<close>\<close>

fun chunks :: "nat \<Rightarrow> 'a list \<Rightarrow> 'a list list" where
  "chunks n xs = (if xs = [] \<or> n = 0 then [] else take n xs # chunks n (drop n xs))"

declare chunks.simps [simp del]

fun write_blocks :: "sha \<Rightarrow> u8 list list \<Rightarrow> unit bprog" where
  "write_blocks sha [] = returnP ()"
| "write_blocks sha (block # blocks) =
     bindP (if length block = BLOCK_SIZE
       then bindP (readP (builder_hash_block sha block)) (push_data_hash sha)
       else modifyP (\<lambda>b. b\<lparr>bld_block := bld_block b @ block\<rparr>)) (\<lambda>_.
       write_blocks sha blocks)"

definition builder_write :: "sha \<Rightarrow> u8 list \<Rightarrow> unit bprog" where
  "builder_write sha buf =
     bindP (getP bld_block) (\<lambda>block.
     bindP (if block = [] then returnP buf
       else bindP (readP (\<lambda>_. checked_sub BLOCK_SIZE (length block))) (\<lambda>left.
            let prefix = min (length buf) left in
            bindP (modifyP (\<lambda>b. b\<lparr>bld_block := bld_block b @ take prefix buf\<rparr>)) (\<lambda>_.
            bindP (getP bld_block) (\<lambda>full.
            bindP (if length full = BLOCK_SIZE
              then bindP (readP (builder_hash_block sha full)) (push_data_hash sha)
              else returnP ()) (\<lambda>_.
              returnP (drop prefix buf)))))) (\<lambda>rest.
       write_blocks sha (chunks BLOCK_SIZE rest)))"

definition finish_step :: "sha \<Rightarrow> nat \<Rightarrow> (merkle_builder, unit, nat + unit) prog" where
  "finish_step sha level =
     bindP (getP (\<lambda>b. length (bld_levels b))) (\<lambda>n.
       if level \<ge> n then returnP (Inr ())
       else bindP (readP (\<lambda>b. level_at b level)) (\<lambda>hashes.
            bindP (if length hashes > 1 \<and> length hashes mod HASHES_PER_BLOCK \<noteq> 0
                   then commit_tail_block sha level else returnP ()) (\<lambda>_.
              returnP (Inl (level + 1)))))"

definition builder_finish :: "sha \<Rightarrow> merkle_hash list list bprog" where
  "builder_finish sha =
     bindP (getP bld_block) (\<lambda>block.
     bindP (readP (\<lambda>b. level_at b 0)) (\<lambda>hashes.
     bindP (if block \<noteq> [] \<or> hashes = []
       then bindP (readP (builder_hash_block sha block)) (push_data_hash sha)
       else returnP ()) (\<lambda>_.
     bindP (loopP (finish_step sha) 0) (\<lambda>_.
       getP bld_levels))))"

section \<open>Trees\<close>

type_synonym merkle_tree = "merkle_hash list list"

definition tree_root :: "merkle_tree \<Rightarrow> (unit, merkle_hash) outcome" where
  "tree_root levels =
     (if levels = [] then Panic else case last levels of [] \<Rightarrow> Panic | h # _ \<Rightarrow> Ok h)"

text \<open>
  \<open>from_reader\<close>, for a reader whose \<open>read\<close> into a buffer of one block is the parameter \<open>rd\<close>. The
  state is the reader's and the builder's; a reader may fail or never end.
\<close>

definition read_step :: "sha \<Rightarrow> ('r, 'e, u8 list) prog \<Rightarrow> unit \<Rightarrow> ('r \<times> merkle_builder, 'e, unit + unit) prog" where
  "read_step sha rd = (\<lambda>_.
     bindP (zoomP fst (\<lambda>r (_, b). (r, b)) rd) (\<lambda>bytes.
       if bytes = [] then returnP (Inr ())
       else bindP (unwrapP (zoomP snd (\<lambda>b (r, _). (r, b)) (builder_write sha bytes))) (\<lambda>_. returnP (Inl ()))))"

definition from_reader :: "sha \<Rightarrow> ('r, 'e, u8 list) prog \<Rightarrow> 'r \<Rightarrow> ('e, merkle_tree) outcome" where
  "from_reader sha rd r =
     fst (bindP (loopP (read_step sha rd) ()) (\<lambda>_. unwrapP (zoomP snd (\<lambda>b (r, _). (r, b)) (builder_finish sha))) (r, builder_new))"

section \<open>Writers\<close>

record 'w merkle_writer =
  wr_inner :: 'w
  wr_builder :: merkle_builder

definition writer_new :: "'w \<Rightarrow> 'w merkle_writer" where
  "writer_new inner = \<lparr>wr_inner = inner, wr_builder = builder_new\<rparr>"

definition writer_write :: "sha \<Rightarrow> (u8 list \<Rightarrow> ('w, 'e, unit) prog) \<Rightarrow> u8 list \<Rightarrow> ('w merkle_writer, 'e, nat) prog" where
  "writer_write sha inner_write_all buf =
     bindP (zoomP wr_inner (\<lambda>i w. w\<lparr>wr_inner := i\<rparr>) (inner_write_all buf)) (\<lambda>_.
     bindP (unwrapP (zoomP wr_builder (\<lambda>b w. w\<lparr>wr_builder := b\<rparr>) (builder_write sha buf))) (\<lambda>_.
       returnP (length buf)))"

definition writer_flush :: "('w, 'e, unit) prog \<Rightarrow> ('w merkle_writer, 'e, unit) prog" where
  "writer_flush inner_flush = zoomP wr_inner (\<lambda>i w. w\<lparr>wr_inner := i\<rparr>) inner_flush"

definition writer_finish :: "sha \<Rightarrow> 'w merkle_writer \<Rightarrow> (unit, merkle_tree) outcome" where
  "writer_finish sha w = fst (builder_finish sha (wr_builder w))"

end
