(* ===== verification/Merkle_Correct.thy ===== *)
theory Merkle_Correct
  imports Merkle
begin

text \<open>
  The correctness of Merkle trees: the incremental builder computes the tree of the data written,
  however the writes cut it up; the tree has the documented shape; and its root binds the data.
\<close>

section \<open>Chunks\<close>

lemma block_constants [simp]: "BLOCK_SIZE = 8192" "HASH_SIZE = 32" "HASHES_PER_BLOCK = 256"
  by (simp_all add: BLOCK_SIZE_def HASH_SIZE_def HASHES_PER_BLOCK_def)

lemma chunks_Nil [simp]: "chunks n [] = []"
  by (simp add: chunks.simps)

lemma chunks_eq_Nil [simp]: "0 < n \<Longrightarrow> chunks n xs = [] \<longleftrightarrow> xs = []"
  by (simp add: chunks.simps)

lemma chunks_single: "xs \<noteq> [] \<Longrightarrow> length xs \<le> n \<Longrightarrow> chunks n xs = [xs]"
  by (cases "n = 0") (simp_all add: chunks.simps)

lemma chunks_append: "0 < n \<Longrightarrow> n dvd length xs \<Longrightarrow> chunks n (xs @ ys) = chunks n xs @ chunks n ys"
proof (induction n xs rule: chunks.induct)
  case (1 n xs)
  show ?case
  proof (cases "xs = []")
    case False
    then have le: "n \<le> length xs" using 1(3) by (simp add: dvd_imp_le)
    then have "n dvd length (drop n xs)" using 1(3) by (simp add: dvd_diff_nat)
    then have "chunks n (drop n xs @ ys) = chunks n (drop n xs) @ chunks n ys" using 1 False by simp
    then show ?thesis using False 1(2) le by (simp add: chunks.simps [of n "xs @ ys"] chunks.simps [of n xs])
  qed simp
qed

lemma concat_chunks [simp]: "0 < n \<Longrightarrow> concat (chunks n xs) = xs"
  by (induction n xs rule: chunks.induct) (simp add: chunks.simps)

lemma length_chunks: "0 < n \<Longrightarrow> length (chunks n xs) = (length xs + n - 1) div n"
proof (induction n xs rule: chunks.induct)
  case (1 n xs)
  show ?case
  proof (cases "length xs \<le> n")
    case True
    show ?thesis
    proof (cases "xs = []")
      case False
      then have "(length xs + n - 1) div n = 1"
        using True 1(2) by (cases xs) (auto intro: div_nat_eqI)
      then show ?thesis using chunks_single [OF False True] by simp
    qed (use 1(2) in simp)
  next
    case False
    then have "xs \<noteq> []" by auto
    then have "length (chunks n xs) = Suc ((length xs - n + n - 1) div n)"
      using 1 by (simp add: chunks.simps [of n xs])
    also have "\<dots> = (length xs + n - 1) div n"
      by (subst le_div_geq [of n "length xs + n - 1"]) (use False 1(2) in simp_all)
    finally show ?thesis .
  qed
qed

lemma in_chunks: "c \<in> set (chunks n xs) \<Longrightarrow> c \<noteq> [] \<and> length c \<le> n"
  by (induction n xs rule: chunks.induct) (subst (asm) (2) chunks.simps, auto split: if_splits)

section \<open>The reference tree\<close>

text \<open>The byte strings that are hashed for a block of data and for a block of hashes.\<close>

definition leaf_input :: "nat \<Rightarrow> u8 list \<Rightarrow> u8 list" where
  "leaf_input i block = make_identity (length block) 0 (i * 8192) @ block
     @ (if length block \<noteq> 8192 \<and> \<not> (length block = 0 \<and> i = 0) then replicate (8192 - length block) 0 else [])"

definition node_input :: "nat \<Rightarrow> nat \<Rightarrow> merkle_hash list \<Rightarrow> u8 list" where
  "node_input level i hashes = make_identity 8192 level (i * 8192) @ concat hashes
     @ concat (replicate (256 - length hashes) (replicate 32 0))"

abbreviation leaf :: "sha \<Rightarrow> nat \<Rightarrow> u8 list \<Rightarrow> merkle_hash" where
  "leaf sha i block \<equiv> sha (leaf_input i block)"

abbreviation node :: "sha \<Rightarrow> nat \<Rightarrow> nat \<Rightarrow> merkle_hash list \<Rightarrow> merkle_hash" where
  "node sha level i hashes \<equiv> sha (node_input level i hashes)"

text \<open>The leaves of the data, the level above a level, and the levels up to the root.\<close>

definition leaves :: "sha \<Rightarrow> u8 list \<Rightarrow> merkle_hash list" where
  "leaves sha d = (if d = [] then [leaf sha 0 []] else map (\<lambda>(i, b). leaf sha i b) (enumerate 0 (chunks 8192 d)))"

definition up_level :: "sha \<Rightarrow> nat \<Rightarrow> merkle_hash list \<Rightarrow> merkle_hash list" where
  "up_level sha level hs = map (\<lambda>(i, c). node sha level i c) (enumerate 0 (chunks 256 hs))"

lemma length_up_level [simp]: "length (up_level sha level hs) = (length hs + 255) div 256"
  by (simp add: up_level_def length_chunks)

function levels_from :: "sha \<Rightarrow> nat \<Rightarrow> merkle_hash list \<Rightarrow> merkle_tree" where
  "levels_from sha level hs = hs # (if length hs \<le> 1 then [] else levels_from sha (level + 1) (up_level sha (level + 1) hs))"
  by pat_completeness auto
termination
  by (relation "measure (\<lambda>(_, _, hs). length hs)") auto

declare levels_from.simps [simp del]

definition reference_tree :: "sha \<Rightarrow> u8 list \<Rightarrow> merkle_tree" where
  "reference_tree sha d = levels_from sha 0 (leaves sha d)"

section \<open>The state of the builder\<close>

text \<open>The levels a builder holds: above every level the hashes of its full blocks of hashes.\<close>

definition full_level :: "sha \<Rightarrow> nat \<Rightarrow> merkle_hash list \<Rightarrow> merkle_hash list" where
  "full_level sha level hs = up_level sha level (take (length hs div 256 * 256) hs)"

lemma length_full_level [simp]: "length (full_level sha level hs) = length hs div 256"
proof -
  have "min (length hs) (length hs div 256 * 256) = length hs div 256 * 256" by simp
  then show ?thesis by (simp add: full_level_def)
qed

function tower :: "sha \<Rightarrow> nat \<Rightarrow> merkle_hash list \<Rightarrow> merkle_tree" where
  "tower sha level hs = hs # (if length hs < 256 then [] else tower sha (level + 1) (full_level sha (level + 1) hs))"
  by pat_completeness auto
termination
  by (relation "measure (\<lambda>(_, _, hs). length hs)") auto

declare tower.simps [simp del]

text \<open>Adding a hash to a level and, where that fills a block, the hash of the block to the next.\<close>

abbreviation first_length :: "'a list list \<Rightarrow> nat" where
  "first_length ls \<equiv> (case ls of [] \<Rightarrow> 0 | l # _ \<Rightarrow> length l)"

fun push_up :: "sha \<Rightarrow> nat \<Rightarrow> merkle_tree \<Rightarrow> merkle_hash \<Rightarrow> merkle_tree" where
  "push_up sha level [] h = [[h]]"
| "push_up sha level (l # ls) h =
     (if (length l + 1) mod 256 = 0
      then (l @ [h]) # push_up sha (level + 1) ls (node sha (level + 1) (first_length ls) (drop (length l + 1 - 256) (l @ [h])))
      else (l @ [h]) # ls)"

lemma up_level_append:
  "256 dvd length xs \<Longrightarrow> ys \<noteq> [] \<Longrightarrow> length ys \<le> 256 \<Longrightarrow>
    up_level sha level (xs @ ys) = up_level sha level xs @ [node sha level (length xs div 256) ys]"
  by (simp add: up_level_def chunks_append chunks_single enumerate_append_eq length_chunks)
    (auto elim!: dvdE)

lemma full_level_snoc:
  assumes "(length hs + 1) mod 256 = 0"
  shows "full_level sha level (hs @ [h]) = full_level sha level hs
    @ [node sha level (length hs div 256) (drop (length hs + 1 - 256) (hs @ [h]))]"
proof -
  obtain q where q: "length hs + 1 = 256 * q" using assms by (auto simp: mod_eq_0_iff_dvd elim: dvdE)
  then obtain p where p: "q = Suc p" by (cases q) auto
  have d: "length hs div 256 = p" "length (hs @ [h]) div 256 * 256 = length hs + 1" "length hs + 1 - 256 = p * 256"
    using q p by auto
  have s: "hs @ [h] = take (p * 256) hs @ drop (p * 256) (hs @ [h])"
  proof -
    have "take (p * 256) (hs @ [h]) = take (p * 256) hs" using q p by simp
    then show ?thesis using append_take_drop_id [of "p * 256" "hs @ [h]"] by simp
  qed
  have "full_level sha level (hs @ [h]) = up_level sha level (hs @ [h])" unfolding full_level_def d(2) by simp
  also have "\<dots> = up_level sha level (take (p * 256) hs) @ [node sha level (length (take (p * 256) hs) div 256) (drop (p * 256) (hs @ [h]))]"
    by (subst s, rule up_level_append) (use q p in auto)
  also have "length (take (p * 256) hs) div 256 = p" using q p by simp
  finally show ?thesis unfolding full_level_def [of sha level hs] d(1,3) by simp
qed

lemma full_level_snoc_same:
  assumes "(length hs + 1) mod 256 \<noteq> 0"
  shows "full_level sha level (hs @ [h]) = full_level sha level hs"
proof -
  have "(length hs + 1) div 256 = length hs div 256"
    using assms by (simp add: div_Suc)
  then show ?thesis by (simp add: full_level_def)
qed

lemma tower_snoc: "tower sha level (hs @ [h]) = push_up sha level (tower sha level hs) h"
proof (induction sha level hs arbitrary: h rule: tower.induct)
  case (1 sha level hs)
  show ?case
  proof (cases "(length hs + 1) mod 256 = 0")
    case True
    let ?n = "node sha (level + 1) (length hs div 256) (drop (length hs + 1 - 256) (hs @ [h]))"
    show ?thesis
    proof (cases "length hs < 256")
      case lt: True
      then have l: "length hs = 255" using True by presburger
      have "full_level sha (level + 1) hs = []" using l by (simp flip: length_0_conv)
      then have "tower sha (level + 1) (full_level sha (level + 1) (hs @ [h])) = [[?n]]"
        unfolding full_level_snoc [OF True] by (simp add: tower.simps)
      then show ?thesis using l by (simp add: tower.simps [of sha level])
    next
      case False
      have f: "first_length (tower sha (level + 1) (full_level sha (level + 1) hs)) = length hs div 256"
        by (simp add: tower.simps)
      have "tower sha (level + 1) (full_level sha (level + 1) (hs @ [h]))
          = push_up sha (level + 1) (tower sha (level + 1) (full_level sha (level + 1) hs)) ?n"
        unfolding full_level_snoc [OF True] by (rule 1 [OF False])
      then show ?thesis using False True f by (simp add: tower.simps [of sha level])
    qed
  next
    case False
    then have "length (hs @ [h]) < 256 \<longleftrightarrow> length hs < 256" by (cases "length hs = 255") auto
    then show ?thesis using False full_level_snoc_same [OF False] by (simp add: tower.simps [of sha level])
  qed
qed

section \<open>Running the builder\<close>

lemma hash_block_leaf: "length block \<le> 8192 \<Longrightarrow> hash_block sha block (i * 8192) = Ok (leaf sha i block)"
  by (auto simp: hash_block_def leaf_input_def)

lemma hash_hashes_node:
  "hashes \<noteq> [] \<Longrightarrow> length hashes \<le> 256 \<Longrightarrow> 0 < level \<Longrightarrow> hash_hashes sha hashes level (i * 8192) = Ok (node sha level i hashes)"
  by (simp add: hash_hashes_def node_input_def)

text \<open>The last, perhaps partial, block of hashes of a level.\<close>

definition tail_block :: "'a list \<Rightarrow> 'a list" where
  "tail_block l = drop (if length l mod 256 = 0 then length l - 256 else length l - length l mod 256) l"

lemma tail_block_size:
  assumes "l \<noteq> []"
  shows "tail_block l \<noteq> []" and "length (tail_block l) \<le> 256"
proof -
  have "0 < length (tail_block l) \<and> length (tail_block l) \<le> 256"
  proof (cases "length l mod 256 = 0")
    case True
    then have "256 \<le> length l" using assms by (simp add: mod_eq_0_iff_dvd dvd_imp_le)
    then show ?thesis using True by (simp add: tail_block_def)
  next
    case False
    have "length l mod 256 \<le> length l" by simp
    then show ?thesis using False less_imp_le [OF mod_less_divisor [of 256 "length l"]] by (simp add: tail_block_def)
  qed
  then show "tail_block l \<noteq> []" and "length (tail_block l) \<le> 256" by auto
qed

abbreviation room :: "merkle_tree \<Rightarrow> bool" where
  "room ls \<equiv> (\<forall>l\<in>set ls. length l < 2251799813685248)"

lemma commit_step_runs:
  assumes b: "bld_levels b = pre @ l # ls" and k: "level = length pre" and l: "l \<noteq> []" and ls: "room ls"
  shows "commit_step sha level b =
    (Ok (if (first_length ls + 1) mod 256 = 0 then Inl (level + 1) else Inr ()),
     b\<lparr>bld_levels := pre @ l # ((case ls of [] \<Rightarrow> [] | m # _ \<Rightarrow> m)
       @ [node sha (level + 1) (first_length ls) (tail_block l)]) # tl ls\<rparr>)"
proof -
  have first: "length l mod 256 = 0 \<Longrightarrow> 256 \<le> length l"
    using l by (simp add: mod_eq_0_iff_dvd dvd_imp_le)
  have hash: "hash_hashes sha (drop (if length l mod 256 = 0 then length l - 256 else length l - length l mod 256) l) (Suc (length pre)) (i * 8192)
      = Ok (node sha (Suc (length pre)) i (tail_block l))" for i
    using hash_hashes_node [OF tail_block_size [OF l], of "Suc (length pre)"] by (simp add: tail_block_def)
  show ?thesis
  proof (cases ls)
    case Nil
    then show ?thesis using first hash [of 0] b k
      by (simp add: commit_step_def level_at_def block_offset_def push_hash_def nth_append list_update_append Let_def outcome_simps prog_defs split: if_splits)
  next
    case (Cons m ms)
    then have "length m < 2251799813685248" using ls by simp
    then show ?thesis using Cons first hash [of "length m"] b k
      by (simp add: commit_step_def level_at_def block_offset_def push_hash_def nth_append list_update_append Let_def outcome_simps prog_defs split: if_splits)
  qed
qed

lemma commit_tail_block_runs:
  assumes "bld_levels b = pre @ l # ls" and "l \<noteq> []" and "room ls"
  shows "commit_tail_block sha (length pre) b =
    (Ok (), b\<lparr>bld_levels := pre @ l # push_up sha (length pre + 1) ls (node sha (length pre + 1) (first_length ls) (tail_block l))\<rparr>)"
proof -
  have "iterateP (commit_step sha) (length pre) b =
    Some (Ok (), b\<lparr>bld_levels := pre @ l # push_up sha (length pre + 1) ls (node sha (length pre + 1) (first_length ls) (tail_block l))\<rparr>)"
    using assms
  proof (induction ls arbitrary: pre l b)
    case Nil
    then show ?case by (simp add: iterateP_break [OF trans [OF commit_step_runs]] commit_step_runs)
  next
    case (Cons m ms)
    let ?h = "node sha (length pre + 1) (length m) (tail_block l)"
    let ?b = "b\<lparr>bld_levels := pre @ l # (m @ [?h]) # ms\<rparr>"
    have step: "commit_step sha (length pre) b = (Ok (if (length m + 1) mod 256 = 0 then Inl (length pre + 1) else Inr ()), ?b)"
      using commit_step_runs [OF Cons(2) refl Cons(3,4)] by simp
    show ?case
    proof (cases "(length m + 1) mod 256 = 0")
      case True
      then have "iterateP (commit_step sha) (length pre) b = iterateP (commit_step sha) (length (pre @ [l])) ?b"
        using iterateP_continue [of "commit_step sha", OF step [unfolded if_P [OF True]]] by simp
      also have "\<dots> = Some (Ok (), ?b\<lparr>bld_levels := (pre @ [l]) @ (m @ [?h]) # push_up sha (length (pre @ [l]) + 1) ms
          (node sha (length (pre @ [l]) + 1) (first_length ms) (tail_block (m @ [?h])))\<rparr>)"
        by (rule Cons.IH) (use Cons(4) in auto)
      also have "tail_block (m @ [?h]) = drop (length m + 1 - 256) (m @ [?h])"
        using True by (simp add: tail_block_def)
      finally show ?thesis using True by simp
    next
      case False
      then show ?thesis using iterateP_break [of "commit_step sha", OF step [unfolded if_not_P [OF False]]] by simp
    qed
  qed
  then show ?thesis by (simp add: commit_tail_block_def loopP_def)
qed

lemma tower_levels: "l \<in> set (tower sha level hs) \<Longrightarrow> length l \<le> length hs"
proof (induction sha level hs rule: tower.induct)
  case (1 sha level hs)
  then consider "l = hs" | "\<not> length hs < 256" "l \<in> set (tower sha (level + 1) (full_level sha (level + 1) hs))"
    by (auto simp: tower.simps [of sha level hs] split: if_splits)
  then show ?case
  proof cases
    case 2
    then have "length l \<le> length (full_level sha (level + 1) hs)" by (rule 1(1))
    also have "\<dots> \<le> length hs" by (simp add: div_le_dividend)
    finally show ?thesis .
  qed simp
qed

lemma tower_room: "length hs < 2251799813685248 \<Longrightarrow> room (tower sha level hs)"
  using tower_levels by (fastforce dest: le_less_trans)

lemma tower_Cons: obtains ls where "tower sha level hs = hs # ls"
  by (simp add: tower.simps)

lemma push_data_hash_runs:
  assumes b: "bld_levels b = tower sha 0 hs" and n: "length hs < 2251799813685248"
  shows "push_data_hash sha h b = (Ok (), \<lparr>bld_block = [], bld_levels = tower sha 0 (hs @ [h])\<rparr>)"
proof -
  obtain ls where t: "tower sha 0 hs = hs # ls" by (rule tower_Cons)
  then have r: "room ls" using tower_room [OF n, of sha 0] by simp
  let ?b = "\<lparr>bld_block = [], bld_levels = (hs @ [h]) # ls\<rparr>"
  have c: "commit_tail_block sha 0 ?b
      = (Ok (), ?b\<lparr>bld_levels := (hs @ [h]) # push_up sha 1 ls (node sha 1 (first_length ls) (tail_block (hs @ [h])))\<rparr>)"
    using commit_tail_block_runs [of ?b "[]" "hs @ [h]" ls sha] r by simp
  have "push_data_hash sha h b = (if (length hs + 1) mod 256 = 0 then commit_tail_block sha 0 ?b else (Ok (), ?b))"
    using b t by (cases b) (simp add: push_data_hash_def push_hash_def level_at_def prog_defs)
  also have "\<dots> = (Ok (), \<lparr>bld_block = [], bld_levels = push_up sha 0 (hs # ls) h\<rparr>)"
    by (simp add: c tail_block_def)
  finally show ?thesis by (simp add: tower_snoc t)
qed

text \<open>The builder that has hashed the blocks \<open>w\<close> and holds the partial block \<open>p\<close>.\<close>

definition data_leaves :: "sha \<Rightarrow> u8 list \<Rightarrow> merkle_hash list" where
  "data_leaves sha w = map (\<lambda>(i, b). leaf sha i b) (enumerate 0 (chunks 8192 w))"

definition built :: "sha \<Rightarrow> u8 list \<Rightarrow> u8 list \<Rightarrow> merkle_builder" where
  "built sha w p = \<lparr>bld_block = p, bld_levels = tower sha 0 (data_leaves sha w)\<rparr>"

lemma built_fields [simp]:
  "bld_block (built sha w p) = p" "bld_levels (built sha w p) = tower sha 0 (data_leaves sha w)"
  "(built sha w p)\<lparr>bld_block := q\<rparr> = built sha w q"
  by (simp_all add: built_def)

lemma data_leaves_Nil [simp]: "data_leaves sha [] = []"
  by (simp add: data_leaves_def)

lemma data_leaves_append:
  "8192 dvd length w \<Longrightarrow> b \<noteq> [] \<Longrightarrow> length b \<le> 8192 \<Longrightarrow>
    data_leaves sha (w @ b) = data_leaves sha w @ [leaf sha (length w div 8192) b]"
  by (simp add: data_leaves_def chunks_append chunks_single enumerate_append_eq length_chunks)
    (auto elim!: dvdE)

lemma length_data_leaves: "8192 dvd length w \<Longrightarrow> length (data_leaves sha w) = length w div 8192"
  by (simp add: data_leaves_def length_chunks) (auto elim!: dvdE)

definition MAX_DATA :: nat where "MAX_DATA = 9223372036854775808"

lemma hash_and_push:
  assumes "8192 dvd length w" and "length b \<le> 8192" and "length w < MAX_DATA"
  shows "bindP (readP (builder_hash_block sha b)) (push_data_hash sha) (built sha w p) =
    (Ok (), \<lparr>bld_block = [], bld_levels = tower sha 0 (data_leaves sha w @ [leaf sha (length w div 8192) b])\<rparr>)"
proof -
  obtain ls where t: "tower sha 0 (data_leaves sha w) = data_leaves sha w # ls" by (rule tower_Cons)
  have n: "length w div 8192 < 2251799813685248"
    using assms(3) by (simp add: MAX_DATA_def less_mult_imp_div_less)
  have "builder_hash_block sha b (built sha w p) = Ok (leaf sha (length w div 8192) b)"
    using n by (simp add: builder_hash_block_def level_at_def block_offset_def t length_data_leaves [OF assms(1)]
        hash_block_leaf [OF assms(2)])
  then show ?thesis using n
    by (simp add: push_data_hash_runs length_data_leaves [OF assms(1)])
qed

lemma push_full_block:
  assumes "8192 dvd length w" and "length b = 8192" and "length w < MAX_DATA"
  shows "bindP (readP (builder_hash_block sha b)) (push_data_hash sha) (built sha w p) = (Ok (), built sha (w @ b) [])"
proof -
  have "b \<noteq> []" using assms(2) by auto
  then show ?thesis using hash_and_push [of w b sha p] assms by (simp add: built_def data_leaves_append)
qed

definition whole :: "'a list \<Rightarrow> nat" where
  "whole d = length d div 8192 * 8192"

definition holding :: "sha \<Rightarrow> u8 list \<Rightarrow> merkle_builder" where
  "holding sha d = built sha (take (whole d) d) (drop (whole d) d)"

lemma whole_le [simp]: "whole d \<le> length d" "8192 dvd whole d" "8192 dvd min (length d) (whole d)"
  by (simp_all add: whole_def min.absorb2)

lemma whole_split: "8192 dvd length w \<Longrightarrow> length p < 8192 \<Longrightarrow> whole (w @ p) = length w"
  by (auto simp: whole_def elim!: dvdE)

lemma holding_split: "8192 dvd length w \<Longrightarrow> length p < 8192 \<Longrightarrow> holding sha (w @ p) = built sha w p"
  by (simp add: holding_def whole_split)

lemma data_split: obtains w p where "d = w @ p" and "8192 dvd length w" and "length p < 8192"
proof (rule that [of "take (whole d) d" "drop (whole d) d"])
  show "length (drop (whole d) d) < 8192"
    by (simp add: whole_def minus_div_mult_eq_mod)
qed simp_all

lemma write_blocks_runs:
  "8192 dvd length w \<Longrightarrow> length (w @ rest) < MAX_DATA \<Longrightarrow>
    write_blocks sha (chunks 8192 rest) (built sha w []) = (Ok (), holding sha (w @ rest))"
proof (induction "8192 :: nat" rest arbitrary: w rule: chunks.induct)
  case (1 rest)
  consider "rest = []" | "rest \<noteq> []" "length rest < 8192" | "8192 \<le> length rest" by linarith
  then show ?case
  proof cases
    case 1
    then show ?thesis using "1.prems" holding_split [of w "[]" sha] by (simp add: prog_defs)
  next
    case 2
    then show ?thesis using "1.prems" holding_split [of w rest sha]
      by (simp add: chunks_single prog_defs)
  next
    case 3
    let ?b = "take 8192 rest" and ?r = "drop 8192 rest"
    have c: "chunks 8192 rest = ?b # chunks 8192 ?r" using 3 by (subst chunks.simps) auto
    have "write_blocks sha (chunks 8192 ?r) (built sha (w @ ?b) []) = (Ok (), holding sha ((w @ ?b) @ ?r))"
      by (rule "1.hyps") (use 3 "1.prems" in auto)
    then show ?thesis using push_full_block [of w ?b sha "[]"] 3 "1.prems" c by (simp add: bindP_step)
  qed
qed

lemma builder_write_runs:
  assumes "length (d @ buf) < MAX_DATA"
  shows "builder_write sha buf (holding sha d) = (Ok (), holding sha (d @ buf))"
proof -
  obtain w p where d: "d = w @ p" "8192 dvd length w" "length p < 8192" by (rule data_split)
  have b: "holding sha d = built sha w p" by (simp add: d holding_split)
  show ?thesis
  proof (cases "p = []")
    case True
    then show ?thesis using write_blocks_runs [of w buf sha] d assms b
      by (simp add: builder_write_def prog_defs)
  next
    case False
    show ?thesis
    proof (cases "length p + length buf < 8192")
      case True
      then show ?thesis using False d b holding_split [of w "p @ buf" sha]
        by (simp add: builder_write_def prog_defs)
    next
      case ge: False
      let ?b = "p @ take (8192 - length p) buf" and ?r = "drop (8192 - length p) buf"
      have "bindP (readP (builder_hash_block sha ?b)) (push_data_hash sha) (built sha w ?b) = (Ok (), built sha (w @ ?b) [])"
        by (rule push_full_block) (use d ge assms in auto)
      moreover have "write_blocks sha (chunks 8192 ?r) (built sha (w @ ?b) []) = (Ok (), holding sha ((w @ ?b) @ ?r))"
        by (rule write_blocks_runs) (use d ge assms in auto)
      moreover have "length ?b = 8192" and "min (length buf) (8192 - length p) = 8192 - length p" using d ge by auto
      ultimately show ?thesis using False d(1,3) b
        by (simp add: builder_write_def bindP_step Let_def)
    qed
  qed
qed

section \<open>Finishing\<close>

lemma up_level_tail:
  assumes "length hs mod 256 \<noteq> 0"
  shows "up_level sha level hs = full_level sha level hs @ [node sha level (length hs div 256) (tail_block hs)]"
proof -
  have d: "length hs div 256 * 256 = length hs - length hs mod 256" by (simp add: minus_mod_eq_div_mult)
  have t: "tail_block hs = drop (length hs div 256 * 256) hs" using assms d by (simp add: tail_block_def)
  have "hs \<noteq> []" using assms by auto
  then have n: "tail_block hs \<noteq> []" "length (tail_block hs) \<le> 256" by (rule tail_block_size)+
  have "up_level sha level (take (length hs div 256 * 256) hs @ tail_block hs)
      = full_level sha level hs @ [node sha level (length (take (length hs div 256 * 256) hs) div 256) (tail_block hs)]"
    unfolding full_level_def by (rule up_level_append) (use n in \<open>simp_all add: min.absorb2\<close>)
  then show ?thesis by (simp add: t min.absorb2)
qed

lemma full_level_whole: "length hs mod 256 = 0 \<Longrightarrow> full_level sha level hs = up_level sha level hs"
  by (auto simp: full_level_def)

lemma finish_level:
  assumes "bld_levels b = pre @ tower sha (length pre) hs" and "hs \<noteq> []" and "length hs < 2251799813685248"
  shows "finish_step sha (length pre) b = (Ok (Inl (length pre + 1)), b\<lparr>bld_levels := pre @ hs #
    (if length hs \<le> 1 then [] else tower sha (length pre + 1) (up_level sha (length pre + 1) hs))\<rparr>)"
proof -
  let ?k = "length pre"
  obtain ls where t: "tower sha ?k hs = hs # ls" by (rule tower_Cons)
  have r: "room ls" using tower_room [OF assms(3), of sha ?k] t by simp
  consider "length hs = 1" | "1 < length hs" "length hs mod 256 = 0" | "1 < length hs" "length hs mod 256 \<noteq> 0"
    using assms(2) by (cases hs) fastforce+
  then show ?thesis
  proof cases
    case 1
    then show ?thesis using assms(1) by (simp add: finish_step_def tower.simps level_at_def nth_append)
  next
    case 2
    then have "256 \<le> length hs" using assms(2) by (simp add: mod_eq_0_iff_dvd dvd_imp_le)
    then show ?thesis using 2 assms(1)
      by (simp add: finish_step_def tower.simps [of sha ?k] level_at_def nth_append full_level_whole)
  next
    case 3
    have "push_up sha (?k + 1) ls (node sha (?k + 1) (first_length ls) (tail_block hs))
        = tower sha (?k + 1) (up_level sha (?k + 1) hs)"
    proof (cases "length hs < 256")
      case True
      then have "full_level sha (?k + 1) hs = []" by (simp flip: length_0_conv)
      then show ?thesis using True t 3 by (simp add: up_level_tail tower.simps)
    next
      case False
      have "ls = tower sha (?k + 1) (full_level sha (?k + 1) hs)" using t False by (simp add: tower.simps [of sha ?k])
      moreover have "first_length ls = length hs div 256" using calculation by (simp add: tower.simps)
      ultimately show ?thesis using 3 by (simp add: up_level_tail tower_snoc)
    qed
    then show ?thesis using commit_tail_block_runs [of b pre hs ls sha] assms(1,2) r t 3
      by (simp add: finish_step_def level_at_def nth_append bindP_step)
  qed
qed

lemma finish_loop:
  assumes "bld_levels b = pre @ tower sha (length pre) hs" and "hs \<noteq> []" and "length hs < 2251799813685248"
  shows "iterateP (finish_step sha) (length pre) b = Some (Ok (), b\<lparr>bld_levels := pre @ levels_from sha (length pre) hs\<rparr>)"
  using assms
proof (induction "length hs" arbitrary: hs pre b rule: less_induct)
  case less
  let ?b = "b\<lparr>bld_levels := pre @ hs # (if length hs \<le> 1 then [] else tower sha (length pre + 1) (up_level sha (length pre + 1) hs))\<rparr>"
  have step: "iterateP (finish_step sha) (length pre) b = iterateP (finish_step sha) (length pre + 1) ?b"
    by (rule iterateP_continue [of "finish_step sha", OF finish_level [OF less(2-4)]])
  show ?case
  proof (cases "length hs \<le> 1")
    case True
    have "finish_step sha (length pre + 1) ?b = (Ok (Inr ()), ?b)" using True by (simp add: finish_step_def)
    then have "iterateP (finish_step sha) (length pre + 1) ?b = Some (Ok (), ?b)" by (rule iterateP_break)
    then show ?thesis using True step by (simp add: levels_from.simps)
  next
    case False
    have "iterateP (finish_step sha) (length (pre @ [hs])) ?b
        = Some (Ok (), ?b\<lparr>bld_levels := (pre @ [hs]) @ levels_from sha (length (pre @ [hs])) (up_level sha (length pre + 1) hs)\<rparr>)"
      by (rule less(1)) (use False less(3,4) in \<open>auto simp flip: length_0_conv simp: div_less\<close>)
    then show ?thesis using False step by (simp add: levels_from.simps [of sha "length pre" hs])
  qed
qed

lemma length_leaves: "length (leaves sha d) = max 1 ((length d + 8191) div 8192)"
  by (cases d) (auto simp: leaves_def length_chunks max_def)

lemma leaves_nonempty: "leaves sha d \<noteq> []"
  using length_leaves [of sha d] by auto

lemma leaves_data: "leaves sha d = (if d = [] then [leaf sha 0 []] else data_leaves sha d)"
  by (simp add: leaves_def data_leaves_def)

lemma leaves_bound:
  assumes "length d < MAX_DATA"
  shows "length (leaves sha d) \<le> 1125899906842624"
proof -
  have "(length d + 8191) div 8192 \<le> (9223372036854775807 + 8191) div 8192"
    by (rule div_le_mono) (use assms in \<open>simp add: MAX_DATA_def\<close>)
  then show ?thesis by (simp add: length_leaves)
qed

lemma builder_finish_runs:
  assumes "length d < MAX_DATA"
  shows "fst (builder_finish sha (holding sha d)) = Ok (reference_tree sha d)"
proof -
  obtain w p where d: "d = w @ p" "8192 dvd length w" "length p < 8192" by (rule data_split)
  have b: "holding sha d = built sha w p" by (simp add: d holding_split)
  have w: "length w < MAX_DATA" using assms d by simp
  obtain ls where t: "tower sha 0 (data_leaves sha w) = data_leaves sha w # ls" by (rule tower_Cons)
  have e: "data_leaves sha w = [] \<longleftrightarrow> w = []" by (cases "chunks 8192 w") (auto simp: data_leaves_def)
  let ?push = "if p \<noteq> [] \<or> data_leaves sha w = [] then bindP (readP (builder_hash_block sha p)) (push_data_hash sha) else returnP ()"
  have push: "?push (built sha w p) = (Ok (), \<lparr>bld_block = [], bld_levels = tower sha 0 (leaves sha d)\<rparr>)"
  proof (cases "p \<noteq> [] \<or> w = []")
    case True
    then have "leaves sha d = data_leaves sha w @ [leaf sha (length w div 8192) p]"
      using d data_leaves_append [of w p sha] by (cases "p = []") (simp_all add: leaves_data)
    then show ?thesis using True e hash_and_push [of w p sha p] d w by simp
  next
    case False
    then have "leaves sha d = data_leaves sha w" using d by (simp add: leaves_data)
    then show ?thesis using False e by (simp add: built_def)
  qed
  have n: "leaves sha d \<noteq> []" by (rule leaves_nonempty)
  have m: "length (leaves sha d) < 2251799813685248" using leaves_bound [OF assms, of sha] by simp
  let ?b = "\<lparr>bld_block = [], bld_levels = tower sha 0 (leaves sha d)\<rparr>"
  have loop: "loopP (finish_step sha) 0 ?b = (Ok (), ?b\<lparr>bld_levels := reference_tree sha d\<rparr>)"
    using finish_loop [of ?b "[]" sha "leaves sha d"] n m by (simp add: loopP_def reference_tree_def)
  have "builder_finish sha (holding sha d) = bindP ?push (\<lambda>_. bindP (loopP (finish_step sha) 0) (\<lambda>_. getP bld_levels)) (built sha w p)"
    by (simp add: builder_finish_def b level_at_def t)
  also have "\<dots> = bindP (loopP (finish_step sha) 0) (\<lambda>_. getP bld_levels) ?b" by (rule bindP_step(1) [of ?push, OF push])
  also have "\<dots> = getP bld_levels (?b\<lparr>bld_levels := reference_tree sha d\<rparr>)" by (rule bindP_step(1) [of "loopP (finish_step sha) 0", OF loop])
  finally show ?thesis by simp
qed

lemma builder_new_holding: "builder_new = holding sha []"
  by (simp add: builder_new_def holding_def built_def whole_def tower.simps)

section \<open>Building from writes and from readers\<close>

fun write_all :: "sha \<Rightarrow> u8 list list \<Rightarrow> unit bprog" where
  "write_all sha [] = returnP ()"
| "write_all sha (buf # bufs) = bindP (builder_write sha buf) (\<lambda>_. write_all sha bufs)"

lemma write_all_runs:
  "length (d @ concat bufs) < MAX_DATA \<Longrightarrow> write_all sha bufs (holding sha d) = (Ok (), holding sha (d @ concat bufs))"
proof (induction bufs arbitrary: d)
  case (Cons buf bufs)
  then show ?case using builder_write_runs [of d buf sha] Cons.IH [of "d @ buf"] by (simp add: bindP_step)
qed simp

text \<open>A reader that returns the pieces one by one and then ends, or fails with an error.\<close>

fun yields :: "('r, 'e, u8 list) prog \<Rightarrow> 'r \<Rightarrow> u8 list list \<Rightarrow> ('e, u8 list) outcome \<Rightarrow> bool" where
  "yields rd r [] ending \<longleftrightarrow> fst (rd r) = ending"
| "yields rd r (piece # pieces) ending \<longleftrightarrow> piece \<noteq> [] \<and> fst (rd r) = Ok piece \<and> yields rd (snd (rd r)) pieces ending"

lemma read_loop:
  assumes "yields rd r pieces ending" and "length (d @ concat pieces) < MAX_DATA"
  shows "ending = Ok [] \<Longrightarrow> \<exists>r'. loopP (read_step sha rd) () (r, holding sha d) = (Ok (), r', holding sha (d @ concat pieces))"
    and "ending = Err e \<Longrightarrow> \<exists>s. loopP (read_step sha rd) () (r, holding sha d) = (Err e, s)"
proof -
  have "(ending = Ok [] \<longrightarrow> (\<exists>r'. iterateP (read_step sha rd) () (r, holding sha d) = Some (Ok (), r', holding sha (d @ concat pieces))))
      \<and> (ending = Err e \<longrightarrow> (\<exists>s. iterateP (read_step sha rd) () (r, holding sha d) = Some (Err e, s)))"
    using assms
  proof (induction pieces arbitrary: r d)
    case Nil
    obtain r' where r: "rd r = (ending, r')" using Nil by (cases "rd r") simp
    have "ending = Ok [] \<Longrightarrow> read_step sha rd () (r, holding sha d) = (Ok (Inr ()), r', holding sha d)"
      and "ending = Err e \<Longrightarrow> read_step sha rd () (r, holding sha d) = (Err e, r', holding sha d)"
      using r by (simp_all add: read_step_def prog_defs)
    then show ?case by (simp add: iterateP_break [of "read_step sha rd"] iterateP_fail [of "read_step sha rd"])
  next
    case (Cons piece pieces)
    obtain r' where r: "rd r = (Ok piece, r')" using Cons.prems by (cases "rd r") auto
    have "builder_write sha piece (holding sha d) = (Ok (), holding sha (d @ piece))"
      by (rule builder_write_runs) (use Cons.prems in auto)
    then have "read_step sha rd () (r, holding sha d) = (Ok (Inl ()), r', holding sha (d @ piece))"
      using Cons.prems r by (simp add: read_step_def prog_defs)
    then have "iterateP (read_step sha rd) () (r, holding sha d) = iterateP (read_step sha rd) () (r', holding sha (d @ piece))"
      by (rule iterateP_continue)
    moreover have "yields rd r' pieces ending" and "length ((d @ piece) @ concat pieces) < MAX_DATA"
      using Cons.prems r by simp_all
    ultimately show ?case using Cons.IH [of r' "d @ piece"] by simp
  qed
  then show "ending = Ok [] \<Longrightarrow> \<exists>r'. loopP (read_step sha rd) () (r, holding sha d) = (Ok (), r', holding sha (d @ concat pieces))"
    and "ending = Err e \<Longrightarrow> \<exists>s. loopP (read_step sha rd) () (r, holding sha d) = (Err e, s)"
    by (auto simp: loopP_def)
qed

definition build :: "sha \<Rightarrow> u8 list list \<Rightarrow> (unit, merkle_tree) outcome" where
  "build sha bufs = fst (bindP (write_all sha bufs) (\<lambda>_. builder_finish sha) builder_new)"

lemma build_runs: "length (concat bufs) < 2 ^ 63 \<Longrightarrow> build sha bufs = Ok (reference_tree sha (concat bufs))"
  using write_all_runs [of "[]" bufs sha] builder_finish_runs [of "concat bufs" sha]
  by (simp add: build_def builder_new_holding [of sha] bindP_step MAX_DATA_def)

section \<open>The shape of a tree\<close>

lemma levels_from_nonempty [simp]: "levels_from sha level hs \<noteq> []"
  by (simp add: levels_from.simps)

lemma levels_from_adjacent:
  "Suc k < length (levels_from sha level hs) \<Longrightarrow>
    levels_from sha level hs ! Suc k = up_level sha (level + Suc k) (levels_from sha level hs ! k) \<and>
    1 < length (levels_from sha level hs ! k)"
proof (induction sha level hs arbitrary: k rule: levels_from.induct)
  case (1 sha level hs)
  show ?case
  proof (cases k)
    case 0
    then show ?thesis using 1(2) by (auto simp: levels_from.simps [of sha level hs] split: if_splits)
        (simp_all add: levels_from.simps)
  next
    case (Suc j)
    then show ?thesis using 1(1) [of j] 1(2) by (simp add: levels_from.simps [of sha level hs] split: if_splits)
  qed
qed

lemma last_level: "hs \<noteq> [] \<Longrightarrow> length (last (levels_from sha level hs)) = 1"
proof (induction sha level hs rule: levels_from.induct)
  case (1 sha level hs)
  have "up_level sha (level + 1) hs \<noteq> []" if "1 < length hs" using that by (simp flip: length_0_conv)
  then show ?case using 1 by (cases "length hs \<le> 1") (auto simp: levels_from.simps [of sha level hs] le_Suc_eq)
qed

lemma levels_bound: "length hs \<le> 256 ^ n \<Longrightarrow> length (levels_from sha level hs) \<le> n + 1"
proof (induction n arbitrary: level hs)
  case 0
  then show ?case by (simp add: levels_from.simps)
next
  case (Suc n)
  have "(length hs + 255) div 256 \<le> (256 ^ Suc n + 255) div 256" by (rule div_le_mono) (use Suc.prems in simp)
  also have "\<dots> = 256 ^ n" by simp
  finally show ?case using Suc.IH [of "up_level sha (level + 1) hs" "level + 1"] by (subst levels_from.simps) simp
qed

lemma reference_height: "length d < 2 ^ 63 \<Longrightarrow> length (reference_tree sha d) \<le> 8"
  using leaves_bound [of d sha] levels_bound [of "leaves sha d" 7 sha 0] by (simp add: reference_tree_def MAX_DATA_def)

section \<open>Binding\<close>

text \<open>What SHA-256 promises here: hashes of 32 bytes.\<close>

locale sha_crate =
  fixes sha :: sha
  assumes length_sha [simp]: "length (sha bytes) = 32"

definition first_bytes :: sha where
  "first_bytes bytes = take 32 (bytes @ replicate 32 0)"

interpretation first: sha_crate first_bytes
  by unfold_locales (simp add: first_bytes_def)

text \<open>The byte strings that are hashed for the tree of the data.\<close>

definition leaf_inputs :: "u8 list \<Rightarrow> u8 list list" where
  "leaf_inputs d = (if d = [] then [leaf_input 0 []] else map (\<lambda>(i, b). leaf_input i b) (enumerate 0 (chunks 8192 d)))"

definition level_inputs :: "nat \<Rightarrow> merkle_hash list \<Rightarrow> u8 list list" where
  "level_inputs level hs = map (\<lambda>(i, c). node_input level i c) (enumerate 0 (chunks 256 hs))"

definition hashed :: "sha \<Rightarrow> u8 list \<Rightarrow> u8 list set" where
  "hashed sha d = set (leaf_inputs d) \<union>
     (\<Union>(k, hs) \<in> set (enumerate 1 (butlast (reference_tree sha d))). set (level_inputs k hs))"

text \<open>Two different inputs with the same hash, or an input with the hash that pads blocks of hashes.\<close>

definition broken :: "sha \<Rightarrow> u8 list set \<Rightarrow> u8 list set \<Rightarrow> bool" where
  "broken sha X Y \<longleftrightarrow> (\<exists>x\<in>X. \<exists>y\<in>Y. x \<noteq> y \<and> sha x = sha y) \<or> (\<exists>x\<in>X \<union> Y. sha x = replicate 32 0)"

lemma broken_mono: "broken sha X Y \<Longrightarrow> X \<subseteq> X' \<Longrightarrow> Y \<subseteq> Y' \<Longrightarrow> broken sha X' Y'"
  unfolding broken_def by blast

lemma map_sha_eq:
  "map sha xs = map sha ys \<Longrightarrow> xs = ys \<or> broken sha (set xs) (set ys)"
proof (induction xs arbitrary: ys)
  case (Cons x xs)
  then obtain y ys' where y: "ys = y # ys'" "sha x = sha y" "map sha xs = map sha ys'" by (cases ys) auto
  then have "xs = ys' \<or> broken sha (set xs) (set ys')" using Cons.IH by simp
  then consider "x \<noteq> y" | "x = y" "xs = ys'" | "broken sha (set xs) (set ys')" by blast
  then show ?case
  proof cases
    case 1
    then have "broken sha (set (x # xs)) (set ys)" using y(1,2) unfolding broken_def by force
    then show ?thesis ..
  next
    case 3
    then have "broken sha (set (x # xs)) (set ys)" by (rule broken_mono) (auto simp: y(1))
    then show ?thesis ..
  qed (simp add: y(1))
qed simp

lemma up_level_inputs: "up_level sha level hs = map sha (level_inputs level hs)"
  by (simp add: up_level_def level_inputs_def case_prod_beta comp_def)

lemma leaves_inputs: "leaves sha d = map sha (leaf_inputs d)"
  by (simp add: leaves_def leaf_inputs_def case_prod_beta comp_def)

lemma u64_bytes_eq [simp]: "to_le 8 (v :: u64) = to_le 8 w \<longleftrightarrow> v = w"
  by (metis u64_from_le_to_le)

lemma u32_bytes_eq [simp]: "to_le 4 (v :: u32) = to_le 4 w \<longleftrightarrow> v = w"
proof
  assume "to_le 4 v = to_le 4 w"
  then have "from_le (to_le 4 v) = (from_le (to_le 4 w) :: u32)" by simp
  then show "v = w" by (simp add: from_le_to_le_take take_bit_word_eq_self)
qed simp

lemma length_make_identity [simp]: "length (make_identity len level offset) = 12"
  by (simp add: make_identity_def)

lemma node_input_inj:
  assumes "node_input level i c = node_input level i d" and "\<forall>h\<in>set c \<union> set d. length h = 32"
    and "length c \<le> 256" and "length d \<le> 256"
  shows "c = d \<or> replicate 32 0 \<in> set c \<union> set d"
proof -
  let ?z = "replicate 32 0 :: u8 list"
  let ?c = "c @ replicate (256 - length c) ?z" and ?d = "d @ replicate (256 - length d) ?z"
  have "concat ?c = concat ?d" using assms(1) by (simp add: node_input_def)
  moreover have "length ?c = length ?d" using assms by simp
  moreover have "\<forall>(x, y)\<in>set (zip ?c ?d). length x = length y"
  proof clarify
    fix x y
    assume z: "(x, y) \<in> set (zip ?c ?d)"
    have "x \<in> set ?c" and "y \<in> set ?d" using set_zip_leftD [OF z] set_zip_rightD [OF z] by auto
    then have "length x = 32" and "length y = 32" using assms(2) by (auto split: if_splits)
    then show "length x = length y" by simp
  qed
  ultimately have eq: "?c = ?d" by (rule concat_injective)
  consider "length c = length d" | "length c < length d" | "length d < length c" by linarith
  then show ?thesis
  proof cases
    case 1
    then show ?thesis using eq by simp
  next
    case 2
    then have "d ! length c = ?c ! length c" using eq by (simp add: nth_append)
    also have "\<dots> = ?z" using 2 assms(4) by (simp add: nth_append)
    finally show ?thesis using 2 nth_mem by force
  next
    case 3
    then have "c ! length d = ?d ! length d" by (simp add: nth_append flip: eq)
    also have "\<dots> = ?z" using 3 assms(3) by (simp add: nth_append)
    finally show ?thesis using 3 nth_mem by force
  qed
qed

lemma node_inputs_inj:
  assumes "map (\<lambda>(i, c). node_input level i c) (enumerate i cs) = map (\<lambda>(i, c). node_input level i c) (enumerate i ds)"
    and "\<forall>c\<in>set cs \<union> set ds. length c \<le> 256 \<and> (\<forall>h\<in>set c. length h = 32)"
  shows "cs = ds \<or> replicate 32 0 \<in> \<Union> (set ` (set cs \<union> set ds))"
  using assms
proof (induction cs arbitrary: i ds)
  case (Cons c cs)
  then obtain d ds' where ds: "ds = d # ds'" by (cases ds) auto
  have "c = d \<or> replicate 32 0 \<in> set c \<union> set d"
    by (rule node_input_inj [of level i]) (use Cons.prems ds in auto)
  moreover have "cs = ds' \<or> replicate 32 0 \<in> \<Union> (set ` (set cs \<union> set ds'))"
    by (rule Cons.IH [of "Suc i"]) (use Cons.prems ds in auto)
  ultimately show ?case using ds by auto
next
  case Nil
  then show ?case by (cases ds) auto
qed

lemma in_chunk_elements: "0 < n \<Longrightarrow> \<Union> (set ` set (chunks n xs)) = set xs"
  using set_concat [of "chunks n xs"] by simp

lemma level_inputs_inj:
  assumes "level_inputs level hs = level_inputs level ms" and "\<forall>h\<in>set hs \<union> set ms. length h = 32"
  shows "hs = ms \<or> replicate 32 0 \<in> set hs \<union> set ms"
proof -
  have all: "\<Union> (set ` (set (chunks 256 hs) \<union> set (chunks 256 ms))) = set hs \<union> set ms"
    by (simp add: image_Un in_chunk_elements)
  have "\<forall>c\<in>set (chunks 256 hs) \<union> set (chunks 256 ms). length c \<le> 256 \<and> (\<forall>h\<in>set c. length h = 32)"
  proof (intro ballI conjI)
    fix c h
    assume c: "c \<in> set (chunks 256 hs) \<union> set (chunks 256 ms)"
    show "length c \<le> 256" using c in_chunks by blast
    assume "h \<in> set c"
    then have "h \<in> set hs \<union> set ms" using c all by blast
    then show "length h = 32" using assms(2) by blast
  qed
  then have "chunks 256 hs = chunks 256 ms \<or> replicate 32 0 \<in> \<Union> (set ` (set (chunks 256 hs) \<union> set (chunks 256 ms)))"
    by (rule node_inputs_inj [OF assms(1) [unfolded level_inputs_def]])
  moreover have "hs = ms" if "chunks 256 hs = chunks 256 ms"
    using arg_cong [OF that, of concat] by simp
  ultimately show ?thesis unfolding all by blast
qed

lemma leaf_input_inj:
  assumes "leaf_input i b = leaf_input i c" and "length b \<le> 8192" and "length c \<le> 8192"
  shows "b = c"
proof -
  have "make_identity (length b) 0 (i * 8192) = make_identity (length c) 0 (i * 8192)"
    using arg_cong [OF assms(1), of "take 12"] by (simp add: leaf_input_def)
  then have "(of_nat (length b) :: u32) = of_nat (length c)" by (simp add: make_identity_def)
  then have "unat (of_nat (length b) :: u32) = unat (of_nat (length c) :: u32)" by simp
  then have "length b = length c" using assms(2,3) by (simp add: unat_of_nat take_bit_eq_mod)
  then show ?thesis using arg_cong [OF assms(1), of "take (length b) \<circ> drop 12"] by (simp add: leaf_input_def)
qed

definition blocks_of :: "u8 list \<Rightarrow> u8 list list" where
  "blocks_of d = (if d = [] then [[]] else chunks 8192 d)"

lemma leaf_inputs_of_blocks:
  "leaf_inputs d = map (\<lambda>(i, b). leaf_input i b) (enumerate 0 (blocks_of d))" "concat (blocks_of d) = d"
  by (simp_all add: leaf_inputs_def blocks_of_def)

lemma blocks_of_size: "b \<in> set (blocks_of d) \<Longrightarrow> length b \<le> 8192"
  by (auto simp: blocks_of_def dest: in_chunks split: if_splits)

lemma leaf_blocks_inj:
  assumes "map (\<lambda>(i, b). leaf_input i b) (enumerate i bs) = map (\<lambda>(i, b). leaf_input i b) (enumerate i cs)"
    and "\<forall>b\<in>set bs \<union> set cs. length b \<le> 8192"
  shows "bs = cs"
  using assms
proof (induction bs arbitrary: i cs)
  case Nil
  then show ?case by (cases cs) auto
next
  case (Cons b bs)
  then obtain c cs' where cs: "cs = c # cs'" by (cases cs) auto
  have "b = c" by (rule leaf_input_inj [of i]) (use Cons.prems cs in auto)
  moreover have "bs = cs'" by (rule Cons.IH [of "Suc i"]) (use Cons.prems cs in auto)
  ultimately show ?case using cs by simp
qed

lemma leaf_inputs_inj:
  assumes "leaf_inputs d = leaf_inputs e"
  shows "d = e"
proof -
  have "blocks_of d = blocks_of e"
    by (rule leaf_blocks_inj [of 0]) (use assms blocks_of_size in \<open>auto simp: leaf_inputs_of_blocks(1)\<close>)
  then have "concat (blocks_of d) = concat (blocks_of e)" by simp
  then show ?thesis unfolding leaf_inputs_of_blocks(2) .
qed

lemma tree_above:
  assumes "Suc k < length (reference_tree sha d)"
  shows "reference_tree sha d ! Suc k = map sha (level_inputs (Suc k) (reference_tree sha d ! k))"
    and "set (level_inputs (Suc k) (reference_tree sha d ! k)) \<subseteq> hashed sha d"
proof -
  show "reference_tree sha d ! Suc k = map sha (level_inputs (Suc k) (reference_tree sha d ! k))"
    using levels_from_adjacent [of k sha 0 "leaves sha d"] assms by (simp add: reference_tree_def up_level_inputs)
  have "(Suc k, reference_tree sha d ! k) \<in> set (enumerate 1 (butlast (reference_tree sha d)))"
    using assms by (simp add: in_set_enumerate_eq nth_butlast)
  then show "set (level_inputs (Suc k) (reference_tree sha d ! k)) \<subseteq> hashed sha d"
    unfolding hashed_def by blast
qed

lemma tree_leaves: "reference_tree sha d ! 0 = map sha (leaf_inputs d)" "set (leaf_inputs d) \<subseteq> hashed sha d"
  by (simp add: reference_tree_def levels_from.simps leaves_inputs, simp add: hashed_def)

lemma tree_hash_hashed:
  assumes "k < length (reference_tree sha d)" and "h \<in> set (reference_tree sha d ! k)"
  shows "\<exists>x\<in>hashed sha d. h = sha x"
proof (cases k)
  case 0
  then show ?thesis using assms(2) tree_leaves [where sha = sha and d = d] by auto
next
  case (Suc j)
  then show ?thesis using assms tree_above [of j sha d] by auto
qed

lemma tree_root_input:
  "\<exists>x\<in>hashed sha d. last (reference_tree sha d) = [sha x] \<and> take 8 x = to_le 8 (of_nat (length (reference_tree sha d) - 1) :: u64)"
proof -
  let ?t = "reference_tree sha d"
  have one: "length (last ?t) = 1" unfolding reference_tree_def by (rule last_level [OF leaves_nonempty])
  have ne: "?t \<noteq> []" by (simp add: reference_tree_def)
  show ?thesis
  proof (cases "length ?t - 1")
    case 0
    then have last: "last ?t = map sha (leaf_inputs d)" using ne tree_leaves(1) [where sha = sha and d = d] by (simp add: last_conv_nth)
    then obtain x where x: "leaf_inputs d = [x]" using one by (auto simp: length_Suc_conv)
    then have "take 8 x = to_le 8 (0 :: u64)"
      by (cases "chunks 8192 d") (auto simp: leaf_inputs_def leaf_input_def make_identity_def split: if_splits)
    then show ?thesis using x last 0 tree_leaves(2) [where sha = sha and d = d] by auto
  next
    case (Suc k)
    then have k: "Suc k < length ?t" by simp
    have last: "last ?t = map sha (level_inputs (Suc k) (?t ! k))"
      using ne Suc tree_above(1) [OF k] by (simp add: last_conv_nth)
    then obtain x where x: "level_inputs (Suc k) (?t ! k) = [x]" using one by (auto simp: length_Suc_conv)
    then have "take 8 x = to_le 8 (of_nat (Suc k) :: u64)"
      by (cases "chunks 256 (?t ! k)") (auto simp: level_inputs_def node_input_def make_identity_def)
    then show ?thesis using x last Suc tree_above(2) [OF k] by auto
  qed
qed

context sha_crate
begin

lemma level_below:
  assumes "Suc k < length (reference_tree sha d)" and "Suc k < length (reference_tree sha e)"
    and "reference_tree sha d ! Suc k = reference_tree sha e ! Suc k"
  shows "reference_tree sha d ! k = reference_tree sha e ! k \<or> broken sha (hashed sha d) (hashed sha e)"
proof -
  let ?t = "reference_tree sha d ! k" and ?u = "reference_tree sha e ! k"
  note d = tree_above [OF assms(1)] and e = tree_above [OF assms(2)]
  have from_hash: "\<exists>x\<in>hashed sha d \<union> hashed sha e. h = sha x" if "h \<in> set ?t \<union> set ?u" for h
    using that tree_hash_hashed [of k sha d h] tree_hash_hashed [of k sha e h] assms(1,2) by auto
  have "map sha (level_inputs (Suc k) ?t) = map sha (level_inputs (Suc k) ?u)" using assms(3) d(1) e(1) by simp
  then consider "level_inputs (Suc k) ?t = level_inputs (Suc k) ?u"
    | "broken sha (set (level_inputs (Suc k) ?t)) (set (level_inputs (Suc k) ?u))" using map_sha_eq by blast
  then show ?thesis
  proof cases
    case 1
    have "\<forall>h\<in>set ?t \<union> set ?u. length h = 32" using from_hash by fastforce
    then consider "?t = ?u" | "replicate 32 0 \<in> set ?t \<union> set ?u" using level_inputs_inj [OF 1] by blast
    then show ?thesis
    proof cases
      case 2
      from from_hash [OF this] show ?thesis unfolding broken_def by metis
    qed simp
  next
    case 2
    then have "broken sha (hashed sha d) (hashed sha e)" by (rule broken_mono) (use d(2) e(2) in auto)
    then show ?thesis ..
  qed
qed

lemma root_binds_tree:
  assumes "length d < 2 ^ 63" and "length e < 2 ^ 63"
    and "tree_root (reference_tree sha d) = tree_root (reference_tree sha e)"
  shows "d = e \<or> broken sha (hashed sha d) (hashed sha e)"
proof (cases "broken sha (hashed sha d) (hashed sha e)")
  case False
  let ?t = "reference_tree sha d" and ?u = "reference_tree sha e"
  have ne: "?t \<noteq> []" "?u \<noteq> []" by (simp_all add: reference_tree_def)
  obtain x where x: "x \<in> hashed sha d" "last ?t = [sha x]" "take 8 x = to_le 8 (of_nat (length ?t - 1) :: u64)"
    using tree_root_input [of sha d] by blast
  obtain y where y: "y \<in> hashed sha e" "last ?u = [sha y]" "take 8 y = to_le 8 (of_nat (length ?u - 1) :: u64)"
    using tree_root_input [of sha e] by blast
  have "sha x = sha y" using assms(3) x(2) y(2) ne by (simp add: tree_root_def)
  then have "x = y" using False x(1) y(1) unfolding broken_def by blast
  then have "(of_nat (length ?t - 1) :: u64) = of_nat (length ?u - 1)" using x(3) y(3) by simp
  then have "unat (of_nat (length ?t - 1) :: u64) = unat (of_nat (length ?u - 1) :: u64)" by simp
  then have "length ?t - 1 = length ?u - 1"
    using reference_height [OF assms(1), of sha] reference_height [OF assms(2), of sha]
    by (simp add: unat_of_nat take_bit_eq_mod)
  moreover have "0 < length ?t" and "0 < length ?u" using ne by simp_all
  ultimately have n: "length ?t = length ?u" by linarith
  have "j < length ?t \<Longrightarrow> ?t ! (length ?t - 1 - j) = ?u ! (length ?t - 1 - j)" for j
  proof (induction j)
    case 0
    then show ?case using x(2) y(2) \<open>x = y\<close> n ne by (simp add: last_conv_nth)
  next
    case (Suc j)
    let ?k = "length ?t - 1 - Suc j"
    have k: "Suc ?k = length ?t - 1 - j" using Suc.prems by simp
    have "?t ! Suc ?k = ?u ! Suc ?k" unfolding k by (rule Suc.IH) (use Suc.prems in simp)
    then show ?case using level_below [of ?k d e] False k Suc.prems n by simp
  qed
  from this [of "length ?t - 1"] have "map sha (leaf_inputs d) = map sha (leaf_inputs e)"
    using ne by (simp add: tree_leaves(1))
  then have "leaf_inputs d = leaf_inputs e \<or> broken sha (set (leaf_inputs d)) (set (leaf_inputs e))" by (rule map_sha_eq)
  moreover have "\<not> broken sha (set (leaf_inputs d)) (set (leaf_inputs e))"
    using False broken_mono [OF _ tree_leaves(2) tree_leaves(2)] by blast
  ultimately have "d = e" using leaf_inputs_inj by blast
  then show ?thesis ..
qed simp

end

lemma reference_tree_shape:
  fixes sha :: sha and d :: "u8 list"
  defines "t \<equiv> reference_tree sha d"
  shows "t \<noteq> []" and "length (hd t) = max 1 ((length d + 8191) div 8192)" and "length (last t) = 1"
    and "\<And>k. Suc k < length t \<Longrightarrow> 1 < length (t ! k) \<and> length (t ! Suc k) = (length (t ! k) + 255) div 256"
    and "tree_root t = Ok (hd (last t))"
proof -
  show t: "t \<noteq> []" by (simp add: t_def reference_tree_def)
  show "length (hd t) = max 1 ((length d + 8191) div 8192)"
    by (simp add: t_def reference_tree_def levels_from.simps [of sha 0] length_leaves)
  show one: "length (last t) = 1" unfolding t_def reference_tree_def by (rule last_level [OF leaves_nonempty])
  show "1 < length (t ! k) \<and> length (t ! Suc k) = (length (t ! k) + 255) div 256" if "Suc k < length t" for k
    using levels_from_adjacent [of k sha 0 "leaves sha d"] that by (simp add: t_def reference_tree_def)
  show "tree_root t = Ok (hd (last t))" using t one by (cases "last t") (simp_all add: tree_root_def)
qed

lemma from_reader_ends:
  assumes "yields rd r pieces ending" and "length (concat pieces) < 2 ^ 63"
  shows "ending = Ok [] \<Longrightarrow> from_reader sha rd r = Ok (reference_tree sha (concat pieces))"
    and "ending = Err e \<Longrightarrow> from_reader sha rd r = Err e"
proof -
  have n: "length ([] @ concat pieces) < MAX_DATA" using assms(2) by (simp add: MAX_DATA_def)
  show "from_reader sha rd r = Ok (reference_tree sha (concat pieces))" if ok: "ending = Ok []"
  proof -
    obtain r' where "loopP (read_step sha rd) () (r, builder_new) = (Ok (), r', holding sha (concat pieces))"
      using read_loop(1) [OF assms(1) n ok, of sha] by (auto simp: builder_new_holding [of sha])
    moreover obtain b where "builder_finish sha (holding sha (concat pieces)) = (Ok (reference_tree sha (concat pieces)), b)"
      using builder_finish_runs [of "concat pieces" sha] n by (metis append_Nil prod.collapse)
    ultimately show ?thesis by (simp add: from_reader_def bindP_step zoomP_def unwrapP_def)
  qed
  show "from_reader sha rd r = Err e" if "ending = Err e"
    using read_loop(2) [OF assms(1) n that, of sha]
    by (auto simp: from_reader_def builder_new_holding [of sha] bindP_step)
qed

section \<open>The properties\<close>

text \<open>
  C18. Whatever the sizes of the buffers that are written, a builder given less than \<open>2 ^ 63\<close> bytes
  finishes, without panicking, with the Merkle tree of their concatenation: the leaves hash its
  blocks of 8192 bytes, and every level above hashes the level below in blocks of 256 hashes, until
  one hash is left.
\<close>

theorem merkle_builder_correct:
  assumes "length (concat bufs) < 2 ^ 63"
  shows "build sha bufs = Ok (reference_tree sha (concat bufs))"
  using assms by (rule build_runs)

theorem merkle_builder_correct_witness:
  "build first_bytes [[1, 2], [], [3]] = Ok [[[0, 0, 0, 0, 0, 0, 0, 0, 3, 0, 0, 0, 1, 2, 3] @ replicate 17 0]]"
proof -
  have "build first_bytes [[1, 2], [], [3]] = Ok (reference_tree first_bytes [1, 2, 3])"
    using merkle_builder_correct [of "[[1, 2], [], [3]]" first_bytes] by simp
  moreover have "leaves first_bytes [1, 2, 3] = [first_bytes (leaf_input 0 [1, 2, 3])]"
    by (simp add: leaves_def chunks_single)
  moreover have "first_bytes (leaf_input 0 [1, 2, 3]) = [0, 0, 0, 0, 0, 0, 0, 0, 3, 0, 0, 0, 1, 2, 3] @ replicate 17 0"
  proof -
    have "make_identity (Suc (Suc (Suc 0))) 0 0 = [0, 0, 0, 0, 0, 0, 0, 0, 3, 0, 0, 0]" by code_simp
    then show ?thesis by (simp add: first_bytes_def leaf_input_def)
  qed
  ultimately show ?thesis by (simp add: reference_tree_def levels_from.simps)
qed

text \<open>
  C20. The tree a builder returns is well formed: it has one to eight levels, the first with a hash
  for every block of the data (one for no data), each next one with a hash for every 256 hashes of
  the one below, which has more than one; the last has exactly one hash, the root; and every hash
  has 32 bytes.
\<close>

theorem merkle_tree_well_formed:
  assumes "sha_crate sha" and "length (concat bufs) < 2 ^ 63"
  shows "\<exists>t. build sha bufs = Ok t \<and> 1 \<le> length t \<and> length t \<le> 8
    \<and> length (hd t) = max 1 ((length (concat bufs) + 8191) div 8192)
    \<and> (\<forall>k. Suc k < length t \<longrightarrow> 1 < length (t ! k) \<and> length (t ! Suc k) = (length (t ! k) + 255) div 256)
    \<and> length (last t) = 1 \<and> tree_root t = Ok (hd (last t))
    \<and> (\<forall>l\<in>set t. \<forall>h\<in>set l. length h = 32)"
proof (intro exI conjI ballI allI impI)
  let ?t = "reference_tree sha (concat bufs)"
  show "build sha bufs = Ok ?t" using assms(2) by (rule build_runs)
  show "1 \<le> length ?t" using reference_tree_shape(1) [of sha "concat bufs"] by (simp add: Suc_le_eq)
  show "length ?t \<le> 8" by (rule reference_height [OF assms(2)])
  show "length (hd ?t) = max 1 ((length (concat bufs) + 8191) div 8192)" by (rule reference_tree_shape)
  show "1 < length (?t ! k)" "length (?t ! Suc k) = (length (?t ! k) + 255) div 256" if "Suc k < length ?t" for k
    using reference_tree_shape(4) [OF that] by simp_all
  show "length (last ?t) = 1" "tree_root ?t = Ok (hd (last ?t))" by (rule reference_tree_shape)+
  fix l h
  assume "l \<in> set ?t" and h: "h \<in> set l"
  then obtain k where k: "k < length ?t" "l = ?t ! k" by (auto simp: in_set_conv_nth)
  have "\<exists>x\<in>hashed sha (concat bufs). h = sha x" by (rule tree_hash_hashed [OF k(1) h [unfolded k(2)]])
  then show "length h = 32" using sha_crate.length_sha [OF assms(1)] by auto
qed

theorem merkle_tree_well_formed_witness:
  "\<exists>t. build first_bytes [[7], [8, 9]] = Ok t \<and> length t \<le> 8 \<and> length (hd t) = 1 \<and> length (last t) = 1"
  using merkle_tree_well_formed [OF first.sha_crate_axioms, of "[[7], [8, 9]]"] by auto

text \<open>
  C19. The root binds the data: when the trees of two runs of writes have the same root, the data
  are the same, or the hash function is broken on the very byte strings hashed for the two trees:
  two different ones have the same hash, or one has the all-zero hash that pads a block of hashes.
\<close>

theorem merkle_root_binds:
  assumes "sha_crate sha" and "length (concat bufs) < 2 ^ 63" and "length (concat bufs') < 2 ^ 63"
    and "build sha bufs = Ok t" and "build sha bufs' = Ok t'" and "tree_root t = tree_root t'"
  shows "concat bufs = concat bufs' \<or> broken sha (hashed sha (concat bufs)) (hashed sha (concat bufs'))"
  using sha_crate.root_binds_tree [OF assms(1-3)] build_runs [OF assms(2), of sha] build_runs [OF assms(3), of sha] assms(4-6)
  by simp

lemma first_bytes_leaf:
  "length b \<le> 8192 \<Longrightarrow> b \<noteq> [] \<Longrightarrow> reference_tree first_bytes b = [[first_bytes (leaf_input 0 b)]]"
  by (simp add: reference_tree_def levels_from.simps leaves_def chunks_single)

theorem merkle_root_binds_witness:
  "broken first_bytes (hashed first_bytes (replicate 40 0)) (hashed first_bytes (replicate 39 0 @ [1]))"
proof -
  let ?d = "replicate 40 0 :: u8 list" and ?e = "replicate 39 0 @ [1] :: u8 list"
  have "first_bytes (leaf_input 0 ?d) = first_bytes (leaf_input 0 ?e)"
    by (simp add: first_bytes_def leaf_input_def)
  then have "tree_root (reference_tree first_bytes ?d) = tree_root (reference_tree first_bytes ?e)"
    by (simp add: first_bytes_leaf)
  moreover have "build first_bytes [?d] = Ok (reference_tree first_bytes ?d)"
    and "build first_bytes [?e] = Ok (reference_tree first_bytes ?e)"
    using build_runs [of "[?d]" first_bytes] build_runs [of "[?e]" first_bytes] by simp_all
  ultimately have "?d = ?e \<or> broken first_bytes (hashed first_bytes ?d) (hashed first_bytes ?e)"
    using merkle_root_binds [OF first.sha_crate_axioms, of "[?d]" "[?e]" "reference_tree first_bytes ?d" "reference_tree first_bytes ?e"]
    by simp
  moreover have "last ?d \<noteq> last ?e" by simp
  ultimately show ?thesis by metis
qed

text \<open>
  C21. Reading a tree ends: from a reader that returns pieces of data, in whatever sizes, and then
  ends, \<open>from_reader\<close> returns the tree of all the data, and from one that fails after some pieces it
  returns the error.
\<close>

theorem from_reader_returns:
  assumes "yields rd r pieces ending" and "length (concat pieces) < 2 ^ 63"
  shows "(ending = Ok [] \<longrightarrow> from_reader sha rd r = Ok (reference_tree sha (concat pieces)))
    \<and> (\<forall>e. ending = Err e \<longrightarrow> from_reader sha rd r = Err e)"
  using from_reader_ends [OF assms] by blast

text \<open>A slice as a reader, a few bytes at a time.\<close>

definition slice_reader :: "(u8 list, unit, u8 list) prog" where
  "slice_reader r = (Ok (take 2 r), drop 2 r)"

theorem from_reader_returns_witness:
  "from_reader first_bytes slice_reader [1, 2, 3] = Ok (reference_tree first_bytes [1, 2, 3])"
  using from_reader_returns [of slice_reader "[1, 2, 3]" "[[1, 2], [3]]" "Ok []" first_bytes] by (simp add: slice_reader_def)

end
