(* ===== verification/Inspect_Reader_Correct.thy ===== *)
theory Inspect_Reader_Correct
  imports Inspect_Reader
begin

text \<open>
  The reader of Inspect VMOs: it ends on every byte string, whatever is in it, and what the checks of
  a snapshot say about the buffer that is returned.
\<close>

section \<open>Outcomes that are not divergence\<close>

definition ends :: "('e, 'a) outcome \<Rightarrow> bool" where
  "ends r \<longleftrightarrow> r \<noteq> Diverge"

definition endsP :: "('s, 'e, 'a) prog \<Rightarrow> bool" where
  "endsP m \<longleftrightarrow> (\<forall>s. ends (fst (m s)))"

named_theorems ends_simps \<open>which operations return\<close>

lemma ends_outcomes [ends_simps]: "ends (Ok a)" "ends (Err e)" "ends Panic" "\<not> ends Diverge"
  by (simp_all add: ends_def)

lemma ends_bindO [ends_simps]: "ends (bindO m f) \<longleftrightarrow> ends m \<and> (\<forall>a. m = Ok a \<longrightarrow> ends (f a))"
  by (cases m) (simp_all add: ends_def)

lemma ends_unwrapO [ends_simps]: "ends (unwrapO m) \<longleftrightarrow> ends m"
  by (cases m) (simp_all add: ends_def)

lemma endsP_bindP: "endsP m \<Longrightarrow> (\<And>a. endsP (f a)) \<Longrightarrow> endsP (bindP m f)"
  unfolding endsP_def bindP_def ends_def by (auto split: prod.splits outcome.splits) (metis fst_conv)+

lemma endsP_simple [ends_simps]:
  "endsP (returnP a)" "endsP (throwP e)" "endsP (getP g)" "endsP (modifyP k)"
  "endsP (readP (\<lambda>_. r)) \<longleftrightarrow> ends r"
  by (simp_all add: endsP_def ends_simps)

lemma ends_read_bytes [ends_simps]: "ends (read_bytes c offset bytes)"
  by (cases c) (simp_all add: buffer_read_at_def Let_def ends_simps)

lemma ends_read_word [ends_simps]: "ends (read_header c i)" "ends (read_payload c i)"
  by (simp_all add: read_header_def read_payload_def ends_simps split: prod.splits)

lemma ends_fields [ends_simps]: "ends (header_field f cr c i)" "ends (payload_field g cr c i)" "ends (block_order cr c i)"
  by (simp_all add: header_field_def payload_field_def block_order_def ends_simps)

lemma ends_block_type [ends_simps]: "ends (get_block_type cr c i)"
  by (simp add: get_block_type_def ends_simps split: option.splits)

lemma ends_checks [ends_simps]: "ends (check_type cr c i t)" "ends (check_any_value cr c i)"
  by (simp_all add: check_type_def check_any_value_def ends_simps)

lemma ends_getters [ends_simps]:
  "ends (header_magic cr c i)" "ends (header_version cr c i)" "ends (block_generation_count cr c i)"
  "ends (header_is_locked cr c i)" "ends (double_value cr c i)" "ends (int_value cr c i)" "ends (uint_value cr c i)"
  "ends (property_extent_index cr c i)" "ends (property_total_length cr c i)" "ends (get_property_format cr c i)"
  "ends (next_extent cr c i)" "ends (extent_contents cr c i)" "ends (name_index cr c i)" "ends (parent_index cr c i)"
  "ends (name_length cr c i)"
  by (simp_all add: header_magic_def header_version_def block_generation_count_def header_is_locked_def
      double_value_def int_value_def uint_value_def property_extent_index_def property_total_length_def
      get_property_format_def next_extent_def extent_contents_def name_index_def parent_index_def name_length_def
      ends_simps split: option.splits prod.splits)

lemma ends_name_contents [ends_simps]: "ends (name_contents cr c i)"
  by (simp add: name_contents_def ends_simps split: prod.splits)

lemma ends_arrays [ends_simps]:
  "ends (get_array_format cr c i)" "ends (array_slots cr c i)" "ends (array_entry_type cr c i)"
  by (simp_all add: get_array_format_def array_slots_def array_entry_type_def ends_simps split: option.splits)

lemma ends_array_slot [ends_simps]: "ends (array_get_slot cr t c i slot)"
  by (simp add: array_get_slot_def array_slot_offset_def check_array_entry_type_def checked_add_def ends_simps
      split: prod.splits)

lemma ends_read_slots [ends_simps]: "(\<And>i. ends (f i)) \<Longrightarrow> ends (read_slots f is)"
  by (induction "is") (simp_all add: ends_simps)

lemma ends_value_name [ends_simps]: "ends (value_name cr s block)"
proof -
  have "name_contents cr (Slice s) i \<noteq> Diverge" for i using ends_name_contents by (simp add: ends_def)
  then show ?thesis by (auto simp: value_name_def get_name_def ends_simps split: option.splits outcome.splits)
qed

section \<open>The loops of the reader end\<close>

text \<open>A loop whose state is irrelevant ends when its variables decrease.\<close>

lemma loopP_ends:
  fixes \<mu> :: "'x \<Rightarrow> nat"
  assumes "\<And>x s. ends (fst (body x s))" and "\<And>x s x' s'. body x s = (Ok (Inl x'), s') \<Longrightarrow> \<mu> x' < \<mu> x"
  shows "ends (fst (loopP body x s))"
proof -
  have "\<exists>q s'. loopP body x s = (q, s') \<and> ends q"
  proof (rule loopP_total [where I = "\<lambda>_ _. True" and \<mu> = "\<lambda>x _. \<mu> x"])
    fix x s
    obtain r s' where b: "body x s = (r, s')" by fastforce
    then have e: "ends r" using assms(1) [of x s] by simp
    show "(\<exists>x' s'. body x s = (Ok (Inl x'), s') \<and> True \<and> \<mu> x' < \<mu> x)
        \<or> (\<exists>r q s'. body x s = (r, s') \<and> loop_ends r = Some q \<and> ends q)"
    proof (cases "loop_ends r")
      case None
      then obtain x' where "r = Ok (Inl x')" by (auto simp: loop_ends_def split: outcome.splits sum.splits)
      then show ?thesis using b assms(2) [of x s x' s'] by simp
    next
      case (Some q)
      then have "ends q" using e by (auto simp: loop_ends_def ends_simps split: outcome.splits sum.splits)
      then show ?thesis using b Some by blast
    qed
  qed simp
  then show ?thesis by (metis fst_conv)
qed

lemma iter_next_progress:
  "iter_next cr s offset = Ok (Some (index, offset')) \<Longrightarrow> offset < offset' \<and> offset' \<le> length s"
  by (auto simp: iter_next_def bindO_eq_Ok_iff order_to_size_eq split: if_splits)

lemma ends_iter_next [ends_simps]: "ends (iter_next cr s offset)"
  by (simp add: iter_next_def index_for_offset_def ends_simps)

lemma ends_find_block:
  assumes "\<And>i. ends (p i)"
  shows "ends (find_block cr s p)"
  unfolding find_block_def
proof (rule loopP_ends [where \<mu> = "\<lambda>offset. length s - offset"])
  fix x u
  have "endsP (find_step cr s p x)"
    unfolding find_step_def by (rule endsP_bindP) (auto simp: ends_simps assms intro!: endsP_bindP split: option.splits)
  then show "ends (fst (find_step cr s p x u))" by (simp add: endsP_def)
next
  fix x u x' u'
  assume "find_step cr s p x u = (Ok (Inl x'), u')"
  then obtain i where "iter_next cr s x = (Ok (Some (i, x')) :: (inspect_error, _) outcome)"
    by (auto simp: find_step_def bindP_readP split: outcome.splits option.splits if_splits prod.splits)
  then show "length s - x' < length s - x" using iter_next_progress by fastforce
qed

lemma ends_valid_header [ends_simps]: "ends (valid_header cr c i check)" if "ends check"
  using that by (simp add: valid_header_def ends_simps)

lemma ends_header_generation_count [ends_simps]: "ends (header_generation_count cr bytes)"
proof -
  have "block_generation_count cr c i \<noteq> Diverge" for c i using ends_getters(3) by (auto simp: ends_def)
  then show ?thesis
    by (auto simp: header_generation_count_def ends_simps intro!: ends_find_block split: option.splits outcome.splits)
qed

lemma snapshot_step_next: "snapshot_step cr v i u = (Ok (Inl i'), u') \<Longrightarrow> i' = Suc i \<and> i < SNAPSHOT_TRIES"
  by (auto simp: snapshot_step_def bindP_readP split: if_splits outcome.splits option.splits)

definition vmo_returns :: "vmo \<Rightarrow> bool" where
  "vmo_returns v \<longleftrightarrow> (\<forall>i n. vmo_read_header v i \<noteq> Diverge \<and> vmo_get_size v i \<noteq> Diverge \<and> vmo_read v i n \<noteq> Diverge)"

lemma snapshot_ends:
  assumes "vmo_returns v"
  shows "ends (snapshot_from_vmo cr v)"
  unfolding snapshot_from_vmo_def
proof (rule loopP_ends [where \<mu> = "\<lambda>i. SNAPSHOT_TRIES - i"])
  fix x u
  have "endsP (snapshot_step cr v x)" using assms unfolding snapshot_step_def vmo_returns_def
    by (auto simp: ends_simps ends_def [symmetric] intro!: endsP_bindP ends_find_block split: option.splits)
  then show "ends (fst (snapshot_step cr v x u))" by (simp add: endsP_def)
qed (auto dest!: snapshot_step_next)

lemma length_read_bytes: "read_bytes (Slice s) offset bytes = Ok (n, bytes') \<Longrightarrow> length bytes' = length bytes"
  by (auto simp: Let_def window_def split: if_splits)

lemma extent_contents_nonempty:
  assumes "extent_contents cr (Slice s) i = Ok content"
  shows "0 < length content"
proof -
  obtain k n where "read_bytes (Slice s) (payload_offset i) (replicate (payload_size_for_order k) 0) =
      (Ok (n, content) :: (inspect_error, _) outcome)"
    using assms by (auto simp: extent_contents_def bindO_eq_Ok_iff simp del: read_bytes.simps)
  then have "length content = payload_size_for_order k" by (auto dest: length_read_bytes simp del: read_bytes.simps)
  moreover have "(1 :: nat) \<le> 2 ^ k" by simp
  ultimately show ?thesis unfolding payload_size_for_order_eq by linarith
qed

lemma read_extents_ends [ends_simps]: "ends (read_extents cr s total_length extent_index)"
  unfolding read_extents_def
proof (rule loopP_ends [where \<mu> = "\<lambda>(_, offset, _). total_length - offset"])
  fix x u
  have "endsP (extent_step cr s total_length x)"
    unfolding extent_step_def by (auto simp: ends_simps Let_def intro!: endsP_bindP split: option.splits prod.splits)
  then show "ends (fst (extent_step cr s total_length x u))" by (simp add: endsP_def)
next
  fix x u x' u'
  assume step: "extent_step cr s total_length x u = (Ok (Inl x'), u')"
  obtain i offset buffer where x: "x = (i, offset, buffer)" by (cases x)
  show "(case x' of (_, offset, _) \<Rightarrow> total_length - offset) < (case x of (_, offset, _) \<Rightarrow> total_length - offset)"
    using step
    by (auto simp: x extent_step_def bindP_readP Let_def min_def intro!: diff_less_mono2
        dest!: extent_contents_nonempty split: if_splits option.splits outcome.splits)
qed

lemma ends_parsers [ends_simps]:
  "endsP (parse_node cr s block)" "endsP (parse_numeric_property cr s block)"
  "endsP (parse_array_property cr s block)" "endsP (parse_property cr s block)"
  unfolding parse_node_def parse_numeric_property_def parse_array_property_def parse_property_def get_or_create_scanned_node_def
    array_get_int_slot_def array_get_uint_slot_def array_get_double_slot_def
  by (auto simp: ends_simps Let_def intro!: endsP_bindP split: block_type.splits)

lemma scan_ends [ends_simps]: "ends (scan_blocks cr s)"
proof -
  have "ends (fst (loopP (scan_step cr s) 0 []))"
  proof (rule loopP_ends [where \<mu> = "\<lambda>offset. length s - offset"])
    fix x u
    have "endsP (scan_step cr s x)" unfolding scan_step_def
      by (auto simp: ends_simps intro!: endsP_bindP split: option.splits block_type.splits)
    then show "ends (fst (scan_step cr s x u))" by (simp add: endsP_def)
  next
    fix x u x' u'
    assume "scan_step cr s x u = (Ok (Inl x'), u')"
    then obtain i where "iter_next cr s x = (Ok (Some (i, x')) :: (inspect_error, _) outcome)"
      by (auto simp: scan_step_def bindP_readP elim!: bindP_eq_Ok split: outcome.splits option.splits if_splits prod.splits)
    then show "length s - x' < length s - x" using iter_next_progress by fastforce
  qed
  then show ?thesis by (auto simp: scan_blocks_def ends_def split: prod.splits outcome.splits)
qed

lemma reduce_step_progress:
  assumes "om_wf pending"
  shows "(\<exists>ns pending'. reduce_step nodes pending = (Ok (Inl ns), pending') \<and> om_wf pending'
      \<and> length ns + 2 * length pending' < length nodes + 2 * length pending)
    \<or> (\<exists>r q pending'. reduce_step nodes pending = (r, pending') \<and> loop_ends r = Some q \<and> ends q)"
proof (cases nodes)
  case Nil
  then show ?thesis by (simp add: reduce_step_def ends_simps)
next
  case (Cons node rest)
  let ?p = "scanned_parent node"
  show ?thesis
  proof (cases "?p = 0 \<or> om_get pending ?p = None")
    case True
    then show ?thesis using Cons by (auto simp: reduce_step_def ends_simps)
  next
    case False
    then obtain parent where parent: "om_get pending ?p = Some parent" by auto
    let ?new = "push_child (hierarchy node) parent"
    let ?m = "om_insert ?p ?new pending"
    have len: "length ?m = length pending" by (rule length_om_insert_present [OF parent assms])
    have "length (om_remove ?p ?m) < length ?m" by (rule length_om_remove [of _ _ ?new]) (simp add: om_get_insert)
    then show ?thesis using Cons False parent len assms
      by (cases "is_complete ?new") (auto simp: reduce_step_def Let_def)
  qed
qed

lemma om_wf_pending: "om_wf (snd (split_parsed nodes))"
proof -
  have "om_wf m \<Longrightarrow> om_wf (foldl (\<lambda>m (k, n). if is_complete n then m else om_insert k n m) m nodes)" for m
    by (induction nodes arbitrary: m) auto
  then show ?thesis by (simp add: split_parsed_def om_wf_def)
qed

lemma reduce_ends [ends_simps]: "ends (reduce nodes)"
proof -
  obtain complete pending where sp: "split_parsed nodes = (complete, pending)" by fastforce
  then have "om_wf pending" using om_wf_pending [of nodes] by simp
  then have "\<exists>q s'. loopP reduce_step complete pending = (q, s') \<and> ends q"
    by (rule loopP_total [where I = "\<lambda>_ m. om_wf m" and \<mu> = "\<lambda>ns m. length ns + 2 * length m"])
      (rule reduce_step_progress)
  then show ?thesis by (auto simp: reduce_def sp)
qed

lemma read_hierarchy_ends: "ends (read_hierarchy cr s)"
  by (simp add: read_hierarchy_def ends_simps)

section \<open>What a snapshot rests on\<close>

text \<open>The bytes hold a valid header block with the given generation count.\<close>

definition header_matches :: "crate_ops \<Rightarrow> u8 list \<Rightarrow> u64 \<Rightarrow> bool" where
  "header_matches cr bytes gen \<longleftrightarrow> 16 \<le> length bytes \<and> (\<exists>i.
     get_block_type cr (Slice bytes) i = (Ok Header :: (inspect_error, _) outcome)
     \<and> header_magic cr (Slice bytes) i = Ok HEADER_MAGIC_NUMBER
     \<and> header_version cr (Slice bytes) i = Ok HEADER_VERSION_NUMBER
     \<and> block_generation_count cr (Slice bytes) i = Ok gen)"

text \<open>
  What the code checks of an attempt: the header it reads first is valid and not locked, and the
  buffer it reads after it begins with a valid header of the same generation count.
\<close>

definition accepted_attempt :: "crate_ops \<Rightarrow> vmo \<Rightarrow> nat \<Rightarrow> u8 list \<Rightarrow> bool" where
  "accepted_attempt cr v i buffer \<longleftrightarrow> (\<exists>header gen n. vmo_read_header v i = Ok header
     \<and> vmo_get_size v i = Ok n \<and> vmo_read v i n = Ok buffer
     \<and> header_matches cr header gen \<and> gen AND 1 \<noteq> 1 \<and> header_matches cr (take 16 buffer) gen)"

text \<open>An attempt that meets a header that is locked or not valid is repeated.\<close>

definition blocked_attempt :: "crate_ops \<Rightarrow> vmo \<Rightarrow> nat \<Rightarrow> bool" where
  "blocked_attempt cr v i \<longleftrightarrow> (\<exists>header. vmo_read_header v i = Ok header \<and> header_generation_count cr header = Ok None)"

lemma unwrapO_eq_Ok: "unwrapO m = Ok a \<longleftrightarrow> m = Ok a"
  by (cases m) simp_all

lemma valid_header_true:
  "valid_header cr c i check = Ok True \<longleftrightarrow> get_block_type cr c i = (Ok Header :: (inspect_error, _) outcome)
     \<and> header_magic cr c i = Ok HEADER_MAGIC_NUMBER \<and> header_version cr c i = Ok HEADER_VERSION_NUMBER \<and> check = Ok True"
  by (auto simp: valid_header_def bindO_eq_Ok_iff unwrapO_eq_Ok split: if_splits)

lemma find_block_found:
  assumes "find_block cr s p = Ok (Some i)"
  shows "p i = Ok True"
proof -
  have "\<exists>q u. loopP (find_step cr s p) 0 () = (q, u) \<and> (q = Ok (Some i) \<longrightarrow> p i = Ok True)"
  proof (rule loopP_total [where I = "\<lambda>_ _. True" and \<mu> = "\<lambda>offset _. length s - offset"])
    fix x and u :: unit
    let ?n = "iter_next cr s x :: (inspect_error, (nat \<times> nat) option) outcome"
    have "find_step cr s p x u = (case ?n of Ok None \<Rightarrow> (Ok (Inr None), u) | Ok (Some (index, offset)) \<Rightarrow>
          (case p index of Ok found \<Rightarrow> (Ok (if found then Inr (Some index) else Inl offset), u) | Err e \<Rightarrow> (Err e, u)
            | Panic \<Rightarrow> (Panic, u) | Diverge \<Rightarrow> (Diverge, u))
        | Err e \<Rightarrow> (Err e, u) | Panic \<Rightarrow> (Panic, u) | Diverge \<Rightarrow> (Diverge, u))"
      by (simp add: find_step_def bindP_readP split: outcome.splits option.splits prod.splits)
    then show "(\<exists>x' s'. find_step cr s p x u = (Ok (Inl x'), s') \<and> True \<and> length s - x' < length s - x)
        \<or> (\<exists>r q s'. find_step cr s p x u = (r, s') \<and> loop_ends r = Some q \<and> (q = Ok (Some i) \<longrightarrow> p i = Ok True))"
      using iter_next_progress [of cr s x, where ?'a = inspect_error]
      by (auto split: outcome.splits option.splits prod.splits if_splits intro!: diff_less_mono2 dest: less_le_trans)
  qed simp
  then show ?thesis using assms by (auto simp: find_block_def)
qed

lemma header_generation_found:
  assumes "header_generation_count cr bytes = Ok (Some gen)"
  obtains i where "find_block cr bytes (\<lambda>i. valid_header cr (Slice bytes) i
      (bindO (unwrapO (header_is_locked cr (Slice bytes) i)) (\<lambda>l. Ok (\<not> l)))) = Ok (Some i)"
    and "block_generation_count cr (Slice bytes) i = (Ok gen :: (inspect_error, _) outcome)"
proof -
  let ?p = "\<lambda>i. valid_header cr (Slice bytes) i (bindO (unwrapO (header_is_locked cr (Slice bytes) i)) (\<lambda>l. Ok (\<not> l)))"
  have len: "16 \<le> length bytes" using assms by (auto simp: header_generation_count_def split: if_splits)
  show thesis
  proof (cases "find_block cr bytes ?p")
    case (Ok r)
    then have g: "(case r of None \<Rightarrow> Ok None | Some i \<Rightarrow> (case block_generation_count cr (Slice bytes) i of
        Ok g \<Rightarrow> Ok (Some g) | Err _ \<Rightarrow> Ok None | Panic \<Rightarrow> Panic | Diverge \<Rightarrow> Diverge)) = (Ok (Some gen) :: (inspect_error, _) outcome)"
      using assms len by (simp add: header_generation_count_def)
    then obtain i where "r = Some i" by (cases r) auto
    then show ?thesis using that [of i] Ok g by (cases "block_generation_count cr (Slice bytes) i") auto
  qed (use assms len in \<open>simp_all add: header_generation_count_def\<close>)
qed

lemma generation_of_header:
  assumes "header_generation_count cr bytes = Ok (Some gen)"
  shows "header_matches cr bytes gen" and "gen AND 1 \<noteq> 1"
proof -
  have len: "16 \<le> length bytes" using assms by (auto simp: header_generation_count_def split: if_splits)
  obtain i where i: "find_block cr bytes (\<lambda>i. valid_header cr (Slice bytes) i
      (bindO (unwrapO (header_is_locked cr (Slice bytes) i)) (\<lambda>l. Ok (\<not> l)))) = Ok (Some i)"
    and g: "block_generation_count cr (Slice bytes) i = (Ok gen :: (inspect_error, _) outcome)"
    by (rule header_generation_found [OF assms])
  note v = find_block_found [OF i, unfolded valid_header_true]
  show "header_matches cr bytes gen" using len v g by (auto simp: header_matches_def)
  have "header_is_locked cr (Slice bytes) i = Ok False" using v by (auto simp: bindO_eq_Ok_iff unwrapO_eq_Ok)
  then show "gen AND 1 \<noteq> 1"
    using g by (auto simp: header_is_locked_def block_generation_count_def payload_field_def bindO_eq_Ok_iff)
qed

lemma snapshot_step_done:
  assumes "snapshot_step cr v i u = (Ok (Inr buffer), u')"
  shows "i < SNAPSHOT_TRIES \<and> accepted_attempt cr v i buffer"
proof -
  obtain header gen n b where i: "i < SNAPSHOT_TRIES" and r: "vmo_read_header v i = Ok header" "vmo_get_size v i = Ok n"
      "vmo_read v i n = Ok buffer" and g: "header_generation_count cr header = Ok (Some gen)" and len: "16 \<le> length buffer"
      and f: "find_block cr (take 16 buffer) (\<lambda>b. valid_header cr (Slice (take 16 buffer)) b
        (bindO (unwrapO (block_generation_count cr (Slice (take 16 buffer)) b)) (\<lambda>g. Ok (g = gen)))) = Ok (Some b)"
    using assms by (auto simp: snapshot_step_def bindP_readP split: if_splits outcome.splits option.splits)
  have "header_matches cr (take 16 buffer) gen" using find_block_found [OF f] len
    by (auto simp: valid_header_true header_matches_def bindO_eq_Ok_iff unwrapO_eq_Ok)
  then show ?thesis using i r generation_of_header [OF g] by (auto simp: accepted_attempt_def)
qed

lemma snapshot_accepted_aux:
  assumes "vmo_returns v"
  shows "\<exists>q u. loopP (snapshot_step cr v) 0 () = (q, u)
    \<and> (\<forall>buffer. q = Ok buffer \<longrightarrow> (\<exists>i<SNAPSHOT_TRIES. accepted_attempt cr v i buffer))"
proof (rule loopP_total [where I = "\<lambda>_ _. True" and \<mu> = "\<lambda>i _. SNAPSHOT_TRIES - i"])
  fix i and u :: unit
  obtain r u' where b: "snapshot_step cr v i u = (r, u')" by (cases "snapshot_step cr v i u")
  show "(\<exists>i' u'. snapshot_step cr v i u = (Ok (Inl i'), u') \<and> True \<and> SNAPSHOT_TRIES - i' < SNAPSHOT_TRIES - i)
      \<or> (\<exists>r q u'. snapshot_step cr v i u = (r, u') \<and> loop_ends r = Some q
          \<and> (\<forall>buffer. q = Ok buffer \<longrightarrow> (\<exists>i<SNAPSHOT_TRIES. accepted_attempt cr v i buffer)))"
  proof (cases "loop_ends r")
    case None
    then obtain i' where "r = Ok (Inl i')" by (auto simp: loop_ends_def split: outcome.splits sum.splits)
    then show ?thesis using b snapshot_step_next [of cr v i u i' u'] by auto
  next
    case (Some q)
    have "\<exists>i<SNAPSHOT_TRIES. accepted_attempt cr v i buffer" if "q = Ok buffer" for buffer
    proof -
      have "r = Ok (Inr buffer)" using Some that by (auto simp: loop_ends_def split: outcome.splits sum.splits)
      then show ?thesis using b snapshot_step_done [of cr v i u buffer u'] by auto
    qed
    then show ?thesis using b Some by blast
  qed
qed simp

lemma snapshot_gives_up:
  assumes "\<forall>i<SNAPSHOT_TRIES. blocked_attempt cr v i"
  shows "snapshot_from_vmo cr v = Err FailedToReadSnapshot"
proof -
  have "\<exists>q u. loopP (snapshot_step cr v) 0 () = (q, u) \<and> q = Err FailedToReadSnapshot"
  proof (rule loopP_total [where I = "\<lambda>_ _. True" and \<mu> = "\<lambda>i _. SNAPSHOT_TRIES - i"])
    fix i and u :: unit
    show "(\<exists>i' u'. snapshot_step cr v i u = (Ok (Inl i'), u') \<and> True \<and> SNAPSHOT_TRIES - i' < SNAPSHOT_TRIES - i)
        \<or> (\<exists>r q u'. snapshot_step cr v i u = (r, u') \<and> loop_ends r = Some q \<and> q = Err FailedToReadSnapshot)"
      using assms by (cases "i < SNAPSHOT_TRIES") (auto simp: snapshot_step_def blocked_attempt_def)
  qed simp
  then show ?thesis by (auto simp: snapshot_from_vmo_def)
qed

text \<open>Nobody writes to the VMO during the attempt.\<close>

definition quiet_attempt :: "vmo \<Rightarrow> nat \<Rightarrow> u8 list \<Rightarrow> bool" where
  "quiet_attempt v i bytes \<longleftrightarrow> 16 \<le> length bytes \<and> vmo_read_header v i = Ok (take 16 bytes)
     \<and> vmo_get_size v i = Ok (length bytes) \<and> vmo_read v i (length bytes) = Ok bytes"

text \<open>The same VMO, but with other bytes after the first sixteen when the buffer is read.\<close>

definition with_tails :: "(nat \<Rightarrow> u8 list) \<Rightarrow> vmo \<Rightarrow> vmo" where
  "with_tails tails v = v\<lparr>vmo_read := \<lambda>i n. (case vmo_read v i n of
     Ok b \<Rightarrow> Ok (if length b < 16 then b else take 16 b @ tails i) | r \<Rightarrow> r)\<rparr>"

lemma find_block_16:
  assumes len: "length s = 16" and f: "find_block cr s p = Ok (Some i)" and p': "p' i = Ok True"
  shows "find_block cr s p' = Ok (Some i)"
proof -
  obtain index offset where n: "iter_next cr s 0 = (Ok (Some (index, offset)) :: (inspect_error, _) outcome)"
  proof (cases "iter_next cr s 0 :: (inspect_error, (nat \<times> nat) option) outcome")
    case (Ok r)
    then show thesis using that f by (cases r) (auto simp: find_block_def find_step_def loopP_break)
  qed (use f in \<open>simp_all add: find_block_def find_step_def loopP_def iterateP_fail bindP_readP\<close>)
  have "16 \<le> offset" using n by (auto simp: iter_next_def bindO_eq_Ok_iff order_to_size_eq split: if_splits)
  then have stop: "find_step cr s p offset () = (Ok (Inr None), ())" by (simp add: find_step_def iter_next_def len)
  have "p index = Ok True \<and> index = i"
  proof (cases "p index")
    case (Ok found)
    show ?thesis
    proof (cases found)
      case True
      then have "find_step cr s p 0 () = (Ok (Inr (Some index)), ())" using n Ok by (simp add: find_step_def)
      then show ?thesis using f Ok True by (simp add: find_block_def loopP_break)
    next
      case False
      then have "find_step cr s p 0 () = (Ok (Inl offset), ())" using n Ok by (simp add: find_step_def)
      then show ?thesis using f iterateP_continue [of "find_step cr s p"] iterateP_break [of "find_step cr s p", OF stop]
        by (simp add: find_block_def loopP_def)
    qed
  qed (use f n in \<open>simp_all add: find_block_def find_step_def loopP_def iterateP_fail bindP_readP\<close>)
  then have "find_step cr s p' 0 () = (Ok (Inr (Some i)), ())" using n p' by (simp add: find_step_def)
  then show ?thesis by (simp add: find_block_def loopP_break)
qed

lemma blocked_step: "i < SNAPSHOT_TRIES \<Longrightarrow> blocked_attempt cr v i \<Longrightarrow> snapshot_step cr v i u = (Ok (Inl (Suc i)), u)"
  by (auto simp: blocked_attempt_def snapshot_step_def)

lemma blocked_iterates:
  assumes "i < SNAPSHOT_TRIES" and "\<forall>j<i. blocked_attempt cr v j"
  shows "iterateP (snapshot_step cr v) 0 () = iterateP (snapshot_step cr v) i ()"
  using assms
proof (induction i)
  case (Suc i)
  then have "snapshot_step cr v i () = (Ok (Inl (Suc i)), ())" by (intro blocked_step) simp_all
  then show ?case using Suc iterateP_continue [of "snapshot_step cr v" i "()"] by simp
qed simp

lemma quiet_step:
  assumes "i < SNAPSHOT_TRIES" and q: "quiet_attempt v i bytes" and g: "header_generation_count cr (take 16 bytes) = Ok (Some gen)"
  shows "snapshot_step cr v i u = (Ok (Inr bytes), u)"
proof -
  let ?s = "take 16 bytes"
  let ?p = "\<lambda>b. valid_header cr (Slice ?s) b (bindO (unwrapO (header_is_locked cr (Slice ?s) b)) (\<lambda>l. Ok (\<not> l)))"
  let ?p' = "\<lambda>b. valid_header cr (Slice ?s) b (bindO (unwrapO (block_generation_count cr (Slice ?s) b)) (\<lambda>g. Ok (g = gen)))"
  have len: "16 \<le> length bytes" "length ?s = 16" using q by (auto simp: quiet_attempt_def)
  obtain b where b: "find_block cr ?s ?p = Ok (Some b)" "block_generation_count cr (Slice ?s) b = (Ok gen :: (inspect_error, _) outcome)"
    by (rule header_generation_found [OF g])
  have "?p' b = Ok True" using find_block_found [OF b(1)] b(2) by (simp add: valid_header_true)
  then have "find_block cr ?s ?p' = Ok (Some b)" by (rule find_block_16 [OF len(2) b(1)])
  then show ?thesis using assms len by (simp add: snapshot_step_def quiet_attempt_def)
qed

lemma quiet_snapshot:
  assumes "i < SNAPSHOT_TRIES" and "\<forall>j<i. blocked_attempt cr v j" and "quiet_attempt v i bytes"
    and "header_generation_count cr (take 16 bytes) = Ok (Some gen)"
  shows "snapshot_from_vmo cr v = Ok bytes"
  using blocked_iterates [OF assms(1,2)] iterateP_break [of "snapshot_step cr v", OF quiet_step [OF assms(1,3,4)]]
  by (simp add: snapshot_from_vmo_def loopP_def)

lemma with_tails_step:
  "snapshot_step cr (with_tails tails v) i u = (case snapshot_step cr v i u of
     (Ok (Inr b), u') \<Rightarrow> (Ok (Inr (take 16 b @ tails i)), u') | r \<Rightarrow> r)"
  by (auto simp: snapshot_step_def with_tails_def bindP_readP split: outcome.splits option.splits)

lemma with_tails_iterates:
  assumes "iterateP (snapshot_step cr v) i u = Some (Ok buffer, u')" and "i \<le> SNAPSHOT_TRIES"
  shows "\<exists>j<SNAPSHOT_TRIES. iterateP (snapshot_step cr (with_tails tails v)) i u = Some (Ok (take 16 buffer @ tails j), u')"
  using assms
proof (induction "SNAPSHOT_TRIES - i" arbitrary: i u rule: less_induct)
  case less
  obtain r w where st: "snapshot_step cr v i u = (r, w)" by (cases "snapshot_step cr v i u")
  show ?case
  proof (cases r)
    case (Ok y)
    show ?thesis
    proof (cases y)
      case (Inl i')
      then have i: "i' = Suc i" "i < SNAPSHOT_TRIES" using snapshot_step_next [of cr v i u i' w] st Ok by auto
      have "iterateP (snapshot_step cr v) i' w = Some (Ok buffer, u')"
        using less.prems(1) iterateP_continue [of "snapshot_step cr v"] st Ok Inl by simp
      then show ?thesis
        using less.hyps [of i' w] i iterateP_continue [of "snapshot_step cr (with_tails tails v)"] with_tails_step [of cr tails v i u] st Ok Inl by auto
    next
      case (Inr b)
      then have "b = buffer" "w = u'" using less.prems(1) iterateP_break [of "snapshot_step cr v"] st Ok by auto
      moreover have "i < SNAPSHOT_TRIES" using snapshot_step_done [of cr v i u b w] st Ok Inr by simp
      ultimately show ?thesis
        using iterateP_break [of "snapshot_step cr (with_tails tails v)"] with_tails_step [of cr tails v i u] st Ok Inr by auto
    qed
  qed (use less.prems(1) st in \<open>simp_all add: iterateP_fail\<close>)
qed

lemma with_tails_snapshot:
  assumes "snapshot_from_vmo cr v = Ok buffer"
  shows "\<exists>j<SNAPSHOT_TRIES. snapshot_from_vmo cr (with_tails tails v) = Ok (take 16 buffer @ tails j)"
proof -
  obtain u where "iterateP (snapshot_step cr v) 0 () = Some (Ok buffer, u)"
    using assms by (auto simp: snapshot_from_vmo_def loopP_def split: option.splits)
  from with_tails_iterates [OF this, of tails] show ?thesis by (auto simp: snapshot_from_vmo_def loopP_def)
qed

section \<open>The properties\<close>

text \<open>
  C24. The reader always ends: taking a snapshot from a VMO whose reads return makes at most 1024
  attempts, and reading the hierarchy of any byte string whatever ends with a result, an error or
  a panic: no block order, no chain of extents that points back into itself and no cycle of parents
  keeps it running.
\<close>

theorem reader_ends:
  assumes "vmo_returns v"
  shows "snapshot_from_vmo cr v \<noteq> Diverge \<and> (\<forall>s. read_hierarchy cr s \<noteq> Diverge)"
  using snapshot_ends [OF assms, of cr] read_hierarchy_ends [of cr] by (simp add: ends_def)

text \<open>A VMO that never changes.\<close>

definition still_vmo :: "u8 list \<Rightarrow> vmo" where
  "still_vmo bytes = \<lparr>vmo_read_header = \<lambda>_. Ok (take 16 bytes), vmo_get_size = \<lambda>_. Ok (length bytes),
     vmo_read = \<lambda>_ n. Ok (take n bytes)\<rparr>"

lemma still_vmo_returns: "vmo_returns (still_vmo bytes)"
  by (simp add: vmo_returns_def still_vmo_def)

theorem reader_ends_witness:
  "snapshot_from_vmo shift_mask_ops (still_vmo [1, 2, 3]) \<noteq> Diverge \<and> read_hierarchy shift_mask_ops [1, 2, 3] \<noteq> Diverge"
  using reader_ends [OF still_vmo_returns] by blast


text \<open>The bytes of an empty, unlocked VMO: a header of order 0 with the magic number and generation 0.\<close>

definition fresh_header :: "u8 list" where
  "fresh_header = [0x20, 0, 0, 0, 0x49, 0x4E, 0x53, 0x50] @ replicate 8 0"

lemma fresh_header_words:
  "read_header (Slice fresh_header) 0 = (Ok 0x50534E4900000020 :: (inspect_error, u64) outcome)"
  "read_payload (Slice fresh_header) 0 = (Ok 0 :: (inspect_error, u64) outcome)"
  by code_simp+

lemma fresh_header_fields:
  "hdr_header_magic shift_mask_ops 0x50534E4900000020 = HEADER_MAGIC_NUMBER"
  "block_type_from_u8 (hdr_block_type shift_mask_ops 0x50534E4900000020) = Some Header"
  "hdr_header_version shift_mask_ops 0x50534E4900000020 = HEADER_VERSION_NUMBER"
  "hdr_order shift_mask_ops 0x50534E4900000020 = 0" "pl_header_generation_count shift_mask_ops 0 = 0"
proof -
  have "bit_range shift_mask_ops 0x50534E4900000020 63 32 = 0x50534E49" by code_simp
  then show "hdr_header_magic shift_mask_ops 0x50534E4900000020 = HEADER_MAGIC_NUMBER"
    by (simp add: hdr_header_magic_def get_field_def HEADER_MAGIC_NUMBER_def)
qed code_simp+

lemmas fresh_header_simps = fresh_header_words fresh_header_fields iter_next_def block_order_def header_field_def
  order_to_size_eq valid_header_def get_block_type_def header_magic_def header_version_def check_type_def
  header_is_locked_def block_generation_count_def payload_field_def

lemma fresh_header_found:
  assumes "p 0 = Ok True"
  shows "find_block shift_mask_ops fresh_header p = Ok (Some 0)"
proof -
  have "index_for_offset 0 = (Ok 0 :: (inspect_error, nat) outcome)"
    by (simp add: index_for_offset_def MIN_ORDER_SIZE_def)
  moreover have "length fresh_header = 16" by (simp add: fresh_header_def)
  ultimately have "find_step shift_mask_ops fresh_header p 0 () = (Ok (Inr (Some 0)), ())"
    using assms by (simp add: find_step_def fresh_header_simps)
  then show ?thesis by (simp add: find_block_def loopP_break)
qed

lemma fresh_generation: "header_generation_count shift_mask_ops fresh_header = Ok (Some 0)"
  by (simp add: header_generation_count_def fresh_header_found fresh_header_simps fresh_header_def [THEN arg_cong [of _ _ length]])


end
