(* ===== verification/Inspect_Reader_Tree.thy ===== *)
theory Inspect_Reader_Tree
  imports Inspect_Reader_Correct
begin

text \<open>
  What the reader makes of a snapshot: a declarative meaning of the blocks of a snapshot (the
  nodes, their properties and their parents), and the proof that scanning the blocks and reducing
  the scanned nodes builds exactly the tree they describe.
\<close>

section \<open>The entries of a snapshot\<close>

text \<open>The blocks the iterator visits.\<close>

function blocks_from :: "crate_ops \<Rightarrow> u8 list \<Rightarrow> nat \<Rightarrow> nat list" where
  "blocks_from cr s offset = (case (iter_next cr s offset :: (inspect_error, (nat \<times> nat) option) outcome) of
      Ok (Some (i, offset')) \<Rightarrow> i # blocks_from cr s offset' | _ \<Rightarrow> [])"
  by pat_completeness auto
termination
  by (relation "measure (\<lambda>(_, s, offset). length s - offset)") (auto dest!: iter_next_progress)

declare blocks_from.simps [simp del]

text \<open>What a block says: it is a node with a name and a parent, or a property of its parent, or neither.\<close>

datatype entry = NodeEntry "u8 list" nat | PropertyEntry nat inspect_property

definition block_property :: "crate_ops \<Rightarrow> u8 list \<Rightarrow> nat \<Rightarrow> block_type \<Rightarrow> (inspect_error, inspect_property) outcome" where
  "block_property cr s i t = bindO (value_name cr s i) (\<lambda>name.
     case t of
       IntValue \<Rightarrow> bindO (int_value cr (Slice s) i) (\<lambda>v. Ok (IntProperty name v))
     | UintValue \<Rightarrow> bindO (uint_value cr (Slice s) i) (\<lambda>v. Ok (UintProperty name v))
     | DoubleValue \<Rightarrow> bindO (double_value cr (Slice s) i) (\<lambda>v. Ok (DoubleProperty name v))
     | ArrayValue \<Rightarrow>
         bindO (array_slots cr (Slice s) i) (\<lambda>slots. bindO (block_order cr (Slice s) i) (\<lambda>order'.
           if array_capacity order' < slots then Err TooManySlots
           else bindO (array_entry_type cr (Slice s) i) (\<lambda>et.
             let array = (\<lambda>getv mk. bindO (read_slots (getv cr (Slice s) i) [0..<slots]) (\<lambda>values.
                   bindO (unwrapO (get_array_format cr (Slice s) i)) (\<lambda>fmt. Ok (mk name values fmt))))
             in case et of
                  IntValue \<Rightarrow> array array_get_int_slot IntArrayProperty
                | UintValue \<Rightarrow> array array_get_uint_slot UintArrayProperty
                | DoubleValue \<Rightarrow> array array_get_double_slot DoubleArrayProperty
                | _ \<Rightarrow> Err UnexpectedArrayEntryType)))
     | _ \<Rightarrow>
         bindO (property_total_length cr (Slice s) i) (\<lambda>total. bindO (property_extent_index cr (Slice s) i) (\<lambda>extent.
         bindO (read_extents cr s total extent) (\<lambda>buffer. bindO (get_property_format cr (Slice s) i) (\<lambda>fmt.
           Ok (case fmt of PfString \<Rightarrow> StringProperty name (utf8_lossy buffer) | PfBytes \<Rightarrow> BytesProperty name buffer))))))"

abbreviation property_types :: "block_type set" where
  "property_types \<equiv> {IntValue, UintValue, DoubleValue, ArrayValue, PropertyValue}"

definition entry_of :: "crate_ops \<Rightarrow> u8 list \<Rightarrow> nat \<Rightarrow> (inspect_error, entry option) outcome" where
  "entry_of cr s i = bindO (get_block_type cr (Slice s) i) (\<lambda>t.
     if t = NodeValue then bindO (value_name cr s i) (\<lambda>name. bindO (parent_index cr (Slice s) i) (\<lambda>parent.
       Ok (Some (NodeEntry name parent))))
     else if t \<in> property_types then bindO (parent_index cr (Slice s) i) (\<lambda>parent.
       bindO (block_property cr s i t) (\<lambda>p. Ok (Some (PropertyEntry parent p))))
     else Ok None)"

text \<open>What the scanner records of an entry.\<close>

fun record_entry :: "nat \<Rightarrow> entry option \<Rightarrow> parsed_nodes \<Rightarrow> parsed_nodes" where
  "record_entry i None nodes = nodes"
| "record_entry i (Some (NodeEntry name parent)) nodes =
     (let nodes' = om_entry i scanned_node_new (scanned_node_initialize name parent) nodes
      in if parent \<noteq> 0 \<and> parent \<noteq> i
         then om_entry parent scanned_node_new (\<lambda>n. n\<lparr>child_nodes_count := child_nodes_count n + 1\<rparr>) nodes'
         else nodes')"
| "record_entry i (Some (PropertyEntry parent p)) nodes =
     om_entry parent scanned_node_new (push_property p) (om_entry parent scanned_node_new id nodes)"

abbreviation parse_block :: "crate_ops \<Rightarrow> u8 list \<Rightarrow> nat \<Rightarrow> block_type \<Rightarrow> unit rprog" where
  "parse_block cr s block t \<equiv> (case t of
       NodeValue \<Rightarrow> parse_node cr s block
     | IntValue \<Rightarrow> parse_numeric_property cr s block
     | UintValue \<Rightarrow> parse_numeric_property cr s block
     | DoubleValue \<Rightarrow> parse_numeric_property cr s block
     | ArrayValue \<Rightarrow> parse_array_property cr s block
     | PropertyValue \<Rightarrow> parse_property cr s block
     | _ \<Rightarrow> returnP ())"

lemma parse_node_records:
  assumes "value_name cr s i = Ok name" and "parent_index cr (Slice s) i = Ok parent"
  shows "parse_node cr s i nodes = (Ok (), record_entry i (Some (NodeEntry name parent)) nodes)"
  using assms by (simp add: parse_node_def get_or_create_scanned_node_def Let_def)

lemma parse_numeric_records:
  assumes "parent_index cr (Slice s) i = Ok parent" and "block_property cr s i t = Ok p"
    and "get_block_type cr (Slice s) i = (Ok t :: (inspect_error, _) outcome)" and "t \<in> {IntValue, UintValue, DoubleValue}"
  shows "parse_numeric_property cr s i nodes = (Ok (), record_entry i (Some (PropertyEntry parent p)) nodes)"
proof -
  obtain name where "value_name cr s i = Ok name" using assms(2) by (auto simp: block_property_def bindO_eq_Ok_iff)
  then show ?thesis using assms
    by (auto simp: block_property_def bindO_eq_Ok_iff parse_numeric_property_def get_or_create_scanned_node_def)
qed

lemma parse_array_records:
  assumes "parent_index cr (Slice s) i = Ok parent" and p: "block_property cr s i ArrayValue = Ok p"
  shows "parse_array_property cr s i nodes = (Ok (), record_entry i (Some (PropertyEntry parent p)) nodes)"
proof -
  obtain name slots k where name: "value_name cr s i = Ok name" and slots: "array_slots cr (Slice s) i = Ok slots"
      and k: "block_order cr (Slice s) i = (Ok k :: (inspect_error, _) outcome)" and le: "\<not> array_capacity k < slots"
    using p by (auto simp: block_property_def bindO_eq_Ok_iff split: if_splits)
  obtain et where et: "array_entry_type cr (Slice s) i = Ok et"
    using p name slots k le by (auto simp: block_property_def bindO_eq_Ok_iff)
  note known = name slots k le et assms(1) parse_array_property_def get_or_create_scanned_node_def
  have "et \<in> {IntValue, UintValue, DoubleValue}"
    using p name slots k le et by (cases et) (simp_all add: block_property_def)
  then consider "et = IntValue" | "et = UintValue" | "et = DoubleValue" by blast
  then show ?thesis
    by cases (use p in \<open>auto simp: known block_property_def bindO_eq_Ok_iff\<close>)
qed

lemma parse_property_records:
  assumes "parent_index cr (Slice s) i = Ok parent" and p: "block_property cr s i PropertyValue = Ok p"
  shows "parse_property cr s i nodes = (Ok (), record_entry i (Some (PropertyEntry parent p)) nodes)"
proof -
  obtain name total extent buffer fmt where "value_name cr s i = Ok name" "property_total_length cr (Slice s) i = Ok total"
      "property_extent_index cr (Slice s) i = Ok extent" "read_extents cr s total extent = Ok buffer"
      "get_property_format cr (Slice s) i = Ok fmt"
      and "p = (case fmt of PfString \<Rightarrow> StringProperty name (utf8_lossy buffer) | PfBytes \<Rightarrow> BytesProperty name buffer)"
    using p by (auto simp: block_property_def bindO_eq_Ok_iff)
  then show ?thesis using assms(1) by (simp add: parse_property_def get_or_create_scanned_node_def)
qed

lemma parse_block_records:
  assumes t: "get_block_type cr (Slice s) i = (Ok t :: (inspect_error, _) outcome)" and e: "entry_of cr s i = Ok e"
  shows "parse_block cr s i t nodes = (Ok (), record_entry i e nodes)"
proof -
  consider "t = NodeValue" | "t \<in> property_types" | "t \<notin> insert NodeValue property_types" by blast
  then show ?thesis
  proof cases
    case 1
    then obtain name parent where "value_name cr s i = Ok name" "parent_index cr (Slice s) i = Ok parent"
        and e: "e = Some (NodeEntry name parent)"
      using e t by (auto simp: entry_of_def bindO_eq_Ok_iff)
    from parse_node_records [OF this(1,2)] show ?thesis by (simp only: 1 e block_type.case)
  next
    case 2
    then obtain parent p where *: "parent_index cr (Slice s) i = Ok parent" "block_property cr s i t = Ok p"
        and e: "e = Some (PropertyEntry parent p)"
      using e t by (fastforce simp: entry_of_def bindO_eq_Ok_iff)
    show ?thesis
      using 2 parse_numeric_records [OF * t] parse_array_records [OF *(1)] parse_property_records [OF *(1)] *(2) e
      by (elim insertE) simp_all
  next
    case 3
    then have "e = None" using e by (simp add: entry_of_def t)
    then show ?thesis using 3 by (cases t) simp_all
  qed
qed

section \<open>Scanning\<close>

definition entries :: "crate_ops \<Rightarrow> u8 list \<Rightarrow> (nat \<times> entry) list" where
  "entries cr s = concat (map (\<lambda>i. case entry_of cr s i of Ok (Some e) \<Rightarrow> [(i, e)] | _ \<Rightarrow> []) (blocks_from cr s 0))"

text \<open>A snapshot of at most 4 GiB that starts with a header and whose blocks can all be read.\<close>

definition readable :: "crate_ops \<Rightarrow> u8 list \<Rightarrow> bool" where
  "readable cr s \<longleftrightarrow> length s \<le> 2 ^ 32
     \<and> (case (get_block_type cr (Slice s) 0 :: (inspect_error, block_type) outcome) of Ok t \<Rightarrow> t = Header | _ \<Rightarrow> False)
     \<and> (\<forall>i\<in>set (blocks_from cr s 0). case entry_of cr s i of Ok _ \<Rightarrow> True | _ \<Rightarrow> False)"

lemma iter_next_cases:
  assumes "length s \<le> 2 ^ 32"
  shows "iter_next cr s offset = (Ok None :: (inspect_error, _) outcome)
    \<or> (\<exists>offset'. iter_next cr s offset = (Ok (Some (offset div 16, offset')) :: (inspect_error, _) outcome)
        \<and> offset + 16 \<le> offset')"
proof -
  have "\<exists>h. read_header (Slice s) (offset div 16) = (Ok h :: (inspect_error, _) outcome)"
    by (simp add: read_header_def Let_def)
  then obtain k where k: "block_order cr (Slice s) (offset div 16) = (Ok k :: (inspect_error, _) outcome)"
    by (auto simp: block_order_def header_field_def)
  have "(1 :: nat) \<le> 2 ^ k" by simp
  then have size: "16 \<le> order_to_size k" unfolding order_to_size_eq by linarith
  show ?thesis
  proof (cases "offset \<ge> length s")
    case True
    then show ?thesis by (simp add: iter_next_def)
  next
    case False
    then have "index_for_offset offset = (Ok (offset div 16) :: (inspect_error, _) outcome)"
      using assms by (simp add: index_for_offset_def MIN_ORDER_SIZE_def)
    then show ?thesis using False k size by (simp add: iter_next_def)
  qed
qed

lemma blocks_from_increasing:
  assumes "length s \<le> 2 ^ 32"
  shows "distinct (blocks_from cr s offset) \<and> (\<forall>i\<in>set (blocks_from cr s offset). offset div 16 \<le> i)"
proof (induction "length s - offset" arbitrary: offset rule: less_induct)
  case less
  consider (stop) "iter_next cr s offset = (Ok None :: (inspect_error, _) outcome)"
    | (go) offset' where "iter_next cr s offset = (Ok (Some (offset div 16, offset')) :: (inspect_error, _) outcome)"
        and "offset + 16 \<le> offset'"
    using iter_next_cases [OF assms, of cr offset] by blast
  then show ?case
  proof cases
    case stop
    then show ?thesis by (simp add: blocks_from.simps)
  next
    case (go offset')
    have "length s - offset' < length s - offset" using iter_next_progress [OF go(1)] by auto
    then have IH: "distinct (blocks_from cr s offset')" "\<forall>i\<in>set (blocks_from cr s offset'). offset' div 16 \<le> i"
      using less by blast+
    moreover have "offset div 16 < offset' div 16" using div_le_mono [OF go(2), of 16] by simp
    ultimately show ?thesis using go(1) by (subst (1 2) blocks_from.simps) fastforce
  qed
qed

lemma entries_distinct: "length s \<le> 2 ^ 32 \<Longrightarrow> distinct (map fst (entries cr s))"
proof -
  assume "length s \<le> 2 ^ 32"
  have "distinct is \<Longrightarrow> distinct (map fst (concat (map (\<lambda>i. case entry_of cr s i of Ok (Some e) \<Rightarrow> [(i, e)] | _ \<Rightarrow> []) is)))
      \<and> set (map fst (concat (map (\<lambda>i. case entry_of cr s i of Ok (Some e) \<Rightarrow> [(i, e)] | _ \<Rightarrow> []) is))) \<subseteq> set is" for "is"
    by (induction "is") (auto split: outcome.splits option.splits)
  then show ?thesis using blocks_from_increasing [OF \<open>length s \<le> 2 ^ 32\<close>] by (simp add: entries_def)
qed

text \<open>The scanner records every entry in order.\<close>

definition scanned :: "(nat \<times> entry) list \<Rightarrow> parsed_nodes" where
  "scanned es = fold (\<lambda>(i, e). record_entry i (Some e)) es []"

lemma scan_loop:
  assumes len: "length s \<le> 2 ^ 32" and header: "get_block_type cr (Slice s) 0 = (Ok Header :: (inspect_error, _) outcome)"
    and "\<forall>i\<in>set (blocks_from cr s offset). \<exists>e. entry_of cr s i = Ok e"
  shows "iterateP (scan_step cr s) offset nodes = Some (Ok (), fold (\<lambda>(i, e). record_entry i (Some e))
    (concat (map (\<lambda>i. case entry_of cr s i of Ok (Some e) \<Rightarrow> [(i, e)] | _ \<Rightarrow> []) (blocks_from cr s offset))) nodes)"
  using assms(3)
proof (induction "length s - offset" arbitrary: offset nodes rule: less_induct)
  case less
  consider (stop) "iter_next cr s offset = (Ok None :: (inspect_error, _) outcome)"
    | (go) offset' where "iter_next cr s offset = (Ok (Some (offset div 16, offset')) :: (inspect_error, _) outcome)"
        and "offset + 16 \<le> offset'"
    using iter_next_cases [OF len, of cr offset] by blast
  then show ?case
  proof cases
    case stop
    then have "scan_step cr s offset nodes = (Ok (Inr ()), nodes)" by (simp add: scan_step_def)
    then have "iterateP (scan_step cr s) offset nodes = Some (Ok (), nodes)" by (rule iterateP_break)
    then show ?thesis using stop by (simp add: blocks_from.simps)
  next
    case (go offset')
    let ?i = "offset div 16"
    have blocks: "blocks_from cr s offset = ?i # blocks_from cr s offset'" using go(1) by (simp add: blocks_from.simps [of cr s offset])
    then obtain e where e: "entry_of cr s ?i = Ok e" using less.prems by auto
    then obtain t where t: "get_block_type cr (Slice s) ?i = (Ok t :: (inspect_error, _) outcome)"
      by (auto simp: entry_of_def bindO_eq_Ok_iff)
    have "0 < ?i \<or> t = Header" using t header by (cases "?i = 0") simp_all
    then have "scan_step cr s offset nodes = (Ok (Inl offset'), record_entry ?i e nodes)"
      using go(1) t parse_block_records [OF t e, of nodes] by (simp add: scan_step_def bindP_step)
    then have "iterateP (scan_step cr s) offset nodes = iterateP (scan_step cr s) offset' (record_entry ?i e nodes)"
      by (rule iterateP_continue)
    also have "\<dots> = Some (Ok (), fold (\<lambda>(i, e). record_entry i (Some e))
        (concat (map (\<lambda>i. case entry_of cr s i of Ok (Some e) \<Rightarrow> [(i, e)] | _ \<Rightarrow> []) (blocks_from cr s offset'))) (record_entry ?i e nodes))"
      by (rule less.hyps) (use iter_next_progress [OF go(1)] less.prems blocks in auto)
    finally show ?thesis by (cases e) (simp_all add: blocks \<open>entry_of cr s ?i = Ok e\<close>)
  qed
qed

lemma scan_blocks_scanned:
  assumes "readable cr s"
  shows "scan_blocks cr s = Ok (scanned (entries cr s))"
proof -
  have "get_block_type cr (Slice s) 0 = (Ok Header :: (inspect_error, _) outcome)"
    using assms by (auto simp: readable_def split: outcome.splits)
  moreover have "\<forall>i\<in>set (blocks_from cr s 0). \<exists>e. entry_of cr s i = Ok e"
    using assms unfolding readable_def by (fastforce split: outcome.splits)
  ultimately have "iterateP (scan_step cr s) 0 [] = Some (Ok (), scanned (entries cr s))"
    using scan_loop [of s cr 0 "[]"] assms by (simp add: readable_def scanned_def entries_def)
  then show ?thesis by (simp add: scan_blocks_def loopP_def)
qed

section \<open>The tree the entries describe\<close>

text \<open>The nodes, their parents, and the properties and children of a node.\<close>

definition node_indices :: "(nat \<times> entry) list \<Rightarrow> nat set" where
  "node_indices es = {i. \<exists>name parent. (i, NodeEntry name parent) \<in> set es}"

definition parent_of :: "(nat \<times> entry) list \<Rightarrow> nat \<Rightarrow> nat" where
  "parent_of es i = (case map_of es i of Some (NodeEntry _ parent) \<Rightarrow> parent | _ \<Rightarrow> 0)"

definition name_of :: "(nat \<times> entry) list \<Rightarrow> nat \<Rightarrow> u8 list" where
  "name_of es i = (case map_of es i of Some (NodeEntry name _) \<Rightarrow> name | _ \<Rightarrow> [])"

fun properties_of :: "(nat \<times> entry) list \<Rightarrow> nat \<Rightarrow> inspect_property list" where
  "properties_of [] k = []"
| "properties_of ((i, PropertyEntry parent p) # es) k = (if parent = k then [p] else []) @ properties_of es k"
| "properties_of ((i, NodeEntry _ _) # es) k = properties_of es k"

definition children_of :: "(nat \<times> entry) list \<Rightarrow> nat \<Rightarrow> nat set" where
  "children_of es k = {i \<in> node_indices es. parent_of es i = k}"

text \<open>
  A hierarchy represents a node when it has its name, its properties in the order of their blocks,
  and hierarchies that represent its children, each once, in some order.
\<close>

inductive represents :: "(nat \<times> entry) list \<Rightarrow> nat \<Rightarrow> node_hierarchy \<Rightarrow> bool" for es where
  "distinct is \<Longrightarrow> set is = children_of es i \<Longrightarrow> list_all2 (represents es) is cs \<Longrightarrow>
     represents es i (NodeHierarchy (name_of es i) (properties_of es i) cs)"

text \<open>
  The entries form a tree: every property belongs to a node, every node but one has a node as its
  parent, and going up from any node leads to the top in fewer steps than there are entries.
\<close>

definition forms_tree :: "(nat \<times> entry) list \<Rightarrow> nat \<Rightarrow> bool" where
  "forms_tree es root \<longleftrightarrow> distinct (map fst es) \<and> root \<in> node_indices es \<and> 0 \<notin> node_indices es
     \<and> (\<forall>i parent p. (i, PropertyEntry parent p) \<in> set es \<longrightarrow> parent \<in> node_indices es)
     \<and> (\<forall>i\<in>node_indices es. if i = root then parent_of es i = 0 else parent_of es i \<in> node_indices es)
     \<and> (\<forall>i\<in>node_indices es. (parent_of es ^^ length es) i = 0)"

lemma map_of_snoc: "i \<notin> fst ` set es \<Longrightarrow> map_of (es @ [(i, e)]) = (map_of es)(i \<mapsto> e)"
  by (auto simp: map_add_def fun_eq_iff split: option.splits dest: map_of_SomeD)
    (metis fst_conv image_eqI map_of_SomeD)

lemma properties_of_append: "properties_of (es @ fs) k = properties_of es k @ properties_of fs k"
  by (induction es k rule: properties_of.induct) auto

section \<open>What the scanner has recorded\<close>

definition counted :: "(nat \<times> entry) list \<Rightarrow> nat \<Rightarrow> nat set" where
  "counted es k = {i \<in> node_indices es. parent_of es i = k \<and> k \<noteq> 0 \<and> k \<noteq> i}"

definition scanned_as :: "(nat \<times> entry) list \<Rightarrow> nat \<Rightarrow> scanned_node" where
  "scanned_as es k = \<lparr>hierarchy = NodeHierarchy (name_of es k) (properties_of es k) [],
     child_nodes_count = card (counted es k), scanned_parent = parent_of es k\<rparr>"

definition mentioned :: "(nat \<times> entry) list \<Rightarrow> nat set" where
  "mentioned es = node_indices es \<union> {p. \<exists>i n. (i, NodeEntry n p) \<in> set es \<and> p \<noteq> 0 \<and> p \<noteq> i}
     \<union> {p. \<exists>i q. (i, PropertyEntry p q) \<in> set es}"

abbreviation looked_up :: "parsed_nodes \<Rightarrow> nat \<Rightarrow> scanned_node" where
  "looked_up m k \<equiv> (case om_get m k of None \<Rightarrow> scanned_node_new | Some v \<Rightarrow> v)"

lemma looked_up_entry: "looked_up (om_entry k scanned_node_new f m) j = (if j = k then f (looked_up m k) else looked_up m j)"
  by (simp add: om_get_entry)

lemma node_indices_finite [simp]: "finite (node_indices es)"
proof -
  have "node_indices es \<subseteq> fst ` set es" by (force simp: node_indices_def)
  then show ?thesis by (rule finite_subset) simp
qed

lemma counted_finite [simp]: "finite (counted es k)"
  by (simp add: counted_def)

lemma node_indices_append [simp]: "node_indices (es @ fs) = node_indices es \<union> node_indices fs"
  by (auto simp: node_indices_def)

lemma node_indices_single [simp]:
  "node_indices [(i, NodeEntry n p)] = {i}" "node_indices [(i, PropertyEntry k q)] = {}"
  by (auto simp: node_indices_def)

lemma node_indices_keys: "node_indices es \<subseteq> fst ` set es"
  by (force simp: node_indices_def)

lemma fresh_not_node: "i \<notin> fst ` set es \<Longrightarrow> i \<notin> node_indices es"
  using node_indices_keys [of es] by blast

lemma fresh_unknown:
  assumes fresh: "i \<notin> fst ` set es"
  shows "name_of es i = []"
    and "parent_of es i = 0"
proof -
  have "map_of es i = None" using fresh by (simp add: map_of_eq_None_iff)
  then show "name_of es i = []" "parent_of es i = 0" by (simp_all add: name_of_def parent_of_def)
qed

lemma node_snoc:
  assumes fresh: "i \<notin> fst ` set es"
  shows "name_of (es @ [(i, NodeEntry n p)]) k = (if k = i then n else name_of es k)"
    and "parent_of (es @ [(i, NodeEntry n p)]) k = (if k = i then p else parent_of es k)"
    and "properties_of (es @ [(i, NodeEntry n p)]) k = properties_of es k"
    and "counted (es @ [(i, NodeEntry n p)]) k = (if p = k \<and> k \<noteq> 0 \<and> k \<noteq> i then insert i (counted es k) else counted es k)"
proof -
  show *: "name_of (es @ [(i, NodeEntry n p)]) k = (if k = i then n else name_of es k)"
    "parent_of (es @ [(i, NodeEntry n p)]) k = (if k = i then p else parent_of es k)" for k
    unfolding name_of_def parent_of_def map_of_snoc [OF fresh] by simp_all
  show "properties_of (es @ [(i, NodeEntry n p)]) k = properties_of es k" by (simp add: properties_of_append)
  show "counted (es @ [(i, NodeEntry n p)]) k = (if p = k \<and> k \<noteq> 0 \<and> k \<noteq> i then insert i (counted es k) else counted es k)"
    using fresh_not_node [OF fresh] unfolding counted_def * node_indices_append node_indices_single by auto
qed

lemma mentioned_snoc:
  "mentioned (es @ [(i, NodeEntry n p)]) = insert i (mentioned es) \<union> (if p \<noteq> 0 \<and> p \<noteq> i then {p} else {})"
  "mentioned (es @ [(i, PropertyEntry k q)]) = insert k (mentioned es)"
  by (auto simp: mentioned_def)

lemma dom_om_entry: "dom (om_get (om_entry k d f m)) = insert k (dom (om_get m))"
  by (auto simp: om_get_entry)

lemma property_snoc:
  assumes fresh: "i \<notin> fst ` set es"
  shows "name_of (es @ [(i, PropertyEntry p q)]) k = name_of es k"
    and "parent_of (es @ [(i, PropertyEntry p q)]) k = parent_of es k"
    and "properties_of (es @ [(i, PropertyEntry p q)]) k = properties_of es k @ (if p = k then [q] else [])"
    and "counted (es @ [(i, PropertyEntry p q)]) k = counted es k"
proof -
  show *: "name_of (es @ [(i, PropertyEntry p q)]) k = name_of es k"
    "parent_of (es @ [(i, PropertyEntry p q)]) k = parent_of es k" for k
    using fresh_unknown [OF fresh] unfolding name_of_def parent_of_def map_of_snoc [OF fresh] by simp_all
  show "properties_of (es @ [(i, PropertyEntry p q)]) k = properties_of es k @ (if p = k then [q] else [])"
    by (simp add: properties_of_append)
  show "counted (es @ [(i, PropertyEntry p q)]) k = counted es k" unfolding counted_def * by simp
qed

lemma scanned_correct:
  assumes "distinct (map fst es)"
  shows "om_wf (scanned es) \<and> dom (om_get (scanned es)) = mentioned es \<and> (\<forall>k. looked_up (scanned es) k = scanned_as es k)"
  using assms
proof (induction es rule: rev_induct)
  case Nil
  show ?case
    by (simp add: scanned_def om_wf_def mentioned_def node_indices_def scanned_as_def scanned_node_new_def
        name_of_def parent_of_def counted_def)
next
  case (snoc x es)
  obtain i e where x: "x = (i, e)" by fastforce
  have fresh: "i \<notin> fst ` set es" using snoc.prems x by auto
  note i = fresh_not_node [OF fresh]
  have wf: "om_wf (scanned es)" and dom: "dom (om_get (scanned es)) = mentioned es"
    and look: "\<And>k. looked_up (scanned es) k = scanned_as es k" using snoc by auto
  have step: "scanned (es @ [x]) = record_entry i (Some e) (scanned es)" by (simp add: scanned_def x)
  show ?case
  proof (cases e)
    case (NodeEntry n p)
    have "om_wf (scanned (es @ [x]))" using wf by (simp add: step NodeEntry Let_def)
    moreover have "dom (om_get (scanned (es @ [x]))) = mentioned (es @ [x])"
      unfolding step unfolding x NodeEntry record_entry.simps Let_def mentioned_snoc by (simp add: dom_om_entry dom insert_commute)
    moreover have "looked_up (scanned (es @ [x])) k = scanned_as (es @ [x]) k" for k
    proof -
      have "scanned_as (es @ [x]) k = (if k = i then scanned_node_initialize n p (scanned_as es i)
          else if p = k \<and> k \<noteq> 0 then (scanned_as es k)\<lparr>child_nodes_count := card (counted es k) + 1\<rparr> else scanned_as es k)"
        unfolding scanned_as_def x NodeEntry node_snoc [OF fresh]
        using i by (auto simp: scanned_node_initialize_def counted_def)
      then show ?thesis unfolding step NodeEntry record_entry.simps Let_def
        by (auto simp: looked_up_entry look scanned_as_def)
    qed
    ultimately show ?thesis by blast
  next
    case (PropertyEntry p q)
    have "om_wf (scanned (es @ [x]))" using wf by (simp add: step PropertyEntry)
    moreover have "dom (om_get (scanned (es @ [x]))) = mentioned (es @ [x])"
      unfolding step unfolding x PropertyEntry record_entry.simps mentioned_snoc by (simp add: dom_om_entry dom)
    moreover have "looked_up (scanned (es @ [x])) k = scanned_as (es @ [x]) k" for k
    proof -
      have "scanned_as (es @ [x]) k = (if k = p then push_property q (scanned_as es k) else scanned_as es k)"
        unfolding scanned_as_def x PropertyEntry property_snoc [OF fresh] by (simp add: push_property_def)
      then show ?thesis unfolding step PropertyEntry record_entry.simps by (simp add: looked_up_entry look)
    qed
    ultimately show ?thesis by blast
  qed
qed

section \<open>Reducing\<close>

lemma pending_lookup:
  assumes "distinct (map fst nodes)"
  shows "om_get (foldl (\<lambda>m (k, n). if is_complete n then m else om_insert k n m) m nodes) k =
    (case map_of nodes k of Some n \<Rightarrow> if is_complete n then om_get m k else Some n | None \<Rightarrow> om_get m k)"
  using assms
proof (induction nodes arbitrary: m)
  case (Cons x nodes)
  obtain j n where x: "x = (j, n)" by fastforce
  have "map_of nodes j = None" using Cons.prems x by (simp add: map_of_eq_None_iff)
  then show ?case using Cons x by (cases "k = j") (auto simp: om_get_insert split: option.splits)
qed simp

text \<open>A pending node has the children of it that are attached already, and lacks some.\<close>

definition partial_node :: "(nat \<times> entry) list \<Rightarrow> nat set \<Rightarrow> nat \<Rightarrow> scanned_node \<Rightarrow> bool" where
  "partial_node es A k n \<longleftrightarrow> scanned_parent n = parent_of es k \<and> child_nodes_count n = card (children_of es k)
     \<and> \<not> children_of es k \<subseteq> A \<and> (\<exists>is cs. hierarchy n = NodeHierarchy (name_of es k) (properties_of es k) cs
       \<and> distinct is \<and> set is = children_of es k \<inter> A \<and> list_all2 (represents es) is cs)"

text \<open>The stack holds the nodes \<open>ks\<close>, complete but not yet attached; the nodes \<open>A\<close> are attached.\<close>

definition reducing_with :: "(nat \<times> entry) list \<Rightarrow> nat list \<Rightarrow> nat set \<Rightarrow> scanned_node list \<Rightarrow> parsed_nodes \<Rightarrow> bool" where
  "reducing_with es ks A stack pending \<longleftrightarrow> om_wf pending \<and> distinct ks \<and> set ks \<inter> A = {}
     \<and> dom (om_get pending) \<inter> (set ks \<union> A) = {} \<and> node_indices es = set ks \<union> dom (om_get pending) \<union> A
     \<and> (\<forall>k\<in>set ks \<union> A. children_of es k \<subseteq> A) \<and> (\<forall>a\<in>A. parent_of es a \<noteq> 0)
     \<and> list_all2 (\<lambda>k n. scanned_parent n = parent_of es k \<and> represents es k (hierarchy n)) ks stack
     \<and> (\<forall>k n. om_get pending k = Some n \<longrightarrow> partial_node es A k n)"

lemma children_finite [simp]: "finite (children_of es k)"
  by (simp add: children_of_def)

lemma forms_treeD:
  assumes "forms_tree es root"
  shows "root \<in> node_indices es" and "0 \<notin> node_indices es"
    and "i \<in> node_indices es \<Longrightarrow> parent_of es i = 0 \<longleftrightarrow> i = root"
    and "i \<in> node_indices es \<Longrightarrow> i \<noteq> root \<Longrightarrow> parent_of es i \<in> node_indices es"
    and "parent_of es root = 0" and "i \<in> node_indices es \<Longrightarrow> (parent_of es ^^ length es) i = 0"
  using assms unfolding forms_tree_def by (metis (full_types))+

text \<open>Nodes have a rank that grows from parent to child.\<close>

definition rank :: "(nat \<times> entry) list \<Rightarrow> nat \<Rightarrow> nat" where
  "rank es i = (LEAST n. (parent_of es ^^ n) i = 0)"

lemma rank_child:
  assumes "forms_tree es root" and "i \<in> node_indices es"
  shows "rank es i = Suc (rank es (parent_of es i))"
proof -
  have "i \<noteq> 0" using forms_treeD(2) [OF assms(1)] assms(2) by metis
  then show ?thesis unfolding rank_def
    using Least_Suc [of "\<lambda>n. (parent_of es ^^ n) i = 0" "length es"] forms_treeD(6) [OF assms]
    by (simp add: funpow_swap1)
qed

lemma no_self_parent:
  assumes "forms_tree es root" and "i \<in> node_indices es"
  shows "parent_of es i \<noteq> i"
  using rank_child [OF assms] by auto

lemma counted_children:
  assumes "forms_tree es root" and "k \<in> node_indices es"
  shows "counted es k = children_of es k"
proof -
  have "k \<noteq> 0" using forms_treeD(2) [OF assms(1)] assms(2) by metis
  then show ?thesis using no_self_parent [OF assms(1)] by (auto simp: counted_def children_of_def)
qed

lemma mentioned_nodes:
  assumes "forms_tree es root"
  shows "mentioned es = node_indices es"
proof -
  have "p \<in> node_indices es" if "(i, NodeEntry n p) \<in> set es" "p \<noteq> 0" for i n p
  proof -
    have "map_of es i = Some (NodeEntry n p)" using that assms by (simp add: forms_tree_def)
    then have "parent_of es i = p" by (simp add: parent_of_def)
    moreover have "i \<in> node_indices es" using that by (auto simp: node_indices_def)
    ultimately show ?thesis using forms_treeD(3,4) [OF assms, of i] forms_treeD(5) [OF assms] that(2) by metis
  qed
  moreover have "p \<in> node_indices es" if "(i, PropertyEntry p q) \<in> set es" for i p q
    using that assms unfolding forms_tree_def by blast
  ultimately show ?thesis by (auto simp: mentioned_def)
qed

lemma reducing_starts:
  assumes tree: "forms_tree es root" and split: "split_parsed (scanned es) = (stack, pending)"
  shows "\<exists>ks. reducing_with es ks {} stack pending"
proof -
  let ?ns = "scanned es"
  let ?ks = "rev (map fst (filter (is_complete \<circ> snd) ?ns))"
  have "distinct (map fst es)" using tree by (simp add: forms_tree_def)
  note sc = scanned_correct [OF this]
  have wf: "om_wf ?ns" and dom: "dom (om_get ?ns) = node_indices es" using sc mentioned_nodes [OF tree] by auto
  have keys: "distinct (map fst ?ns)" using wf by (simp add: om_wf_def strict_sorted_iff)
  have node: "n = scanned_as es k" if "om_get ?ns k = Some n" for k n using sc that by (metis option.case(2))
  have complete: "is_complete (scanned_as es k) \<longleftrightarrow> children_of es k = {}" if "k \<in> node_indices es" for k
    using counted_children [OF tree that] by (simp add: is_complete_def scanned_as_def)
  have stack: "stack = rev (map snd (filter (is_complete \<circ> snd) ?ns))" using split by (simp add: split_parsed_def)
  have pending: "om_get pending k = (case om_get ?ns k of Some n \<Rightarrow> if is_complete n then None else Some n | None \<Rightarrow> None)" for k
    using split pending_lookup [OF keys, of "[]" k] by (auto simp: split_parsed_def split: option.splits)
  have in_ks: "k \<in> set ?ks \<longleftrightarrow> k \<in> node_indices es \<and> children_of es k = {}" for k
  proof -
    have "k \<in> set ?ks \<longleftrightarrow> (\<exists>n. om_get ?ns k = Some n \<and> is_complete n)"
      using keys by (force simp: map_of_eq_Some_iff)
    also have "\<dots> \<longleftrightarrow> k \<in> node_indices es \<and> children_of es k = {}"
    proof (cases "om_get ?ns k")
      case None
      then have "k \<notin> node_indices es" using dom by blast
      then show ?thesis using None by simp
    next
      case (Some n)
      then have "k \<in> node_indices es" using dom by blast
      then show ?thesis using Some node [OF Some] complete by simp
    qed
    finally show ?thesis .
  qed
  have in_pending: "k \<in> dom (om_get pending) \<longleftrightarrow> k \<in> node_indices es \<and> children_of es k \<noteq> {}" for k
    using pending [of k] node [of k] complete [of k] dom by (auto split: option.splits if_splits)
  have "reducing_with es ?ks {} stack pending"
    unfolding reducing_with_def
  proof (intro conjI)
    show "om_wf pending" using om_wf_pending [of ?ns] split by simp
    show "distinct ?ks" using keys by (simp add: distinct_map_filter)
    show "dom (om_get pending) \<inter> (set ?ks \<union> {}) = {}" using in_ks in_pending by blast
    show "node_indices es = set ?ks \<union> dom (om_get pending) \<union> {}" using in_ks in_pending by blast
    show "\<forall>k\<in>set ?ks \<union> {}. children_of es k \<subseteq> {}" using in_ks by blast
    have "scanned_parent n = parent_of es k \<and> represents es k (hierarchy n)" if "(k, n) \<in> set ?ns" "is_complete n" for k n
    proof -
      have g: "om_get ?ns k = Some n" using that(1) keys by simp
      then have "k \<in> node_indices es" using dom by blast
      then have "children_of es k = {}" using that(2) node [OF g] complete by simp
      then show ?thesis using node [OF g] represents.intros [of "[]" es k "[]"] by (simp add: scanned_as_def)
    qed
    then show "list_all2 (\<lambda>k n. scanned_parent n = parent_of es k \<and> represents es k (hierarchy n)) ?ks stack"
      unfolding stack by (auto simp: list_all2_map1 list_all2_map2 list_all2_same list_all2_rev)
    show "\<forall>k n. om_get pending k = Some n \<longrightarrow> partial_node es {} k n"
    proof (intro allI impI)
      fix k n
      assume n: "om_get pending k = Some n"
      then have g: "om_get ?ns k = Some n" using pending [of k] by (auto split: option.splits if_splits)
      have "k \<in> node_indices es" "children_of es k \<noteq> {}" using n in_pending by blast+
      then show "partial_node es {} k n"
        using node [OF g] counted_children [OF tree, of k] by (simp add: partial_node_def scanned_as_def)
    qed
  qed simp_all
  then show ?thesis ..
qed

lemma attach_child:
  assumes part: "partial_node es A p n" and k: "k \<in> children_of es p" "k \<notin> A" and c: "represents es k h"
  defines "n' \<equiv> push_child h n"
  shows "is_complete n' \<longleftrightarrow> children_of es p \<subseteq> insert k A"
    and "children_of es p \<subseteq> insert k A \<Longrightarrow> represents es p (hierarchy n')"
    and "\<not> children_of es p \<subseteq> insert k A \<Longrightarrow> partial_node es (insert k A) p n'"
    and "scanned_parent n' = parent_of es p"
proof -
  obtain "is" cs where h: "hierarchy n = NodeHierarchy (name_of es p) (properties_of es p) cs" and d: "distinct is"
      and set_is: "set is = children_of es p \<inter> A" and reps: "list_all2 (represents es) is cs"
    using part by (auto simp: partial_node_def)
  have h': "hierarchy n' = NodeHierarchy (name_of es p) (properties_of es p) (cs @ [h])"
    by (simp add: n'_def push_child_def h)
  have d': "distinct (is @ [k])" using d set_is k by auto
  have set': "set (is @ [k]) = children_of es p \<inter> insert k A" using set_is k by auto
  have reps': "list_all2 (represents es) (is @ [k]) (cs @ [h])" using reps c by (simp add: list_all2_appendI)
  have n: "child_nodes_count n' = card (children_of es p)" "scanned_parent n' = parent_of es p"
    using part by (simp_all add: partial_node_def n'_def push_child_def)
  have "length (cs @ [h]) = card (children_of es p \<inter> insert k A)"
    using list_all2_lengthD [OF reps'] distinct_card [OF d'] set' by simp
  then have "is_complete n' \<longleftrightarrow> card (children_of es p \<inter> insert k A) = card (children_of es p)"
    by (simp add: is_complete_def h' n)
  also have "\<dots> \<longleftrightarrow> children_of es p \<subseteq> insert k A"
    using card_subset_eq [of "children_of es p" "children_of es p \<inter> insert k A"] by (auto simp: Int_absorb2)
  finally show "is_complete n' \<longleftrightarrow> children_of es p \<subseteq> insert k A" .
  show "represents es p (hierarchy n')" if "children_of es p \<subseteq> insert k A"
    unfolding h' by (rule represents.intros [OF d' _ reps']) (use set' that in auto)
  show "partial_node es (insert k A) p n'" if "\<not> children_of es p \<subseteq> insert k A"
    unfolding partial_node_def using n that h' d' set' reps' by blast
  show "scanned_parent n' = parent_of es p" by (rule n)
qed

lemma partial_node_other:
  "partial_node es A j n \<Longrightarrow> k \<notin> children_of es j \<Longrightarrow> partial_node es (insert k A) j n"
  by (auto simp: partial_node_def)

lemma reducing_done:
  assumes tree: "forms_tree es root" and inv: "reducing_with es ks A stack pending"
    and stack: "stack = node # rest" "scanned_parent node = 0"
  shows "represents es root (hierarchy node)"
proof -
  obtain k ks' where ks: "ks = k # ks'" and k: "parent_of es k = 0" "represents es k (hierarchy node)"
    using inv stack by (auto simp: reducing_with_def list_all2_Cons2)
  have "k \<in> node_indices es" using inv ks by (auto simp: reducing_with_def)
  then show ?thesis using k forms_treeD(3) [OF tree] by simp
qed

lemma reducing_step:
  assumes tree: "forms_tree es root" and inv: "reducing_with es ks A (node # rest) pending"
    and node: "scanned_parent node \<noteq> 0"
  shows "\<exists>ks A stack pending'. reduce_step (node # rest) pending = (Ok (Inl stack), pending') \<and> reducing_with es ks A stack pending'"
proof -
  obtain k ks' where ks: "ks = k # ks'" and k: "scanned_parent node = parent_of es k" "represents es k (hierarchy node)"
      and rest: "list_all2 (\<lambda>k n. scanned_parent n = parent_of es k \<and> represents es k (hierarchy n)) ks' rest"
    using inv by (auto simp: reducing_with_def list_all2_Cons2)
  let ?p = "parent_of es k"
  have kn: "k \<in> node_indices es" and kA: "k \<notin> A" using inv ks by (auto simp: reducing_with_def)
  have pn: "?p \<in> node_indices es" using forms_treeD(3,4) [OF tree kn] node k(1) by metis
  have kp: "k \<in> children_of es ?p" using kn by (simp add: children_of_def)
  have "?p \<notin> set ks \<union> A" using inv kp kA by (auto simp: reducing_with_def)
  then obtain n where n: "om_get pending ?p = Some n" using pn inv by (auto simp: reducing_with_def)
  then have part: "partial_node es A ?p n" using inv by (simp add: reducing_with_def)
  let ?n = "push_child (hierarchy node) n"
  note attach = attach_child [OF part kp kA k(2)]
  let ?m = "om_insert ?p ?n pending"
  have wf: "om_wf pending" using inv by (simp add: reducing_with_def)
  have others: "partial_node es (insert k A) j m" if "om_get pending j = Some m" "j \<noteq> ?p" for j m
  proof (rule partial_node_other)
    show "partial_node es A j m" using inv that by (simp add: reducing_with_def)
    show "k \<notin> children_of es j" using that by (simp add: children_of_def)
  qed
  show ?thesis
  proof (cases "children_of es ?p \<subseteq> insert k A")
    case True
    have "reduce_step (node # rest) pending = (Ok (Inl (?n # rest)), om_remove ?p ?m)"
      using node n True attach(1) by (simp add: reduce_step_def k(1) Let_def)
    moreover have "reducing_with es (?p # ks') (insert k A) (?n # rest) (om_remove ?p ?m)"
      unfolding reducing_with_def
    proof (intro conjI)
      have get: "om_get (om_remove ?p ?m) = (om_get pending)(?p := None)"
        using wf by (simp add: om_get_remove om_get_insert)
      show "om_wf (om_remove ?p ?m)" using wf by simp
      show "distinct (?p # ks')" "set (?p # ks') \<inter> insert k A = {}"
        using inv ks \<open>?p \<notin> set ks \<union> A\<close> by (auto simp: reducing_with_def)
      show "dom (om_get (om_remove ?p ?m)) \<inter> (set (?p # ks') \<union> insert k A) = {}"
        "node_indices es = set (?p # ks') \<union> dom (om_get (om_remove ?p ?m)) \<union> insert k A"
        unfolding get using inv ks n by (auto simp: reducing_with_def)
      show "\<forall>j\<in>set (?p # ks') \<union> insert k A. children_of es j \<subseteq> insert k A"
        using inv ks True by (auto simp: reducing_with_def)
      show "\<forall>a\<in>insert k A. parent_of es a \<noteq> 0" using inv node k(1) by (simp add: reducing_with_def)
      show "list_all2 (\<lambda>k n. scanned_parent n = parent_of es k \<and> represents es k (hierarchy n)) (?p # ks') (?n # rest)"
        using rest attach(2,4) True by simp
      show "\<forall>j m. om_get (om_remove ?p ?m) j = Some m \<longrightarrow> partial_node es (insert k A) j m"
        unfolding get using others by simp
    qed
    ultimately show ?thesis by blast
  next
    case False
    have "reduce_step (node # rest) pending = (Ok (Inl rest), ?m)"
      using node n False attach(1) by (simp add: reduce_step_def k(1) Let_def)
    moreover have "reducing_with es ks' (insert k A) rest ?m"
      unfolding reducing_with_def
    proof (intro conjI)
      show "om_wf ?m" using wf by simp
      show "distinct ks'" "set ks' \<inter> insert k A = {}" using inv ks by (auto simp: reducing_with_def)
      show "dom (om_get ?m) \<inter> (set ks' \<union> insert k A) = {}" "node_indices es = set ks' \<union> dom (om_get ?m) \<union> insert k A"
        unfolding om_get_insert using inv ks n \<open>?p \<notin> set ks \<union> A\<close> by (auto simp: reducing_with_def)
      show "\<forall>j\<in>set ks' \<union> insert k A. children_of es j \<subseteq> insert k A" using inv ks by (auto simp: reducing_with_def)
      show "\<forall>a\<in>insert k A. parent_of es a \<noteq> 0" using inv node k(1) by (simp add: reducing_with_def)
      show "list_all2 (\<lambda>k n. scanned_parent n = parent_of es k \<and> represents es k (hierarchy n)) ks' rest" by (rule rest)
      show "\<forall>j m. om_get ?m j = Some m \<longrightarrow> partial_node es (insert k A) j m"
        unfolding om_get_insert using others attach(3) False by simp
    qed
    ultimately show ?thesis by blast
  qed
qed

lemma reducing_stack:
  assumes tree: "forms_tree es root" and inv: "reducing_with es ks A stack pending"
  shows "stack \<noteq> []"
proof
  assume "stack = []"
  then have ks: "ks = []" using inv by (simp add: reducing_with_def)
  let ?P = "dom (om_get pending)"
  have nodes: "node_indices es = ?P \<union> A" and disj: "?P \<inter> A = {}" using inv ks by (auto simp: reducing_with_def)
  have "root \<in> ?P" using nodes forms_treeD(1,5) [OF tree] inv by (auto simp: reducing_with_def)
  have fin: "finite ?P" by (rule finite_subset [OF _ node_indices_finite [of es]]) (use nodes in blast)
  have "Max (rank es ` ?P) \<in> rank es ` ?P" by (rule Max_in) (use fin \<open>root \<in> ?P\<close> in auto)
  then obtain k where k: "k \<in> ?P" "Max (rank es ` ?P) = rank es k" by (rule imageE)
  from k(1) obtain n where "om_get pending k = Some n" by blast
  then have "\<not> children_of es k \<subseteq> A" using inv by (auto simp: reducing_with_def partial_node_def)
  then obtain j where j: "j \<in> node_indices es" "parent_of es j = k" "j \<notin> A" by (auto simp: children_of_def)
  then have "j \<in> ?P" using nodes by blast
  then have "rank es j \<le> Max (rank es ` ?P)" using fin by simp
  then show False using k(2) rank_child [OF tree j(1)] j(2) by simp
qed

lemma reduce_correct:
  assumes tree: "forms_tree es root"
  shows "\<exists>h. reduce (scanned es) = Ok h \<and> represents es root h"
proof -
  obtain stack pending where split: "split_parsed (scanned es) = (stack, pending)" by fastforce
  obtain ks where start: "reducing_with es ks {} stack pending" using reducing_starts [OF tree split] by blast
  have "\<exists>q m. loopP reduce_step stack pending = (q, m) \<and> (\<exists>h. q = Ok h \<and> represents es root h)"
  proof (rule loopP_total [where I = "\<lambda>stack m. \<exists>ks A. reducing_with es ks A stack m" and \<mu> = "\<lambda>stack m. length stack + 2 * length m"])
    show "\<exists>ks A. reducing_with es ks A stack pending" using start by blast
    fix stack m
    assume "\<exists>ks A. reducing_with es ks A stack m"
    then obtain ks A where inv: "reducing_with es ks A stack m" by blast
    obtain node rest where stack: "stack = node # rest" using reducing_stack [OF tree inv] by (cases stack) auto
    have wf: "om_wf m" using inv by (simp add: reducing_with_def)
    show "(\<exists>stack' m'. reduce_step stack m = (Ok (Inl stack'), m') \<and> (\<exists>ks A. reducing_with es ks A stack' m')
          \<and> length stack' + 2 * length m' < length stack + 2 * length m)
        \<or> (\<exists>r q m'. reduce_step stack m = (r, m') \<and> loop_ends r = Some q \<and> (\<exists>h. q = Ok h \<and> represents es root h))"
    proof (cases "scanned_parent node = 0")
      case True
      then have "reduce_step stack m = (Ok (Inr (hierarchy node)), m)" by (simp add: reduce_step_def stack)
      then show ?thesis using reducing_done [OF tree inv stack True] by auto
    next
      case False
      obtain ks' A' stack' m' where "reduce_step stack m = (Ok (Inl stack'), m')" and "reducing_with es ks' A' stack' m'"
        using reducing_step [OF tree inv [unfolded stack] False] unfolding stack by blast
      moreover from this have "length stack' + 2 * length m' < length stack + 2 * length m"
        using reduce_step_progress [OF wf, of stack] by auto
      ultimately show ?thesis by blast
    qed
  qed
  then show ?thesis by (auto simp: reduce_def split)
qed

section \<open>The property\<close>

text \<open>
  C22. The reader returns the tree that the blocks describe: when every block of a snapshot can be
  read and the nodes form a tree, \<open>read\<close> returns a hierarchy that has for every node its name, all
  its properties in the order of their blocks, and exactly its children, each once.
\<close>

theorem read_hierarchy_correct:
  assumes "readable cr s" and "forms_tree (entries cr s) root"
  shows "\<exists>h. read_hierarchy cr s = Ok h \<and> represents (entries cr s) root h"
  using reduce_correct [OF assms(2)] scan_blocks_scanned [OF assms(1)] by (simp add: read_hierarchy_def)

text \<open>
  A snapshot with a root node \<open>r\<close> (block 1), a child \<open>c\<close> of it (block 3) and an integer property \<open>v\<close>
  of the child (block 5); the blocks 2, 4 and 6 hold their names.
\<close>

definition node_block :: "nat \<Rightarrow> nat \<Rightarrow> u8 list" where
  "node_block name parent = [0x30, of_nat parent, 0, 0, of_nat (16 * name), 0, 0, 0] @ replicate 8 0"

definition name_bytes :: "u8 \<Rightarrow> u8 list" where
  "name_bytes c = [0x90, 1, 0, 0, 0, 0, 0, 0, c] @ replicate 7 0"

definition int_block :: "nat \<Rightarrow> nat \<Rightarrow> u8 \<Rightarrow> u8 list" where
  "int_block name parent v = [0x40, of_nat parent, 0, 0, of_nat (16 * name), 0, 0, 0, v] @ replicate 7 0"

definition small_tree :: "u8 list" where
  "small_tree = fresh_header @ node_block 2 0 @ name_bytes 0x72 @ node_block 4 1 @ name_bytes 0x63
     @ int_block 6 3 42 @ name_bytes 0x76"

lemma blocks_from_unit:
  assumes "offset < length s" and "16 \<le> length s - offset" and "length s \<le> 2 ^ 32" and "offset = 16 * i"
    and "block_order cr (Slice s) i = (Ok 0 :: (inspect_error, _) outcome)"
  shows "blocks_from cr s offset = i # blocks_from cr s (offset + 16)"
proof -
  have "index_for_offset offset = (Ok i :: (inspect_error, _) outcome)"
    using assms by (simp add: index_for_offset_def MIN_ORDER_SIZE_def)
  then show ?thesis using assms by (subst blocks_from.simps) (simp add: iter_next_def order_to_size_eq)
qed

lemma blocks_from_end: "length s \<le> offset \<Longrightarrow> blocks_from cr s offset = []"
  by (simp add: blocks_from.simps iter_next_def)

lemma unit_blocks:
  assumes "length s = 16 * n" and "n \<le> 1000" and "\<forall>i<n. block_order cr (Slice s) i = (Ok 0 :: (inspect_error, _) outcome)"
  shows "blocks_from cr s 0 = [0..<n]"
proof -
  have "blocks_from cr s (16 * k) = [k..<n]" if "k \<le> n" for k
    using that
  proof (induction "n - k" arbitrary: k)
    case 0
    then show ?case using assms(1) by (simp add: blocks_from_end)
  next
    case (Suc m)
    then have k: "k < n" by simp
    have "blocks_from cr s (16 * k) = k # blocks_from cr s (16 * k + 16)"
      by (rule blocks_from_unit) (use assms k in auto)
    also have "16 * k + 16 = 16 * Suc k" by simp
    also have "blocks_from cr s (16 * Suc k) = [Suc k..<n]" by (rule Suc.hyps(1)) (use Suc.hyps(2) k in auto)
    finally show ?case using k by (simp add: upt_conv_Cons)
  qed
  from this [of 0] show ?thesis by simp
qed

lemma seven_blocks:
  assumes len: "length s = 16 * 7"
    and order: "map (block_order cr (Slice s)) [0, 1, 2, 3, 4, 5, 6] = map (Ok :: _ \<Rightarrow> (inspect_error, nat) outcome) (replicate 7 0)"
  shows "blocks_from cr s 0 = [0, 1, 2, 3, 4, 5, 6]"
proof -
  have seven: "i < 7 \<Longrightarrow> i \<in> {0, 1, 2, 3, 4, 5, 6}" for i :: nat by auto
  have "\<forall>i<7. block_order cr (Slice s) i = (Ok 0 :: (inspect_error, _) outcome)"
    using order seven by (fastforce simp: numeral_eq_Suc)
  then have "blocks_from cr s 0 = [0..<7]" using len by (intro unit_blocks) simp_all
  then show ?thesis by (simp add: upt_rec numeral_eq_Suc)
qed

lemma small_tree_words:
  "map (read_header (Slice small_tree)) [0, 1, 2, 3, 4, 5, 6] = map (Ok :: _ \<Rightarrow> (inspect_error, u64) outcome)
     [0x50534E4900000020, 0x2000000030, 0x190, 0x4000000130, 0x190, 0x6000000340, 0x190]"
  by code_simp

lemma word_fields:
  "map (hdr_order shift_mask_ops) [0x50534E4900000020, 0x2000000030, 0x190, 0x4000000130, 0x6000000340] = [0, 0, 0, 0, 0]"
  "map (block_type_from_u8 \<circ> hdr_block_type shift_mask_ops) [0x50534E4900000020, 0x2000000030, 0x190, 0x4000000130, 0x6000000340]
     = [Some Header, Some NodeValue, Some Name, Some NodeValue, Some IntValue]"
  by code_simp+

lemma small_tree_types:
  "map (get_block_type shift_mask_ops (Slice small_tree)) [0, 1, 2, 3, 4, 5, 6] = map (Ok :: _ \<Rightarrow> (inspect_error, block_type) outcome)
     [Header, NodeValue, Name, NodeValue, Name, IntValue, Name]"
  "map (block_order shift_mask_ops (Slice small_tree)) [0, 1, 2, 3, 4, 5, 6] = map (Ok :: _ \<Rightarrow> (inspect_error, nat) outcome) (replicate 7 0)"
  using small_tree_words word_fields by (simp_all add: get_block_type_def block_order_def header_field_def numeral_eq_Suc)

lemma small_tree_values:
  "map (value_name shift_mask_ops small_tree) [1, 3, 5] = map Ok [[0x72], [0x63], [0x76]]"
  "map (parent_index shift_mask_ops (Slice small_tree)) [1, 3, 5] = map Ok [0, 1, 3]"
  "int_value shift_mask_ops (Slice small_tree) 5 = Ok 42"
  by code_simp+

lemma small_tree_readable:
  "readable shift_mask_ops small_tree"
  "entries shift_mask_ops small_tree = [(1, NodeEntry [0x72] 0), (3, NodeEntry [0x63] 1), (5, PropertyEntry 3 (IntProperty [0x76] 42))]"
proof -
  have len: "length small_tree = 16 * 7"
    by (simp add: small_tree_def fresh_header_def node_block_def name_bytes_def int_block_def)
  have blocks: "blocks_from shift_mask_ops small_tree 0 = [0, 1, 2, 3, 4, 5, 6]"
    using seven_blocks [OF len small_tree_types(2)] .
  have entry: "map (entry_of shift_mask_ops small_tree) [0, 1, 2, 3, 4, 5, 6] = map Ok [None, Some (NodeEntry [0x72] 0), None,
      Some (NodeEntry [0x63] 1), None, Some (PropertyEntry 3 (IntProperty [0x76] 42)), None]"
    using small_tree_types(1) small_tree_values by (simp add: entry_of_def block_property_def)
  show "readable shift_mask_ops small_tree"
    using entry small_tree_types(1) by (simp add: readable_def blocks len)
  show "entries shift_mask_ops small_tree = [(1, NodeEntry [0x72] 0), (3, NodeEntry [0x63] 1), (5, PropertyEntry 3 (IntProperty [0x76] 42))]"
    using entry by (simp add: entries_def blocks)
qed

lemma set_single: "distinct xs \<Longrightarrow> set xs = {x} \<Longrightarrow> xs = [x]"
  by (cases xs; cases "tl xs") auto

theorem read_hierarchy_correct_witness:
  "read_hierarchy shift_mask_ops small_tree
     = Ok (NodeHierarchy [0x72] [] [NodeHierarchy [0x63] [IntProperty [0x76] 42] []])"
proof -
  let ?es = "[(1, NodeEntry [0x72] 0), (3, NodeEntry [0x63] 1), (5, PropertyEntry 3 (IntProperty [0x76] 42))]"
  have nodes: "node_indices ?es = {1, 3}" by (auto simp: node_indices_def)
  have parents: "parent_of ?es 1 = 0" "parent_of ?es 3 = 1" "parent_of ?es 0 = 0" by (simp_all add: parent_of_def)
  have tree: "forms_tree ?es 1" unfolding forms_tree_def nodes using parents by (simp add: numeral_eq_Suc)
  have children: "children_of ?es 1 = {3}" "children_of ?es 3 = {}" unfolding children_of_def nodes using parents by auto
  obtain h where h: "read_hierarchy shift_mask_ops small_tree = Ok h" and r: "represents ?es 1 h"
    using read_hierarchy_correct [OF small_tree_readable(1), of 1] tree by (auto simp: small_tree_readable(2))
  obtain "is" cs where h': "h = NodeHierarchy [0x72] [] cs" and "is": "distinct is" "set is = {3}" "list_all2 (represents ?es) is cs"
    using r by (cases rule: represents.cases) (auto simp: children name_of_def simp del: One_nat_def)
  have "is = [3]" using "is" by (intro set_single) auto
  then obtain c where cs: "cs = [c]" and c: "represents ?es 3 c" using "is"(3) by (auto simp: list_all2_Cons1)
  have "c = NodeHierarchy [0x63] [IntProperty [0x76] 42] []"
    using c by (cases rule: represents.cases) (auto simp: children name_of_def simp del: One_nat_def)
  then show ?thesis using h h' cs by simp
qed

section \<open>Orphans\<close>

text \<open>
  A node whose parent is no node: deleting a node with children leaves a tombstone, which the scanner
  skips, while the children keep its index. For such a parent the scanner makes an entry without a
  name and with parent 0, which \<open>reduce\<close> cannot tell from a root.
\<close>

lemma last_of_keys:
  assumes "sorted_wrt (<) (map fst xs)" and "(g, n) \<in> set xs" and "\<forall>(k, m)\<in>set xs. k \<le> (g :: nat)"
  obtains ys where "xs = ys @ [(g, n)]"
proof (cases xs rule: rev_exhaust)
  case (snoc ys x)
  obtain k m where x: "x = (k, m)" by force
  have "(g, n) = (k, m) \<or> (g, n) \<in> set ys" using assms(2) snoc x by auto
  moreover have False if "(g, n) \<in> set ys"
    using that assms(1,3) snoc x by (force simp: sorted_wrt_append)
  ultimately show thesis using that snoc x by auto
qed (use assms(2) in simp)

lemma reduce_orphan:
  assumes dist: "distinct (map fst es)" and g: "g \<in> node_indices es" "parent_of es g = p" "p \<noteq> 0" "p \<notin> node_indices es"
    and only: "children_of es p = {g}" "children_of es g = {}" and top: "\<forall>k\<in>mentioned es. k = p \<or> k \<le> g"
  shows "reduce (scanned es) =
    Ok (NodeHierarchy [] (properties_of es p) [NodeHierarchy (name_of es g) (properties_of es g) []])"
proof -
  let ?ns = "scanned es" and ?g = "scanned_as es g" and ?p = "scanned_as es p"
  note sc = scanned_correct [OF dist]
  have sorted: "sorted_wrt (<) (map fst ?ns)" using sc by (simp add: om_wf_def)
  then have keys: "distinct (map fst ?ns)" by (simp add: strict_sorted_iff)
  have get: "om_get ?ns k = Some (scanned_as es k)" if "k \<in> mentioned es" for k
    using sc that by (metis domD option.case(2))
  obtain n where "(g, NodeEntry n p) \<in> set es"
    using g(1,2) dist by (auto simp: node_indices_def parent_of_def)
  then have in_es: "g \<in> mentioned es" "p \<in> mentioned es" using g by (auto simp: mentioned_def)
  have "counted es g = {}" "counted es p = {g}" using only g by (auto simp: counted_def children_of_def)
  then have g': "is_complete ?g" "scanned_parent ?g = p" and p': "\<not> is_complete ?p" "child_nodes_count ?p = 1"
    using g(2) by (simp_all add: is_complete_def scanned_as_def)
  have "map_of es p = None \<or> (\<exists>q r. map_of es p = Some (PropertyEntry q r))"
    using g(4) by (cases "map_of es p"; cases "the (map_of es p)") (auto simp: node_indices_def dest: map_of_SomeD)
  then have blank: "name_of es p = []" "parent_of es p = 0" by (auto simp: name_of_def parent_of_def)
  let ?cs = "filter (is_complete \<circ> snd) ?ns"
  have "(g, ?g) \<in> set ?cs" using get [OF in_es(1)] g'(1) by (auto dest: map_of_SomeD)
  moreover have "\<forall>(k, m)\<in>set ?cs. k \<le> g"
  proof (intro ballI, clarify)
    fix k m assume km: "(k, m) \<in> set ?cs"
    then have k: "om_get ?ns k = Some m" using keys by auto
    then have "k \<in> mentioned es" using sc by blast
    moreover have "k \<noteq> p" using km k get [OF in_es(2)] p'(1) by auto
    ultimately show "k \<le> g" using top by blast
  qed
  moreover have "sorted_wrt (<) (map fst ?cs)" using sorted by (simp add: sorted_wrt_map sorted_wrt_filter)
  ultimately obtain ys where ys: "?cs = ys @ [(g, ?g)]" using last_of_keys [of ?cs g ?g] by blast
  obtain pending where split: "split_parsed ?ns = (?g # rev (map snd ys), pending)" and pending: "om_get pending p = Some ?p"
    using pending_lookup [OF keys, of "[]" p] get [OF in_es(2)] p'(1) by (simp add: split_parsed_def ys)
  let ?p2 = "push_child (hierarchy ?g) ?p"
  have p2: "is_complete ?p2" "scanned_parent ?p2 = 0"
    "hierarchy ?p2 = NodeHierarchy [] (properties_of es p) [NodeHierarchy (name_of es g) (properties_of es g) []]"
    using p'(2) blank by (simp_all add: is_complete_def push_child_def scanned_as_def)
  obtain m where one: "reduce_step (?g # rev (map snd ys)) pending = (Ok (Inl (?p2 # rev (map snd ys))), m)"
    using g'(2) g(3) pending p2(1) by (simp add: reduce_step_def Let_def)
  have two: "reduce_step (?p2 # rev (map snd ys)) m = (Ok (Inr (hierarchy ?p2)), m)"
    using p2(2) by (simp add: reduce_step_def)
  show ?thesis
    using iterateP_continue [of reduce_step, OF one] iterateP_break [of reduce_step, OF two]
    by (simp add: reduce_def split loopP_def p2(3))
qed

text \<open>
  An example: the first seven blocks of a VMO from which a node \<open>c\<close> (block 3) with a child \<open>g\<close> (block 5)
  was deleted. Block 3 is a tombstone that still has the name index, the parent index and the child
  count of \<open>c\<close>; block 4, which held its name, is free and linked to block 7, and \<open>g\<close> still has block 3 as its parent.
\<close>

definition orphan_tree :: "u8 list" where
  "orphan_tree = fresh_header @ node_block 2 0 @ name_bytes 0x72 @ ([0xA0, 1, 0, 0, 0x40, 0, 0, 0, 1] @ replicate 7 0)
     @ ([0, 7, 0, 0, 0, 0, 0, 0, 0x63] @ replicate 7 0) @ node_block 6 3 @ name_bytes 0x67"

lemma orphan_tree_words:
  "map (read_header (Slice orphan_tree)) [0, 1, 2, 3, 4, 5, 6] = map (Ok :: _ \<Rightarrow> (inspect_error, u64) outcome)
     [0x50534E4900000020, 0x2000000030, 0x190, 0x40000001A0, 0x700, 0x6000000330, 0x190]"
  "map (hdr_order shift_mask_ops) [0x40000001A0, 0x700, 0x6000000330] = [0, 0, 0]"
  "map (block_type_from_u8 \<circ> hdr_block_type shift_mask_ops) [0x40000001A0, 0x700, 0x6000000330] = [Some Tombstone, Some Free, Some NodeValue]"
  by code_simp+

lemma orphan_tree_types:
  "map (get_block_type shift_mask_ops (Slice orphan_tree)) [0, 1, 2, 3, 4, 5, 6] = map (Ok :: _ \<Rightarrow> (inspect_error, block_type) outcome)
     [Header, NodeValue, Name, Tombstone, Free, NodeValue, Name]"
  "map (block_order shift_mask_ops (Slice orphan_tree)) [0, 1, 2, 3, 4, 5, 6] = map (Ok :: _ \<Rightarrow> (inspect_error, nat) outcome) (replicate 7 0)"
  using orphan_tree_words word_fields by (simp_all add: get_block_type_def block_order_def header_field_def numeral_eq_Suc)

lemma orphan_tree_values:
  "map (value_name shift_mask_ops orphan_tree) [1, 5] = map Ok [[0x72], [0x67]]"
  "map (parent_index shift_mask_ops (Slice orphan_tree)) [1, 5] = map Ok [0, 3]"
  by code_simp+

lemma orphan_tree_readable:
  "readable shift_mask_ops orphan_tree"
  "entries shift_mask_ops orphan_tree = [(1, NodeEntry [0x72] 0), (5, NodeEntry [0x67] 3)]"
proof -
  have len: "length orphan_tree = 16 * 7"
    by (simp add: orphan_tree_def fresh_header_def node_block_def name_bytes_def)
  have blocks: "blocks_from shift_mask_ops orphan_tree 0 = [0, 1, 2, 3, 4, 5, 6]"
    using seven_blocks [OF len orphan_tree_types(2)] .
  have entry: "map (entry_of shift_mask_ops orphan_tree) [0, 1, 2, 3, 4, 5, 6] = map Ok [None, Some (NodeEntry [0x72] 0), None,
      None, None, Some (NodeEntry [0x67] 3), None]"
    using orphan_tree_types(1) orphan_tree_values by (simp add: entry_of_def)
  show "readable shift_mask_ops orphan_tree"
    using entry orphan_tree_types(1) by (simp add: readable_def blocks len)
  show "entries shift_mask_ops orphan_tree = [(1, NodeEntry [0x72] 0), (5, NodeEntry [0x67] 3)]"
    using entry by (simp add: entries_def blocks)
qed



end
