(* ===== verification/Stash.thy ===== *)
theory Stash
  imports Garnet_Prelude "HOL-Library.AList"
begin

text \<open>
  The model of \<^verbatim>\<open>src/bin/stash/src\<close>: a key-value store with a namespace for every client
  (\<^verbatim>\<open>store.rs\<close>), the accessors through which clients change it in transactions (\<^verbatim>\<open>accessor.rs\<close>) and
  the requests they serve (\<^verbatim>\<open>instance.rs\<close>). The kernel and the file system are a parameter, the
  record \<open>world_ops\<close>: programs on a state of the world that may fail. So is the crate \<open>byteorder\<close>,
  which writes and reads the 64 bits of an integer or a double. A \<open>HashMap\<close> is an association
  list in the order of its iteration, and a \<open>String\<close> the list of its bytes. The executor runs on one
  thread and no method suspends while it holds a lock, so every lock is free when a method asks for
  it, and methods run one after the other. Allocations below the limit of \<open>isize\<close> are assumed to
  succeed.
\<close>

section \<open>Values and the world\<close>

type_synonym key = "u8 list"

text \<open>A vector of more bytes than \<open>isize\<close> can count panics with a capacity overflow.\<close>

definition ISIZE_LIMIT :: nat where
  "ISIZE_LIMIT = 9223372036854775808"

text \<open>Doubles and \<open>i64\<close> are their 64 bits; a buffer is a handle of a VMO and a size.\<close>

datatype 'v stash_value = Intval u64 | Floatval u64 | Boolval bool | Stringval "u8 list" | Bytesval 'v u64

datatype value_type = IntVal | FloatVal | BoolVal | StringVal | BytesVal

datatype stash_error =
    CloneFailed | ReadFailed | CreateFailed | ShortData | UnknownBool | UnknownType | NotUtf8Data
  | FileNotFound | FileFailed
  | BytesDisabled | ReadOnlyAccessor | NotIdentified | IdentifiedTwice

record ('w, 'v) world_ops =
  vmo_create_child :: "'v \<Rightarrow> u64 \<Rightarrow> ('w, stash_error, 'v) prog"
  vmo_read :: "'v \<Rightarrow> nat \<Rightarrow> ('w, stash_error, u8 list) prog"
  vmo_create :: "u64 \<Rightarrow> ('w, stash_error, 'v) prog"
  vmo_write :: "'v \<Rightarrow> u8 list \<Rightarrow> ('w, stash_error, unit) prog"
  file_read :: "('w, stash_error, u8 list) prog"
  temp_open :: "('w, stash_error, unit) prog"
  temp_write :: "u8 list \<Rightarrow> ('w, stash_error, unit) prog"
  temp_rename :: "('w, stash_error, unit) prog"
  put_64 :: "u64 \<Rightarrow> u8 list"
  get_64 :: "u8 list \<Rightarrow> u64"

definition clone_buffer :: "('w, 'v) world_ops \<Rightarrow> 'v \<Rightarrow> u64 \<Rightarrow> ('w, stash_error, 'v \<times> u64) prog" where
  "clone_buffer ops v n = bindP (vmo_create_child ops v n) (\<lambda>new_vmo. returnP (new_vmo, n))"

fun clone_stash_value :: "('w, 'v) world_ops \<Rightarrow> 'v stash_value \<Rightarrow> ('w, stash_error, 'v stash_value) prog" where
  "clone_stash_value ops (Intval x) = returnP (Intval x)"
| "clone_stash_value ops (Floatval x) = returnP (Floatval x)"
| "clone_stash_value ops (Boolval x) = returnP (Boolval x)"
| "clone_stash_value ops (Stringval x) = returnP (Stringval x)"
| "clone_stash_value ops (Bytesval v n) = bindP (clone_buffer ops v n) (\<lambda>(v', n'). returnP (Bytesval v' n'))"

fun value_type_as_bytes :: "'v stash_value \<Rightarrow> u8 list" where
  "value_type_as_bytes (Intval _) = [0x00]"
| "value_type_as_bytes (Floatval _) = [0x01]"
| "value_type_as_bytes (Boolval _) = [0x02]"
| "value_type_as_bytes (Stringval _) = [0x03]"
| "value_type_as_bytes (Bytesval _ _) = [0x04]"

fun value_into_bytes :: "('w, 'v) world_ops \<Rightarrow> 'v stash_value \<Rightarrow> ('w, stash_error, u8 list) prog" where
  "value_into_bytes ops (Intval i) = returnP (put_64 ops i)"
| "value_into_bytes ops (Floatval f) = returnP (put_64 ops f)"
| "value_into_bytes ops (Boolval b) = returnP (if b then [0x01] else [0x00])"
| "value_into_bytes ops (Stringval s) = returnP s"
| "value_into_bytes ops (Bytesval v n) =
     (if unat n < ISIZE_LIMIT then vmo_read ops v (unat n) else readP (\<lambda>_. Panic))"

fun value_to_type :: "'v stash_value \<Rightarrow> value_type" where
  "value_to_type (Intval _) = IntVal"
| "value_to_type (Floatval _) = FloatVal"
| "value_to_type (Boolval _) = BoolVal"
| "value_to_type (Stringval _) = StringVal"
| "value_to_type (Bytesval _ _) = BytesVal"

section \<open>The format of the file\<close>

text \<open>A cursor is the bytes that are left. \<open>read_u64\<close> needs eight of them; \<open>read\<close> takes what there is.\<close>

definition cursor_u64 :: "('w, 'v) world_ops \<Rightarrow> u8 list \<Rightarrow> (stash_error, u64 \<times> u8 list) outcome" where
  "cursor_u64 ops bs = (if length bs < 8 then Err ShortData else Ok (get_64 ops (take 8 bs), drop 8 bs))"

definition cursor_read :: "nat \<Rightarrow> u8 list \<Rightarrow> u8 list \<times> u8 list" where
  "cursor_read n bs = (take n bs @ replicate (n - length bs) 0, drop n bs)"

text \<open>A length, then a vector of that many zeros, filled by \<open>read\<close>; the vector cannot exceed \<open>isize\<close>.\<close>

definition read_sized :: "('w, 'v) world_ops \<Rightarrow> u8 list \<Rightarrow> (stash_error, u8 list \<times> u8 list) outcome" where
  "read_sized ops bs = bindO (cursor_u64 ops bs) (\<lambda>(n, rest).
     if unat n < ISIZE_LIMIT then Ok (cursor_read (unat n) rest) else Panic)"

definition string_from_utf8 :: "u8 list \<Rightarrow> (stash_error, u8 list) outcome" where
  "string_from_utf8 bs = (if utf8_valid bs then Ok bs else Err NotUtf8Data)"

definition value_from_bytes :: "('w, 'v) world_ops \<Rightarrow> u8 \<Rightarrow> u8 list \<Rightarrow> ('w, stash_error, 'v stash_value) prog" where
  "value_from_bytes ops typ bytes =
     (if typ = 0x00 then bindP (readP (\<lambda>_. cursor_u64 ops bytes)) (\<lambda>(i, _). returnP (Intval i))
      else if typ = 0x01 then bindP (readP (\<lambda>_. cursor_u64 ops bytes)) (\<lambda>(f, _). returnP (Floatval f))
      else if typ = 0x02 then (case bytes of
          [] \<Rightarrow> throwP ShortData
        | b # _ \<Rightarrow> if b = 0x00 then returnP (Boolval False) else if b = 0x01 then returnP (Boolval True) else throwP UnknownBool)
      else if typ = 0x03 then bindP (readP (\<lambda>_. string_from_utf8 bytes)) (\<lambda>s. returnP (Stringval s))
      else if typ = 0x04 then bindP (vmo_create ops (of_nat (length bytes))) (\<lambda>v.
             bindP (vmo_write ops v bytes) (\<lambda>_. returnP (Bytesval v (of_nat (length bytes)))))
      else throwP UnknownType)"

type_synonym 'v field_map = "(key \<times> 'v stash_value) list"
type_synonym 'v stash_store = "(key \<times> 'v field_map) list"

definition with_length :: "('w, 'v) world_ops \<Rightarrow> u8 list \<Rightarrow> u8 list" where
  "with_length ops bs = put_64 ops (of_nat (length bs)) @ bs"

fun serialize_entries :: "('w, 'v) world_ops \<Rightarrow> 'v field_map \<Rightarrow> ('w, stash_error, u8 list) prog" where
  "serialize_entries ops [] = returnP []"
| "serialize_entries ops ((k, v) # es) =
     bindP (value_into_bytes ops v) (\<lambda>val_bytes.
     bindP (serialize_entries ops es) (\<lambda>rest.
       returnP (with_length ops k @ value_type_as_bytes v @ with_length ops val_bytes @ rest)))"

fun serialize :: "('w, 'v) world_ops \<Rightarrow> 'v stash_store \<Rightarrow> ('w, stash_error, u8 list) prog" where
  "serialize ops [] = returnP []"
| "serialize ops ((client, fs) # st) =
     bindP (serialize_entries ops fs) (\<lambda>entries.
     bindP (serialize ops st) (\<lambda>rest.
       returnP (with_length ops client @ put_64 ops (of_nat (length fs)) @ entries @ rest)))"

fun deserialize_entries :: "('w, 'v) world_ops \<Rightarrow> nat \<Rightarrow> 'v field_map \<Rightarrow> u8 list \<Rightarrow>
    ('w, stash_error, 'v field_map \<times> u8 list) prog" where
  "deserialize_entries ops 0 fs bs = returnP (fs, bs)"
| "deserialize_entries ops (Suc n) fs bs =
     bindP (readP (\<lambda>_. read_sized ops bs)) (\<lambda>(key_bytes, bs1).
     let (val_type, bs2) = cursor_read 1 bs1 in
     bindP (readP (\<lambda>_. read_sized ops bs2)) (\<lambda>(val_bytes, bs3).
     bindP (readP (\<lambda>_. string_from_utf8 key_bytes)) (\<lambda>key.
     bindP (value_from_bytes ops (hd val_type) val_bytes) (\<lambda>val.
       deserialize_entries ops n (AList.update key val fs) bs3))))"

definition deserialize_step :: "('w, 'v) world_ops \<Rightarrow> u8 list \<times> 'v stash_store \<Rightarrow>
    ('w, stash_error, (u8 list \<times> 'v stash_store) + 'v stash_store) prog" where
  "deserialize_step ops = (\<lambda>(bs, st).
     if bs = [] then returnP (Inr st)
     else bindP (readP (\<lambda>_. read_sized ops bs)) (\<lambda>(client_bytes, bs1).
          bindP (readP (\<lambda>_. cursor_u64 ops bs1)) (\<lambda>(client_entries, bs2).
          bindP (deserialize_entries ops (unat client_entries) [] bs2) (\<lambda>(fs, bs3).
          bindP (readP (\<lambda>_. string_from_utf8 client_bytes)) (\<lambda>client.
            returnP (Inl (bs3, AList.update client fs st)))))))"

definition deserialize :: "('w, 'v) world_ops \<Rightarrow> u8 list \<Rightarrow> ('w, stash_error, 'v stash_store) prog" where
  "deserialize ops bytes = loopP (deserialize_step ops) (bytes, [])"

section \<open>The store manager\<close>

record ('w, 'v) manager =
  sm_store :: "'v stash_store"
  sm_world :: 'w

type_synonym ('w, 'v, 'a) manager_prog = "(('w, 'v) manager, stash_error, 'a) prog"

definition onWorld :: "('w, stash_error, 'a) prog \<Rightarrow> ('w, 'v, 'a) manager_prog" where
  "onWorld = zoomP sm_world (\<lambda>w m. m\<lparr>sm_world := w\<rparr>)"

definition manager_new :: "('w, 'v) world_ops \<Rightarrow> ('w, stash_error, 'v stash_store) prog" where
  "manager_new ops =
     bindP (attemptP (file_read ops)) (\<lambda>r. case r of
         Inr buf \<Rightarrow> deserialize ops buf
       | Inl e \<Rightarrow> if e \<noteq> FileNotFound then throwP e else returnP [])"

definition save_store :: "('w, 'v) world_ops \<Rightarrow> ('w, 'v, unit) manager_prog" where
  "save_store ops =
     bindP (getP sm_store) (\<lambda>st.
     bindP (onWorld (serialize ops st)) (\<lambda>store_contents.
     bindP (onWorld (temp_open ops)) (\<lambda>_.
     bindP (onWorld (temp_write ops store_contents)) (\<lambda>_.
       onWorld (temp_rename ops)))))"

definition fields_of :: "'v stash_store \<Rightarrow> key \<Rightarrow> 'v field_map" where
  "fields_of st client = (case map_of st client of None \<Rightarrow> [] | Some fs \<Rightarrow> fs)"

definition manager_get_value :: "'v stash_store \<Rightarrow> key \<Rightarrow> key \<Rightarrow> 'v stash_value option" where
  "manager_get_value st client k = (case map_of st client of None \<Rightarrow> None | Some client_fields \<Rightarrow> map_of client_fields k)"

definition manager_set_value :: "('w, 'v) world_ops \<Rightarrow> key \<Rightarrow> key \<Rightarrow> 'v stash_value \<Rightarrow> ('w, 'v, unit) manager_prog" where
  "manager_set_value ops client k v =
     bindP (modifyP (\<lambda>m. m\<lparr>sm_store := AList.update client (AList.update k v (fields_of (sm_store m) client)) (sm_store m)\<rparr>)) (\<lambda>_.
       save_store ops)"

definition manager_delete_value :: "('w, 'v) world_ops \<Rightarrow> key \<Rightarrow> key \<Rightarrow> ('w, 'v, unit) manager_prog" where
  "manager_delete_value ops client k =
     bindP (modifyP (\<lambda>m. m\<lparr>sm_store := AList.update client (AList.delete k (fields_of (sm_store m) client)) (sm_store m)\<rparr>)) (\<lambda>_.
       save_store ops)"

definition starts_with :: "key \<Rightarrow> key \<Rightarrow> bool" where
  "starts_with k prefix \<longleftrightarrow> take (length prefix) k = prefix"

definition manager_list_prefix :: "'v stash_store \<Rightarrow> key \<Rightarrow> key \<Rightarrow> (key \<times> value_type) list" where
  "manager_list_prefix st client prefix = (case map_of st client of
      None \<Rightarrow> []
    | Some client_fields \<Rightarrow> map (\<lambda>(k, v). (k, value_to_type v)) (filter (\<lambda>(k, _). starts_with k prefix) client_fields))"

fun clone_entries :: "('w, 'v) world_ops \<Rightarrow> 'v field_map \<Rightarrow> ('w, stash_error, 'v field_map) prog" where
  "clone_entries ops [] = returnP []"
| "clone_entries ops ((k, v) # es) =
     bindP (clone_stash_value ops v) (\<lambda>v'. bindP (clone_entries ops es) (\<lambda>es'. returnP ((k, v') # es')))"

definition manager_get_prefix :: "('w, 'v) world_ops \<Rightarrow> 'v stash_store \<Rightarrow> key \<Rightarrow> key \<Rightarrow> ('w, stash_error, 'v field_map) prog" where
  "manager_get_prefix ops st client prefix = (case map_of st client of
      None \<Rightarrow> returnP []
    | Some client_fields \<Rightarrow> clone_entries ops (filter (\<lambda>(k, _). starts_with k prefix) client_fields))"

section \<open>Accessors\<close>

record 'v accessor =
  acc_client :: key
  enable_bytes :: bool
  read_only :: bool
  fields_updated :: "(key \<times> 'v stash_value option) list"

text \<open>The state of a method is the accessor and the store manager it shares with the others.\<close>

type_synonym ('w, 'v, 'a) aprog = "('v accessor \<times> ('w, 'v) manager, stash_error, 'a) prog"

definition onManager :: "('w, 'v, 'a) manager_prog \<Rightarrow> ('w, 'v, 'a) aprog" where
  "onManager = zoomP snd (\<lambda>m (a, _). (a, m))"

definition accessor_new :: "bool \<Rightarrow> bool \<Rightarrow> key \<Rightarrow> 'v accessor" where
  "accessor_new bytes ro client = \<lparr>acc_client = client, enable_bytes = bytes, read_only = ro, fields_updated = []\<rparr>"

definition is_bytes :: "'v stash_value \<Rightarrow> bool" where
  "is_bytes v \<longleftrightarrow> value_to_type v = BytesVal"

definition accessor_get_value :: "('w, 'v) world_ops \<Rightarrow> key \<Rightarrow> ('w, 'v, 'v stash_value option) aprog" where
  "accessor_get_value ops k =
     bindP (getP fst) (\<lambda>a.
     bindP (getP (sm_store \<circ> snd)) (\<lambda>st.
       case map_of (fields_updated a) k of
         Some o_val \<Rightarrow> (case o_val of
             Some val \<Rightarrow> if \<not> enable_bytes a \<and> is_bytes val then throwP BytesDisabled
                         else bindP (onManager (onWorld (clone_stash_value ops val))) (\<lambda>v. returnP (Some v))
           | None \<Rightarrow> returnP None)
       | None \<Rightarrow> (case manager_get_value st (acc_client a) k of
             None \<Rightarrow> returnP None
           | Some val \<Rightarrow> if is_bytes val \<and> \<not> enable_bytes a then throwP BytesDisabled
                         else bindP (onManager (onWorld (clone_stash_value ops val))) (\<lambda>v. returnP (Some v)))))"

definition record_update :: "key \<Rightarrow> 'v stash_value option \<Rightarrow> ('w, 'v, unit) aprog" where
  "record_update k o_val = modifyP (\<lambda>(a, m). (a\<lparr>fields_updated := AList.update k o_val (fields_updated a)\<rparr>, m))"

definition accessor_set_value :: "key \<Rightarrow> 'v stash_value \<Rightarrow> ('w, 'v, unit) aprog" where
  "accessor_set_value k val =
     bindP (getP fst) (\<lambda>a.
       if read_only a then throwP ReadOnlyAccessor
       else if \<not> enable_bytes a \<and> is_bytes val then throwP BytesDisabled
       else record_update k (Some val))"

definition accessor_delete_value :: "key \<Rightarrow> ('w, 'v, unit) aprog" where
  "accessor_delete_value k =
     bindP (getP fst) (\<lambda>a.
       if read_only a then throwP ReadOnlyAccessor
       else record_update k None)"

definition field_has_been_deleted :: "'a option option \<Rightarrow> bool" where
  "field_has_been_deleted f = (case f of None \<Rightarrow> True | Some None \<Rightarrow> False | Some (Some _) \<Rightarrow> True)"

text \<open>Merging pending updates into listed keys and types.\<close>

fun merge_types :: "(key \<times> 'v stash_value option) list \<Rightarrow> (key \<times> value_type) list \<Rightarrow> (key \<times> value_type) list" where
  "merge_types [] items = items"
| "merge_types ((k, None) # us) items = merge_types us items"
| "merge_types ((k, Some v) # us) items = merge_types us
     (if k \<in> fst ` set items then map (\<lambda>(j, t). (j, if j = k then value_to_type v else t)) items
      else items @ [(k, value_to_type v)])"

definition accessor_list_prefix :: "key \<Rightarrow> ('w, 'v, (key \<times> value_type) list) aprog" where
  "accessor_list_prefix prefix =
     bindP (getP (\<lambda>(a, m). manager_list_prefix (sm_store m) (acc_client a) prefix)) (\<lambda>list_results.
     bindP (getP (fields_updated \<circ> fst)) (\<lambda>updated.
       returnP (if updated = [] then list_results
         else merge_types updated (filter (\<lambda>(k, _). field_has_been_deleted (map_of updated k)) list_results))))"

text \<open>The iterator a client drains: the last items first, a chunk at a time.\<close>

definition next_chunk :: "nat \<Rightarrow> 'a list \<Rightarrow> 'a list \<times> 'a list" where
  "next_chunk chunk_size results =
     (let split_at = length results - min chunk_size (length results) in (drop split_at results, take split_at results))"

text \<open>
  The same merge with values: the inner loop clones the new value for every item with the key and
  tells whether there was one.
\<close>

fun update_items :: "('w, 'v) world_ops \<Rightarrow> key \<Rightarrow> 'v stash_value \<Rightarrow> 'v field_map \<Rightarrow>
    ('w, stash_error, 'v field_map \<times> bool) prog" where
  "update_items ops k v [] = returnP ([], False)"
| "update_items ops k v ((j, x) # items) =
     (if j = k
      then bindP (clone_stash_value ops v) (\<lambda>x'. bindP (update_items ops k v items) (\<lambda>(items', _). returnP ((j, x') # items', True)))
      else bindP (update_items ops k v items) (\<lambda>(items', key_was_added). returnP ((j, x) # items', key_was_added)))"

fun merge_values :: "('w, 'v) world_ops \<Rightarrow> (key \<times> 'v stash_value option) list \<Rightarrow> 'v field_map \<Rightarrow>
    ('w, stash_error, 'v field_map) prog" where
  "merge_values ops [] items = returnP items"
| "merge_values ops ((k, None) # us) items = merge_values ops us items"
| "merge_values ops ((k, Some v) # us) items =
     bindP (update_items ops k v items) (\<lambda>(items', key_was_added).
       if key_was_added then merge_values ops us items'
       else bindP (clone_stash_value ops v) (\<lambda>v'. merge_values ops us (items' @ [(k, v')])))"

definition accessor_get_prefix :: "('w, 'v) world_ops \<Rightarrow> key \<Rightarrow> ('w, 'v, 'v field_map) aprog" where
  "accessor_get_prefix ops prefix =
     bindP (getP id) (\<lambda>(a, m).
     bindP (onManager (onWorld (manager_get_prefix ops (sm_store m) (acc_client a) prefix))) (\<lambda>get_results.
       if fields_updated a = [] then returnP get_results
       else onManager (onWorld (merge_values ops (fields_updated a)
         (filter (\<lambda>(k, _). field_has_been_deleted (map_of (fields_updated a) k)) get_results)))))"

definition get_next_chunk :: "bool \<Rightarrow> nat \<Rightarrow> 'v field_map \<Rightarrow> (stash_error, 'v field_map \<times> 'v field_map) outcome" where
  "get_next_chunk bytes chunk_size results =
     (case next_chunk chunk_size results of (chunk, rest) \<Rightarrow>
        if \<not> bytes \<and> list_ex (\<lambda>(_, v). is_bytes v) chunk then Err BytesDisabled else Ok (chunk, rest))"

text \<open>The chunks sent for a number of \<open>GetNext\<close> requests; an error ends the iterator.\<close>

fun serve_list_iterator :: "nat \<Rightarrow> nat \<Rightarrow> 'a list \<Rightarrow> 'a list list" where
  "serve_list_iterator chunk_size 0 results = []"
| "serve_list_iterator chunk_size (Suc n) results =
     (case next_chunk chunk_size results of (chunk, rest) \<Rightarrow> chunk # serve_list_iterator chunk_size n rest)"

fun serve_get_iterator :: "bool \<Rightarrow> nat \<Rightarrow> nat \<Rightarrow> 'v field_map \<Rightarrow> 'v field_map list \<times> stash_error option" where
  "serve_get_iterator bytes chunk_size 0 results = ([], None)"
| "serve_get_iterator bytes chunk_size (Suc n) results =
     (case get_next_chunk bytes chunk_size results of
        Ok (chunk, rest) \<Rightarrow> (case serve_get_iterator bytes chunk_size n rest of (cs, e) \<Rightarrow> (chunk # cs, e))
      | Err e \<Rightarrow> ([], Some e)
      | _ \<Rightarrow> ([], None))"

text \<open>The sizes of the chunks, from the limits of channels, keys and strings.\<close>

definition LIST_PREFIX_CHUNK_SIZE :: "nat \<Rightarrow> nat \<Rightarrow> nat" where
  "LIST_PREFIX_CHUNK_SIZE max_msg_bytes max_key_size = (max_msg_bytes - 16) div (max_key_size + 16 + 1)"

definition GET_PREFIX_CHUNK_SIZE :: "nat \<Rightarrow> nat \<Rightarrow> nat \<Rightarrow> nat" where
  "GET_PREFIX_CHUNK_SIZE max_msg_bytes max_key_size max_string_size =
     (max_msg_bytes - 16) div (max_key_size + 16 + max_string_size + 16)"

definition accessor_delete_prefix :: "key \<Rightarrow> ('w, 'v, unit) aprog" where
  "accessor_delete_prefix prefix =
     bindP (getP id) (\<lambda>(a, m).
       if read_only a then throwP ReadOnlyAccessor
       else
         let list_results = manager_list_prefix (sm_store m) (acc_client a) prefix;
             updated = map (\<lambda>(k, o_val). (k, if starts_with k prefix then None else o_val)) (fields_updated a)
         in modifyP (\<lambda>(a, m). (a\<lparr>fields_updated := fold (\<lambda>(k, _). AList.update k None) list_results updated\<rparr>, m)))"

text \<open>
  The closure of \<open>commit\<close>: for every update, in the order of the iteration, the old value is
  recorded, then the store is changed and saved. It works on the recorded values and the manager.
\<close>

type_synonym 'v olds = "(key \<times> 'v stash_value option) list"

definition onStore :: "('w, 'v, 'a) manager_prog \<Rightarrow> ('v olds \<times> ('w, 'v) manager, stash_error, 'a) prog" where
  "onStore = zoomP snd (\<lambda>m (x, _). (x, m))"

definition clone_old :: "('w, 'v) world_ops \<Rightarrow> key \<Rightarrow> key \<Rightarrow> ('w, 'v, 'v stash_value option) manager_prog" where
  "clone_old ops client k =
     bindP (getP (\<lambda>m. manager_get_value (sm_store m) client k)) (\<lambda>o_old_value. case o_old_value of
         Some val \<Rightarrow> bindP (onWorld (clone_stash_value ops val)) (\<lambda>v. returnP (Some v))
       | None \<Rightarrow> returnP None)"

definition store_update :: "('w, 'v) world_ops \<Rightarrow> key \<Rightarrow> key \<Rightarrow> 'v stash_value option \<Rightarrow> ('w, 'v, unit) manager_prog" where
  "store_update ops client k o_val = (case o_val of
      Some val \<Rightarrow> bindP (onWorld (clone_stash_value ops val)) (\<lambda>v. manager_set_value ops client k v)
    | None \<Rightarrow> manager_delete_value ops client k)"

fun commit_updates :: "('w, 'v) world_ops \<Rightarrow> key \<Rightarrow> (key \<times> 'v stash_value option) list \<Rightarrow>
    ('v olds \<times> ('w, 'v) manager, stash_error, unit) prog" where
  "commit_updates ops client [] = returnP ()"
| "commit_updates ops client ((k, o_val) # us) =
     bindP (onStore (clone_old ops client k)) (\<lambda>old_value.
     bindP (modifyP (\<lambda>(olds, m). (AList.update k old_value olds, m))) (\<lambda>_.
     bindP (onStore (store_update ops client k o_val)) (\<lambda>_.
       commit_updates ops client us)))"

fun revert_updates :: "('w, 'v) world_ops \<Rightarrow> key \<Rightarrow> 'v olds \<Rightarrow> ('w, 'v, unit) manager_prog" where
  "revert_updates ops client [] = returnP ()"
| "revert_updates ops client ((k, o_val) # us) =
     bindP (store_update ops client k o_val) (\<lambda>_. revert_updates ops client us)"

definition run_updates :: "('w, 'v) world_ops \<Rightarrow> ('w, 'v, (stash_error + unit) \<times> 'v olds) aprog" where
  "run_updates ops = (\<lambda>(a, m).
     case attemptP (commit_updates ops (acc_client a) (fields_updated a)) ([], m) of
       (r, olds, m') \<Rightarrow> (bindO r (\<lambda>commit_result. Ok (commit_result, olds)), a, m'))"

definition accessor_commit :: "('w, 'v) world_ops \<Rightarrow> ('w, 'v, unit) aprog" where
  "accessor_commit ops =
     bindP (getP fst) (\<lambda>a.
       if read_only a then throwP ReadOnlyAccessor
       else
         bindP (run_updates ops) (\<lambda>(commit_result, old_values).
         bindP (modifyP (\<lambda>(a, m). (a\<lparr>fields_updated := []\<rparr>, m))) (\<lambda>_.
           case commit_result of
             Inr _ \<Rightarrow> returnP ()
           | Inl e \<Rightarrow> bindP (onManager (revert_updates ops (acc_client a) old_values)) (\<lambda>_. throwP e))))"

section \<open>Requests\<close>

datatype 'v accessor_request =
    GetValue key | SetValue key "'v stash_value" | DeleteValue key | ListPrefix key | GetPrefix key
  | DeletePrefix key | Commit

text \<open>
  What the server does with a request; the answers go to the client. A client that cannot be answered
  is gone: its task ends as after its last request.
\<close>

fun serve_request :: "('w, 'v) world_ops \<Rightarrow> 'v accessor_request \<Rightarrow> ('w, 'v, unit) aprog" where
  "serve_request ops (GetValue k) = bindP (accessor_get_value ops k) (\<lambda>_. returnP ())"
| "serve_request ops (SetValue k v) = accessor_set_value k v"
| "serve_request ops (DeleteValue k) = accessor_delete_value k"
| "serve_request ops (ListPrefix p) = bindP (accessor_list_prefix p) (\<lambda>_. returnP ())"
| "serve_request ops (GetPrefix p) = bindP (accessor_get_prefix ops p) (\<lambda>_. returnP ())"
| "serve_request ops (DeletePrefix p) = accessor_delete_prefix p"
| "serve_request ops Commit = accessor_commit ops"

text \<open>The task of an accessor: its requests in order, until one fails.\<close>

fun serve_accessor :: "('w, 'v) world_ops \<Rightarrow> 'v accessor_request list \<Rightarrow> ('w, 'v, unit) aprog" where
  "serve_accessor ops [] = returnP ()"
| "serve_accessor ops (r # rs) = bindP (serve_request ops r) (\<lambda>_. serve_accessor ops rs)"

record stash_instance =
  client_name :: "key option"
  inst_bytes :: bool

definition identify :: "key \<Rightarrow> (stash_instance, stash_error, unit) prog" where
  "identify name =
     bindP (getP client_name) (\<lambda>known. case known of
         Some _ \<Rightarrow> throwP IdentifiedTwice
       | None \<Rightarrow> modifyP (\<lambda>i. i\<lparr>client_name := Some name\<rparr>))"

text \<open>The channel of the new accessor may be refused by the executor, which is a parameter.\<close>

definition create_accessor :: "(stash_error, unit) outcome \<Rightarrow> bool \<Rightarrow> (stash_instance, stash_error, 'v accessor) prog" where
  "create_accessor server_chan ro =
     bindP (getP id) (\<lambda>i. case client_name i of
         None \<Rightarrow> throwP NotIdentified
       | Some name \<Rightarrow> bindP (readP (\<lambda>_. server_chan)) (\<lambda>_. returnP (accessor_new (inst_bytes i) ro name)))"

datatype store_request = Identify key | CreateAccessor bool "(stash_error, unit) outcome"

text \<open>A connection: its requests in order, until one fails; the accessors it made.\<close>

fun stash_server_loop :: "store_request list \<Rightarrow> 'v accessor list \<Rightarrow> stash_instance \<Rightarrow> 'v accessor list" where
  "stash_server_loop [] accs i = accs"
| "stash_server_loop (Identify name # rs) accs i = (case identify name i of
      (Ok _, i') \<Rightarrow> stash_server_loop rs accs i' | _ \<Rightarrow> accs)"
| "stash_server_loop (CreateAccessor ro chan # rs) accs i = (case create_accessor chan ro i of
      (Ok a, i') \<Rightarrow> stash_server_loop rs (accs @ [a]) i' | _ \<Rightarrow> accs)"

definition stash_server :: "bool \<Rightarrow> store_request list \<Rightarrow> 'v accessor list" where
  "stash_server bytes rs = stash_server_loop rs [] \<lparr>client_name = None, inst_bytes = bytes\<rparr>"

section \<open>The command line\<close>

record stash_settings =
  backing_file :: string
  secure_mode :: bool

definition default_settings :: stash_settings where
  "default_settings = \<lparr>backing_file = ''/data/stash.store'', secure_mode = False\<rparr>"

fun parse_flags :: "string list \<Rightarrow> stash_settings \<Rightarrow> stash_settings option" where
  "parse_flags [] res = Some res"
| "parse_flags (flag # args) res =
     (if flag = ''--backing_file'' then (case args of
          [] \<Rightarrow> None
        | f # args' \<Rightarrow> parse_flags args' (res\<lparr>backing_file := f\<rparr>))
      else if flag = ''--secure'' then parse_flags args (res\<lparr>secure_mode := True\<rparr>)
      else None)"

definition settings_from_args :: "string list \<Rightarrow> stash_settings option" where
  "settings_from_args args = parse_flags (drop 1 args) default_settings"

end
