(* ===== verification/Stash_Correct.thy ===== *)
theory Stash_Correct
  imports Stash
begin

text \<open>
  The correctness of stash. The laws of VMOs and files are the locale \<open>stash_world\<close>: VMOs that are
  not written keep their contents, a child has the contents of its parent, and a renamed file
  replaces the other. Under them a store is what a client sees of it, a map from clients and keys to
  contents: the file format is a round trip, and a run of updates, whole or cut short, applies them or
  can be undone by the values it recorded.
\<close>

section \<open>Contents\<close>

datatype value_content = IntC u64 | FloatC u64 | BoolC bool | StringC "u8 list" | BytesC "u8 list"

type_synonym 'v vmos = "'v \<Rightarrow> u8 list option"

fun denote :: "'v vmos \<Rightarrow> 'v stash_value \<Rightarrow> value_content" where
  "denote c (Intval x) = IntC x"
| "denote c (Floatval x) = FloatC x"
| "denote c (Boolval x) = BoolC x"
| "denote c (Stringval x) = StringC x"
| "denote c (Bytesval v n) = BytesC (case c v of None \<Rightarrow> [] | Some bs \<Rightarrow> take (unat n) bs)"

text \<open>Strings are UTF-8, buffers are within their VMO, and neither exceeds a vector.\<close>

definition string_ok :: "u8 list \<Rightarrow> bool" where
  "string_ok s \<longleftrightarrow> utf8_valid s \<and> length s < ISIZE_LIMIT"

fun value_ok :: "'v vmos \<Rightarrow> 'v stash_value \<Rightarrow> bool" where
  "value_ok c (Stringval s) \<longleftrightarrow> string_ok s"
| "value_ok c (Bytesval v n) \<longleftrightarrow> unat n < ISIZE_LIMIT \<and> (\<exists>bs. c v = Some bs \<and> unat n \<le> length bs)"
| "value_ok c _ \<longleftrightarrow> True"

lemma value_ok_mono: "value_ok c v \<Longrightarrow> c \<subseteq>\<^sub>m c' \<Longrightarrow> value_ok c' v"
  by (cases v) (auto simp: map_le_def, metis domI)

lemma denote_mono: "value_ok c v \<Longrightarrow> c \<subseteq>\<^sub>m c' \<Longrightarrow> denote c' v = denote c v"
  by (cases v) (auto simp: map_le_def dom_def split: option.splits)

definition fields_ok :: "'v vmos \<Rightarrow> 'v field_map \<Rightarrow> bool" where
  "fields_ok c fs \<longleftrightarrow> distinct (map fst fs) \<and> (\<forall>(k, v) \<in> set fs. string_ok k \<and> value_ok c v)"

definition store_ok :: "'v vmos \<Rightarrow> 'v stash_store \<Rightarrow> bool" where
  "store_ok c st \<longleftrightarrow> distinct (map fst st) \<and> (\<forall>(client, fs) \<in> set st. string_ok client \<and> fields_ok c fs)"

definition updates_ok :: "'v vmos \<Rightarrow> (key \<times> 'v stash_value option) list \<Rightarrow> bool" where
  "updates_ok c us \<longleftrightarrow> distinct (map fst us) \<and>
     (\<forall>(k, o_val) \<in> set us. string_ok k \<and> (case o_val of None \<Rightarrow> True | Some v \<Rightarrow> value_ok c v))"

definition store_view :: "'v vmos \<Rightarrow> 'v stash_store \<Rightarrow> key \<Rightarrow> key \<Rightarrow> value_content option" where
  "store_view c st client k = map_option (denote c) (manager_get_value st client k)"

definition overlay :: "'v vmos \<Rightarrow> (key \<times> 'v stash_value option) list \<Rightarrow> (key \<Rightarrow> value_content option) \<Rightarrow>
    key \<Rightarrow> value_content option" where
  "overlay c us base k = (case map_of us k of None \<Rightarrow> base k | Some o_val \<Rightarrow> map_option (denote c) o_val)"

lemma fields_ok_mono: "fields_ok c fs \<Longrightarrow> c \<subseteq>\<^sub>m c' \<Longrightarrow> fields_ok c' fs"
  by (auto simp: fields_ok_def dest: value_ok_mono)

lemma store_ok_mono: "store_ok c st \<Longrightarrow> c \<subseteq>\<^sub>m c' \<Longrightarrow> store_ok c' st"
  by (auto simp: store_ok_def dest: fields_ok_mono)

lemma updates_ok_mono: "updates_ok c us \<Longrightarrow> c \<subseteq>\<^sub>m c' \<Longrightarrow> updates_ok c' us"
  by (fastforce simp: updates_ok_def split: option.splits dest: value_ok_mono)

lemma manager_get_value_eq: "manager_get_value st client k = map_of (fields_of st client) k"
  by (simp add: manager_get_value_def fields_of_def split: option.splits)

lemma fields_of_ok: "store_ok c st \<Longrightarrow> fields_ok c (fields_of st client)"
  by (auto simp: fields_of_def store_ok_def fields_ok_def split: option.splits dest!: map_of_SomeD)

lemma stored_value_ok: "store_ok c st \<Longrightarrow> manager_get_value st client k = Some v \<Longrightarrow> value_ok c v"
  using fields_of_ok [of c st client] by (auto simp: manager_get_value_eq fields_ok_def dest: map_of_SomeD)

lemma store_view_mono: "store_ok c st \<Longrightarrow> c \<subseteq>\<^sub>m c' \<Longrightarrow> store_view c' st = store_view c st"
  by (intro ext) (auto simp: store_view_def option.map_comp intro!: map_option_cong denote_mono dest: stored_value_ok)

lemma fields_of_update: "fields_of (AList.update client fs st) c = (if c = client then fs else fields_of st c)"
  by (simp add: fields_of_def update_conv')

section \<open>The format, as a function of the contents\<close>

fun content_type :: "value_content \<Rightarrow> u8" where
  "content_type (IntC _) = 0" | "content_type (FloatC _) = 1" | "content_type (BoolC _) = 2"
| "content_type (StringC _) = 3" | "content_type (BytesC _) = 4"

fun content_bytes :: "('w, 'v) world_ops \<Rightarrow> value_content \<Rightarrow> u8 list" where
  "content_bytes ops (IntC i) = put_64 ops i" | "content_bytes ops (FloatC f) = put_64 ops f"
| "content_bytes ops (BoolC b) = [if b then 1 else 0]" | "content_bytes ops (StringC s) = s" | "content_bytes ops (BytesC bs) = bs"

fun content_ok :: "value_content \<Rightarrow> bool" where
  "content_ok (StringC s) \<longleftrightarrow> string_ok s" | "content_ok (BytesC bs) \<longleftrightarrow> length bs < ISIZE_LIMIT" | "content_ok _ \<longleftrightarrow> True"

fun encode_entries :: "('w, 'v) world_ops \<Rightarrow> (key \<times> value_content) list \<Rightarrow> u8 list" where
  "encode_entries ops [] = []"
| "encode_entries ops ((k, x) # es) =
     with_length ops k @ content_type x # with_length ops (content_bytes ops x) @ encode_entries ops es"

fun encode_store :: "('w, 'v) world_ops \<Rightarrow> (key \<times> (key \<times> value_content) list) list \<Rightarrow> u8 list" where
  "encode_store ops [] = []"
| "encode_store ops ((client, es) # st) =
     with_length ops client @ put_64 ops (of_nat (length es)) @ encode_entries ops es @ encode_store ops st"

definition denote_fields :: "'v vmos \<Rightarrow> 'v field_map \<Rightarrow> (key \<times> value_content) list" where
  "denote_fields c = map (\<lambda>(k, v). (k, denote c v))"

definition denote_store :: "'v vmos \<Rightarrow> 'v stash_store \<Rightarrow> (key \<times> (key \<times> value_content) list) list" where
  "denote_store c = map (\<lambda>(client, fs). (client, denote_fields c fs))"

definition client_ok :: "key \<Rightarrow> (key \<times> value_content) list \<Rightarrow> bool" where
  "client_ok client es \<longleftrightarrow> string_ok client \<and> length es < 2 ^ 64 \<and> distinct (map fst es) \<and>
     (\<forall>(k, x) \<in> set es. string_ok k \<and> content_ok x)"

text \<open>What the types of the language give: no map has \<open>2 ^ 64\<close> entries.\<close>

definition store_fits :: "'v stash_store \<Rightarrow> bool" where
  "store_fits st \<longleftrightarrow> (\<forall>(client, fs) \<in> set st. length fs < 2 ^ 64)"

lemma denote_fields_simps [simp]:
  "denote_fields c [] = []" "denote_fields c ((k, v) # fs) = (k, denote c v) # denote_fields c fs"
  "denote_fields c (fs @ gs) = denote_fields c fs @ denote_fields c gs"
  "map fst (denote_fields c fs) = map fst fs" "length (denote_fields c fs) = length fs"
  by (simp_all add: denote_fields_def split_beta comp_def)

lemma denote_store_simps [simp]:
  "denote_store c [] = []" "denote_store c ((k, fs) # st) = (k, denote_fields c fs) # denote_store c st"
  "denote_store c (st @ tt) = denote_store c st @ denote_store c tt"
  "map fst (denote_store c st) = map fst st"
  by (simp_all add: denote_store_def split_beta comp_def)

lemma map_of_denote_fields: "map_of (denote_fields c fs) k = map_option (denote c) (map_of fs k)"
  by (induction fs) auto

lemma map_of_denote_store: "map_of (denote_store c st) client = map_option (denote_fields c) (map_of st client)"
  by (induction st) auto

lemma store_view_denote:
  "store_view c st client k = (case map_of (denote_store c st) client of None \<Rightarrow> None | Some es \<Rightarrow> map_of es k)"
  by (simp add: store_view_def manager_get_value_def map_of_denote_store map_of_denote_fields split: option.splits)

lemma denote_fields_mono: "(\<forall>(k, v) \<in> set fs. value_ok c v) \<Longrightarrow> c \<subseteq>\<^sub>m c' \<Longrightarrow> denote_fields c' fs = denote_fields c fs"
  by (auto simp: denote_fields_def intro: denote_mono)

lemma denote_store_mono: "store_ok c st \<Longrightarrow> c \<subseteq>\<^sub>m c' \<Longrightarrow> denote_store c' st = denote_store c st"
  by (auto simp: denote_store_def store_ok_def fields_ok_def intro!: denote_fields_mono)

lemma content_ok_denote: "value_ok c v \<Longrightarrow> content_ok (denote c v)"
  by (cases v) auto

lemma update_new: "k \<notin> fst ` set xs \<Longrightarrow> AList.update k v xs = xs @ [(k, v)]"
  by (induction xs) auto

definition vmos_available :: "('w, 'v) world_ops \<Rightarrow> ('w \<Rightarrow> 'v vmos) \<Rightarrow> bool" where
  "vmos_available ops content \<longleftrightarrow>
     (\<forall>n w. unat n < ISIZE_LIMIT \<longrightarrow> (\<exists>v w'. vmo_create ops n w = (Ok v, w'))) \<and>
     (\<forall>v bs w cs. content w v = Some cs \<longrightarrow> length bs \<le> length cs \<longrightarrow> (\<exists>w'. vmo_write ops v bs w = (Ok (), w')))"

section \<open>Updates of the store\<close>

definition put_view :: "key \<Rightarrow> key \<Rightarrow> value_content option \<Rightarrow> (key \<Rightarrow> key \<Rightarrow> value_content option) \<Rightarrow>
    key \<Rightarrow> key \<Rightarrow> value_content option" where
  "put_view client k x view = view(client := (view client)(k := x))"

lemma alist_all:
  "distinct (map fst al) \<Longrightarrow> (\<forall>(k, v) \<in> set al. P k v) \<longleftrightarrow> (\<forall>k v. map_of al k = Some v \<longrightarrow> P k v)"
  by (metis (mono_tags, lifting) case_prodD case_prodI2 map_of_SomeD map_of_is_SomeI)

lemma fields_ok_update: "fields_ok c fs \<Longrightarrow> string_ok k \<Longrightarrow> value_ok c v \<Longrightarrow> fields_ok c (AList.update k v fs)"
  unfolding fields_ok_def by (auto simp: alist_all distinct_update update_conv' split: if_splits)

lemma fields_ok_delete: "fields_ok c fs \<Longrightarrow> fields_ok c (AList.delete k fs)"
  unfolding fields_ok_def by (auto simp: alist_all distinct_delete delete_conv' split: if_splits)

lemma store_ok_update: "store_ok c st \<Longrightarrow> string_ok client \<Longrightarrow> fields_ok c fs \<Longrightarrow> store_ok c (AList.update client fs st)"
  unfolding store_ok_def by (auto simp: alist_all distinct_update update_conv' split: if_splits)

lemma store_view_set:
  "store_view c (AList.update client (AList.update k v (fields_of st client)) st) = put_view client k (Some (denote c v)) (store_view c st)"
  by (intro ext) (simp add: store_view_def manager_get_value_eq fields_of_update update_conv' put_view_def)

lemma store_view_delete:
  "store_view c (AList.update client (AList.delete k (fields_of st client)) st) = put_view client k None (store_view c st)"
  by (intro ext) (simp add: store_view_def manager_get_value_eq fields_of_update delete_conv' put_view_def)

lemma updates_ok_Cons:
  "updates_ok c ((k, o_val) # us) \<longleftrightarrow> k \<notin> fst ` set us \<and> string_ok k \<and> (\<forall>v. o_val = Some v \<longrightarrow> value_ok c v) \<and> updates_ok c us"
  by (auto simp: updates_ok_def split: option.splits)

lemma updates_ok_update:
  "updates_ok c us \<Longrightarrow> string_ok k \<Longrightarrow> (\<forall>v. o_val = Some v \<longrightarrow> value_ok c v) \<Longrightarrow> updates_ok c (AList.update k o_val us)"
  unfolding updates_ok_def by (auto simp: alist_all distinct_update update_conv' split: if_splits option.splits)

lemma overlay_mono: "updates_ok c us \<Longrightarrow> c \<subseteq>\<^sub>m c' \<Longrightarrow> overlay c' us base = overlay c us base"
proof
  fix k assume ok: "updates_ok c us" and le: "c \<subseteq>\<^sub>m c'"
  have "value_ok c v" if "map_of us k = Some (Some v)" for v
    using ok map_of_SomeD [OF that] by (fastforce simp: updates_ok_def)
  then show "overlay c' us base k = overlay c us base k"
    using le by (auto simp: overlay_def intro!: map_option_cong denote_mono split: option.splits)
qed

lemma overlay_Nil [simp]: "overlay c [] base = base"
  by (intro ext) (simp add: overlay_def)

lemma overlay_Cons:
  "k \<notin> fst ` set us \<Longrightarrow> overlay c ((k, o_val) # us) base = overlay c us (base(k := map_option (denote c) o_val))"
  by (intro ext) (auto simp: overlay_def split: option.splits dest: map_of_SomeD simp: rev_image_eqI)

text \<open>What a method does to the world and the store of a manager.\<close>

lemma onWorld_eq: "onWorld p m = (case p (sm_world m) of (r, w') \<Rightarrow> (r, m\<lparr>sm_world := w'\<rparr>))"
  by (simp add: onWorld_def zoomP_def)

lemma onManager_eq: "onManager p (a, m) = (case p m of (r, m') \<Rightarrow> (r, a, m'))"
  by (simp add: onManager_def zoomP_def split: prod.splits)

lemma onStore_eq: "onStore p (x, m) = (case p m of (r, m') \<Rightarrow> (r, x, m'))"
  by (simp add: onStore_def zoomP_def split: prod.splits)

section \<open>The laws of the world\<close>

locale byteorder_64 =
  fixes ops :: "('w, 'v) world_ops"
  assumes put_length: "length (put_64 ops n) = 8"
    and get_put: "get_64 ops (put_64 ops n) = n"
begin

lemma read_sized_with_length: "length bs < ISIZE_LIMIT \<Longrightarrow> read_sized ops (with_length ops bs @ rest) = Ok (bs, rest)"
  by (simp add: read_sized_def with_length_def cursor_u64_def cursor_read_def ISIZE_LIMIT_def unat_of_nat put_length get_put)

lemma cursor_u64_put: "cursor_u64 ops (put_64 ops n @ rest) = Ok (n, rest)"
  by (simp add: cursor_u64_def put_length get_put)

lemma length_content_bytes: "content_ok x \<Longrightarrow> length (content_bytes ops x) < ISIZE_LIMIT"
  by (cases x) (auto simp: string_ok_def ISIZE_LIMIT_def put_length)

lemma with_length_not_Nil: "with_length ops bs \<noteq> []"
  using put_length [of "of_nat (length bs)"] by (auto simp: with_length_def)

end

locale stash_world = byteorder_64 ops
  for ops :: "('w, 'v) world_ops" +
  fixes content :: "'w \<Rightarrow> 'v vmos"
    and disk :: "'w \<Rightarrow> u8 list option"
    and temp :: "'w \<Rightarrow> u8 list"
  assumes child_frame: "vmo_create_child ops v n w = (r, w') \<Longrightarrow> content w \<subseteq>\<^sub>m content w' \<and> disk w' = disk w"
    and child_contents: "vmo_create_child ops v n w = (Ok v', w') \<Longrightarrow> content w v = Some bs \<Longrightarrow> unat n \<le> length bs \<Longrightarrow>
      \<exists>bs'. content w' v' = Some bs' \<and> unat n \<le> length bs' \<and> take (unat n) bs' = take (unat n) bs"
    and read_frame: "vmo_read ops v k w = (q, w') \<Longrightarrow> content w \<subseteq>\<^sub>m content w' \<and> disk w' = disk w"
    and read_contents: "vmo_read ops v k w = (Ok bs', w') \<Longrightarrow> content w v = Some bs \<Longrightarrow> k \<le> length bs \<Longrightarrow> bs' = take k bs"
    and create_frame: "vmo_create ops n w = (r, w') \<Longrightarrow> content w \<subseteq>\<^sub>m content w' \<and> disk w' = disk w"
    and create_fresh: "vmo_create ops n w = (Ok v, w') \<Longrightarrow>
      content w v = None \<and> (\<exists>bs. content w' v = Some bs \<and> unat n \<le> length bs)"
    and write_frame: "vmo_write ops v bs w = (u, w') \<Longrightarrow> disk w' = disk w \<and> (\<forall>x. x \<noteq> v \<longrightarrow> content w' x = content w x)"
    and write_contents: "vmo_write ops v bs w = (Ok x, w') \<Longrightarrow> content w v = Some cs \<Longrightarrow> length bs \<le> length cs \<Longrightarrow>
      content w' v = Some (overwrite cs 0 bs)"
    and file_read_frame: "file_read ops w = (q, w') \<Longrightarrow> content w \<subseteq>\<^sub>m content w' \<and> disk w' = disk w"
    and file_read_contents: "file_read ops w = (Ok bs, w') \<Longrightarrow> disk w = Some bs"
    and open_frame: "temp_open ops w = (u, w') \<Longrightarrow> content w \<subseteq>\<^sub>m content w' \<and> disk w' = disk w"
    and open_empty: "temp_open ops w = (Ok x, w') \<Longrightarrow> temp w' = []"
    and temp_write_frame: "temp_write ops bs w = (u, w') \<Longrightarrow> content w \<subseteq>\<^sub>m content w' \<and> disk w' = disk w"
    and temp_write_contents: "temp_write ops bs w = (Ok x, w') \<Longrightarrow> temp w' = temp w @ bs"
    and rename_frame: "temp_rename ops w = (u, w') \<Longrightarrow> content w \<subseteq>\<^sub>m content w'"
    and rename_contents: "temp_rename ops w = (Ok x, w') \<Longrightarrow> disk w' = Some (temp w)"
    and rename_failed: "temp_rename ops w = (Err e, w') \<Longrightarrow> disk w' = disk w"
begin

lemma clone_frame: "clone_stash_value ops v w = (r, w') \<Longrightarrow> content w \<subseteq>\<^sub>m content w' \<and> disk w' = disk w"
  by (cases v) (auto simp: clone_buffer_def bindP_def split: prod.splits outcome.splits dest: child_frame)

lemma clone_contents:
  assumes "clone_stash_value ops v w = (Ok v', w')" and "value_ok (content w) v"
  shows "value_ok (content w') v' \<and> denote (content w') v' = denote (content w) v"
proof (cases v)
  case (Bytesval h n)
  then obtain h' where "vmo_create_child ops h n w = (Ok h', w')" and v': "v' = Bytesval h' n"
    using assms(1) by (auto simp: clone_buffer_def bindP_def split: prod.splits outcome.splits)
  moreover obtain bs where "content w h = Some bs" "unat n \<le> length bs" "unat n < ISIZE_LIMIT"
    using assms(2) Bytesval by auto
  ultimately show ?thesis using child_contents [of h n w h' w' bs] Bytesval by auto
qed (use assms in auto)

lemma into_bytes_frame: "value_into_bytes ops v w = (q, w') \<Longrightarrow> content w \<subseteq>\<^sub>m content w' \<and> disk w' = disk w"
  by (cases v) (auto split: if_splits dest: read_frame)

lemma into_bytes_contents:
  assumes "value_into_bytes ops v w = (Ok bs, w')" and "value_ok (content w) v"
  shows "bs = content_bytes ops (denote (content w) v)"
  using assms by (cases v) (auto split: if_splits dest: read_contents)

lemma type_as_bytes: "value_type_as_bytes v = [content_type (denote c v)]"
  by (cases v) auto

lemma serialize_entries_frame:
  "serialize_entries ops fs w = (q, w') \<Longrightarrow> content w \<subseteq>\<^sub>m content w' \<and> disk w' = disk w"
proof (induction fs arbitrary: w w' q)
  case (Cons e fs)
  obtain k v where e: "e = (k, v)" by force
  obtain q1 w1 where 1: "value_into_bytes ops v w = (q1, w1)" by force
  obtain q2 w2 where 2: "serialize_entries ops fs w1 = (q2, w2)" by force
  have "w' = w1 \<or> w' = w2"
    using Cons.prems 1 2 by (cases q1; cases q2) (auto simp: e bindP_def)
  then show ?case using into_bytes_frame [OF 1] Cons.IH [OF 2] by (auto intro: map_le_trans)
qed simp

lemma serialize_frame: "serialize ops st w = (q, w') \<Longrightarrow> content w \<subseteq>\<^sub>m content w' \<and> disk w' = disk w"
proof (induction st arbitrary: w w' q)
  case (Cons e st)
  obtain k fs where e: "e = (k, fs)" by force
  obtain q1 w1 where 1: "serialize_entries ops fs w = (q1, w1)" by force
  obtain q2 w2 where 2: "serialize ops st w1 = (q2, w2)" by force
  have "w' = w1 \<or> w' = w2"
    using Cons.prems 1 2 by (cases q1; cases q2) (auto simp: e bindP_def)
  then show ?case using serialize_entries_frame [OF 1] Cons.IH [OF 2] by (auto intro: map_le_trans)
qed simp

lemma serialize_entries_contents:
  assumes "serialize_entries ops fs w = (Ok bs, w')" and "\<forall>(k, v) \<in> set fs. value_ok (content w) v"
  shows "bs = encode_entries ops (denote_fields (content w) fs)"
  using assms
proof (induction fs arbitrary: w bs)
  case (Cons e fs)
  obtain k v where e: "e = (k, v)" by force
  obtain vb w1 rest where 1: "value_into_bytes ops v w = (Ok vb, w1)" and 2: "serialize_entries ops fs w1 = (Ok rest, w')"
    and bs: "bs = with_length ops k @ value_type_as_bytes v @ with_length ops vb @ rest"
    using Cons.prems(1) unfolding e by (auto elim!: bindP_eq_Ok)
  have le: "content w \<subseteq>\<^sub>m content w1" using into_bytes_frame [OF 1] by simp
  have ok: "\<forall>(k, v) \<in> set fs. value_ok (content w) v" using Cons.prems(2) by simp
  then have "rest = encode_entries ops (denote_fields (content w1) fs)"
    using le by (intro Cons.IH [OF 2]) (auto dest: value_ok_mono)
  then show ?case
    using into_bytes_contents [OF 1] Cons.prems(2) denote_fields_mono [OF ok le] type_as_bytes [of v "content w"]
    by (simp add: e bs)
qed simp

lemma serialize_contents:
  assumes "serialize ops st w = (Ok bs, w')" and "store_ok (content w) st"
  shows "bs = encode_store ops (denote_store (content w) st)"
  using assms
proof (induction st arbitrary: w bs)
  case (Cons e st)
  obtain client fs where e: "e = (client, fs)" by force
  obtain eb w1 rest where 1: "serialize_entries ops fs w = (Ok eb, w1)" and 2: "serialize ops st w1 = (Ok rest, w')"
    and bs: "bs = with_length ops client @ put_64 ops (of_nat (length fs)) @ eb @ rest"
    using Cons.prems(1) unfolding e by (auto elim!: bindP_eq_Ok)
  have le: "content w \<subseteq>\<^sub>m content w1" using serialize_entries_frame [OF 1] by simp
  have ok: "store_ok (content w) st" and fs: "\<forall>(k, v) \<in> set fs. value_ok (content w) v"
    using Cons.prems(2) by (auto simp: store_ok_def fields_ok_def e)
  show ?case
    using Cons.IH [OF 2 store_ok_mono [OF ok le]] serialize_entries_contents [OF 1 fs] denote_store_mono [OF ok le]
    by (simp add: e bs)
qed simp

lemma from_bytes_contents:
  assumes avail: "vmos_available ops content" and ok: "content_ok x"
  shows "\<exists>v w'. value_from_bytes ops (content_type x) (content_bytes ops x) w = (Ok v, w') \<and> content w \<subseteq>\<^sub>m content w' \<and>
    value_ok (content w') v \<and> denote (content w') v = x"
proof (cases x)
  case (BytesC bs)
  define n where "n = (of_nat (length bs) :: u64)"
  have len: "length bs < ISIZE_LIMIT" using ok BytesC by simp
  then have n: "unat n = length bs" by (simp add: n_def unat_of_nat ISIZE_LIMIT_def)
  obtain v w1 where 1: "vmo_create ops n w = (Ok v, w1)"
    using avail n len unfolding vmos_available_def by fastforce
  obtain cs where cs: "content w v = None" "content w1 v = Some cs" "length bs \<le> length cs"
    using create_fresh [OF 1] n by auto
  obtain w2 where 2: "vmo_write ops v bs w1 = (Ok (), w2)"
    using avail cs(2,3) unfolding vmos_available_def by blast
  have w2: "content w2 v = Some (overwrite cs 0 bs)" using write_contents [OF 2 cs(2,3)] .
  have "value_from_bytes ops (content_type x) (content_bytes ops x) w = (Ok (Bytesval v n), w2)"
    using 1 2 by (simp add: BytesC value_from_bytes_def n_def [symmetric] bindP_step)
  moreover have "content w \<subseteq>\<^sub>m content w2"
    using create_frame [OF 1] write_frame [OF 2] cs(1) unfolding map_le_def by (metis domIff)
  ultimately show ?thesis using w2 cs(3) len n by (auto simp: BytesC overwrite_def)
qed (use ok in \<open>auto simp: value_from_bytes_def cursor_u64_def put_length get_put string_from_utf8_def string_ok_def intro!: exI [of _ w]\<close>)

text \<open>Reading entries and clients from the front of the data, whatever follows them.\<close>

lemma deserialize_entries_prefix:
  assumes avail: "vmos_available ops content"
  shows "distinct (map fst fs @ map fst es) \<Longrightarrow> \<forall>(k, x) \<in> set es. string_ok k \<and> content_ok x \<Longrightarrow>
    \<exists>fs' w'. (\<forall>n rest. deserialize_entries ops (length es + n) fs (encode_entries ops es @ rest) w = deserialize_entries ops n (fs @ fs') rest w') \<and>
      content w \<subseteq>\<^sub>m content w' \<and> denote_fields (content w') fs' = es \<and> (\<forall>(k, v) \<in> set fs'. value_ok (content w') v)"
proof (induction es arbitrary: fs w)
  case Nil
  show ?case by (intro exI [of _ "[]"] exI [of _ w]) simp
next
  case (Cons e es)
  obtain k x where e: "e = (k, x)" by force
  have k: "string_ok k" and x: "content_ok x" and tail: "\<forall>(k, x) \<in> set es. string_ok k \<and> content_ok x"
    using Cons.prems(2) by (auto simp: e)
  obtain v w1 where 1: "value_from_bytes ops (content_type x) (content_bytes ops x) w = (Ok v, w1)"
    and le1: "content w \<subseteq>\<^sub>m content w1" and v: "value_ok (content w1) v" "denote (content w1) v = x"
    using from_bytes_contents [OF avail x, of w] by auto
  have new: "k \<notin> fst ` set fs" and dist: "distinct (map fst (fs @ [(k, v)]) @ map fst es)"
    using Cons.prems(1) by (auto simp: e)
  obtain fs' w' where 2: "\<And>n rest. deserialize_entries ops (length es + n) (fs @ [(k, v)]) (encode_entries ops es @ rest) w1 =
      deserialize_entries ops n ((fs @ [(k, v)]) @ fs') rest w'" and le2: "content w1 \<subseteq>\<^sub>m content w'"
    and fs': "denote_fields (content w') fs' = es" "\<forall>(k, v) \<in> set fs'. value_ok (content w') v"
    using Cons.IH [OF dist tail] by blast
  have "deserialize_entries ops (length (e # es) + n) fs (encode_entries ops (e # es) @ rest) w =
      deserialize_entries ops n (fs @ (k, v) # fs') rest w'" for n rest
    using k x 1 2 [of n rest] by (simp add: e read_sized_with_length string_ok_def length_content_bytes cursor_read_def
        string_from_utf8_def bindP_step update_new [OF new])
  moreover have "denote_fields (content w') ((k, v) # fs') = e # es" "\<forall>(k, v) \<in> set ((k, v) # fs'). value_ok (content w') v"
    using fs' v(2) value_ok_mono [OF v(1) le2] denote_mono [OF v(1) le2] by (simp_all add: e)
  ultimately show ?case using map_le_trans [OF le1 le2] by blast
qed

lemma deserialize_prefix:
  assumes avail: "vmos_available ops content"
  shows "distinct (map fst st @ map fst ast) \<Longrightarrow> \<forall>(client, es) \<in> set ast. client_ok client es \<Longrightarrow>
    \<exists>st' w'. (\<forall>rest. iterateP (deserialize_step ops) (encode_store ops ast @ rest, st) w = iterateP (deserialize_step ops) (rest, st @ st') w') \<and>
      content w \<subseteq>\<^sub>m content w' \<and> denote_store (content w') st' = ast \<and>
      (\<forall>(client, fs) \<in> set st'. \<forall>(k, v) \<in> set fs. value_ok (content w') v)"
proof (induction ast arbitrary: st w)
  case Nil
  show ?case by (intro exI [of _ "[]"] exI [of _ w]) simp
next
  case (Cons e ast)
  obtain client es where e: "e = (client, es)" by force
  have client: "string_ok client" and len: "length es < 2 ^ 64" and dist: "distinct (map fst [] @ map fst es)"
    and es: "\<forall>(k, x) \<in> set es. string_ok k \<and> content_ok x" and tail: "\<forall>(client, es) \<in> set ast. client_ok client es"
    using Cons.prems(2) by (simp_all add: e client_ok_def)
  obtain fs w1 where 1: "\<And>n rest. deserialize_entries ops (length es + n) [] (encode_entries ops es @ rest) w = deserialize_entries ops n ([] @ fs) rest w1"
    and le1: "content w \<subseteq>\<^sub>m content w1" and fs: "denote_fields (content w1) fs = es" "\<forall>(k, v) \<in> set fs. value_ok (content w1) v"
    using deserialize_entries_prefix [OF avail dist es, of w] by blast
  have new: "client \<notin> fst ` set st" and dist': "distinct (map fst (st @ [(client, fs)]) @ map fst ast)"
    using Cons.prems(1) by (auto simp: e)
  have n: "unat (of_nat (length es) :: u64) = length es" using len by (simp add: unat_of_nat)
  have step: "deserialize_step ops (encode_store ops (e # ast) @ rest, st) w = (Ok (Inl (encode_store ops ast @ rest, st @ [(client, fs)])), w1)" for rest
    using client 1 [of 0 "encode_store ops ast @ rest"] by (simp add: deserialize_step_def e with_length_not_Nil read_sized_with_length string_ok_def cursor_u64_put n
        string_from_utf8_def bindP_step update_new [OF new])
  obtain st' w' where 2: "\<And>rest. iterateP (deserialize_step ops) (encode_store ops ast @ rest, st @ [(client, fs)]) w1
      = iterateP (deserialize_step ops) (rest, (st @ [(client, fs)]) @ st') w'"
    and le2: "content w1 \<subseteq>\<^sub>m content w'" and st': "denote_store (content w') st' = ast"
    "\<forall>(client, fs) \<in> set st'. \<forall>(k, v) \<in> set fs. value_ok (content w') v"
    using Cons.IH [OF dist' tail, of w1] by blast
  have fs': "denote_fields (content w') fs = es" "\<forall>(k, v) \<in> set fs. value_ok (content w') v"
    using fs le2 denote_fields_mono [OF fs(2) le2] by (auto dest: value_ok_mono)
  have "iterateP (deserialize_step ops) (encode_store ops (e # ast) @ rest, st) w
      = iterateP (deserialize_step ops) (rest, st @ (client, fs) # st') w'" for rest
    using iterateP_continue [of "deserialize_step ops", OF step] 2 [of rest] by simp
  moreover have "denote_store (content w') ((client, fs) # st') = e # ast"
    "\<forall>(client, fs) \<in> set ((client, fs) # st'). \<forall>(k, v) \<in> set fs. value_ok (content w') v"
    using st' fs' by (simp_all add: e)
  ultimately show ?case using map_le_trans [OF le1 le2] by blast
qed

lemma deserialize_iterates:
  assumes avail: "vmos_available ops content" and dist: "distinct (map fst st @ map fst ast)"
    and ok: "\<forall>(client, es) \<in> set ast. client_ok client es"
  shows "\<exists>st' w'. iterateP (deserialize_step ops) (encode_store ops ast, st) w = Some (Ok (st @ st'), w') \<and>
      content w \<subseteq>\<^sub>m content w' \<and> denote_store (content w') st' = ast \<and>
      (\<forall>(client, fs) \<in> set st'. \<forall>(k, v) \<in> set fs. value_ok (content w') v)"
proof -
  have stop: "iterateP (deserialize_step ops) ([], st1) w1 = Some (Ok st1, w1)" for st1 w1
    by (rule iterateP_break) (simp add: deserialize_step_def)
  obtain st' w' where "\<And>rest. iterateP (deserialize_step ops) (encode_store ops ast @ rest, st) w = iterateP (deserialize_step ops) (rest, st @ st') w'"
    and le: "content w \<subseteq>\<^sub>m content w'" "denote_store (content w') st' = ast"
      "\<forall>(client, fs) \<in> set st'. \<forall>(k, v) \<in> set fs. value_ok (content w') v"
    using deserialize_prefix [OF avail dist ok, of w] by blast
  from this(1) [of "[]"] le show ?thesis unfolding stop by auto
qed

lemma save_store_frame:
  assumes "save_store ops m = (r, m')"
  shows "sm_store m' = sm_store m \<and> content (sm_world m) \<subseteq>\<^sub>m content (sm_world m')"
proof -
  obtain q w1 where 1: "serialize ops (sm_store m) (sm_world m) = (q, w1)" by force
  obtain u2 w2 where 2: "temp_open ops w1 = (u2, w2)" by force
  obtain u3 w3 where 3: "\<And>bs. q = Ok bs \<Longrightarrow> temp_write ops bs w2 = (u3, w3)" by (cases q) force+
  obtain u4 w4 where 4: "temp_rename ops w3 = (u4, w4)" by force
  have w: "sm_store m' = sm_store m \<and> (sm_world m' = w1 \<or> sm_world m' = w2 \<or> q \<noteq> Panic \<and> (\<exists>bs. q = Ok bs) \<and> (sm_world m' = w3 \<or> sm_world m' = w4))"
    using assms 1 2 3 4 by (cases q; cases u2; cases u3)
      (auto simp: save_store_def onWorld_eq bindP_def split: prod.splits)
  have le1: "content (sm_world m) \<subseteq>\<^sub>m content w1" using serialize_frame [OF 1] by simp
  have le2: "content (sm_world m) \<subseteq>\<^sub>m content w2" using le1 open_frame [OF 2] by (auto intro: map_le_trans)
  have le3: "content (sm_world m) \<subseteq>\<^sub>m content w3" if "q = Ok bs" for bs
    using le2 temp_write_frame [OF 3 [OF that]] by (auto intro: map_le_trans)
  have le4: "content (sm_world m) \<subseteq>\<^sub>m content w4" if "q = Ok bs" for bs
    using le3 [OF that] rename_frame [OF 4] by (auto intro: map_le_trans)
  show ?thesis using w le1 le2 le3 le4 by auto
qed

lemma save_store_Ok:
  assumes "save_store ops m = (Ok u, m')" and ok: "store_ok (content (sm_world m)) (sm_store m)"
  shows "disk (sm_world m') = Some (encode_store ops (denote_store (content (sm_world m)) (sm_store m)))"
proof -
  obtain bs w1 w2 w3 x y z where 1: "serialize ops (sm_store m) (sm_world m) = (Ok bs, w1)"
    and 2: "temp_open ops w1 = (Ok x, w2)" and 3: "temp_write ops bs w2 = (Ok y, w3)"
    and 4: "temp_rename ops w3 = (Ok z, sm_world m')"
    using assms(1) by (auto simp: save_store_def onWorld_eq bindP_def split: prod.splits outcome.splits)
  show ?thesis
    using serialize_contents [OF 1 ok] open_empty [OF 2] temp_write_contents [OF 3] rename_contents [OF 4] by simp
qed

lemma save_store_Err:
  assumes "save_store ops m = (Err e, m')"
  shows "disk (sm_world m') = disk (sm_world m)"
  using assms
  by (auto simp: save_store_def onWorld_eq bindP_def split: prod.splits outcome.splits
      dest!: serialize_frame open_frame temp_write_frame rename_failed)

abbreviation (input) vmos_of :: "('w, 'v) manager \<Rightarrow> 'v vmos" where
  "vmos_of m \<equiv> content (sm_world m)"

abbreviation (input) view_of :: "('w, 'v) manager \<Rightarrow> key \<Rightarrow> key \<Rightarrow> value_content option" where
  "view_of m \<equiv> store_view (vmos_of m) (sm_store m)"

abbreviation (input) saved :: "('w, 'v) manager \<Rightarrow> bool" where
  "saved m \<equiv> disk (sm_world m) = Some (encode_store ops (denote_store (vmos_of m) (sm_store m)))"

text \<open>Saving a changed store: the change is made, and it is on disk unless saving failed.\<close>

lemma save_changed:
  assumes "save_store ops (m\<lparr>sm_store := st\<rparr>) = (r, m')" and ok: "store_ok (vmos_of m) st"
  shows "vmos_of m \<subseteq>\<^sub>m vmos_of m' \<and> store_ok (vmos_of m') (sm_store m') \<and> view_of m' = store_view (vmos_of m) st \<and>
    (\<forall>u. r = Ok u \<longrightarrow> saved m') \<and> (\<forall>e. r = Err e \<longrightarrow> disk (sm_world m') = disk (sm_world m))"
proof -
  have f: "sm_store m' = st" and le: "vmos_of m \<subseteq>\<^sub>m vmos_of m'" using save_store_frame [OF assms(1)] by simp_all
  have "saved m'" if "r = Ok u" for u
    using save_store_Ok [of "m\<lparr>sm_store := st\<rparr>" u m'] assms that denote_store_mono [OF ok le] f by simp
  moreover have "disk (sm_world m') = disk (sm_world m)" if "r = Err e" for e
    using save_store_Err [of "m\<lparr>sm_store := st\<rparr>" e m'] assms that by simp
  ultimately show ?thesis using f le store_ok_mono [OF ok le] store_view_mono [OF ok le] by simp
qed

lemma store_update_effect:
  assumes run: "store_update ops client k o_val m = (r, m')" and ok: "store_ok (vmos_of m) (sm_store m)"
    and client: "string_ok client" and k: "string_ok k" and v: "\<forall>v. o_val = Some v \<longrightarrow> value_ok (vmos_of m) v"
  shows "vmos_of m \<subseteq>\<^sub>m vmos_of m' \<and> store_ok (vmos_of m') (sm_store m') \<and>
    (view_of m' = view_of m \<and> (\<forall>u. r \<noteq> Ok u) \<or> view_of m' = put_view client k (map_option (denote (vmos_of m)) o_val) (view_of m)) \<and>
    (\<forall>u. r = Ok u \<longrightarrow> saved m') \<and> (\<forall>e. r = Err e \<longrightarrow> disk (sm_world m') = disk (sm_world m))"
proof (cases o_val)
  case None
  have "store_ok (vmos_of m) (AList.update client (AList.delete k (fields_of (sm_store m) client)) (sm_store m))"
    using ok client by (intro store_ok_update fields_ok_delete fields_of_ok)
  from save_changed [OF _ this, of r m'] show ?thesis
    using run by (simp add: None store_update_def manager_delete_value_def store_view_delete)
next
  case (Some x)
  obtain q w1 where 1: "clone_stash_value ops x (sm_world m) = (q, w1)" by force
  have le1: "vmos_of m \<subseteq>\<^sub>m content w1" and d1: "disk w1 = disk (sm_world m)" using clone_frame [OF 1] by simp_all
  show ?thesis
  proof (cases "\<exists>x'. q = Ok x'")
    case False
    then have "m' = m\<lparr>sm_world := w1\<rparr>" "\<forall>u. r \<noteq> Ok u"
      using run 1 by (cases q; auto simp: Some store_update_def onWorld_eq bindP_def)+
    then show ?thesis using le1 d1 store_ok_mono [OF ok le1] store_view_mono [OF ok le1] by simp
  next
    case True
    then obtain x' where q: "q = Ok x'" by blast
    define m1 where "m1 = m\<lparr>sm_world := w1\<rparr>"
    have x': "value_ok (vmos_of m1) x'" "denote (vmos_of m1) x' = denote (vmos_of m) x"
      using clone_contents [OF 1 [unfolded q]] v Some by (simp_all add: m1_def)
    have "store_ok (vmos_of m1) (AList.update client (AList.update k x' (fields_of (sm_store m1) client)) (sm_store m1))"
      using store_ok_mono [OF ok le1] client k x' by (intro store_ok_update fields_ok_update fields_of_ok) (simp_all add: m1_def)
    from save_changed [OF _ this, of r m'] show ?thesis
      using run 1 x' le1 d1 store_view_mono [OF ok le1] map_le_trans [OF le1, of "vmos_of m'"]
      by (simp add: Some q store_update_def manager_set_value_def onWorld_eq bindP_def m1_def store_view_set)
  qed
qed

lemma clone_old_effect:
  assumes "clone_old ops client k m = (r, m')" and ok: "store_ok (vmos_of m) (sm_store m)"
  shows "sm_store m' = sm_store m \<and> vmos_of m \<subseteq>\<^sub>m vmos_of m' \<and> disk (sm_world m') = disk (sm_world m) \<and>
    (\<forall>old. r = Ok old \<longrightarrow> map_option (denote (vmos_of m')) old = view_of m client k \<and> (\<forall>v. old = Some v \<longrightarrow> value_ok (vmos_of m') v))"
proof (cases "manager_get_value (sm_store m) client k")
  case (Some x)
  obtain q w1 where 1: "clone_stash_value ops x (sm_world m) = (q, w1)" by force
  have m': "m' = m\<lparr>sm_world := w1\<rparr>" and r: "r = bindO q (\<lambda>v. Ok (Some v))"
    using assms(1) 1 by (cases q; auto simp: Some clone_old_def onWorld_eq bindP_def)+
  have "value_ok (content w1) v \<and> denote (content w1) v = denote (vmos_of m) x" if "q = Ok v" for v
    using clone_contents [OF 1 [unfolded that] stored_value_ok [OF ok Some]] .
  then show ?thesis using clone_frame [OF 1] r by (auto simp: m' bindO_eq_Ok_iff store_view_def Some)
qed (use assms in \<open>auto simp: clone_old_def store_view_def\<close>)

text \<open>
  A run of updates, whole or cut short: other clients keep their view, every key of the client has
  its old value or its new one, and all have the new one when the run succeeds.
\<close>

definition applies :: "key \<Rightarrow> (key \<times> 'v stash_value option) list \<Rightarrow> ('w, 'v) manager \<Rightarrow>
    (stash_error, unit) outcome \<Rightarrow> ('w, 'v) manager \<Rightarrow> bool" where
  "applies client us m r m' \<longleftrightarrow> vmos_of m \<subseteq>\<^sub>m vmos_of m' \<and> store_ok (vmos_of m') (sm_store m') \<and>
     (\<forall>c. c \<noteq> client \<longrightarrow> view_of m' c = view_of m c) \<and>
     (\<forall>j. view_of m' client j = view_of m client j \<or> view_of m' client j = overlay (vmos_of m) us (view_of m client) j) \<and>
     (r = Ok () \<longrightarrow> view_of m' client = overlay (vmos_of m) us (view_of m client) \<and> (us \<noteq> [] \<longrightarrow> saved m'))"

lemma applies_failed:
  assumes run: "store_update ops client k o_val m = (r, m')" and ok: "store_ok (vmos_of m) (sm_store m)"
    and client: "string_ok client" and us: "updates_ok (vmos_of m) ((k, o_val) # us)" and r: "r \<noteq> Ok ()" "q \<noteq> Ok ()"
  shows "applies client ((k, o_val) # us) m q m'"
proof -
  have k: "string_ok k" "\<forall>v. o_val = Some v \<longrightarrow> value_ok (vmos_of m) v" and new: "k \<notin> fst ` set us"
    using us by (auto simp: updates_ok_Cons)
  have "map_of us k = None" using new by (simp add: map_of_eq_None_iff)
  then show ?thesis
    using store_update_effect [OF run ok client k] r by (auto simp: applies_def put_view_def overlay_def)
qed

lemma applies_step:
  assumes run: "store_update ops client k o_val m = (Ok (), m1)" and ok: "store_ok (vmos_of m) (sm_store m)"
    and client: "string_ok client" and us: "updates_ok (vmos_of m) ((k, o_val) # us)"
    and rest: "applies client us m1 r m'" and empty: "us = [] \<Longrightarrow> m' = m1"
  shows "applies client ((k, o_val) # us) m r m'"
proof -
  have k: "string_ok k" "\<forall>v. o_val = Some v \<longrightarrow> value_ok (vmos_of m) v" and new: "k \<notin> fst ` set us"
    and us': "updates_ok (vmos_of m) us"
    using us by (auto simp: updates_ok_Cons)
  have le: "vmos_of m \<subseteq>\<^sub>m vmos_of m1" and v1: "view_of m1 = put_view client k (map_option (denote (vmos_of m)) o_val) (view_of m)"
    and s1: "saved m1"
    using store_update_effect [OF run ok client k] by auto
  have o: "overlay (vmos_of m1) us (view_of m1 client) = overlay (vmos_of m) ((k, o_val) # us) (view_of m client)"
    using overlay_mono [OF us' le] by (simp add: overlay_Cons [OF new] v1 put_view_def)
  have j: "view_of m1 client j = view_of m client j \<or> view_of m1 client j = overlay (vmos_of m) ((k, o_val) # us) (view_of m client) j" for j
    using new by (auto simp: v1 put_view_def overlay_def)
  have others: "view_of m1 c = view_of m c" if "c \<noteq> client" for c using that by (simp add: v1 put_view_def)
  have "saved m'" if "r = Ok ()" using rest that empty s1 by (cases "us = []") (simp_all add: applies_def)
  moreover have "vmos_of m \<subseteq>\<^sub>m vmos_of m'" using rest le by (auto simp: applies_def intro: map_le_trans)
  moreover have "view_of m' client i = view_of m client i \<or> view_of m' client i = overlay (vmos_of m) ((k, o_val) # us) (view_of m client) i" for i
  proof -
    have "view_of m' client i = view_of m1 client i \<or> view_of m' client i = overlay (vmos_of m) ((k, o_val) # us) (view_of m client) i"
      using rest unfolding applies_def o by blast
    then show ?thesis using j [of i] by presburger
  qed
  ultimately show ?thesis using rest others unfolding applies_def o by simp
qed

lemma applies_refl: "store_ok (vmos_of m) (sm_store m) \<Longrightarrow> applies client [] m (Ok ()) m"
  by (simp add: applies_def)

text \<open>Cloning an old value before an update changes nothing of this.\<close>

lemma applies_cloned:
  assumes "applies client us m0 r m'" and "vmos_of m \<subseteq>\<^sub>m vmos_of m0" and "sm_store m0 = sm_store m"
    and "store_ok (vmos_of m) (sm_store m)" and "updates_ok (vmos_of m) us"
  shows "applies client us m r m'"
proof -
  have v: "view_of m0 = view_of m" using store_view_mono [OF assms(4,2)] assms(3) by simp
  have o: "overlay (vmos_of m0) us = overlay (vmos_of m) us" using overlay_mono [OF assms(5,2)] by blast
  show ?thesis using assms(1) map_le_trans [OF assms(2)] unfolding applies_def v o by blast
qed

lemma applies_nothing:
  assumes "vmos_of m \<subseteq>\<^sub>m vmos_of m0" and "sm_store m0 = sm_store m" and "store_ok (vmos_of m) (sm_store m)" and "r \<noteq> Ok ()"
  shows "applies client us m r m0"
  using assms store_view_mono [OF assms(3,1)] store_ok_mono [OF assms(3,1)] by (simp add: applies_def)

lemma revert_effect:
  "revert_updates ops client us m = (r, m') \<Longrightarrow> store_ok (vmos_of m) (sm_store m) \<Longrightarrow> string_ok client \<Longrightarrow>
   updates_ok (vmos_of m) us \<Longrightarrow> applies client us m r m'"
proof (induction us arbitrary: m)
  case (Cons e us)
  obtain k o_val where e: "e = (k, o_val)" by force
  obtain q m1 where 1: "store_update ops client k o_val m = (q, m1)" by force
  show ?case
  proof (cases "q = Ok ()")
    case True
    have 2: "revert_updates ops client us m1 = (r, m')" using Cons.prems(1) 1 True by (simp add: e bindP_step)
    have s1: "store_ok (vmos_of m1) (sm_store m1)" and le: "vmos_of m \<subseteq>\<^sub>m vmos_of m1"
      using store_update_effect [OF 1 Cons.prems(2,3)] Cons.prems(4) by (auto simp: e updates_ok_Cons)
    have us: "updates_ok (vmos_of m1) us" using Cons.prems(4) le by (auto simp: e updates_ok_Cons intro: updates_ok_mono)
    have "m' = m1" if "us = []" using 2 that by simp
    then show ?thesis
      using applies_step [OF 1 [unfolded True] Cons.prems(2,3) Cons.prems(4) [unfolded e] Cons.IH [OF 2 s1 Cons.prems(3) us]]
      unfolding e by blast
  next
    case False
    then have "r \<noteq> Ok ()" "m' = m1" using Cons.prems(1) 1 by (cases q; simp add: e bindP_def)+
    then show ?thesis using applies_failed [OF 1 Cons.prems(2,3) Cons.prems(4) [unfolded e] False] by (simp add: e)
  qed
qed (auto simp: applies_refl)

text \<open>
  The run of a commit also records the old values: laid over the view, they give the view from
  before the run at every moment.
\<close>

lemma commit_effect:
  "commit_updates ops client us (olds, m) = (r, olds', m') \<Longrightarrow> store_ok (vmos_of m) (sm_store m) \<Longrightarrow> string_ok client \<Longrightarrow>
   updates_ok (vmos_of m) us \<Longrightarrow> updates_ok (vmos_of m) olds \<Longrightarrow> fst ` set olds \<inter> fst ` set us = {} \<Longrightarrow>
   applies client us m r m' \<and> updates_ok (vmos_of m') olds' \<and>
   overlay (vmos_of m') olds' (view_of m' client) = overlay (vmos_of m) olds (view_of m client)"
proof (induction us arbitrary: m olds)
  case (Cons e us)
  obtain k o_val where e: "e = (k, o_val)" by force
  obtain q0 m0 where 0: "clone_old ops client k m = (q0, m0)" by force
  have st0: "sm_store m0 = sm_store m" and le0: "vmos_of m \<subseteq>\<^sub>m vmos_of m0"
    using clone_old_effect [OF 0 Cons.prems(2)] by simp_all
  have ok0: "store_ok (vmos_of m0) (sm_store m0)" and v0: "view_of m0 = view_of m"
    using store_ok_mono [OF Cons.prems(2) le0] store_view_mono [OF Cons.prems(2) le0] st0 by simp_all
  have us0: "updates_ok (vmos_of m0) ((k, o_val) # us)" using updates_ok_mono [OF Cons.prems(4) le0] by (simp add: e)
  have o0: "overlay (vmos_of m0) olds = overlay (vmos_of m) olds" using overlay_mono [OF Cons.prems(5) le0] by blast
  have lift: "applies client (e # us) m r m'" if "applies client ((k, o_val) # us) m0 r m'"
    using applies_cloned [OF that [folded e] le0 st0 Cons.prems(2,4)] .
  show ?case
  proof (cases "\<exists>old. q0 = Ok old")
    case False
    have "onStore (clone_old ops client k) (olds, m) = (q0, olds, m0)" using 0 by (simp add: onStore_eq)
    then have "(r, olds', m') = (case q0 of Ok _ \<Rightarrow> undefined | Err e \<Rightarrow> (Err e, olds, m0) | Panic \<Rightarrow> (Panic, olds, m0)
        | Diverge \<Rightarrow> (Diverge, olds, m0))"
      using Cons.prems(1) False by (cases q0) (simp_all add: e bindP_step)
    then have "m' = m0" "olds' = olds" "r \<noteq> Ok ()" using False by (cases q0; simp)+
    then show ?thesis
      using applies_nothing [OF le0 st0 Cons.prems(2)] v0 o0 updates_ok_mono [OF Cons.prems(5) le0] by simp
  next
    case True
    then obtain old where q0: "q0 = Ok old" by blast
    define olds1 where "olds1 = AList.update k old olds"
    have old: "map_option (denote (vmos_of m0)) old = view_of m client k" "\<forall>v. old = Some v \<longrightarrow> value_ok (vmos_of m0) v"
      using clone_old_effect [OF 0 Cons.prems(2)] q0 by simp_all
    have olds1: "updates_ok (vmos_of m0) olds1"
      unfolding olds1_def using updates_ok_mono [OF Cons.prems(5) le0] us0 old by (intro updates_ok_update) (auto simp: updates_ok_Cons)
    obtain q1 m1 where 1: "store_update ops client k o_val m0 = (q1, m1)" by force
    have kv: "string_ok k" "\<forall>v. o_val = Some v \<longrightarrow> value_ok (vmos_of m0) v" using us0 by (simp_all add: updates_ok_Cons)
    note effect = store_update_effect [OF 1 ok0 Cons.prems(3) kv]
    have le1: "vmos_of m0 \<subseteq>\<^sub>m vmos_of m1" and ok1: "store_ok (vmos_of m1) (sm_store m1)" using effect by blast+
    have "view_of m1 = view_of m \<or> view_of m1 = put_view client k (map_option (denote (vmos_of m0)) o_val) (view_of m)"
      using effect unfolding v0 by blast
    then have v1: "view_of m1 client j = view_of m client j" if "j \<noteq> k" for j
      by (rule disjE) (simp_all add: put_view_def that)
    have k: "map_of olds k = None" using Cons.prems(6) by (auto simp: e map_of_eq_None_iff)
    have undo: "overlay (vmos_of m1) olds1 (view_of m1 client) = overlay (vmos_of m) olds (view_of m client)"
    proof
      fix j
      have "overlay (vmos_of m0) olds1 (view_of m1 client) j = overlay (vmos_of m0) olds (view_of m client) j"
        using v1 old(1) k by (cases "j = k") (simp_all add: overlay_def olds1_def update_conv' split: option.split)
      then show "overlay (vmos_of m1) olds1 (view_of m1 client) j = overlay (vmos_of m) olds (view_of m client) j"
        unfolding overlay_mono [OF olds1 le1] o0 .
    qed
    show ?thesis
    proof (cases "q1 = Ok ()")
      case True
      have 2: "commit_updates ops client us (olds1, m1) = (r, olds', m')"
        using Cons.prems(1) 0 1 by (simp add: e bindP_def onStore_eq q0 True olds1_def)
      have us1: "updates_ok (vmos_of m1) us" using us0 le1 by (auto simp: updates_ok_Cons intro: updates_ok_mono)
      have disj: "fst ` set olds1 \<inter> fst ` set us = {}"
      proof -
        have "fst ` set olds1 = insert k (fst ` set olds)"
          by (simp add: olds1_def dom_map_of_conv_image_fst [symmetric] update_conv')
        then show ?thesis using us0 Cons.prems(6) by (auto simp: e updates_ok_Cons)
      qed
      note IH = Cons.IH [OF 2 ok1 Cons.prems(3) us1 updates_ok_mono [OF olds1 le1] disj]
      have "m' = m1" if "us = []" using 2 that by simp
      then have "applies client ((k, o_val) # us) m0 r m'"
        using applies_step [OF 1 [unfolded True] ok0 Cons.prems(3) us0, of r m'] IH by blast
      from lift [OF this] show ?thesis using IH undo by simp
    next
      case False
      then have r: "m' = m1" "olds' = olds1" "r \<noteq> Ok ()"
        using Cons.prems(1) 0 1 by (cases q1; simp add: e bindP_def onStore_eq q0 olds1_def)+
      then have "applies client ((k, o_val) # us) m0 r m'"
        using applies_failed [OF 1 ok0 Cons.prems(3) us0 False] by blast
      from lift [OF this] show ?thesis using r undo updates_ok_mono [OF olds1 le1] by simp
    qed
  qed
qed (auto simp: applies_refl)

end

end
