(* ===== verification/Stash_Service.thy ===== *)
theory Stash_Service
  imports Stash_Correct
begin

text \<open>
  Stash as its clients see it. An accessor presents the store of its client under its pending
  updates; a commit makes that view the store or restores it, and a restart reads it back. Listings
  and their iterators, and what becomes of a file that was cut, are here too, with a small world of
  VMOs and one file that satisfies the laws.
\<close>

section \<open>The view of an accessor\<close>

definition pending_view :: "('w \<Rightarrow> 'v vmos) \<Rightarrow> 'v accessor \<times> ('w, 'v) manager \<Rightarrow> key \<Rightarrow> value_content option" where
  "pending_view content = (\<lambda>(a, m). overlay (content (sm_world m)) (fields_updated a)
     (store_view (content (sm_world m)) (sm_store m) (acc_client a)))"

definition accessor_ok :: "('w \<Rightarrow> 'v vmos) \<Rightarrow> 'v accessor \<times> ('w, 'v) manager \<Rightarrow> bool" where
  "accessor_ok content = (\<lambda>(a, m). store_ok (content (sm_world m)) (sm_store m) \<and> string_ok (acc_client a) \<and>
     updates_ok (content (sm_world m)) (fields_updated a))"

lemma map_of_blanked:
  "map_of (map (\<lambda>(k, x). (k, if P k then None else x)) us) j = map_option (\<lambda>x. if P j then None else x) (map_of us j)"
  by (induction us) auto

lemma map_of_fold_deleted:
  "map_of (fold (\<lambda>(k, _). AList.update k None) ls us) j = (if j \<in> fst ` set ls then Some None else map_of us j)"
  by (induction ls arbitrary: us) (auto simp: update_conv')

lemma keys_manager_list_prefix:
  fixes st :: "'v stash_store"
  shows "j \<in> fst ` set (manager_list_prefix st client prefix) \<longleftrightarrow> starts_with j prefix \<and> manager_get_value st client j \<noteq> None"
proof -
  have "j \<in> fst ` set (map (\<lambda>(k, v). (k, value_to_type v)) (filter (\<lambda>(k, _). starts_with k prefix) fs)) \<longleftrightarrow>
      starts_with j prefix \<and> map_of fs j \<noteq> None" for fs :: "'v field_map"
    by (induction fs) auto
  then show ?thesis by (simp add: manager_list_prefix_def manager_get_value_def split: option.split)
qed

lemma set_value_view:
  assumes "accessor_set_value k v (a, m) = (Ok (), a', m')"
  shows "pending_view content (a', m') = (pending_view content (a, m))(k := Some (denote (content (sm_world m)) v))"
  using assms by (intro ext) (auto simp: accessor_set_value_def record_update_def pending_view_def overlay_def update_conv' split: if_splits option.splits)

lemma delete_value_view:
  assumes "accessor_delete_value k (a, m) = (Ok (), a', m')"
  shows "pending_view content (a', m') = (pending_view content (a, m))(k := None)"
  using assms by (intro ext) (auto simp: accessor_delete_value_def record_update_def pending_view_def overlay_def update_conv' split: if_splits option.splits)

lemma delete_prefix_view:
  assumes "accessor_delete_prefix prefix (a, m) = (Ok (), a', m')"
  shows "pending_view content (a', m') = (\<lambda>j. if starts_with j prefix then None else pending_view content (a, m) j)"
proof
  fix j
  have m': "m' = m" and c: "acc_client a' = acc_client a" and us: "fields_updated a' =
      fold (\<lambda>(k, _). AList.update k None) (manager_list_prefix (sm_store m) (acc_client a) prefix)
        (map (\<lambda>(k, o_val). (k, if starts_with k prefix then None else o_val)) (fields_updated a))"
    using assms by (auto simp: accessor_delete_prefix_def split: if_splits)
  show "pending_view content (a', m') j = (if starts_with j prefix then None else pending_view content (a, m) j)"
    unfolding pending_view_def case_prod_conv overlay_def m' c us map_of_fold_deleted keys_manager_list_prefix map_of_blanked
    by (auto simp: store_view_def split: option.split)
qed

context stash_world
begin

lemma clone_Ok_view:
  assumes "clone_stash_value ops v w = (Ok v', w')" and "value_ok (content w) v"
  shows "denote (content w') v' = denote (content w) v"
  using clone_contents [OF assms] by simp

lemma get_value_view:
  assumes run: "accessor_get_value ops k (a, m) = (Ok x, a', m')" and ok: "accessor_ok content (a, m)"
  shows "a' = a \<and> sm_store m' = sm_store m \<and> map_option (denote (vmos_of m')) x = pending_view content (a, m) k"
proof -
  have shown: "a' = a \<and> sm_store m' = sm_store m \<and> map_option (denote (vmos_of m')) x = Some (denote (vmos_of m) v)"
    if "bindP (onManager (onWorld (clone_stash_value ops v))) (\<lambda>v. returnP (Some v)) (a, m) = (Ok x, a', m')" "value_ok (vmos_of m) v" for v
    using that by (auto simp: bindP_def onManager_eq onWorld_eq split: prod.splits outcome.splits dest: clone_Ok_view)
  show ?thesis
  proof (cases "map_of (fields_updated a) k")
    case None
    show ?thesis
    proof (cases "manager_get_value (sm_store m) (acc_client a) k")
      case (Some v)
      then have "value_ok (vmos_of m) v" using ok by (auto simp: accessor_ok_def dest: stored_value_ok)
      then show ?thesis
        using run shown [of v] by (auto simp: accessor_get_value_def None Some pending_view_def overlay_def store_view_def split: if_splits)
    qed (use run None in \<open>auto simp: accessor_get_value_def pending_view_def overlay_def store_view_def\<close>)
  next
    case (Some o_val)
    show ?thesis
    proof (cases o_val)
      case (Some v)
      have "value_ok (vmos_of m) v"
        using ok map_of_SomeD [OF \<open>map_of (fields_updated a) k = Some o_val\<close>] Some by (fastforce simp: accessor_ok_def updates_ok_def)
      then show ?thesis
        using run shown [of v] \<open>map_of (fields_updated a) k = Some o_val\<close> Some
        by (auto simp: accessor_get_value_def pending_view_def overlay_def split: if_splits)
    qed (use run Some in \<open>auto simp: accessor_get_value_def pending_view_def overlay_def\<close>)
  qed
qed

text \<open>A commit, on every path.\<close>

lemma commit_cases:
  assumes run: "accessor_commit ops (a, m) = (r, a', m')" and rw: "\<not> read_only a" and ok: "accessor_ok content (a, m)"
  obtains (committed) olds where "commit_updates ops (acc_client a) (fields_updated a) ([], m) = (Ok (), olds, m')" "r = Ok ()" "a' = a\<lparr>fields_updated := []\<rparr>" "applies (acc_client a) (fields_updated a) m (Ok ()) m'"
  | (failed) e olds m1 q where "commit_updates ops (acc_client a) (fields_updated a) ([], m) = (Err e, olds, m1)"
      "a' = a\<lparr>fields_updated := []\<rparr>" "applies (acc_client a) (fields_updated a) m (Err e) m1"
      "updates_ok (vmos_of m1) olds" "overlay (vmos_of m1) olds (view_of m1 (acc_client a)) = view_of m (acc_client a)"
      "revert_updates ops (acc_client a) olds m1 = (q, m')" "applies (acc_client a) olds m1 q m'"
      "r = (case q of Ok _ \<Rightarrow> Err e | Err e' \<Rightarrow> Err e' | Panic \<Rightarrow> Panic | Diverge \<Rightarrow> Diverge)"
  | (crash) olds where "commit_updates ops (acc_client a) (fields_updated a) ([], m) = (r, olds, m')" "r = Panic \<or> r = Diverge" "a' = a" "applies (acc_client a) (fields_updated a) m r m'"
proof -
  obtain p olds m1 where 1: "commit_updates ops (acc_client a) (fields_updated a) ([], m) = (p, olds, m1)"
    by (metis prod.collapse)
  have ok': "store_ok (vmos_of m) (sm_store m)" "string_ok (acc_client a)" "updates_ok (vmos_of m) (fields_updated a)"
    using ok by (simp_all add: accessor_ok_def)
  have e: "applies (acc_client a) (fields_updated a) m p m1" "updates_ok (vmos_of m1) olds"
    "overlay (vmos_of m1) olds (view_of m1 (acc_client a)) = view_of m (acc_client a)"
    using commit_effect [OF 1 ok'] by (simp_all add: updates_ok_def)
  obtain q m2 where 2: "revert_updates ops (acc_client a) olds m1 = (q, m2)" by force
  have s1: "store_ok (vmos_of m1) (sm_store m1)" using e(1) by (simp add: applies_def)
  note rv = revert_effect [OF 2 s1 ok'(2) e(2)]
  show thesis
  proof (cases p)
    case (Ok u)
    then have "r = Ok ()" "a' = a\<lparr>fields_updated := []\<rparr>" "m' = m1"
      using run rw 1 by (simp_all add: accessor_commit_def run_updates_def attemptP_def bindP_def)
    then show thesis using committed [of olds] 1 e(1) Ok by simp
  next
    case (Err x)
    then have "(r, a', m') = ((case q of Ok _ \<Rightarrow> Err x | Err e' \<Rightarrow> Err e' | Panic \<Rightarrow> Panic | Diverge \<Rightarrow> Diverge), a\<lparr>fields_updated := []\<rparr>, m2)"
      using run rw 1 2 by (cases q) (auto simp: accessor_commit_def run_updates_def attemptP_def bindP_def onManager_eq)
    then show thesis using failed [of x olds m1 q] 1 2 e rv Err by simp
  next
    case Panic
    then have "r = Panic" "a' = a" "m' = m1"
      using run rw 1 by (simp_all add: accessor_commit_def run_updates_def attemptP_def bindP_def)
    then show thesis using crash [of olds] 1 e(1) Panic by simp
  next
    case Diverge
    then have "r = Diverge" "a' = a" "m' = m1"
      using run rw 1 by (simp_all add: accessor_commit_def run_updates_def attemptP_def bindP_def)
    then show thesis using crash [of olds] 1 e(1) Diverge by simp
  qed
qed

lemma commit_summary:
  assumes run: "accessor_commit ops (a, m) = (r, a', m')" and rw: "\<not> read_only a" and ok: "accessor_ok content (a, m)"
  defines "client \<equiv> acc_client a"
  shows commit_others: "c \<noteq> client \<Longrightarrow> view_of m' c = view_of m c"
    and commit_keys: "view_of m' client k = view_of m client k \<or> view_of m' client k = pending_view content (a, m) k"
    and commit_Ok: "r = Ok () \<Longrightarrow> view_of m' client = pending_view content (a, m) \<and> (fields_updated a \<noteq> [] \<longrightarrow> saved m')"
    and commit_undone: "commit_updates ops client (fields_updated a) ([], m) = (Err e, olds, m1) \<Longrightarrow>
      revert_updates ops client olds m1 = (Ok (), m2) \<Longrightarrow> r = Err e \<and> view_of m' client = view_of m client"
    and commit_store_ok: "vmos_of m \<subseteq>\<^sub>m vmos_of m' \<and> store_ok (vmos_of m') (sm_store m')"
proof -
  have p: "pending_view content (a, m) = overlay (vmos_of m) (fields_updated a) (view_of m client)"
    by (simp add: pending_view_def client_def)
  have goal: "(\<forall>c. c \<noteq> client \<longrightarrow> view_of m' c = view_of m c) \<and>
    (\<forall>k. view_of m' client k = view_of m client k \<or> view_of m' client k = pending_view content (a, m) k) \<and>
    (r = Ok () \<longrightarrow> view_of m' client = pending_view content (a, m) \<and> (fields_updated a \<noteq> [] \<longrightarrow> saved m')) \<and>
    (\<forall>e olds m1 m2. commit_updates ops client (fields_updated a) ([], m) = (Err e, olds, m1) \<longrightarrow>
      revert_updates ops client olds m1 = (Ok (), m2) \<longrightarrow> r = Err e \<and> view_of m' client = view_of m client) \<and>
    vmos_of m \<subseteq>\<^sub>m vmos_of m' \<and> store_ok (vmos_of m') (sm_store m')"
    using run rw ok
  proof (cases rule: commit_cases)
    case (committed olds)
    then show ?thesis unfolding p by (simp add: applies_def client_def)
  next
    case (crash olds)
    then show ?thesis unfolding p by (auto simp: applies_def client_def)
  next
    case (failed e olds m1 q)
    have k: "view_of m' client k = view_of m client k \<or> view_of m' client k = pending_view content (a, m) k" for k
      using failed(3,5,7) unfolding p applies_def client_def by metis
    have le: "vmos_of m \<subseteq>\<^sub>m vmos_of m'" using failed(3,7) by (auto simp: applies_def intro: map_le_trans)
    show ?thesis
      using failed k le by (auto simp: applies_def client_def split: outcome.splits)
  qed
  show "c \<noteq> client \<Longrightarrow> view_of m' c = view_of m c"
    "view_of m' client k = view_of m client k \<or> view_of m' client k = pending_view content (a, m) k"
    "r = Ok () \<Longrightarrow> view_of m' client = pending_view content (a, m) \<and> (fields_updated a \<noteq> [] \<longrightarrow> saved m')"
    "commit_updates ops client (fields_updated a) ([], m) = (Err e, olds, m1) \<Longrightarrow>
      revert_updates ops client olds m1 = (Ok (), m2) \<Longrightarrow> r = Err e \<and> view_of m' client = view_of m client"
    "vmos_of m \<subseteq>\<^sub>m vmos_of m' \<and> store_ok (vmos_of m') (sm_store m')"
    using goal by blast+
qed

text \<open>A manager started on the file of a saved store has the same contents.\<close>

lemma new_reads_saved:
  assumes saved: "saved m" and ok: "store_ok (vmos_of m) (sm_store m)" and fits: "store_fits (sm_store m)"
    and avail: "vmos_available ops content" and disk: "disk w = disk (sm_world m)" and read: "file_read ops w = (Ok bs, w1)"
  shows "\<exists>st w2. manager_new ops w = (Ok st, w2) \<and> store_view (content w2) st = view_of m"
proof -
  have bs: "bs = encode_store ops (denote_store (vmos_of m) (sm_store m))"
    using file_read_contents [OF read] disk saved by simp
  have entries: "\<forall>(client, es) \<in> set (denote_store (vmos_of m) (sm_store m)). client_ok client es"
    using ok fits by (fastforce simp: client_ok_def denote_store_def denote_fields_def store_ok_def fields_ok_def store_fits_def comp_def split_beta
        intro: content_ok_denote)
  have "distinct (map fst ([] :: 'v stash_store) @ map fst (denote_store (vmos_of m) (sm_store m)))" using ok by (simp add: store_ok_def)
  from deserialize_iterates [OF avail this entries, of w1] obtain st w2 where
    "iterateP (deserialize_step ops) (bs, []) w1 = Some (Ok st, w2)" and "denote_store (content w2) st = denote_store (vmos_of m) (sm_store m)"
    by (auto simp: bs)
  moreover from this(2) have "store_view (content w2) st = view_of m" by (intro ext) (simp add: store_view_denote)
  ultimately show ?thesis using read by (simp add: manager_new_def deserialize_def loopP_def bindP_def attemptP_def)
qed

end

section \<open>A world\<close>

text \<open>VMOs in memory, one file and its temporary file, and room for so many bytes on disk.\<close>

record simple_world =
  sw_vmos :: "u8 list list"
  sw_disk :: "u8 list option"
  sw_temp :: "u8 list"
  sw_room :: nat

definition simple_content :: "simple_world \<Rightarrow> nat vmos" where
  "simple_content w v = (if v < length (sw_vmos w) then Some (sw_vmos w ! v) else None)"

definition simple_ops :: "(simple_world, nat) world_ops" where
  "simple_ops = \<lparr>
     vmo_create_child = (\<lambda>v n w. if v < length (sw_vmos w) \<and> unat n \<le> length (sw_vmos w ! v)
       then (Ok (length (sw_vmos w)), w\<lparr>sw_vmos := sw_vmos w @ [take (unat n) (sw_vmos w ! v)]\<rparr>) else (Err CloneFailed, w)),
     vmo_read = (\<lambda>v k w. if v < length (sw_vmos w) \<and> k \<le> length (sw_vmos w ! v)
       then (Ok (take k (sw_vmos w ! v)), w) else (Err ReadFailed, w)),
     vmo_create = (\<lambda>n w. (Ok (length (sw_vmos w)), w\<lparr>sw_vmos := sw_vmos w @ [replicate (unat n) 0]\<rparr>)),
     vmo_write = (\<lambda>v bs w. if v < length (sw_vmos w) \<and> length bs \<le> length (sw_vmos w ! v)
       then (Ok (), w\<lparr>sw_vmos := (sw_vmos w)[v := overwrite (sw_vmos w ! v) 0 bs]\<rparr>) else (Err CreateFailed, w)),
     file_read = (\<lambda>w. (case sw_disk w of None \<Rightarrow> Err FileNotFound | Some bs \<Rightarrow> Ok bs, w)),
     temp_open = (\<lambda>w. (Ok (), w\<lparr>sw_temp := []\<rparr>)),
     temp_write = (\<lambda>bs w. if length bs \<le> sw_room w then (Ok (), w\<lparr>sw_temp := sw_temp w @ bs\<rparr>) else (Err FileFailed, w)),
     temp_rename = (\<lambda>w. (Ok (), w\<lparr>sw_disk := Some (sw_temp w)\<rparr>)),
     put_64 = to_le 8,
     get_64 = from_le\<rparr>"

lemma simple_content_append: "simple_content w \<subseteq>\<^sub>m simple_content (w\<lparr>sw_vmos := sw_vmos w @ [bs]\<rparr>)"
  by (auto simp: map_le_def simple_content_def nth_append split: if_splits)

lemma simple_content_files [simp]:
  "simple_content (w\<lparr>sw_disk := d\<rparr>) = simple_content w" "simple_content (w\<lparr>sw_temp := t\<rparr>) = simple_content w"
  by (simp_all add: simple_content_def fun_eq_iff)

interpretation simple: stash_world simple_ops simple_content sw_disk sw_temp
  by unfold_locales
    (auto simp: simple_ops_def simple_content_append split: if_splits option.splits,
     auto simp: simple_content_def nth_append split: if_splits)

lemma simple_available: "vmos_available simple_ops simple_content"
  by (auto simp: vmos_available_def simple_ops_def simple_content_def split: if_splits)

section \<open>Transactions\<close>

definition demo_manager :: "nat \<Rightarrow> (simple_world, nat) manager" where
  "demo_manager room = \<lparr>sm_store = [], sm_world = \<lparr>sw_vmos = [], sw_disk = None, sw_temp = [], sw_room = room\<rparr>\<rparr>"

definition demo_accessor :: "nat accessor" where
  "demo_accessor = \<lparr>acc_client = [0x63], enable_bytes = True, read_only = False, fields_updated = [([0x6B], Some (Intval 5))]\<rparr>"

lemma demo_ok: "accessor_ok simple_content (demo_accessor, demo_manager room)"
  by (simp add: accessor_ok_def demo_accessor_def demo_manager_def store_ok_def updates_ok_def string_ok_def ISIZE_LIMIT_def)

definition demo_bytes :: "u8 list" where
  "demo_bytes = encode_store simple_ops [([0x63], [([0x6B], IntC 5)])]"

lemma length_demo_bytes: "length demo_bytes = 43"
  by (simp add: demo_bytes_def with_length_def simple_ops_def)

lemma demo_commit:
  "accessor_commit simple_ops (demo_accessor, demo_manager 100) = (Ok (), demo_accessor\<lparr>fields_updated := []\<rparr>,
     \<lparr>sm_store = [([0x63], [([0x6B], Intval 5)])],
      sm_world = \<lparr>sw_vmos = [], sw_disk = Some demo_bytes, sw_temp = demo_bytes, sw_room = 100\<rparr>\<rparr>)"
  using length_demo_bytes
  by (simp add: accessor_commit_def demo_accessor_def demo_manager_def run_updates_def attemptP_def bindP_def onStore_eq
      clone_old_def manager_get_value_def store_update_def onWorld_eq manager_set_value_def save_store_def fields_of_def
      simple_ops_def demo_bytes_def)

text \<open>
  C1. What a client committed is there after a restart: when an accessor with pending updates commits
  successfully, a store manager that starts on the file left on disk succeeds, and in its store the
  client has the values it had under the updates, and every other client what it had before. The VMOs
  and files behave as documented, VMOs can be allocated, and the file can be read.
\<close>

theorem committed_survives_restart:
  assumes world: "stash_world ops content disk temp" and ok: "accessor_ok content (a, m)"
    and run: "accessor_commit ops (a, m) = (Ok (), a', m')" and pending: "fields_updated a \<noteq> []"
    and fits: "store_fits (sm_store m')" and avail: "vmos_available ops content"
    and restart: "disk w = disk (sm_world m')" "file_read ops w = (Ok bs, w1)"
  shows "\<exists>st w2. manager_new ops w = (Ok st, w2) \<and>
    store_view (content w2) st = (store_view (content (sm_world m)) (sm_store m))(acc_client a := pending_view content (a, m))"
proof -
  have rw: "\<not> read_only a" using run by (auto simp: accessor_commit_def)
  have "store_view (content (sm_world m')) (sm_store m') c =
      ((store_view (content (sm_world m)) (sm_store m))(acc_client a := pending_view content (a, m))) c" for c
    using stash_world.commit_others [OF world run rw ok, of c] stash_world.commit_Ok [OF world run rw ok] by simp
  then have "store_view (content (sm_world m')) (sm_store m') =
      (store_view (content (sm_world m)) (sm_store m))(acc_client a := pending_view content (a, m))" by blast
  then show ?thesis
    using stash_world.new_reads_saved [OF world _ _ fits avail restart] pending
      stash_world.commit_Ok [OF world run rw ok] stash_world.commit_store_ok [OF world run rw ok] by simp
qed

theorem committed_survives_restart_witness:
  "\<exists>a' m' st w2. accessor_commit simple_ops (demo_accessor, demo_manager 100) = (Ok (), a', m') \<and>
     manager_new simple_ops (sm_world m') = (Ok st, w2) \<and> store_view (simple_content w2) st [0x63] [0x6B] = Some (IntC 5)"
proof -
  define w where "w = \<lparr>sw_vmos = [], sw_disk = Some demo_bytes, sw_temp = demo_bytes, sw_room = 100\<rparr>"
  have read: "file_read simple_ops w = (Ok demo_bytes, w)" by (simp add: simple_ops_def w_def)
  have "\<exists>st w2. manager_new simple_ops w = (Ok st, w2) \<and> store_view (simple_content w2) st =
      (store_view (simple_content (sm_world (demo_manager 100))) (sm_store (demo_manager 100)))
        (acc_client demo_accessor := pending_view simple_content (demo_accessor, demo_manager 100))"
    by (rule committed_survives_restart [OF simple.stash_world_axioms demo_ok demo_commit _ _ simple_available _ read])
      (simp_all add: demo_accessor_def store_fits_def w_def)
  then obtain st w2 where "manager_new simple_ops w = (Ok st, w2)" "store_view (simple_content w2) st [0x63] [0x6B] = Some (IntC 5)"
    by (auto simp: demo_accessor_def pending_view_def overlay_def)
  then show ?thesis using demo_commit unfolding w_def by fastforce
qed

text \<open>
  C2. A commit on any path, failures included, never changes what other clients have stored, and every
  key of its own client has its old or its new value afterwards. If it succeeds, every key has the
  new value and the file holds the store. If an update fails and undoing the others succeeds, the
  commit returns the error and the store is as it was.
\<close>

theorem commit_all_or_nothing:
  assumes world: "stash_world ops content disk temp" and ok: "accessor_ok content (a, m)" and rw: "\<not> read_only a"
    and run: "accessor_commit ops (a, m) = (r, a', m')"
  shows "(\<forall>c. c \<noteq> acc_client a \<longrightarrow> store_view (content (sm_world m')) (sm_store m') c = store_view (content (sm_world m)) (sm_store m) c) \<and>
    (\<forall>k. store_view (content (sm_world m')) (sm_store m') (acc_client a) k
       \<in> {store_view (content (sm_world m)) (sm_store m) (acc_client a) k, pending_view content (a, m) k}) \<and>
    (r = Ok () \<longrightarrow> store_view (content (sm_world m')) (sm_store m') (acc_client a) = pending_view content (a, m) \<and>
       (fields_updated a \<noteq> [] \<longrightarrow> disk (sm_world m') = Some (encode_store ops (denote_store (content (sm_world m')) (sm_store m'))))) \<and>
    (\<forall>e olds m1 m2. commit_updates ops (acc_client a) (fields_updated a) ([], m) = (Err e, olds, m1) \<longrightarrow>
       revert_updates ops (acc_client a) olds m1 = (Ok (), m2) \<longrightarrow>
       r = Err e \<and> store_view (content (sm_world m')) (sm_store m') = store_view (content (sm_world m)) (sm_store m))"
proof -
  note facts = stash_world.commit_summary [OF world run rw ok]
  show ?thesis using facts(1,2,3,4) by (intro conjI allI impI ext) (auto, (metis facts(1,4))+)
qed

definition full_accessor :: "nat accessor" where
  "full_accessor = demo_accessor\<lparr>fields_updated := [([0x6B], Some (Intval 5)), ([0x6C], Some (Boolval True))]\<rparr>"

lemma full_ok: "accessor_ok simple_content (full_accessor, demo_manager room)"
  by (simp add: accessor_ok_def full_accessor_def demo_accessor_def demo_manager_def store_ok_def updates_ok_def string_ok_def ISIZE_LIMIT_def)

text \<open>The evaluation of transactions in the concrete world.\<close>

lemmas run_commit = accessor_commit_def full_accessor_def demo_accessor_def demo_manager_def run_updates_def attemptP_def
  bindP_def onStore_eq onManager_eq clone_old_def manager_get_value_def store_update_def onWorld_eq manager_set_value_def
  manager_delete_value_def save_store_def fields_of_def simple_ops_def with_length_def

lemma full_commit_fails:
  "\<exists>olds m1 m2. commit_updates simple_ops (acc_client full_accessor) (fields_updated full_accessor) ([], demo_manager 50) = (Err FileFailed, olds, m1) \<and>
     revert_updates simple_ops (acc_client full_accessor) olds m1 = (Ok (), m2)"
  by (simp add: run_commit)

theorem commit_all_or_nothing_witness:
  "\<exists>a' m'. accessor_commit simple_ops (full_accessor, demo_manager 50) = (Err FileFailed, a', m') \<and>
     store_view (simple_content (sm_world m')) (sm_store m') = (\<lambda>client k. None)"
proof -
  obtain r a' m' where run: "accessor_commit simple_ops (full_accessor, demo_manager 50) = (r, a', m')" by (metis prod.collapse)
  have rw: "\<not> read_only full_accessor" by (simp add: full_accessor_def demo_accessor_def)
  have "store_view (simple_content (sm_world (demo_manager 50))) (sm_store (demo_manager 50)) = (\<lambda>client k. None)"
    by (intro ext) (simp add: demo_manager_def store_view_def manager_get_value_def)
  then show ?thesis
    using commit_all_or_nothing [OF simple.stash_world_axioms full_ok rw run] full_commit_fails run by metis
qed

text \<open>
  C13. An accessor behaves as a private copy of the map of its client: a read returns the value of
  this map, setting and deleting a key and deleting a prefix change it as they would change a map,
  none of them touches the store, and a successful commit stores exactly the map and leaves it as it is.
\<close>

theorem accessor_refines_map:
  assumes world: "stash_world ops content disk temp" and ok: "accessor_ok content (a, m)"
  shows "(\<forall>k x a' m'. accessor_get_value ops k (a, m) = (Ok x, a', m') \<longrightarrow>
      a' = a \<and> sm_store m' = sm_store m \<and> map_option (denote (content (sm_world m'))) x = pending_view content (a, m) k) \<and>
    (\<forall>k v a' m'. accessor_set_value k v (a, m) = (Ok (), a', m') \<longrightarrow>
      m' = m \<and> pending_view content (a', m') = (pending_view content (a, m))(k \<mapsto> denote (content (sm_world m)) v)) \<and>
    (\<forall>k a' m'. accessor_delete_value k (a, m) = (Ok (), a', m') \<longrightarrow>
      m' = m \<and> pending_view content (a', m') = (pending_view content (a, m))(k := None)) \<and>
    (\<forall>p a' m'. accessor_delete_prefix p (a, m) = (Ok (), a', m') \<longrightarrow>
      m' = m \<and> pending_view content (a', m') = pending_view content (a, m) |` {k. \<not> starts_with k p}) \<and>
    (\<forall>a' m'. accessor_commit ops (a, m) = (Ok (), a', m') \<longrightarrow>
      store_view (content (sm_world m')) (sm_store m') (acc_client a) = pending_view content (a, m) \<and>
      pending_view content (a', m') = pending_view content (a, m))"
proof (intro conjI)
  show "\<forall>k x a' m'. accessor_get_value ops k (a, m) = (Ok x, a', m') \<longrightarrow>
      a' = a \<and> sm_store m' = sm_store m \<and> map_option (denote (content (sm_world m'))) x = pending_view content (a, m) k"
    using stash_world.get_value_view [OF world _ ok] by blast
  show "\<forall>k v a' m'. accessor_set_value k v (a, m) = (Ok (), a', m') \<longrightarrow>
      m' = m \<and> pending_view content (a', m') = (pending_view content (a, m))(k \<mapsto> denote (content (sm_world m)) v)"
    using set_value_view [of _ _ a m _ _ content] by (auto simp: accessor_set_value_def record_update_def split: if_splits)
  show "\<forall>k a' m'. accessor_delete_value k (a, m) = (Ok (), a', m') \<longrightarrow>
      m' = m \<and> pending_view content (a', m') = (pending_view content (a, m))(k := None)"
    using delete_value_view [of _ a m _ _ content] by (auto simp: accessor_delete_value_def record_update_def split: if_splits)
  show "\<forall>p a' m'. accessor_delete_prefix p (a, m) = (Ok (), a', m') \<longrightarrow>
      m' = m \<and> pending_view content (a', m') = pending_view content (a, m) |` {k. \<not> starts_with k p}"
  proof (intro allI impI conjI)
    fix p a' m' assume run: "accessor_delete_prefix p (a, m) = (Ok (), a', m')"
    show "m' = m" using run by (auto simp: accessor_delete_prefix_def split: if_splits)
    show "pending_view content (a', m') = pending_view content (a, m) |` {k. \<not> starts_with k p}"
      unfolding delete_prefix_view [OF run] by (simp add: restrict_map_def fun_eq_iff)
  qed
  show "\<forall>a' m'. accessor_commit ops (a, m) = (Ok (), a', m') \<longrightarrow>
      store_view (content (sm_world m')) (sm_store m') (acc_client a) = pending_view content (a, m) \<and>
      pending_view content (a', m') = pending_view content (a, m)"
  proof (intro allI impI conjI)
    fix a' m' assume run: "accessor_commit ops (a, m) = (Ok (), a', m')"
    then have rw: "\<not> read_only a" by (auto simp: accessor_commit_def)
    show v: "store_view (content (sm_world m')) (sm_store m') (acc_client a) = pending_view content (a, m)"
      using stash_world.commit_Ok [OF world run rw ok] by simp
    have "a' = a\<lparr>fields_updated := []\<rparr>"
      by (rule stash_world.commit_cases [OF world run rw ok]) (auto split: outcome.splits)
    then show "pending_view content (a', m') = pending_view content (a, m)"
      using v by (simp add: pending_view_def)
  qed
qed

theorem accessor_refines_map_witness:
  "\<exists>a' m'. accessor_delete_prefix [0x6B] (full_accessor, demo_manager 50) = (Ok (), a', m') \<and>
     pending_view simple_content (a', m') [0x6B] = None \<and> pending_view simple_content (a', m') [0x6C] = Some (BoolC True)"
proof -
  obtain a' m' where run: "accessor_delete_prefix [0x6B] (full_accessor, demo_manager 50) = (Ok (), a', m')"
    by (simp add: accessor_delete_prefix_def full_accessor_def demo_accessor_def)
  have "pending_view simple_content (a', m') = pending_view simple_content (full_accessor, demo_manager 50) |` {k. \<not> starts_with k [0x6B]}"
    using accessor_refines_map [OF simple.stash_world_axioms full_ok] run by blast
  moreover have "pending_view simple_content (full_accessor, demo_manager 50) [0x6C] = Some (BoolC True)"
    by (simp add: pending_view_def overlay_def full_accessor_def)
  ultimately show ?thesis using run by (simp add: starts_with_def)
qed

section \<open>Listings\<close>

lemma merge_types_keys:
  "distinct (map fst us) \<Longrightarrow> distinct (map fst items) \<Longrightarrow> distinct (map fst (merge_types us items)) \<and>
   map_of (merge_types us items) = map_of items ++ (\<lambda>k. case map_of us k of Some (Some v) \<Rightarrow> Some (value_to_type v) | _ \<Rightarrow> None)"
proof (induction us items rule: merge_types.induct)
  case (1 items)
  then show ?case by (simp add: map_add_def)
next
  case (2 k us items)
  then have "map_of us k = None" by (simp add: map_of_eq_None_iff)
  then have "(\<lambda>j. case map_of ((k, None) # us) j of Some (Some v) \<Rightarrow> Some (value_to_type v) | _ \<Rightarrow> None) =
      (\<lambda>j. case map_of us j of Some (Some v) \<Rightarrow> Some (value_to_type v) | _ \<Rightarrow> None)"
    by (auto simp: fun_eq_iff)
  then show ?case using 2 by (simp del: map_of.simps)
next
  case (3 k v us items)
  define items' where "items' = (if k \<in> fst ` set items then map (\<lambda>(j, t). (j, if j = k then value_to_type v else t)) items
      else items @ [(k, value_to_type v)])"
  have keys: "map fst (map (\<lambda>(j, t). (j, if j = k then value_to_type v else t)) items) = map fst items" by (induction items) auto
  have d: "distinct (map fst items')"
    using 3(3) unfolding items'_def by (cases "k \<in> fst ` set items") (simp_all only: if_True if_False keys, simp)
  have upd: "map_of (map (\<lambda>(j, t). (j, if j = k then x else t)) xs) = (if k \<in> fst ` set xs then (map_of xs)(k \<mapsto> x) else map_of xs)"
    for x and xs :: "(key \<times> value_type) list"
    by (induction xs) (auto simp: fun_eq_iff)
  have m: "map_of items' = (map_of items)(k \<mapsto> value_to_type v)"
  proof (cases "k \<in> fst ` set items")
    case True
    then show ?thesis using upd [of "value_to_type v" items] by (simp add: items'_def)
  next
    case False
    then have "map_of items k = None" by (simp add: map_of_eq_None_iff)
    then show ?thesis using False by (auto simp: items'_def fun_eq_iff map_add_def split: option.split)
  qed
  have new: "map_of us k = None" using 3(2) by (simp add: map_of_eq_None_iff)
  have "map_of items' ++ (\<lambda>j. case map_of us j of Some (Some v) \<Rightarrow> Some (value_to_type v) | _ \<Rightarrow> None) =
      map_of items ++ (\<lambda>j. case map_of ((k, Some v) # us) j of Some (Some v) \<Rightarrow> Some (value_to_type v) | _ \<Rightarrow> None)"
    by (rule ext) (simp add: m map_add_def new split: option.split)
  then show ?case using 3(1) [folded items'_def] 3(2) d by (simp add: items'_def [symmetric] del: map_of.simps)
qed

lemma map_of_manager_list_prefix:
  "map_of (manager_list_prefix st client prefix) k =
     (if starts_with k prefix then map_option value_to_type (manager_get_value st client k) else None)"
proof -
  have "map_of (map (\<lambda>(k, v). (k, value_to_type v)) (filter (\<lambda>(k, _). starts_with k prefix) fs)) k =
      (if starts_with k prefix then map_option value_to_type (map_of fs k) else None)" for fs :: "'a field_map"
    by (induction fs) auto
  then show ?thesis by (simp add: manager_list_prefix_def manager_get_value_def split: option.split)
qed

lemma distinct_manager_list_prefix:
  "store_ok c st \<Longrightarrow> distinct (map fst (manager_list_prefix st client prefix))"
  using fields_of_ok [of c st client]
  by (auto simp: manager_list_prefix_def fields_of_def fields_ok_def comp_def split_beta distinct_map_filter split: option.splits)

lemma map_of_retained:
  "distinct (map fst items) \<Longrightarrow> map_of (filter (\<lambda>(k, _). P k) items) k = (if P k then map_of items k else None)"
  by (induction items) (auto simp: map_of_eq_None_iff)

fun content_to_type :: "value_content \<Rightarrow> value_type" where
  "content_to_type (IntC _) = IntVal" | "content_to_type (FloatC _) = FloatVal" | "content_to_type (BoolC _) = BoolVal"
| "content_to_type (StringC _) = StringVal" | "content_to_type (BytesC _) = BytesVal"

lemma content_to_type_denote [simp]: "content_to_type (denote c v) = value_to_type v"
  by (cases v) auto

text \<open>
  C26. Listing a prefix gives every key once with the type of its value in the map of the client:
  every key of the map with the prefix, and every other key of the map with a pending update, whether
  it has the prefix or not.
\<close>

theorem list_prefix_lists:
  assumes ok: "accessor_ok content (a, m)" and run: "accessor_list_prefix prefix (a, m) = (Ok items, s)"
  shows "s = (a, m) \<and> distinct (map fst items) \<and>
    map_of items = (\<lambda>k. if starts_with k prefix \<or> k \<in> fst ` set (fields_updated a)
      then map_option content_to_type (pending_view content (a, m) k) else None)"
proof -
  define listed where "listed = manager_list_prefix (sm_store m) (acc_client a) prefix"
  define us where "us = fields_updated a"
  have st: "store_ok (content (sm_world m)) (sm_store m)" and us': "distinct (map fst us)"
    using ok by (simp_all add: accessor_ok_def updates_ok_def us_def)
  have d: "distinct (map fst listed)" unfolding listed_def by (rule distinct_manager_list_prefix [OF st])
  have items: "items = merge_types us (filter (\<lambda>(k, _). field_has_been_deleted (map_of us k)) listed)" and s: "s = (a, m)"
    using run by (auto simp: accessor_list_prefix_def listed_def us_def field_has_been_deleted_def split_beta split: if_splits)
  have d': "distinct (map fst (filter (\<lambda>(k, _). field_has_been_deleted (map_of us k)) listed))"
    using d by (simp add: distinct_map_filter)
  have "map_of items k = (if starts_with k prefix \<or> k \<in> fst ` set us then map_option content_to_type (pending_view content (a, m) k) else None)" for k
  proof (cases "map_of us k")
    case None
    then have "k \<notin> fst ` set us" by (simp add: map_of_eq_None_iff)
    then show ?thesis
      using None merge_types_keys [OF us' d'] map_of_retained [OF d]
      by (simp add: items map_add_def field_has_been_deleted_def listed_def map_of_manager_list_prefix pending_view_def overlay_def
          us_def [symmetric] store_view_def option.map_comp comp_def)
  next
    case (Some o_val)
    then have "k \<in> fst ` set us" by (metis domI dom_map_of_conv_image_fst)
    then show ?thesis
      using Some merge_types_keys [OF us' d'] map_of_retained [OF d]
      by (cases o_val) (simp_all add: items map_add_def field_has_been_deleted_def pending_view_def overlay_def us_def [symmetric])
  qed
  then show ?thesis using merge_types_keys [OF us' d'] s by (auto simp: items us_def)
qed

theorem list_prefix_lists_witness:
  "\<exists>items. accessor_list_prefix [0x6B] (full_accessor, demo_manager 50) = (Ok items, full_accessor, demo_manager 50) \<and>
     map_of items [0x6C] = Some BoolVal"
proof -
  obtain items where run: "accessor_list_prefix [0x6B] (full_accessor, demo_manager 50) = (Ok items, full_accessor, demo_manager 50)"
    by (simp add: accessor_list_prefix_def)
  show ?thesis
    using list_prefix_lists [OF full_ok run] run by (simp add: full_accessor_def pending_view_def overlay_def)
qed

text \<open>
  Draining the iterator of a listing gives every item exactly once: with chunks of at least one
  item and enough requests, the chunks in reverse order of their arrival make up the listing, none
  has more items than fit, and once it is drained the iterator answers with an empty chunk.
\<close>

theorem list_iterator_serves_all:
  assumes "0 < chunk_size" and "length results \<le> n * chunk_size"
  shows "concat (rev (serve_list_iterator chunk_size n results)) = results \<and>
    (\<forall>chunk \<in> set (serve_list_iterator chunk_size n results). length chunk \<le> chunk_size) \<and>
    serve_list_iterator chunk_size (n + k) results = serve_list_iterator chunk_size n results @ replicate k []"
  using assms
proof (induction n arbitrary: results)
  case 0
  have "serve_list_iterator chunk_size k ([] :: 'a list) = replicate k []" by (induction k) (simp_all add: next_chunk_def)
  then show ?case using 0 by simp
next
  case (Suc n)
  define i where "i = length results - min chunk_size (length results)"
  have next': "next_chunk chunk_size results = (drop i results, take i results)" by (simp add: next_chunk_def i_def Let_def)
  have len: "length (take i results) \<le> n * chunk_size" using Suc.prems(2) by (simp add: i_def)
  have "length (drop i results) \<le> chunk_size" by (simp add: i_def)
  then show ?case using Suc.IH [OF Suc.prems(1) len] by (simp add: next')
qed

theorem list_iterator_serves_all_witness:
  "concat (rev (serve_list_iterator 2 2 [1, 2, 3 :: nat])) = [1, 2, 3]"
  using list_iterator_serves_all [of 2 "[1, 2, 3 :: nat]" 2] by simp

section \<open>A cut file\<close>

text \<open>The bytes that are left when the last \<open>n\<close> are lost, and what a vector of the old length holds after reading them.\<close>

definition zero_filled :: "nat \<Rightarrow> u8 list \<Rightarrow> u8 list" where
  "zero_filled n bs = take (length bs - n) bs @ replicate n 0"

context stash_world
begin

lemma read_cut: "length bs < ISIZE_LIMIT \<Longrightarrow> n \<le> length bs \<Longrightarrow>
    read_sized ops (put_64 ops (of_nat (length bs)) @ take (length bs - n) bs) = Ok (zero_filled n bs, [])"
  by (simp add: read_sized_def cursor_u64_put cursor_read_def zero_filled_def ISIZE_LIMIT_def unat_of_nat)

lemma cut_encoding:
  assumes "n \<le> length (content_bytes ops x)"
  shows "take (length (encode_store ops (ast @ [(client, es @ [(k, x)])])) - n) (encode_store ops (ast @ [(client, es @ [(k, x)])])) =
    encode_store ops ast @ with_length ops client @ put_64 ops (of_nat (Suc (length es))) @ encode_entries ops es
      @ with_length ops k @ content_type x # put_64 ops (of_nat (length (content_bytes ops x)))
      @ take (length (content_bytes ops x) - n) (content_bytes ops x)"
proof -
  have entries: "encode_entries ops (as @ bs) = encode_entries ops as @ encode_entries ops bs" for as bs
    by (induction as rule: encode_entries.induct) simp_all
  have store: "encode_store ops (as @ bs) = encode_store ops as @ encode_store ops bs" for as bs
    by (induction as rule: encode_store.induct) simp_all
  have cut: "take (length (front @ bs) - n) (front @ bs) = front @ take (length bs - n) bs" if "n \<le> length bs" for front bs :: "u8 list"
    using that by simp
  have "encode_store ops (ast @ [(client, es @ [(k, x)])]) = (encode_store ops ast @ with_length ops client
      @ put_64 ops (of_nat (Suc (length es))) @ encode_entries ops es @ with_length ops k @ content_type x
      # put_64 ops (of_nat (length (content_bytes ops x)))) @ content_bytes ops x"
    by (simp add: entries store) (simp add: with_length_def)
  then show ?thesis by (simp only: cut [OF assms]) simp
qed

lemma deserialize_cut:
  assumes avail: "vmos_available ops content" and dist: "distinct (map fst ast @ [client])"
    and ast: "\<forall>(client, es) \<in> set ast. client_ok client es" and last: "client_ok client (es @ [(k, x)])"
    and n: "n \<le> length (content_bytes ops x)"
  defines "stored \<equiv> encode_store ops (ast @ [(client, es @ [(k, x)])])"
  obtains st fs w1 where "denote_store (content w1) st = ast" and "denote_fields (content w1) fs = es"
    and "\<forall>(client, fs) \<in> set st. \<forall>(k, v) \<in> set fs. value_ok (content w1) v" and "\<forall>(k, v) \<in> set fs. value_ok (content w1) v"
    and "deserialize ops (take (length stored - n) stored) w =
      bindP (value_from_bytes ops (content_type x) (zero_filled n (content_bytes ops x))) (\<lambda>v. returnP (st @ [(client, fs @ [(k, v)])])) w1"
proof -
  define tail where "tail = with_length ops k @ content_type x # put_64 ops (of_nat (length (content_bytes ops x)))
      @ take (length (content_bytes ops x) - n) (content_bytes ops x)"
  define rest where "rest = with_length ops client @ put_64 ops (of_nat (Suc (length es))) @ encode_entries ops es @ tail"
  obtain st w0 where it: "\<And>rest. iterateP (deserialize_step ops) (encode_store ops ast @ rest, []) w = iterateP (deserialize_step ops) (rest, st) w0"
    and st: "denote_store (content w0) st = ast" "\<forall>(client, fs) \<in> set st. \<forall>(k, v) \<in> set fs. value_ok (content w0) v"
    using deserialize_prefix [of "[]" ast w, OF avail _ ast] dist by auto
  have ok: "string_ok client" "string_ok k" "content_ok x" "Suc (length es) < 2 ^ 64" "distinct (map fst ([] :: 'v field_map) @ map fst es)"
    "\<forall>(k, x) \<in> set es. string_ok k \<and> content_ok x" "k \<notin> fst ` set es"
    using last by (auto simp: client_ok_def)
  obtain fs w1 where en: "\<And>m rest. deserialize_entries ops (length es + m) [] (encode_entries ops es @ rest) w0 = deserialize_entries ops m fs rest w1"
    and le: "content w0 \<subseteq>\<^sub>m content w1" and fs: "denote_fields (content w1) fs = es" "\<forall>(k, v) \<in> set fs. value_ok (content w1) v"
    using deserialize_entries_prefix [OF avail ok(5,6), of w0] by auto
  have keys: "k \<notin> fst ` set fs" "client \<notin> fst ` set st"
    using fs(1) ok(7) st(1) dist by (metis denote_fields_simps(4) list.set_map, metis denote_store_simps(4) distinct_append
        disjoint_iff list.set_intros(1) list.set_map)
  have "denote_fields (content w1) gs = denote_fields (content w0) gs" if "(c, gs) \<in> set st" for c gs
    using st(2) that by (intro denote_fields_mono [OF _ le]) fastforce
  then have "denote_store (content w1) st = denote_store (content w0) st" by (auto simp: denote_store_def)
  with st(1) have st1: "denote_store (content w1) st = ast" by simp
  have st2: "\<forall>(client, fs) \<in> set st. \<forall>(k, v) \<in> set fs. value_ok (content w1) v"
    using st(2) value_ok_mono [OF _ le] by fastforce
  obtain q w2 where v: "value_from_bytes ops (content_type x) (zero_filled n (content_bytes ops x)) w1 = (q, w2)" by force
  have entries: "deserialize_entries ops (Suc (length es)) [] (encode_entries ops es @ tail) w0 =
      bindP (value_from_bytes ops (content_type x) (zero_filled n (content_bytes ops x))) (\<lambda>v. returnP (fs @ [(k, v)], [])) w1"
    using en [of 1 tail] ok(2) read_cut [OF length_content_bytes [OF ok(3)] n] v
    by (cases q) (simp_all add: tail_def read_sized_with_length string_ok_def cursor_read_def string_from_utf8_def bindP_step update_new [OF keys(1)])
  have count: "unat (of_nat (Suc (length es)) :: u64) = Suc (length es)" using ok(4) by (simp add: unat_of_nat del: of_nat_Suc)
  have step: "deserialize_step ops (rest, st) w0 =
      bindP (value_from_bytes ops (content_type x) (zero_filled n (content_bytes ops x))) (\<lambda>v. returnP (Inl ([], st @ [(client, fs @ [(k, v)])]))) w1"
    using ok(1) entries v
    by (cases q) (simp_all add: rest_def deserialize_step_def with_length_not_Nil read_sized_with_length string_ok_def cursor_u64_put count
        string_from_utf8_def bindP_step update_new [OF keys(2)] del: deserialize_entries.simps of_nat_Suc)
  have stop: "deserialize_step ops ([], st') w' = (Ok (Inr st'), w')" for st' w' by (simp add: deserialize_step_def)
  have "iterateP (deserialize_step ops) (rest, st) w0 = Some (bindP (value_from_bytes ops (content_type x) (zero_filled n (content_bytes ops x)))
      (\<lambda>v. returnP (st @ [(client, fs @ [(k, v)])])) w1)"
    using step v iterateP_break [of "deserialize_step ops", OF stop]
    by (cases q) (simp_all add: bindP_step iterateP_continue iterateP_fail)
  moreover have "take (length stored - n) stored = encode_store ops ast @ rest"
    unfolding stored_def rest_def tail_def by (rule cut_encoding [OF n])
  ultimately have "deserialize ops (take (length stored - n) stored) w =
      bindP (value_from_bytes ops (content_type x) (zero_filled n (content_bytes ops x))) (\<lambda>v. returnP (st @ [(client, fs @ [(k, v)])])) w1"
    by (simp add: deserialize_def loopP_def it)
  then show thesis by (rule that [OF st1 fs(1) st2 fs(2)])
qed

lemma deserialize_cut_content:
  assumes avail: "vmos_available ops content" and dist: "distinct (map fst ast @ [client])"
    and ast: "\<forall>(client, es) \<in> set ast. client_ok client es" and last: "client_ok client (es @ [(k, x)])"
    and n: "n \<le> length s" and x: "(x, y) \<in> {(StringC s, StringC (zero_filled n s)), (BytesC s, BytesC (zero_filled n s))}"
  defines "stored \<equiv> encode_store ops (ast @ [(client, es @ [(k, x)])])"
  shows "\<exists>r w'. deserialize ops (take (length stored - n) stored) w = (r, w') \<and>
    (if x = StringC s \<and> \<not> utf8_valid (zero_filled n s) then r = Err NotUtf8Data
     else \<exists>st. r = Ok st \<and> denote_store (content w') st = ast @ [(client, es @ [(k, y)])])"
proof -
  have bytes: "content_bytes ops x = s" "content_type y = content_type x" "content_bytes ops y = zero_filled n s" using x by auto
  obtain st fs w1 where st: "denote_store (content w1) st = ast" and fs: "denote_fields (content w1) fs = es"
    and ok: "\<forall>(client, fs) \<in> set st. \<forall>(k, v) \<in> set fs. value_ok (content w1) v" "\<forall>(k, v) \<in> set fs. value_ok (content w1) v"
    and run': "deserialize ops (take (length stored - n) stored) w =
      bindP (value_from_bytes ops (content_type x) (zero_filled n (content_bytes ops x))) (\<lambda>v. returnP (st @ [(client, fs @ [(k, v)])])) w1"
    unfolding stored_def by (rule deserialize_cut [OF avail dist ast last n [folded bytes(1)], of w])
  note run = run' [unfolded bytes(1)]
  show ?thesis
  proof (cases "x = StringC s \<and> \<not> utf8_valid (zero_filled n s)")
    case True
    then show ?thesis using run by (simp add: value_from_bytes_def string_from_utf8_def bindP_step)
  next
    case False
    have "length (zero_filled n s) = length s" using n by (simp add: zero_filled_def)
    then have "content_ok y" using x False last by (auto simp: client_ok_def string_ok_def)
    then obtain v w' where v: "value_from_bytes ops (content_type x) (zero_filled n s) w1 = (Ok v, w')"
      and le: "content w1 \<subseteq>\<^sub>m content w'" and y: "denote (content w') v = y"
      using from_bytes_contents [OF avail, of y w1] bytes by auto
    have "denote_fields (content w') gs = denote_fields (content w1) gs" if "(c, gs) \<in> set st" for c gs
      using ok(1) that by (intro denote_fields_mono [OF _ le]) fastforce
    then have "denote_store (content w') st = ast" using st by (auto simp: denote_store_def)
    moreover have "denote_fields (content w') fs = es" using fs denote_fields_mono [OF ok(2) le] by simp
    ultimately show ?thesis using run v y False by (simp add: bindP_step)
  qed
qed

end

text \<open>
  C27. Losing the end of the file inside the last value, a string or bytes, is not noticed as such.
  The reader takes the bytes there are and fills the value with zeros up to its recorded length:
  everything before it is read as it was saved, a bytes value and a string whose filled bytes are
  still UTF-8 are read as the filled value without an error, and the reader fails, with the UTF-8
  error, only when a string is cut inside a character.
\<close>

theorem cut_file_filled:
  assumes "stash_world ops content disk temp" and "vmos_available ops content" and "distinct (map fst ast @ [client])"
    and "\<forall>(client, es) \<in> set ast. client_ok client es" and "client_ok client (es @ [(k, x)])" and "n \<le> length s"
    and "(x, y) \<in> {(StringC s, StringC (zero_filled n s)), (BytesC s, BytesC (zero_filled n s))}"
    and "stored = encode_store ops (ast @ [(client, es @ [(k, x)])])"
  shows "\<exists>r w'. deserialize ops (take (length stored - n) stored) w = (r, w') \<and>
    (if x = StringC s \<and> \<not> utf8_valid (zero_filled n s) then r = Err NotUtf8Data
     else \<exists>st. r = Ok st \<and> denote_store (content w') st = ast @ [(client, es @ [(k, y)])])"
  using stash_world.deserialize_cut_content [OF assms(1-7)] assms(8) by simp

theorem cut_file_filled_witness:
  "\<exists>st w'. deserialize simple_ops (take (length (encode_store simple_ops [([0x63], [([0x6B], StringC [0x61, 0x62, 0x63, 0x64])])]) - 2)
      (encode_store simple_ops [([0x63], [([0x6B], StringC [0x61, 0x62, 0x63, 0x64])])])) (sm_world (demo_manager 0)) = (Ok st, w')
    \<and> denote_store (simple_content w') st = [([0x63], [([0x6B], StringC [0x61, 0x62, 0, 0])])]"
proof -
  have f: "zero_filled 2 [0x61, 0x62, 0x63, 0x64] = [0x61, 0x62, 0, 0]" by code_simp
  have u: "utf8_valid [0x61, 0x62, 0, 0]" by code_simp
  have ok: "client_ok [0x63] ([] @ [([0x6B], StringC [0x61, 0x62, 0x63, 0x64])])"
    by (simp add: client_ok_def string_ok_def ISIZE_LIMIT_def)
  let ?stored = "encode_store simple_ops [([0x63], [([0x6B], StringC [0x61, 0x62, 0x63, 0x64])])]"
  have "\<exists>r w'. deserialize simple_ops (take (length ?stored - 2) ?stored) (sm_world (demo_manager 0)) = (r, w') \<and>
    (if StringC [0x61, 0x62, 0x63, 0x64] = StringC [0x61, 0x62, 0x63, 0x64] \<and> \<not> utf8_valid (zero_filled 2 [0x61, 0x62, 0x63, 0x64]) then r = Err NotUtf8Data
     else \<exists>st. r = Ok st \<and> denote_store (simple_content w') st = [] @ [([0x63], [] @ [([0x6B], StringC [0x61, 0x62, 0, 0])])])"
    by (rule cut_file_filled [OF simple.stash_world_axioms simple_available _ _ ok])
      (simp_all add: f)
  then show ?thesis by (simp only: f u append.simps if_False simp_thms) blast
qed

end
