(* ===== verification/Stash_System.thy ===== *)
theory Stash_System
  imports Stash_Service
begin

text \<open>
  The stash service: accessors of any clients, made by connections to the server, that serve their
  requests in any order on one shared store. What a transaction can do to the store is the locale
  \<open>store_invariant\<close>; its two interpretations say that a transaction leaves the other clients alone and
  that it stores no bytes when none are pending. They hold whatever the kernel and the disk do.
\<close>

section \<open>Invariants of transactions\<close>

lemma alist_update_all:
  "\<forall>(j, x) \<in> set al. P j x \<Longrightarrow> P k v \<Longrightarrow> \<forall>(j, x) \<in> set (AList.update k v al). P j x"
  by (induction al) auto

locale store_invariant =
  fixes ops :: "('w, 'v) world_ops" and client :: key and Q :: "'v stash_store \<Rightarrow> bool" and good :: "'v stash_value \<Rightarrow> bool"
  assumes set_keeps: "Q st \<Longrightarrow> good v \<Longrightarrow> Q (AList.update client (AList.update k v (fields_of st client)) st)"
    and delete_keeps: "Q st \<Longrightarrow> Q (AList.update client (AList.delete k (fields_of st client)) st)"
    and stored_good: "Q st \<Longrightarrow> manager_get_value st client k = Some v \<Longrightarrow> good v"
    and cloned_good: "good v \<Longrightarrow> clone_stash_value ops v w = (Ok v', w') \<Longrightarrow> good v'"
begin

abbreviation (input) all_good :: "(key \<times> 'v stash_value option) list \<Rightarrow> bool" where
  "all_good us \<equiv> \<forall>(k, o_val) \<in> set us. \<forall>v. o_val = Some v \<longrightarrow> good v"

lemma save_store_same: "save_store ops m = (r, m') \<Longrightarrow> sm_store m' = sm_store m"
  by (auto simp: save_store_def onWorld_eq bindP_def split: prod.splits outcome.splits)

lemma store_update_keeps:
  assumes "store_update ops client k o_val m = (r, m')" and "Q (sm_store m)" and "\<forall>v. o_val = Some v \<longrightarrow> good v"
  shows "Q (sm_store m')"
  using assms
  by (auto simp: store_update_def manager_set_value_def manager_delete_value_def onWorld_eq bindP_def
      split: option.splits prod.splits outcome.splits
      dest!: save_store_same intro!: set_keeps delete_keeps intro: cloned_good)

lemma clone_old_keeps:
  assumes "clone_old ops client k m = (r, m')" and "Q (sm_store m)"
  shows "sm_store m' = sm_store m \<and> (\<forall>v. r = Ok (Some v) \<longrightarrow> good v)"
  using assms
  by (auto simp: clone_old_def onWorld_eq bindP_def split: option.splits prod.splits outcome.splits
      dest: stored_good intro: cloned_good)

lemma revert_keeps:
  "revert_updates ops client us m = (r, m') \<Longrightarrow> Q (sm_store m) \<Longrightarrow> all_good us \<Longrightarrow> Q (sm_store m')"
proof (induction us arbitrary: m)
  case (Cons e us)
  obtain k o_val where e: "e = (k, o_val)" by force
  obtain q m1 where 1: "store_update ops client k o_val m = (q, m1)" by force
  have Q1: "Q (sm_store m1)" using store_update_keeps [OF 1 Cons.prems(2)] Cons.prems(3) by (simp add: e)
  show ?case
    using Cons.prems(1,3) Cons.IH [OF _ Q1] Q1 1 by (cases q) (auto simp: e bindP_step)
qed simp

lemma commit_updates_keeps:
  "commit_updates ops client us (olds, m) = (r, olds', m') \<Longrightarrow> Q (sm_store m) \<Longrightarrow> all_good us \<Longrightarrow> all_good olds \<Longrightarrow>
   Q (sm_store m') \<and> all_good olds'"
proof (induction us arbitrary: m olds)
  case (Cons e us)
  obtain k o_val where e: "e = (k, o_val)" by force
  obtain q0 m0 where 0: "clone_old ops client k m = (q0, m0)" by force
  obtain q1 m1 where 1: "store_update ops client k o_val m0 = (q1, m1)" by force
  have Q0: "Q (sm_store m0)" using clone_old_keeps [OF 0 Cons.prems(2)] Cons.prems(2) by simp
  have Q1: "Q (sm_store m1)" using store_update_keeps [OF 1 Q0] Cons.prems(3) by (simp add: e)
  have olds: "all_good (AList.update k old olds)" if "q0 = Ok old" for old
    using Cons.prems(4) clone_old_keeps [OF 0 Cons.prems(2)] that by (intro alist_update_all) simp_all
  have c: "onStore (clone_old ops client k) (olds, m) = (q0, olds, m0)"
    "onStore (store_update ops client k o_val) (x, m0) = (q1, x, m1)" for x
    using 0 1 by (simp_all add: onStore_eq)
  show ?case
  proof (cases q0)
    case (Ok old)
    then show ?thesis
      using Cons.prems c Q1 olds Cons.IH [OF _ Q1] by (cases q1) (auto simp: e bindP_step)
  qed (use Cons.prems c Q0 in \<open>auto simp: e bindP_step\<close>)
qed simp

lemma commit_keeps:
  assumes "accessor_commit ops (a, m) = (r, a', m')" and "acc_client a = client" and "Q (sm_store m)" and "all_good (fields_updated a)"
  shows "Q (sm_store m')"
proof -
  obtain p olds m1 where 1: "commit_updates ops client (fields_updated a) ([], m) = (p, olds, m1)" by (metis prod.collapse)
  obtain q m2 where 2: "revert_updates ops client olds m1 = (q, m2)" by force
  have Q1: "Q (sm_store m1)" and olds: "all_good olds" using commit_updates_keeps [OF 1 assms(3,4)] by simp_all
  have Q2: "Q (sm_store m2)" using revert_keeps [OF 2 Q1 olds] .
  have "m' = m \<or> m' = m1 \<or> m' = m2"
    using assms(1,2) 1 2 by (cases p; cases q) (auto simp: accessor_commit_def run_updates_def attemptP_def bindP_def onManager_eq split: if_splits)
  then show ?thesis using assms(3) Q1 Q2 by auto
qed

end

interpretation isolated: store_invariant ops client "\<lambda>st. \<forall>c. c \<noteq> client \<longrightarrow> fields_of st c = f c" "\<lambda>_. True" for ops client f
  by unfold_locales (auto simp: fields_of_update)

definition plain_fields :: "'v field_map \<Rightarrow> bool" where
  "plain_fields fs \<longleftrightarrow> (\<forall>(k, v) \<in> set fs. \<not> is_bytes v)"

definition plain_store :: "'v stash_store \<Rightarrow> bool" where
  "plain_store st \<longleftrightarrow> (\<forall>(client, fs) \<in> set st. plain_fields fs)"

lemma plain_fields_of: "plain_store st \<Longrightarrow> plain_fields (fields_of st client)"
proof (cases "map_of st client")
  case (Some fs)
  then show "plain_store st \<Longrightarrow> ?thesis" using map_of_SomeD [OF Some] by (auto simp: fields_of_def plain_store_def)
qed (simp add: fields_of_def plain_fields_def)

lemma plain_store_update: "plain_store st \<Longrightarrow> plain_fields fs \<Longrightarrow> plain_store (AList.update client fs st)"
  unfolding plain_store_def by (rule alist_update_all)

lemma plain_fields_update: "plain_fields fs \<Longrightarrow> \<not> is_bytes v \<Longrightarrow> plain_fields (AList.update k v fs)"
  unfolding plain_fields_def by (rule alist_update_all)

lemma plain_fields_delete: "plain_fields fs \<Longrightarrow> plain_fields (AList.delete k fs)"
  by (auto simp: plain_fields_def AList.delete_eq)

lemma clone_stash_value_type: "clone_stash_value ops v w = (Ok v', w') \<Longrightarrow> value_to_type v' = value_to_type v"
  by (cases v) (auto simp: clone_buffer_def bindP_def split: prod.splits outcome.splits)

interpretation plain: store_invariant ops client plain_store "\<lambda>v. \<not> is_bytes v" for ops client
proof unfold_locales
  fix st :: "'v stash_store" and k v
  assume "plain_store st" "manager_get_value st client k = Some v"
  then show "\<not> is_bytes v"
    using plain_fields_of [of st client] by (auto simp: manager_get_value_eq plain_fields_def dest: map_of_SomeD)
qed (auto simp: is_bytes_def clone_stash_value_type intro!: plain_store_update plain_fields_update plain_fields_delete plain_fields_of)

section \<open>The service\<close>

record ('w, 'v) service =
  accessors :: "'v accessor list"
  shared :: "('w, 'v) manager"

text \<open>
  What happens next: a connection to the server makes an accessor, or an accessor serves a request.
  An accessor whose request failed is gone.
\<close>

datatype 'v event = Connected "'v accessor" | Requested "'v accessor" "'v accessor_request"

inductive service_step :: "('w, 'v) world_ops \<Rightarrow> bool \<Rightarrow> ('w, 'v) service \<Rightarrow> 'v event \<Rightarrow> ('w, 'v) service \<Rightarrow> bool"
  for ops bytes where
  connect: "a \<in> set (stash_server bytes rs) \<Longrightarrow>
    service_step ops bytes s (Connected a) (s\<lparr>accessors := accessors s @ [a]\<rparr>)"
| served: "i < length (accessors s) \<Longrightarrow> serve_request ops req (accessors s ! i, shared s) = (Ok (), a', m') \<Longrightarrow>
    service_step ops bytes s (Requested (accessors s ! i) req) \<lparr>accessors = (accessors s)[i := a'], shared = m'\<rparr>"
| closed: "i < length (accessors s) \<Longrightarrow> serve_request ops req (accessors s ! i, shared s) = (Err e, a', m') \<Longrightarrow>
    service_step ops bytes s (Requested (accessors s ! i) req)
      \<lparr>accessors = take i (accessors s) @ drop (Suc i) (accessors s), shared = m'\<rparr>"

inductive service_run :: "('w, 'v) world_ops \<Rightarrow> bool \<Rightarrow> ('w, 'v) service \<Rightarrow> 'v event list \<Rightarrow> ('w, 'v) service \<Rightarrow> bool"
  for ops bytes where
  idle: "service_run ops bytes s [] s"
| go: "service_step ops bytes s ev s' \<Longrightarrow> service_run ops bytes s' evs s'' \<Longrightarrow> service_run ops bytes s (ev # evs) s''"

inductive_cases service_stepE: "service_step ops bytes s ev s'"

fun commits :: "key \<Rightarrow> 'v event \<Rightarrow> bool" where
  "commits client (Requested a Commit) \<longleftrightarrow> acc_client a = client \<and> \<not> read_only a"
| "commits client _ \<longleftrightarrow> False"

text \<open>Only a commit changes the store.\<close>

lemma request_keeps_store:
  assumes "serve_request ops req (a, m) = (r, a', m')" and "req \<noteq> Commit"
  shows "sm_store m' = sm_store m"
  using assms
  by (cases req) (auto simp: bindP_def accessor_get_value_def accessor_set_value_def accessor_delete_value_def record_update_def
      accessor_list_prefix_def accessor_get_prefix_def accessor_delete_prefix_def onManager_eq onWorld_eq Let_def
      split: if_splits option.splits prod.splits outcome.splits)

lemma request_isolated:
  assumes run: "serve_request ops req (a, m) = (r, a', m')" and no: "\<not> commits c (Requested a req)"
  shows "fields_of (sm_store m') c = fields_of (sm_store m) c"
proof (cases "req = Commit")
  case True
  show ?thesis
  proof (cases "read_only a")
    case True
    then show ?thesis using run \<open>req = Commit\<close> by (simp add: accessor_commit_def)
  next
    case False
    then have "c \<noteq> acc_client a" using no \<open>req = Commit\<close> by auto
    then show ?thesis
      using isolated.commit_keeps [of ops a m r a' m' "acc_client a" "fields_of (sm_store m)"] run \<open>req = Commit\<close> by simp
  qed
qed (use request_keeps_store [OF run] in simp)

lemma step_isolated:
  "service_step ops bytes s ev s' \<Longrightarrow> \<not> commits c ev \<Longrightarrow> fields_of (sm_store (shared s')) c = fields_of (sm_store (shared s)) c"
  by (erule service_stepE) (auto dest: request_isolated)

text \<open>
  C14. Clients are isolated: in any run of the service, with any number of accessors and whatever the
  kernel and the disk do, the fields stored for a client are the same at the end unless an accessor
  of this client that may write was asked to commit.
\<close>

theorem clients_isolated:
  assumes "service_run ops bytes s evs s'" and "\<forall>ev \<in> set evs. \<not> commits client ev"
  shows "fields_of (sm_store (shared s')) client = fields_of (sm_store (shared s)) client"
  using assms by (induction rule: service_run.induct) (auto dest: step_isolated)

definition demo_service :: "(simple_world, nat) service" where
  "demo_service = \<lparr>accessors = [demo_accessor], shared = (demo_manager 100)\<lparr>sm_store := [([0x64], [([0x6B], Intval 7)])]\<rparr>\<rparr>"

lemma demo_service_commits:
  "\<exists>s'. service_run simple_ops True demo_service [Requested demo_accessor Commit] s'"
proof -
  have "\<exists>a' m'. serve_request simple_ops Commit (accessors demo_service ! 0, shared demo_service) = (Ok (), a', m')"
    by (simp add: demo_service_def run_commit)
  then obtain a' m' where "serve_request simple_ops Commit (accessors demo_service ! 0, shared demo_service) = (Ok (), a', m')" by blast
  from served [OF _ this] show ?thesis by (force simp: demo_service_def intro: go idle)
qed

theorem clients_isolated_witness:
  "\<exists>s'. service_run simple_ops True demo_service [Requested demo_accessor Commit] s' \<and>
     fields_of (sm_store (shared s')) [0x64] = [([0x6B], Intval 7)]"
proof -
  obtain s' where run: "service_run simple_ops True demo_service [Requested demo_accessor Commit] s'"
    using demo_service_commits by blast
  then show ?thesis
    using clients_isolated [OF run, of "[0x64]"] by (auto simp: demo_accessor_def demo_service_def fields_of_def)
qed

section \<open>Secure mode\<close>

definition secure_accessor :: "'v accessor \<Rightarrow> bool" where
  "secure_accessor a \<longleftrightarrow> \<not> enable_bytes a \<and> (\<forall>(k, o_val) \<in> set (fields_updated a). \<forall>v. o_val = Some v \<longrightarrow> \<not> is_bytes v)"

definition secure_service :: "('w, 'v) service \<Rightarrow> bool" where
  "secure_service s \<longleftrightarrow> (\<forall>a \<in> set (accessors s). secure_accessor a) \<and> plain_store (sm_store (shared s))"

lemma server_loop_secure:
  "\<forall>a \<in> set accs. secure_accessor a \<Longrightarrow> \<not> inst_bytes i \<Longrightarrow> \<forall>a \<in> set (stash_server_loop rs accs i). secure_accessor a"
proof (induction rs accs i rule: stash_server_loop.induct)
  case (2 name rs accs i)
  then show ?case by (auto simp: identify_def split: option.splits)
next
  case (3 ro chan rs accs i)
  then show ?case
    by (auto simp: create_accessor_def bindP_readP secure_accessor_def accessor_new_def split: option.splits outcome.splits)
qed simp

lemma record_update_secure:
  "secure_accessor a \<Longrightarrow> \<forall>v. o_val = Some v \<longrightarrow> \<not> is_bytes v \<Longrightarrow>
   secure_accessor (a\<lparr>fields_updated := AList.update k o_val (fields_updated a)\<rparr>)"
  using alist_update_all [of "fields_updated a" "\<lambda>_ o_val. \<forall>v. o_val = Some v \<longrightarrow> \<not> is_bytes v" k o_val]
  by (simp add: secure_accessor_def)

lemma fold_deleted_secure:
  "secure_accessor (a\<lparr>fields_updated := us\<rparr>) \<Longrightarrow>
   secure_accessor (a\<lparr>fields_updated := fold (\<lambda>(k, _). AList.update k None) ls us\<rparr>)"
  using record_update_secure [of "a\<lparr>fields_updated := _\<rparr>" None] by (induction ls arbitrary: us) auto

lemma request_secure:
  assumes run: "serve_request ops req (a, m) = (r, a', m')" and sec: "secure_accessor a"
  shows "secure_accessor a'"
proof (cases req)
  case (GetValue k)
  then have "a' = a" using run by (auto simp: bindP_def accessor_get_value_def onManager_eq onWorld_eq split: if_splits option.splits prod.splits outcome.splits)
  then show ?thesis using sec by simp
next
  case (SetValue k v)
  then have "a' = a \<or> a' = a\<lparr>fields_updated := AList.update k (Some v) (fields_updated a)\<rparr> \<and> \<not> is_bytes v"
    using run sec by (auto simp: accessor_set_value_def record_update_def secure_accessor_def split: if_splits)
  then show ?thesis using sec record_update_secure [OF sec, of "Some v" k] by (elim disjE conjE) simp_all
next
  case (DeleteValue k)
  then show ?thesis
    using run sec record_update_secure [OF sec, of None] by (auto simp: accessor_delete_value_def record_update_def split: if_splits)
next
  case (ListPrefix p)
  then show ?thesis using run sec by (auto simp: bindP_def accessor_list_prefix_def)
next
  case (GetPrefix p)
  then have "a' = a" using run by (auto simp: bindP_def accessor_get_prefix_def onManager_eq onWorld_eq split: if_splits prod.splits outcome.splits)
  then show ?thesis using sec by simp
next
  case (DeletePrefix p)
  have "secure_accessor (a\<lparr>fields_updated := map (\<lambda>(k, o_val). (k, if starts_with k p then None else o_val)) (fields_updated a)\<rparr>)"
    using sec unfolding secure_accessor_def by (auto split: if_splits)
  from fold_deleted_secure [OF this] show ?thesis
    using run sec DeletePrefix by (auto simp: accessor_delete_prefix_def Let_def split: if_splits)
next
  case Commit
  then have "a' = a \<or> a' = a\<lparr>fields_updated := []\<rparr>"
    using run by (auto simp: accessor_commit_def run_updates_def bindP_def onManager_eq split: if_splits prod.splits outcome.splits sum.splits)
  then show ?thesis using sec by (auto simp: secure_accessor_def)
qed

lemma request_plain:
  assumes run: "serve_request ops req (a, m) = (r, a', m')" and "secure_accessor a" and "plain_store (sm_store m)"
  shows "plain_store (sm_store m')"
proof (cases "req = Commit")
  case True
  then show ?thesis
    using plain.commit_keeps [of ops a m r a' m' "acc_client a"] assms by (auto simp: secure_accessor_def)
qed (use request_keeps_store [OF run] assms in simp)

lemma step_secure: "service_step ops False s ev s' \<Longrightarrow> secure_service s \<Longrightarrow> secure_service s'"
proof (induction rule: service_step.induct)
  case (connect a rs s)
  then show ?case
    using server_loop_secure [of "[]" "\<lparr>client_name = None, inst_bytes = False\<rparr>" rs] by (auto simp: secure_service_def stash_server_def)
next
  case (served i s req a' m')
  have "secure_accessor (accessors s ! i)" using served by (simp add: secure_service_def)
  then show ?case
    using served request_secure [OF served(2)] request_plain [OF served(2)]
    by (auto simp: secure_service_def dest!: set_update_subset_insert [THEN subsetD])
next
  case (closed i s req e a' m')
  have "secure_accessor (accessors s ! i)" using closed by (simp add: secure_service_def)
  then show ?case
    using closed request_plain [OF closed(2)] by (auto simp: secure_service_def dest: in_set_takeD in_set_dropD)
qed

text \<open>
  C15. A server in secure mode never stores bytes: if its store had none when it started, it has none
  after any run, and no accessor holds any in a pending update.
\<close>

theorem secure_mode_has_no_bytes:
  assumes "service_run ops False s evs s'" and "accessors s = []" and "plain_store (sm_store (shared s))"
  shows "secure_service s'"
proof -
  have "secure_service s \<Longrightarrow> secure_service s'"
    using assms(1) by (induction rule: service_run.induct) (auto dest: step_secure)
  then show ?thesis using assms(2,3) by (simp add: secure_service_def)
qed

text \<open>A secure server: a client connects, tries to set bytes, and its accessor is closed.\<close>

lemma secure_run:
  "\<exists>s'. service_run simple_ops False \<lparr>accessors = [], shared = demo_manager 100\<rparr>
     [Connected (accessor_new False False [0x63]), Requested (accessor_new False False [0x63]) (SetValue [0x6B] (Bytesval 0 1))] s' \<and>
     accessors s' = []"
proof -
  define a where "a = (accessor_new False False [0x63] :: nat accessor)"
  define s where "s = \<lparr>accessors = [a], shared = demo_manager 100\<rparr>"
  have "a \<in> set (stash_server False [Identify [0x63], CreateAccessor False (Ok ())])"
    by (simp add: a_def stash_server_def identify_def create_accessor_def bindP_readP)
  from connect [OF this, of simple_ops "\<lparr>accessors = [], shared = demo_manager 100\<rparr>"]
  have 1: "service_step simple_ops False \<lparr>accessors = [], shared = demo_manager 100\<rparr> (Connected a) s" by (simp add: s_def)
  have r: "serve_request simple_ops (SetValue [0x6B] (Bytesval 0 1)) (accessors s ! 0, shared s) = (Err BytesDisabled, a, demo_manager 100)"
    by (simp add: s_def accessor_set_value_def a_def accessor_new_def is_bytes_def)
  have 2: "service_step simple_ops False s (Requested a (SetValue [0x6B] (Bytesval 0 1))) \<lparr>accessors = [], shared = demo_manager 100\<rparr>"
    using closed [OF _ r, of False] by (simp add: s_def)
  show ?thesis using go [OF 1 go [OF 2 idle]] by (fastforce simp: a_def)
qed

theorem secure_mode_has_no_bytes_witness:
  "\<exists>s'. service_run simple_ops False \<lparr>accessors = [], shared = demo_manager 100\<rparr>
     [Connected (accessor_new False False [0x63]), Requested (accessor_new False False [0x63]) (SetValue [0x6B] (Bytesval 0 1))] s' \<and>
     secure_service s'"
proof -
  obtain s' where run: "service_run simple_ops False \<lparr>accessors = [], shared = demo_manager 100\<rparr>
     [Connected (accessor_new False False [0x63]), Requested (accessor_new False False [0x63]) (SetValue [0x6B] (Bytesval 0 1))] s'"
    using secure_run by blast
  have "secure_service s'"
    by (rule secure_mode_has_no_bytes [OF run]) (simp_all add: demo_manager_def plain_store_def)
  then show ?thesis using run by blast
qed

end
