(* ===== verification/Wayland_Message.thy ===== *)
theory Wayland_Message
  imports Garnet_Prelude
begin

text \<open>
  The model of \<^verbatim>\<open>src/bin/wayland/core/src/message.rs\<close>: messages of the Wayland protocol, a cursor over
  bytes with a queue of handles, and the arguments written to and read from them. The crate
  \<open>byteorder\<close>, which writes and reads words in the byte order of the machine, is the parameter
  \<open>word_ops\<close>. A \<open>Fixed\<close> is its 32 bits; its conversions to floating point are not modelled.
\<close>

unbundle bit_operations_syntax

section \<open>Messages and arguments\<close>

datatype io_error = UnexpectedEof | InvalidData | InvalidInput

record word_ops =
  put_32 :: "u32 \<Rightarrow> u8 list"
  get_32 :: "u8 list \<Rightarrow> u32"
  put_uint :: "u64 \<Rightarrow> nat \<Rightarrow> u8 list"

record 'h message =
  byte_buf :: "u8 list"
  position :: nat
  handle_buf :: "'h list"

type_synonym ('h, 'a) message_prog = "('h message, io_error, 'a) prog"

datatype arg_kind = KInt | KUint | KFixed | KString | KObject | KNewId | KArray | KHandle

text \<open>An array is a message without handles.\<close>

datatype 'h arg =
    ArgInt u32 | ArgUint u32 | ArgFixed u32 | ArgString "u8 list" | ArgObject u32 | ArgNewId u32 | ArgArray "'h message" | ArgHandle 'h

fun kind :: "'h arg \<Rightarrow> arg_kind" where
  "kind (ArgInt _) = KInt"
| "kind (ArgUint _) = KUint"
| "kind (ArgFixed _) = KFixed"
| "kind (ArgString _) = KString"
| "kind (ArgObject _) = KObject"
| "kind (ArgNewId _) = KNewId"
| "kind (ArgArray _) = KArray"
| "kind (ArgHandle _) = KHandle"

record message_header =
  sender :: u32
  opcode :: "16 word"
  header_length :: "16 word"

definition message_new :: "'h message" where
  "message_new = \<lparr>byte_buf = [], position = 0, handle_buf = []\<rparr>"

definition from_parts :: "u8 list \<Rightarrow> 'h list \<Rightarrow> 'h message" where
  "from_parts bytes handles = \<lparr>byte_buf = bytes, position = 0, handle_buf = handles\<rparr>"

definition message_is_empty :: "'h message \<Rightarrow> bool" where
  "message_is_empty m \<longleftrightarrow> length (byte_buf m) = position m \<and> handle_buf m = []"

definition message_clear :: "'h message \<Rightarrow> 'h message" where
  "message_clear m = m\<lparr>position := 0, byte_buf := [], handle_buf := []\<rparr>"

definition rewind :: "'h message \<Rightarrow> 'h message" where
  "rewind m = m\<lparr>position := 0\<rparr>"

definition message_take :: "'h message \<Rightarrow> u8 list \<times> 'h list" where
  "message_take m = (byte_buf m, handle_buf m)"

text \<open>The size is negated and masked as an \<open>i64\<close>.\<close>

definition compute_padding :: "nat \<Rightarrow> nat" where
  "compute_padding n = unat (- (of_nat n :: u64) AND 3)"

section \<open>The cursor\<close>

text \<open>
  A write replaces what is at the position and extends the vector, with zeros up to a position past
  its end; it cannot fail. A read takes exactly the bytes asked for or fails and leaves the position.
\<close>

definition write_bytes :: "u8 list \<Rightarrow> ('h, unit) message_prog" where
  "write_bytes bs = modifyP (\<lambda>m. m\<lparr>
     byte_buf := take (position m) (byte_buf m) @ replicate (position m - length (byte_buf m)) 0 @ bs
       @ drop (position m + length bs) (byte_buf m),
     position := position m + length bs\<rparr>)"

definition read_exact :: "nat \<Rightarrow> ('h, u8 list) message_prog" where
  "read_exact n m =
     (if length (byte_buf m) - position m < n then (Err UnexpectedEof, m)
      else (Ok (take n (drop (position m) (byte_buf m))), m\<lparr>position := position m + n\<rparr>))"

definition write_word :: "word_ops \<Rightarrow> u32 \<Rightarrow> ('h, unit) message_prog" where
  "write_word ops w = write_bytes (put_32 ops w)"

definition read_word :: "word_ops \<Rightarrow> ('h, u32) message_prog" where
  "read_word ops = bindP (read_exact 4) (\<lambda>bs. returnP (get_32 ops bs))"

definition assertP :: "('h message \<Rightarrow> bool) \<Rightarrow> ('h, unit) message_prog" where
  "assertP P = readP (\<lambda>m. if P m then Ok () else Panic)"

section \<open>Slices, arguments and headers\<close>

definition read_slice :: "word_ops \<Rightarrow> bool \<Rightarrow> ('h, u8 list) message_prog" where
  "read_slice ops null_term =
     bindP (getP position) (\<lambda>pos.
     bindP (read_word ops) (\<lambda>len.
       if len = 0 then returnP []
       else
         bindP (read_exact (unat len)) (\<lambda>vec.
         bindP (if null_term
                then (if vec = [] then throwP UnexpectedEof
                      else if last vec \<noteq> 0 then throwP InvalidData
                      else returnP (butlast vec))
                else returnP vec) (\<lambda>vec.
         bindP (getP (\<lambda>m. compute_padding (position m - pos))) (\<lambda>pad.
         bindP (if pad > 0 then bindP (read_exact pad) (\<lambda>_. returnP ()) else returnP ()) (\<lambda>_.
         bindP (assertP (\<lambda>m. position m mod 4 = 0)) (\<lambda>_.
           returnP vec)))))))"

definition write_slice :: "word_ops \<Rightarrow> u8 list \<Rightarrow> bool \<Rightarrow> ('h, unit) message_prog" where
  "write_slice ops s null_term =
     bindP (getP position) (\<lambda>pos.
     bindP (readP (\<lambda>_. if null_term then checked_add (2 ^ 32) (unat (of_nat (length s) :: u32)) 1
                       else Ok (unat (of_nat (length s) :: u32)))) (\<lambda>len.
     bindP (write_word ops (of_nat len)) (\<lambda>_.
     bindP (write_bytes s) (\<lambda>_.
     bindP (if null_term then write_bytes [0] else returnP ()) (\<lambda>_.
     bindP (getP (\<lambda>m. compute_padding (position m - pos))) (\<lambda>pad.
     bindP (if pad > 0 then write_bytes (put_uint ops 0 pad) else returnP ()) (\<lambda>_.
       assertP (\<lambda>m. position m mod 4 = 0))))))))"

fun write_arg :: "word_ops \<Rightarrow> 'h arg \<Rightarrow> ('h, unit) message_prog" where
  "write_arg ops (ArgInt i) = write_word ops i"
| "write_arg ops (ArgUint i) = write_word ops i"
| "write_arg ops (ArgFixed i) = write_word ops i"
| "write_arg ops (ArgObject i) = write_word ops i"
| "write_arg ops (ArgNewId i) = write_word ops i"
| "write_arg ops (ArgString s) = write_slice ops s True"
| "write_arg ops (ArgArray a) = write_slice ops (byte_buf a) False"
| "write_arg ops (ArgHandle h) = modifyP (\<lambda>m. m\<lparr>handle_buf := handle_buf m @ [h]\<rparr>)"

fun read_arg :: "word_ops \<Rightarrow> arg_kind \<Rightarrow> ('h, 'h arg) message_prog" where
  "read_arg ops KInt = bindP (read_word ops) (\<lambda>i. returnP (ArgInt i))"
| "read_arg ops KUint = bindP (read_word ops) (\<lambda>i. returnP (ArgUint i))"
| "read_arg ops KFixed = bindP (read_word ops) (\<lambda>i. returnP (ArgFixed i))"
| "read_arg ops KObject = bindP (read_word ops) (\<lambda>i. returnP (ArgObject i))"
| "read_arg ops KNewId = bindP (read_word ops) (\<lambda>i. returnP (ArgNewId i))"
| "read_arg ops KString = bindP (read_slice ops True) (\<lambda>vec. returnP (ArgString (utf8_lossy vec)))"
| "read_arg ops KArray = bindP (read_slice ops False) (\<lambda>v. returnP (ArgArray (from_parts v [])))"
| "read_arg ops KHandle = bindP (getP handle_buf) (\<lambda>hs. case hs of
      [] \<Rightarrow> throwP UnexpectedEof
    | h # hs' \<Rightarrow> bindP (modifyP (\<lambda>m. m\<lparr>handle_buf := hs'\<rparr>)) (\<lambda>_. returnP (ArgHandle h)))"

fun read_args :: "word_ops \<Rightarrow> arg_kind list \<Rightarrow> ('h, 'h arg list) message_prog" where
  "read_args ops [] = returnP []"
| "read_args ops (k # ks) = bindP (read_arg ops k) (\<lambda>a. bindP (read_args ops ks) (\<lambda>as. returnP (a # as)))"

fun write_args :: "word_ops \<Rightarrow> 'h arg list \<Rightarrow> ('h, unit) message_prog" where
  "write_args ops [] = returnP ()"
| "write_args ops (a # as) = bindP (write_arg ops a) (\<lambda>_. write_args ops as)"

definition read_message_header :: "word_ops \<Rightarrow> ('h, message_header) message_prog" where
  "read_message_header ops =
     bindP (read_word ops) (\<lambda>s.
     bindP (read_word ops) (\<lambda>word.
       returnP \<lparr>sender = s, opcode = ucast word, header_length = ucast (drop_bit 16 word)\<rparr>))"

definition peek_header :: "word_ops \<Rightarrow> ('h, message_header) message_prog" where
  "peek_header ops m = (case read_message_header ops m of (header, m') \<Rightarrow> (header, m'\<lparr>position := position m\<rparr>))"

definition write_message_header :: "word_ops \<Rightarrow> message_header \<Rightarrow> ('h, unit) message_prog" where
  "write_message_header ops header =
     bindP (write_word ops (sender header)) (\<lambda>_.
       write_word ops (push_bit 16 (ucast (header_length header)) OR ucast (opcode header)))"

section \<open>Arrays\<close>

definition array_from_vec :: "u8 list \<Rightarrow> 'h message" where
  "array_from_vec v = from_parts v []"

definition array_push :: "word_ops \<Rightarrow> 'h arg \<Rightarrow> ('h, unit) message_prog" where
  "array_push ops a = (if kind a = KHandle then throwP InvalidInput else write_arg ops a)"

definition array_read_arg :: "word_ops \<Rightarrow> arg_kind \<Rightarrow> ('h, 'h arg) message_prog" where
  "array_read_arg ops k = (if k = KHandle then throwP InvalidInput else read_arg ops k)"

text \<open>The conversions of an argument to the value of a kind, with the panic and with the error.\<close>

datatype mismatched_arg_kind = MismatchedArgKind arg_kind arg_kind

definition unwrap_arg :: "arg_kind \<Rightarrow> 'h arg \<Rightarrow> ('e, 'h arg) outcome" where
  "unwrap_arg k a = (if kind a = k then Ok a else Panic)"

definition as_arg :: "arg_kind \<Rightarrow> 'h arg \<Rightarrow> (mismatched_arg_kind, 'h arg) outcome" where
  "as_arg k a = (if kind a = k then Ok a else Err (MismatchedArgKind k (kind a)))"

end
