(* ===== verification/Wayland_Correct.thy ===== *)
theory Wayland_Correct
  imports Wayland_Message
begin

text \<open>
  The correctness of Wayland messages: what is written is read back, header, arguments and handles;
  and reading arguments from a message of any bytes, as a client may send it, never panics.
\<close>

section \<open>Padding\<close>

lemma compute_padding_mod: "compute_padding n = nat (- int n mod 4)"
proof -
  have "uint (- (of_nat n :: u64)) mod 4 = - int n mod 4"
    by (simp add: uint_word_ariths unsigned_of_nat take_bit_eq_mod mod_minus_eq mod_mod_cancel zmod_int)
  moreover have "uint (w AND 3) = uint w mod 4" for w :: u64
    using take_bit_eq_mask [of 2 "uint w"] by (simp add: unsigned_and_eq take_bit_eq_mod mask_eq_exp_minus_1)
  ultimately show ?thesis by (metis compute_padding_def unat_eq_nat_uint)
qed

lemma padded: "(n + compute_padding n) mod 4 = 0"
proof -
  have "int (n + nat (- int n mod 4)) mod 4 = 0" by (simp add: mod_add_right_eq)
  then show ?thesis unfolding compute_padding_mod by presburger
qed

section \<open>Reading never panics\<close>

text \<open>A step of reading: it neither panics nor hangs, and if it succeeds the position is on a word again.\<close>

definition aligned :: "'h message \<Rightarrow> bool" where
  "aligned m \<longleftrightarrow> position m mod 4 = 0"

definition safe :: "('h, 'a) message_prog \<Rightarrow> bool" where
  "safe p \<longleftrightarrow> (\<forall>m. aligned m \<longrightarrow> (case p m of (Ok _, m') \<Rightarrow> aligned m' | (Err _, _) \<Rightarrow> True | _ \<Rightarrow> False))"

lemma safeD: "safe p \<Longrightarrow> aligned m \<Longrightarrow> p m = (r, m') \<Longrightarrow> r \<noteq> Panic \<and> r \<noteq> Diverge"
  unfolding safe_def by force

named_theorems safe_intros

lemma safe_bind [safe_intros]: "safe p \<Longrightarrow> (\<And>x. safe (f x)) \<Longrightarrow> safe (bindP p f)"
  unfolding safe_def bindP_def by (fastforce split: prod.splits outcome.splits)

lemma safe_return [safe_intros]: "safe (returnP x)" "safe (throwP e)" "safe (getP g)"
  by (simp_all add: safe_def)

lemma safe_word [safe_intros]: "safe (read_word ops)"
  by (auto simp: safe_def read_word_def read_exact_def bindP_def aligned_def mod_add_eq [symmetric])

text \<open>The reading of a slice, with its positions.\<close>

definition strip :: "bool \<Rightarrow> u8 list \<Rightarrow> io_error + u8 list" where
  "strip null_term vec =
     (if \<not> null_term then Inr vec else if vec = [] then Inl UnexpectedEof else if last vec \<noteq> 0 then Inl InvalidData else Inr (butlast vec))"

definition slice_rest :: "bool \<Rightarrow> nat \<Rightarrow> ('h, u8 list) message_prog" where
  "slice_rest null_term n m =
     (let p = position m; L = length (byte_buf m); pad = compute_padding (4 + n) in
      if L - p < n then (Err UnexpectedEof, m)
      else case strip null_term (take n (drop p (byte_buf m))) of
          Inl e \<Rightarrow> (Err e, m\<lparr>position := p + n\<rparr>)
        | Inr vec \<Rightarrow> if L - (p + n) < pad then (Err UnexpectedEof, m\<lparr>position := p + n\<rparr>)
            else (if (p + n + pad) mod 4 = 0 then Ok vec else Panic, m\<lparr>position := p + n + pad\<rparr>))"

lemma read_slice_eq:
  "(read_slice ops null_term :: ('h, u8 list) message_prog) = bindP (read_word ops) (\<lambda>len. if len = 0 then returnP [] else slice_rest null_term (unat len))"
proof
  fix m :: "'h message"
  show "read_slice ops null_term m = bindP (read_word ops) (\<lambda>len. if len = 0 then returnP [] else slice_rest null_term (unat len)) m"
  proof (cases "length (byte_buf m) - position m < 4")
    case True
    then show ?thesis by (simp add: read_slice_def read_word_def read_exact_def bindP_def)
  next
    case False
    define len where "len = get_32 ops (take 4 (drop (position m) (byte_buf m)))"
    have w: "read_word ops m = (Ok len, m\<lparr>position := position m + 4\<rparr>)"
      using False by (simp add: read_word_def read_exact_def bindP_def len_def)
    show ?thesis
      by (cases "len = 0"; cases null_term)
        (simp_all add: read_slice_def bindP_def w slice_rest_def strip_def Let_def read_exact_def assertP_def add.assoc)
  qed
qed

lemma safe_slice [safe_intros]: "safe (read_slice ops null_term :: ('h, u8 list) message_prog)"
proof -
  have "case slice_rest null_term n m of (Ok _, m') \<Rightarrow> aligned m' | (Err _, _) \<Rightarrow> True | _ \<Rightarrow> False" if "aligned m" for n and m :: "'h message"
  proof -
    have "(position m + n + compute_padding (4 + n)) mod 4 = 0"
      using that padded [of "4 + n"] unfolding aligned_def by presburger
    then show ?thesis by (simp add: slice_rest_def Let_def aligned_def split: sum.split)
  qed
  then have "safe (slice_rest null_term n :: ('h, u8 list) message_prog)" for n by (simp add: safe_def)
  then show ?thesis unfolding read_slice_eq by (intro safe_bind safe_word) (simp add: safe_return(1))
qed

lemma safe_handle [safe_intros]: "safe (read_arg ops KHandle)"
  by (auto simp: safe_def aligned_def split: list.splits)

lemma safe_arg [safe_intros]: "safe (read_arg ops k)"
  by (cases k) (simp_all only: read_arg.simps(1-7), (intro safe_intros)+)

lemma safe_args [safe_intros]: "safe (read_args ops ks)"
  by (induction ks) (simp_all only: read_args.simps, (intro safe_intros | assumption)+)

lemma safe_header [safe_intros]: "safe (read_message_header ops)"
  unfolding read_message_header_def by (intro safe_intros)

text \<open>
  C17. Reading the header and then arguments of any kinds from a message of any bytes and handles
  returns a result or an error: it never panics, whatever a client sends.
\<close>

theorem reading_never_panics:
  fixes handles :: "'h list"
  shows "\<exists>r m'. bindP (read_message_header ops) (\<lambda>h. bindP (read_args ops kinds) (\<lambda>args. returnP (h, args))) (from_parts bytes handles) = (r, m') \<and>
     ((\<exists>h args. r = Ok (h, args) \<and> map kind args = kinds) \<or> (\<exists>e. r = Err e))"
proof -
  have kinds: "map kind args = ks" if "read_args ops ks m = (Ok args, m')" for ks args and m m' :: "'h message"
    using that
  proof (induction ks arbitrary: args m)
    case (Cons k ks)
    then obtain a as m1 where "read_arg ops k m = (Ok a, m1)" "read_args ops ks m1 = (Ok as, m')" "args = a # as"
      by (auto elim!: bindP_eq_Ok)
    moreover from this(1) have "kind a = k"
      by (cases k) (auto elim!: bindP_eq_Ok split: list.splits)
    ultimately show ?case using Cons.IH by simp
  qed simp
  obtain r m' where run: "bindP (read_message_header ops) (\<lambda>h. bindP (read_args ops kinds) (\<lambda>args. returnP (h, args))) (from_parts bytes handles) = (r, m')"
    by force
  have s: "safe (bindP (read_message_header ops) (\<lambda>h. bindP (read_args ops kinds) (\<lambda>args. returnP (h, args))))"
    by (intro safe_intros)
  have r: "r \<noteq> Panic" "r \<noteq> Diverge"
    using safeD [where m = "from_parts bytes handles", OF s _ run] by (simp_all add: from_parts_def aligned_def)
  show ?thesis
  proof (cases r)
    case (Ok x)
    then obtain h args m1 where "read_args ops kinds m1 = (Ok args, m')" "x = (h, args)"
      using run by (auto elim!: bindP_eq_Ok)
    then show ?thesis using run Ok kinds by blast
  qed (use r run in auto)
qed

section \<open>Round trips\<close>

text \<open>The laws of the word encodings, and the bytes of an argument.\<close>

locale native_words =
  fixes ops :: word_ops
  assumes put_length: "length (put_32 ops w) = 4"
    and get_put: "get_32 ops (put_32 ops w) = w"
    and uint_length: "n \<le> 8 \<Longrightarrow> length (put_uint ops v n) = n"

definition slice_bytes :: "word_ops \<Rightarrow> u8 list \<Rightarrow> u8 list" where
  "slice_bytes ops bs = put_32 ops (of_nat (length bs)) @ bs @
     (let pad = compute_padding (4 + length bs) in if pad > 0 then put_uint ops 0 pad else [])"

fun arg_bytes :: "word_ops \<Rightarrow> 'h arg \<Rightarrow> u8 list" where
  "arg_bytes ops (ArgInt i) = put_32 ops i"
| "arg_bytes ops (ArgUint i) = put_32 ops i"
| "arg_bytes ops (ArgFixed i) = put_32 ops i"
| "arg_bytes ops (ArgObject i) = put_32 ops i"
| "arg_bytes ops (ArgNewId i) = put_32 ops i"
| "arg_bytes ops (ArgString s) = slice_bytes ops (s @ [0])"
| "arg_bytes ops (ArgArray a) = slice_bytes ops (byte_buf a)"
| "arg_bytes ops (ArgHandle h) = []"

fun arg_handles :: "'h arg \<Rightarrow> 'h list" where
  "arg_handles (ArgHandle h) = [h]"
| "arg_handles _ = []"

text \<open>Strings are UTF-8, and the lengths of strings and arrays fit in a word.\<close>

fun arg_ok :: "'h arg \<Rightarrow> bool" where
  "arg_ok (ArgString s) \<longleftrightarrow> utf8_valid s \<and> length s + 1 < 2 ^ 32"
| "arg_ok (ArgArray a) \<longleftrightarrow> length (byte_buf a) < 2 ^ 32"
| "arg_ok _ \<longleftrightarrow> True"

text \<open>An array is received with its cursor at the start and without handles.\<close>

fun received :: "'h arg \<Rightarrow> 'h arg" where
  "received (ArgArray a) = ArgArray (from_parts (byte_buf a) [])"
| "received a = a"

lemma padding_small: "compute_padding n < 4"
  unfolding compute_padding_mod by (simp add: nat_less_iff)

lemma write_bytes_end:
  "position m = length (byte_buf m) \<Longrightarrow>
   write_bytes bs m = (Ok (), m\<lparr>byte_buf := byte_buf m @ bs, position := length (byte_buf m @ bs)\<rparr>)"
  by (simp add: write_bytes_def)

lemma read_exact_front:
  "drop (position m) (byte_buf m) = bs @ rest \<Longrightarrow> read_exact (length bs) m = (Ok bs, m\<lparr>position := position m + length bs\<rparr>)"
proof -
  assume d: "drop (position m) (byte_buf m) = bs @ rest"
  then have "length (byte_buf m) - position m = length bs + length rest" by (metis length_append length_drop)
  then show ?thesis using d by (simp add: read_exact_def)
qed

context native_words
begin

lemma write_word_end:
  "position m = length (byte_buf m) \<Longrightarrow>
   write_word ops w m = (Ok (), m\<lparr>byte_buf := byte_buf m @ put_32 ops w, position := length (byte_buf m @ put_32 ops w)\<rparr>)"
  by (simp add: write_word_def write_bytes_end)

lemma read_word_front:
  "drop (position m) (byte_buf m) = put_32 ops w @ rest \<Longrightarrow> read_word ops m = (Ok w, m\<lparr>position := position m + 4\<rparr>)"
  using read_exact_front [of m "put_32 ops w" rest] by (simp add: read_word_def bindP_step put_length get_put)

lemma slice_bytes_length: "length (slice_bytes ops bs) = 4 + length bs + compute_padding (4 + length bs)"
  using padding_small [of "4 + length bs"] by (simp add: slice_bytes_def put_length uint_length Let_def)

lemma slice_bytes_aligned: "length (slice_bytes ops bs) mod 4 = 0"
  unfolding slice_bytes_length by (rule padded)

lemma write_slice_end:
  assumes "position m = length (byte_buf m)" and "length (byte_buf m) mod 4 = 0"
    and "length (s @ (if null_term then [0] else [])) < 2 ^ 32"
  defines "bs \<equiv> s @ (if null_term then [0] else [])"
  shows "write_slice ops s null_term m =
    (Ok (), m\<lparr>byte_buf := byte_buf m @ slice_bytes ops bs, position := length (byte_buf m @ slice_bytes ops bs)\<rparr>)"
proof -
  define W where "W x = m\<lparr>byte_buf := byte_buf m @ x, position := length (byte_buf m @ x)\<rparr>" for x
  have more: "write_bytes y (W x) = (Ok (), W (x @ y))" for x y by (simp add: W_def write_bytes_end)
  have pos: "position (W x) - length (byte_buf m) = length x" "position (W x) = length (byte_buf m) + length x" for x
    by (simp_all add: W_def)
  define p where "p = put_32 ops (of_nat (length bs))"
  have first: "write_word ops (of_nat (length bs)) m = (Ok (), W p)" using assms(1) by (simp add: W_def p_def write_word_end)
  have len: "(if null_term then checked_add (2 ^ 32) (unat (of_nat (length s) :: u32)) 1 else Ok (unat (of_nat (length s) :: u32))) = Ok (length bs)"
    using assms(3) by (simp add: bs_def unat_of_nat checked_add_def split: if_splits)
  have nul: "(if null_term then write_bytes [0] else returnP ()) (W (p @ s)) = (Ok (), W (p @ bs))" by (simp add: more bs_def)
  define pad where "pad = compute_padding (4 + length bs)"
  have padlen: "length (p @ bs) = 4 + length bs" by (simp add: p_def put_length)
  have last': "(if pad > 0 then write_bytes (put_uint ops 0 pad) else returnP ()) (W (p @ bs)) = (Ok (), W (slice_bytes ops bs))"
    by (simp add: more slice_bytes_def p_def pad_def Let_def)
  have "position (W (slice_bytes ops bs)) mod 4 = 0"
    unfolding pos using assms(2) slice_bytes_aligned [of bs] by presburger
  then have "assertP (\<lambda>m. position m mod 4 = 0) (W (slice_bytes ops bs)) = (Ok (), W (slice_bytes ops bs))" by (simp add: assertP_def)
  then have "write_slice ops s null_term m = (Ok (), W (slice_bytes ops bs))"
    by (simp only: write_slice_def bindP_def simple_progs assms(1) len first more nul pos(1) padlen pad_def [symmetric] last' prod.case outcome.case)
  then show ?thesis by (simp add: W_def)
qed

lemma arg_bytes_aligned: "length (arg_bytes ops a) mod 4 = 0"
  by (cases a) (simp_all add: put_length slice_bytes_aligned)

lemma write_arg_end:
  assumes "position m = length (byte_buf m)" and "length (byte_buf m) mod 4 = 0" and "arg_ok a"
  shows "write_arg ops a m = (Ok (), m\<lparr>byte_buf := byte_buf m @ arg_bytes ops a, position := length (byte_buf m @ arg_bytes ops a),
    handle_buf := handle_buf m @ arg_handles a\<rparr>)"
proof (cases a)
  case (ArgString s)
  then show ?thesis using assms write_slice_end [of m s True] by simp
next
  case (ArgArray x)
  then show ?thesis using assms write_slice_end [of m "byte_buf x" False] by simp
qed (use assms(1) in \<open>simp_all add: write_word_end\<close>)

lemma write_args_end:
  "position m = length (byte_buf m) \<Longrightarrow> length (byte_buf m) mod 4 = 0 \<Longrightarrow> \<forall>a \<in> set args. arg_ok a \<Longrightarrow>
   write_args ops args m = (Ok (), m\<lparr>byte_buf := byte_buf m @ concat (map (arg_bytes ops) args),
     position := length (byte_buf m @ concat (map (arg_bytes ops) args)), handle_buf := handle_buf m @ concat (map arg_handles args)\<rparr>)"
proof (induction args arbitrary: m)
  case (Cons a args)
  have "(length (byte_buf m) + length (arg_bytes ops a)) mod 4 = 0"
    using Cons.prems(2) arg_bytes_aligned [of a] by presburger
  then show ?case
    using Cons.prems write_arg_end [OF Cons.prems(1,2), of a] by (simp add: bindP_step Cons.IH)
qed simp

lemma read_slice_front:
  assumes d: "drop (position m) (byte_buf m) = slice_bytes ops bs @ rest" and al: "position m mod 4 = 0"
    and len: "length bs < 2 ^ 32" and nul: "strip null_term bs = Inr vec" and ne: "null_term \<longrightarrow> bs \<noteq> []"
  shows "read_slice ops null_term m = (Ok vec, m\<lparr>position := position m + length (slice_bytes ops bs)\<rparr>)"
proof -
  define n where "n = (of_nat (length bs) :: u32)"
  have n: "unat n = length bs" using len by (simp add: n_def unat_of_nat)
  define pad where "pad = (let pad = compute_padding (4 + length bs) in if pad > 0 then put_uint ops 0 pad else [])"
  have sb: "slice_bytes ops bs = put_32 ops n @ bs @ pad" by (simp add: slice_bytes_def n_def pad_def)
  have plen: "length pad = compute_padding (4 + length bs)"
    using slice_bytes_length [of bs] by (simp add: sb put_length)
  define m1 where "m1 = m\<lparr>position := position m + 4\<rparr>"
  have w: "read_word ops m = (Ok n, m1)" using read_word_front [of m n "bs @ pad @ rest"] d by (simp add: sb m1_def)
  have d1: "drop (position m1) (byte_buf m1) = bs @ pad @ rest"
    using arg_cong [OF d, of "drop 4"] by (simp add: m1_def sb put_length add.commute)
  have l1: "length (byte_buf m1) - position m1 = length bs + length pad + length rest"
    using arg_cong [OF d1, of length] by simp
  have e: "(position m1 + length bs + compute_padding (4 + length bs)) mod 4 = 0"
    using al padded [of "4 + length bs"] by (simp add: m1_def) presburger
  show ?thesis
  proof (cases "n = 0")
    case True
    then have b: "bs = []" using n by simp
    then have "vec = []" "compute_padding (4 + length bs) = 0" using nul ne by (simp_all add: strip_def compute_padding_mod split: if_splits)
    then show ?thesis using w True b by (simp add: read_slice_eq bindP_step m1_def slice_bytes_length)
  next
    case False
    have "slice_rest null_term (length bs) m1 = (Ok vec, m1\<lparr>position := position m1 + length bs + compute_padding (4 + length bs)\<rparr>)"
      using l1 e nul plen by (simp add: slice_rest_def Let_def d1)
    then show ?thesis using w False by (simp add: read_slice_eq bindP_step n m1_def slice_bytes_length add.assoc)
  qed
qed

lemma read_arg_front:
  assumes d: "drop (position m) (byte_buf m) = arg_bytes ops a @ rest" and h: "handle_buf m = arg_handles a @ hs"
    and al: "position m mod 4 = 0" and ok: "arg_ok a"
  shows "read_arg ops (kind a) m = (Ok (received a), m\<lparr>position := position m + length (arg_bytes ops a), handle_buf := hs\<rparr>)"
proof (cases a)
  case (ArgString s)
  have "read_slice ops True m = (Ok s, m\<lparr>position := position m + length (slice_bytes ops (s @ [0]))\<rparr>)"
    using d al ok by (intro read_slice_front [of m "s @ [0]" rest]) (simp_all add: ArgString strip_def)
  then show ?thesis using h ok by (simp add: ArgString bindP_step utf8_lossy_valid)
next
  case (ArgArray x)
  have "read_slice ops False m = (Ok (byte_buf x), m\<lparr>position := position m + length (slice_bytes ops (byte_buf x))\<rparr>)"
    using d al ok by (intro read_slice_front [of m "byte_buf x" rest]) (simp_all add: ArgArray strip_def)
  then show ?thesis using h by (simp add: ArgArray bindP_step)
qed (use d h in \<open>simp_all add: bindP_step read_word_front put_length\<close>)

lemma read_args_front:
  "drop (position m) (byte_buf m) = concat (map (arg_bytes ops) args) @ rest \<Longrightarrow> handle_buf m = concat (map arg_handles args) @ hs \<Longrightarrow>
   position m mod 4 = 0 \<Longrightarrow> \<forall>a \<in> set args. arg_ok a \<Longrightarrow>
   read_args ops (map kind args) m = (Ok (map received args),
     m\<lparr>position := position m + length (concat (map (arg_bytes ops) args)), handle_buf := hs\<rparr>)"
proof (induction args arbitrary: m)
  case (Cons a args)
  define m1 where "m1 = m\<lparr>position := position m + length (arg_bytes ops a), handle_buf := concat (map arg_handles args) @ hs\<rparr>"
  have 1: "read_arg ops (kind a) m = (Ok (received a), m1)"
    unfolding m1_def using Cons.prems by (intro read_arg_front [of _ _ "concat (map (arg_bytes ops) args) @ rest"]) simp_all
  have "drop (length (arg_bytes ops a)) (drop (position m) (byte_buf m)) = concat (map (arg_bytes ops) args) @ rest"
    unfolding Cons.prems(1) by simp
  then have "drop (position m1) (byte_buf m1) = concat (map (arg_bytes ops) args) @ rest" by (simp add: m1_def add.commute)
  moreover have "position m1 mod 4 = 0" using Cons.prems(3) arg_bytes_aligned [of a] by (simp add: m1_def) presburger
  ultimately show ?case
    using Cons.IH [of m1] Cons.prems(4) 1 by (simp add: bindP_step m1_def add.assoc)
qed simp

definition header_bytes :: "message_header \<Rightarrow> u8 list" where
  "header_bytes h = put_32 ops (sender h) @ put_32 ops (push_bit 16 (ucast (header_length h)) OR ucast (opcode h))"

lemma header_word:
  fixes l p :: "16 word"
  shows "ucast (push_bit 16 (ucast l) OR ucast p :: u32) = p" and "ucast (drop_bit 16 (push_bit 16 (ucast l) OR ucast p :: u32)) = l"
  by (rule bit_word_eqI; auto simp: bit_simps dest: bit_imp_le_length)+

lemma write_header_end:
  "position m = length (byte_buf m) \<Longrightarrow> write_message_header ops h m =
     (Ok (), m\<lparr>byte_buf := byte_buf m @ header_bytes h, position := length (byte_buf m @ header_bytes h)\<rparr>)"
  by (simp add: write_message_header_def bindP_step write_word_end header_bytes_def)

lemma read_header_front:
  assumes "drop (position m) (byte_buf m) = header_bytes h @ rest"
  shows "read_message_header ops m = (Ok h, m\<lparr>position := position m + 8\<rparr>)"
proof -
  define w where "w = (push_bit 16 (ucast (header_length h)) OR ucast (opcode h) :: u32)"
  have 1: "read_word ops m = (Ok (sender h), m\<lparr>position := position m + 4\<rparr>)"
    using read_word_front [of m "sender h" "put_32 ops w @ rest"] assms by (simp add: header_bytes_def w_def)
  have "drop (position m + 4) (byte_buf m) = put_32 ops w @ rest"
    using arg_cong [OF assms, of "drop 4"] by (simp add: header_bytes_def w_def put_length add.commute)
  then have 2: "read_word ops (m\<lparr>position := position m + 4\<rparr>) = (Ok w, m\<lparr>position := position m + 8\<rparr>)"
    using read_word_front [of "m\<lparr>position := position m + 4\<rparr>" w rest] by simp
  have "ucast w = opcode h" "ucast (drop_bit 16 w) = header_length h" unfolding w_def by (rule header_word)+
  then show ?thesis using 1 2 by (simp add: read_message_header_def bindP_step)
qed

end

definition send_message :: "word_ops \<Rightarrow> message_header \<Rightarrow> 'h arg list \<Rightarrow> ('h, unit) message_prog" where
  "send_message ops h args = bindP (write_message_header ops h) (\<lambda>_. write_args ops args)"

definition receive_message :: "word_ops \<Rightarrow> arg_kind list \<Rightarrow> ('h, message_header \<times> 'h arg list) message_prog" where
  "receive_message ops kinds = bindP (read_message_header ops) (\<lambda>h. bindP (read_args ops kinds) (\<lambda>args. returnP (h, args)))"

text \<open>
  C16. A message survives its way over a channel: a header and any arguments, with UTF-8 strings and
  lengths that fit in a word, are written to a new message; a message made of its bytes and handles
  gives back the same header and, asked for the kinds of the arguments, the same arguments in order,
  and nothing is left. Arrays arrive with their bytes and the cursor at the start.
\<close>

theorem message_round_trip:
  assumes words: "native_words ops" and ok: "\<forall>a \<in> set args. arg_ok a"
  shows "\<exists>m m'. send_message ops h args message_new = (Ok (), m) \<and>
    receive_message ops (map kind args) (from_parts (fst (message_take m)) (snd (message_take m))) = (Ok (h, map received args), m') \<and>
    message_is_empty m'"
proof -
  define hb where "hb = native_words.header_bytes ops h"
  define bs where "bs = concat (map (arg_bytes ops) args)"
  define hs where "hs = concat (map arg_handles args)"
  define m where "m = \<lparr>byte_buf = hb @ bs, position = length (hb @ bs), handle_buf = hs\<rparr>"
  have len: "length hb = 8" using native_words.put_length [OF words] by (simp add: hb_def native_words.header_bytes_def [OF words])
  define m0 where "m0 = \<lparr>byte_buf = hb, position = 8, handle_buf = [] :: 'a list\<rparr>"
  have "write_message_header ops h message_new = (Ok (), m0)"
    using native_words.write_header_end [OF words, of message_new h] len by (simp add: message_new_def hb_def [symmetric] m0_def)
  moreover have "write_args ops args m0 = (Ok (), m)"
    using native_words.write_args_end [OF words, of m0 args] ok len by (simp add: m0_def m_def bs_def hs_def)
  ultimately have send: "send_message ops h args message_new = (Ok (), m)" by (simp add: send_message_def bindP_step)
  have 1: "read_message_header ops (from_parts (hb @ bs) hs) = (Ok h, (from_parts (hb @ bs) hs)\<lparr>position := 8\<rparr>)"
    using native_words.read_header_front [OF words, of "from_parts (hb @ bs) hs" h bs] by (simp add: from_parts_def hb_def)
  have 2: "read_args ops (map kind args) ((from_parts (hb @ bs) hs)\<lparr>position := 8\<rparr>) =
      (Ok (map received args), \<lparr>byte_buf = hb @ bs, position = length (hb @ bs), handle_buf = []\<rparr>)"
    using native_words.read_args_front [OF words, of "(from_parts (hb @ bs) hs)\<lparr>position := 8\<rparr>" args "[]" "[]"] ok len
    by (simp add: from_parts_def bs_def [symmetric] hs_def [symmetric])
  show ?thesis
    using send 1 2 by (simp add: receive_message_def bindP_step message_take_def m_def message_is_empty_def)
qed

definition le_words :: word_ops where
  "le_words = \<lparr>put_32 = to_le 4, get_32 = from_le, put_uint = (\<lambda>v n. to_le n v)\<rparr>"

interpretation le_words: native_words le_words
proof
  fix w :: u32
  show "get_32 le_words (put_32 le_words w) = w"
    using from_le_to_le_take [of 4 w] by (simp add: le_words_def take_bit_word_eq_self)
qed (simp_all add: le_words_def)

theorem message_round_trip_witness:
  "\<exists>m m'. send_message le_words \<lparr>sender = 1, opcode = 2, header_length = 24\<rparr> [ArgUint 7, ArgString [0x61], ArgHandle True] message_new = (Ok (), m) \<and>
     receive_message le_words [KUint, KString, KHandle] (from_parts (fst (message_take m)) (snd (message_take m))) =
       (Ok (\<lparr>sender = 1, opcode = 2, header_length = 24\<rparr>, [ArgUint 7, ArgString [0x61], ArgHandle True]), m') \<and> message_is_empty m'"
  using message_round_trip [OF le_words.native_words_axioms, of "[ArgUint 7, ArgString [0x61], ArgHandle True]"] by simp

text \<open>
  C28. An unsigned integer pushed to an array that was made from a vector of at least four bytes is
  not written to its end: it replaces the first four bytes of the vector, since the cursor of such an
  array is at the start.
\<close>

theorem array_push_replaces_front:
  assumes words: "native_words ops" and "4 \<le> length v"
  shows "\<exists>a. array_push ops (ArgUint x) (array_from_vec v) = (Ok (), a) \<and> byte_buf a = put_32 ops x @ drop 4 v"
  using assms(2) native_words.put_length [OF words]
  by (simp add: array_push_def array_from_vec_def from_parts_def write_word_def write_bytes_def)

theorem array_push_replaces_front_witness:
  "\<exists>a. array_push le_words (ArgUint 9) (array_from_vec [1, 2, 3, 4, 5]) = (Ok (), a) \<and> byte_buf a = [9, 0, 0, 0, 5]"
proof -
  have "put_32 le_words 9 = [9, 0, 0, 0]" by code_simp
  then show ?thesis
    using array_push_replaces_front [OF le_words.native_words_axioms, of "[1, 2, 3, 4, 5]" 9] by simp
qed

end
