(* ===== verification/Spec2Isabelle.thy ===== *)
theory Spec2Isabelle
  imports Garnet_Prelude Shared_Buffer Inspect_Format Inspect_Block Inspect_Heap Buddy_Tiling
    Inspect_Heap_Correct Inspect_Block_Correct Ordered_Map Inspect_State Inspect_State_Correct Inspect_Reader
    Inspect_State_Values Inspect_State_Lifecycle Char_Collection Char_Collection_Correct Far_Archive Far_Archive_Correct
    Cm_Fidl Cm_Fidl_Validator Cm_Validator_Correct Cm_Rust Cm_Rust_Correct Merkle Merkle_Correct Inspect_Reader_Correct Inspect_Reader_Tree
    Stash Stash_Correct Stash_Service Stash_System Wayland_Message Wayland_Correct
begin

text \<open>
  A verification development for the Rust code of garnet, the layer of the Fuchsia platform with its
  system services and libraries. Paths are below \<^verbatim>\<open>src/\<close>.

  \<^bold>\<open>How programs are modelled.\<close> \<^verbatim>\<open>Garnet_Prelude\<close> has the shared notions. A call ends in an outcome: a
  value, an error, a panic, or not at all (\<^const>\<open>Diverge\<close>). A method that mutates is a program from a
  state to an outcome and a state, so that mutations before an early return stay. Unwraps, failed
  assertions, overflow checks and slices out of range are panics. A loop is an instance of
  \<^const>\<open>loopP\<close>, a partial function, so that no fuel is chosen anywhere: that a loop ends is proved with
  \<^verbatim>\<open>loopP_total\<close> or by computing its iterations. Machine words are words where bits or overflow
  matter. Code that is not below \<^verbatim>\<open>src/\<close> is a parameter with its documented behaviour as the
  assumptions of a locale, and each such locale is interpreted on a concrete instance.

  \<^bold>\<open>Inspect\<close> (\<^verbatim>\<open>public/rust/fuchsia-inspect/src\<close>) publishes a tree of nodes and values in a shared VMO.
    \<^item> \<^verbatim>\<open>Shared_Buffer\<close> models \<^verbatim>\<open>public/rust/shared-buffer\<close>: reads and writes at addresses are bounded
      reads and writes of a byte list, and a split gives disjoint halves. The other components use
      the view of a byte list, \<open>buffer_read_at\<close> and \<open>buffer_write_at\<close>.
    \<^item> \<^verbatim>\<open>Inspect_Format\<close> (\<^verbatim>\<open>constants.rs\<close>, \<^verbatim>\<open>utils.rs\<close>, \<^verbatim>\<open>bitfields.rs\<close>, \<^verbatim>\<open>block_type.rs\<close>) and \<^verbatim>\<open>Inspect_Block\<close>
      (\<^verbatim>\<open>block.rs\<close>) model the words of a block and every method of \<^verbatim>\<open>Block\<close>. \<^verbatim>\<open>Inspect_Block_Correct\<close> shows
      that what is written is read back, and where names and array slots go wrong.
    \<^item> \<^verbatim>\<open>Inspect_Heap\<close> (\<^verbatim>\<open>heap.rs\<close>) is the buddy allocator. \<^verbatim>\<open>Buddy_Tiling\<close> has the arithmetic of buddies,
      and \<^verbatim>\<open>Inspect_Heap_Correct\<close> the invariant, that allocating and freeing keep it and do what they
      say, and that no run of them panics.
    \<^item> \<^verbatim>\<open>Inspect_State\<close> (\<^verbatim>\<open>state.rs\<close>) creates, changes and frees values under the header lock.
      \<^verbatim>\<open>Inspect_State_Correct\<close>, \<^verbatim>\<open>Inspect_State_Values\<close> and \<^verbatim>\<open>Inspect_State_Lifecycle\<close> prove this for nodes
      and metrics, and that a refused parent leaves everything as it was, over the interface \<^verbatim>\<open>block_allocator\<close> of the heap. Properties with extents and
      arrays are modelled; their life cycle is not among the theorems.
    \<^item> \<^verbatim>\<open>Inspect_Reader\<close> (\<^verbatim>\<open>reader/mod.rs\<close>, \<^verbatim>\<open>reader/snapshot.rs\<close>) takes snapshots and builds the
      hierarchy, with the maps of \<^verbatim>\<open>Ordered_Map\<close>. \<^verbatim>\<open>Inspect_Reader_Correct\<close> shows which
      snapshots are accepted, that the check covers their first sixteen bytes only, and that reading
      ends on any bytes; \<^verbatim>\<open>Inspect_Reader_Tree\<close> that the hierarchy is the tree of the nodes where they
      form one, and when the entry made for a deleted node takes the place of the root. A snapshot is
      tried 1024 times, as in the code.

  \<^bold>\<open>Stash\<close> (\<^verbatim>\<open>bin/stash/src\<close>) stores values for clients. \<^verbatim>\<open>Stash\<close> models \<^verbatim>\<open>store.rs\<close>, \<^verbatim>\<open>accessor.rs\<close>,
  \<^verbatim>\<open>instance.rs\<close> and \<^verbatim>\<open>main.rs\<close> over the VMOs of the kernel, the file system and \<^verbatim>\<open>byteorder\<close>. A hash
  map is an association list, whose order stands for the order of iteration; the theorems are
  about the maps, but an update keeps the place of a key, where a hash map might move it.
  \<^verbatim>\<open>Stash_Correct\<close> relates the file to the contents and shows what a run of updates does;
  \<^verbatim>\<open>Stash_Service\<close> that an accessor is a private copy of a map, that a commit is applied, or undone
  when it fails and the undoing succeeds, that it survives a restart, and how a file that lost its
  end is read; \<^verbatim>\<open>Stash_System\<close> that clients
  are isolated and that secure mode stores no bytes, over every run of the service. Strings and
  buffers are bounded by the \<open>2 ^ 63\<close> bytes of a vector, maps by \<open>2 ^ 64\<close> entries.

  \<^bold>\<open>Wayland messages\<close> (\<^verbatim>\<open>bin/wayland/core/src/message.rs\<close>): \<^verbatim>\<open>Wayland_Message\<close> models arguments, messages
  and arrays; \<^verbatim>\<open>Wayland_Correct\<close> shows the round trip of a message, for strings and arrays whose length
  fits in 32 bits, and that reading bytes of a client never panics up to its first error.

  \<^bold>\<open>Component declarations.\<close> \<^verbatim>\<open>Cm_Fidl\<close> has the types of the bindings. \<^verbatim>\<open>Cm_Fidl_Validator\<close>
  (\<^verbatim>\<open>lib/rust/cm_fidl_validator\<close>) checks declarations, and \<^verbatim>\<open>Cm_Validator_Correct\<close> characterises what it
  accepts. \<^verbatim>\<open>Cm_Rust\<close> (\<^verbatim>\<open>lib/rust/cm_rust\<close>) converts what was validated; \<^verbatim>\<open>Cm_Rust_Correct\<close> shows that this
  never panics and that both conversions are inverse to each other. So the validator provides what
  the unwraps of the conversion rely on.

  \<^bold>\<open>Libraries.\<close> \<^verbatim>\<open>Char_Collection\<close> (\<^verbatim>\<open>lib/rust/intl/unicode_utils/char_collection\<close>) keeps sets of characters as
  ranges, and \<^verbatim>\<open>Char_Collection_Correct\<close> shows that every operation
  and operator is that of sets, and that their laws hold as equalities of the ranges.
  \<^verbatim>\<open>Far_Archive\<close> (\<^verbatim>\<open>public/rust/fuchsia-archive\<close>) writes and reads archives, with the round trip and the
  error paths in \<^verbatim>\<open>Far_Archive_Correct\<close>. \<^verbatim>\<open>Merkle\<close> (\<^verbatim>\<open>public/rust/fuchsia-merkle\<close>) builds hash trees over
  SHA-256 as a parameter, and \<^verbatim>\<open>Merkle_Correct\<close> shows that the incremental builder computes the
  reference tree, that the root binds the data, and that reading from a reader returns.

  \<^bold>\<open>Not modelled.\<close> In the parts above: memory fences and reference counts; the typed wrappers of
  the shared buffer; the parsing and printing of hashes, which is the crate \<^verbatim>\<open>hex\<close>; fixed point
  numbers as floating point numbers; starting executors and publishing services. Concurrency is
  modelled only where the code handles it, as a memory that changes between the reads of a snapshot
  and as requests in any order. Failing allocations are not modelled.
  Other parts of the repository are left out. Bindings of the kernel, of C libraries and of
  BoringSSL, the executor, user interfaces, command line tools and examples have no behaviour of
  their own that can be stated without the systems they call. The pseudo file systems, the FIDL
  encoders and clients, packet buffers, the Omaha client, package tools, network tools and the
  other services do have such behaviour; they rest on generated code, macros, asynchronous streams
  and third-party parsers, and this development does not cover them so far.
\<close>

end
